(* ===== verification/Prelude.thy ===== *)
theory Prelude
  imports Main "HOL-Library.Word"
begin

text \<open>
  Shared vocabulary of the development: machine integer types, the status codes of the code
  base, C++ vectors and raw memory blocks as lists, and the part of the C character library
  (\<^verbatim>\<open><ctype.h>\<close>, C locale) that the sources use.  A block access outside its bounds is
  undefined behaviour in the source; every operation that touches memory returns \<^term>\<open>None\<close>
  in that case, so a theorem that it returns \<^term>\<open>Some\<close> is a memory-safety statement.
\<close>

section \<open>Machine integers and status codes\<close>

type_synonym u8 = "8 word"
type_synonym u16 = "16 word"
type_synonym u32 = "32 word"
type_synonym u64 = "64 word"
type_synonym size_t = "64 word"

text \<open>\<^verbatim>\<open>enum class Status { OK, FAILED }\<close>, the result code of every fallible operation.\<close>

datatype status = OK | FAILED

named_theorems buffer_simps \<open>unfolding rules of the byte buffer operations\<close>
named_theorems cstring_simps \<open>facts about C strings and characters\<close>

section \<open>Words as naturals\<close>

lemma unat_add_no_overflow:
  fixes a b :: "'a::len word"
  assumes "unat a + unat b < 2 ^ LENGTH('a)"
  shows "unat (a + b) = unat a + unat b"
  using assms by (simp add: unat_word_ariths)

lemma unat_sub_le:
  fixes a b :: "'a::len word"
  assumes "unat b \<le> unat a"
  shows "unat (a - b) = unat a - unat b"
  using assms by (simp add: unat_sub word_le_nat_alt)

lemma unat_of_nat_small:
  assumes "n < 2 ^ LENGTH('a::len)"
  shows "unat (of_nat n :: 'a word) = n"
  using assms by (simp add: unat_of_nat)

lemma unat_bound: "unat (w :: 'a::len word) < 2 ^ LENGTH('a)"
  by (rule unsigned_less)

lemma unat_eq_zero_iff: "unat w = 0 \<longleftrightarrow> w = 0"
  by (simp add: unat_eq_0)

lemma sint_of_nat_small:
  assumes "n < 2 ^ 31"
  shows "sint (of_nat n :: 32 word) = int n"
proof -
  from assms have "int n < 2 ^ 31" by simp
  then show ?thesis by (simp add: signed_of_nat signed_take_bit_int_eq_self)
qed

section \<open>Vectors and memory blocks\<close>

text \<open>\<^verbatim>\<open>std::vector::resize(n)\<close>: truncates, or appends value-initialised elements.\<close>

definition vec_resize :: "nat \<Rightarrow> 'a \<Rightarrow> 'a list \<Rightarrow> 'a list" where
  "vec_resize n z xs = take n xs @ replicate (n - length xs) z"

lemma length_vec_resize [simp]: "length (vec_resize n z xs) = n"
  by (simp add: vec_resize_def)

lemma take_vec_resize:
  assumes "k \<le> n" and "k \<le> length xs"
  shows "take k (vec_resize n z xs) = take k xs"
  using assms by (simp add: vec_resize_def)

lemma drop_take_vec_resize:
  assumes "k \<le> n" and "k \<le> length xs"
  shows "drop r (take k (vec_resize n z xs)) = drop r (take k xs)"
  using assms by (simp add: take_vec_resize)

text \<open>
  \<^verbatim>\<open>memcpy\<close> of the bytes \<open>bs\<close> to offset \<open>d\<close> of a block, and \<^verbatim>\<open>memmove\<close> of
  \<open>n\<close> bytes inside a block from offset \<open>s\<close> to offset \<open>d\<close>.
\<close>

definition blit :: "nat \<Rightarrow> 'a list \<Rightarrow> 'a list \<Rightarrow> 'a list option" where
  "blit d bs xs =
     (if d + length bs \<le> length xs then Some (take d xs @ bs @ drop (d + length bs) xs) else None)"

definition move_block :: "nat \<Rightarrow> nat \<Rightarrow> nat \<Rightarrow> 'a list \<Rightarrow> 'a list option" where
  "move_block d s n xs =
     (if s + n \<le> length xs then blit d (take n (drop s xs)) xs else None)"

lemma blit_SomeD:
  assumes "blit d bs xs = Some ys"
  shows "length ys = length xs" and "take d ys = take d xs"
    and "take (length bs) (drop d ys) = bs"
    and "take (d + length bs) ys = take d xs @ bs"
    and "drop (d + length bs) ys = drop (d + length bs) xs"
  using assms by (auto simp: blit_def split: if_splits)

lemma blit_total: "d + length bs \<le> length xs \<Longrightarrow> \<exists>ys. blit d bs xs = Some ys"
  by (simp add: blit_def)

lemma move_block_front:
  assumes "s + n \<le> length xs"
  shows "\<exists>ys. move_block 0 s n xs = Some ys \<and> length ys = length xs \<and> take n ys = take n (drop s xs)"
  using assms by (auto simp: move_block_def blit_def)

section \<open>The C character library\<close>

abbreviation NUL :: char where "NUL \<equiv> CHR 0x00"

abbreviation ord :: "char \<Rightarrow> nat" where "ord \<equiv> of_char"

definition isspace :: "char \<Rightarrow> bool" where
  "isspace c \<longleftrightarrow> ord c = 32 \<or> (9 \<le> ord c \<and> ord c \<le> 13)"

definition isdigit :: "char \<Rightarrow> bool" where
  "isdigit c \<longleftrightarrow> 48 \<le> ord c \<and> ord c \<le> 57"

definition isupper :: "char \<Rightarrow> bool" where
  "isupper c \<longleftrightarrow> 65 \<le> ord c \<and> ord c \<le> 90"

definition islower :: "char \<Rightarrow> bool" where
  "islower c \<longleftrightarrow> 97 \<le> ord c \<and> ord c \<le> 122"

definition isalpha :: "char \<Rightarrow> bool" where
  "isalpha c \<longleftrightarrow> isupper c \<or> islower c"

definition tolower :: "char \<Rightarrow> char" where
  "tolower c = (if isupper c then char_of (ord c + 32) else c)"

definition toupper :: "char \<Rightarrow> char" where
  "toupper c = (if islower c then char_of (ord c - 32) else c)"

definition lower_string :: "string \<Rightarrow> string" where
  "lower_string s = map tolower s"

lemma ord_less_256 [simp]: "ord c < 256"
  by (metis of_char_mod_256 mod_less_divisor zero_less_numeral)

lemma ord_char_of_small: "n < 256 \<Longrightarrow> ord (char_of n) = n"
  by (simp add: of_char_of)

lemma tolower_idem [simp]: "tolower (tolower c) = tolower c"
  by (auto simp: tolower_def isupper_def ord_char_of_small)

lemma lower_string_idem [simp]: "lower_string (lower_string s) = lower_string s"
  by (simp add: lower_string_def)

lemma lower_string_append [simp]: "lower_string (s @ t) = lower_string s @ lower_string t"
  by (simp add: lower_string_def)

lemma isspace_not_NUL [cstring_simps]: "isspace c \<Longrightarrow> c \<noteq> NUL"
  by (auto simp: isspace_def)

text \<open>The C string held by a buffer: its characters up to the first terminator.\<close>

definition c_str :: "string \<Rightarrow> string" where
  "c_str s = takeWhile (\<lambda>c. c \<noteq> NUL) s"

lemma c_str_id: "NUL \<notin> set s \<Longrightarrow> c_str s = s"
  by (auto simp: c_str_def takeWhile_eq_all_conv)

lemma c_str_no_NUL [simp]: "NUL \<notin> set (c_str s)"
  by (auto simp: c_str_def dest: set_takeWhileD)

lemma c_str_idem [simp]: "c_str (c_str s) = c_str s"
  by (simp add: c_str_id)

section \<open>List facts used by several components\<close>

lemma dropWhile_rev_append:
  assumes "\<forall>x \<in> set ys. P x"
  shows "dropWhile P (rev (xs @ ys)) = dropWhile P (rev xs)"
  using assms by (simp add: dropWhile_append)

lemma takeWhile_takes:
  assumes "\<forall>x \<in> set xs. P x" and "\<not> P y"
  shows "takeWhile P (xs @ y # ys) = xs"
  using assms by (simp add: takeWhile_append)

lemma find_split:
  assumes "find P xs = Some x"
  shows "\<exists>us vs. xs = us @ x # vs \<and> P x \<and> (\<forall>u \<in> set us. \<not> P u)"
  using assms
proof (induction xs)
  case (Cons a xs)
  then show ?case
  proof (cases "P a")
    case False
    with Cons obtain us vs where "xs = us @ x # vs" "P x" "\<forall>u \<in> set us. \<not> P u" by auto
    with False have "a # xs = (a # us) @ x # vs \<and> P x \<and> (\<forall>u \<in> set (a # us). \<not> P u)" by simp
    then show ?thesis by blast
  next
    case True
    with Cons.prems have "a # xs = [] @ x # xs \<and> P x" by simp
    then show ?thesis by (metis empty_iff list.set(1))
  qed
qed simp

lemma unat_two_power: "n < LENGTH('a) \<Longrightarrow> unat (2 ^ n :: 'a::len word) = 2 ^ n"
  using unsigned_of_nat [where n = "2 ^ n" and 'b = 'a and 'a = nat] by (simp add: take_bit_nat_eq_self)

lemma unat_uminus: "unat (- d :: 'a::len word) = (if d = 0 then 0 else 2 ^ LENGTH('a) - unat d)"
  using unat_sub_if' [of 0 d] by (simp add: unat_eq_0)

end
