(* ===== verification/Message_Buffer.thy ===== *)
theory Message_Buffer
  imports Prelude
begin

text \<open>
  The byte buffer of the network layer,
  \<^verbatim>\<open>Source/Core/Private/Detail/Network/MessageBuffer.h\<close> (the copy in
  \<^verbatim>\<open>Source/ProtobufDecompileTest/MessageBuffer.h\<close> has the same members).  A buffer is a
  vector of bytes with a write position and a read position, both of type \<^verbatim>\<open>size_t\<close>;
  the bytes between them are the active data.  The theory models every member, states the
  contract as a locale of byte queues and interprets it on the model.
\<close>

section \<open>State and operations\<close>

record message_buffer =
  wpos :: size_t
  rpos :: size_t
  storage :: "u8 list"

definition MessageBuffer :: message_buffer where
  "MessageBuffer = \<lparr>wpos = 0, rpos = 0, storage = vec_resize 4096 0 []\<rparr>"

definition MessageBuffer_size :: "size_t \<Rightarrow> message_buffer" where
  "MessageBuffer_size initialSize = \<lparr>wpos = 0, rpos = 0, storage = vec_resize (unat initialSize) 0 []\<rparr>"

definition MessageBuffer_copy :: "message_buffer \<Rightarrow> message_buffer" where
  "MessageBuffer_copy right = \<lparr>wpos = wpos right, rpos = rpos right, storage = storage right\<rparr>"

definition Reset :: "message_buffer \<Rightarrow> message_buffer" where
  "Reset b = b\<lparr>wpos := 0, rpos := 0\<rparr>"

definition Resize :: "size_t \<Rightarrow> message_buffer \<Rightarrow> message_buffer" where
  "Resize bytes b = b\<lparr>storage := vec_resize (unat bytes) 0 (storage b)\<rparr>"

text \<open>Pointers into the storage are offsets from \<^verbatim>\<open>GetBasePointer()\<close>.\<close>

definition GetReadPointer :: "message_buffer \<Rightarrow> nat" where
  "GetReadPointer b = unat (rpos b)"

definition GetWritePointer :: "message_buffer \<Rightarrow> nat" where
  "GetWritePointer b = unat (wpos b)"

definition ReadCompleted :: "size_t \<Rightarrow> message_buffer \<Rightarrow> message_buffer" where
  "ReadCompleted bytes b = b\<lparr>rpos := rpos b + bytes\<rparr>"

definition WriteCompleted :: "size_t \<Rightarrow> message_buffer \<Rightarrow> message_buffer" where
  "WriteCompleted bytes b = b\<lparr>wpos := wpos b + bytes\<rparr>"

definition GetActiveSize :: "message_buffer \<Rightarrow> size_t" where
  "GetActiveSize b = wpos b - rpos b"

definition GetBufferSize :: "message_buffer \<Rightarrow> size_t" where
  "GetBufferSize b = of_nat (length (storage b))"

definition GetRemainingSpace :: "message_buffer \<Rightarrow> size_t" where
  "GetRemainingSpace b = of_nat (length (storage b)) - wpos b"

definition Normalize :: "message_buffer \<Rightarrow> message_buffer option" where
  "Normalize b =
     (if rpos b \<noteq> 0 then
        (case (if rpos b \<noteq> wpos b
               then move_block 0 (GetReadPointer b) (unat (GetActiveSize b)) (storage b)
               else Some (storage b)) of
           None \<Rightarrow> None
         | Some xs \<Rightarrow> Some (b\<lparr>storage := xs, wpos := wpos b - rpos b, rpos := 0\<rparr>))
      else Some b)"

definition EnsureFreeSpace :: "message_buffer \<Rightarrow> message_buffer" where
  "EnsureFreeSpace b =
     (if GetRemainingSpace b = 0
      then b\<lparr>storage := vec_resize (unat (GetBufferSize b * 3 div 2)) 0 (storage b)\<rparr>
      else b)"

text \<open>
  \<^verbatim>\<open>Write(data, size)\<close> copies \<open>size\<close> bytes from \<open>data\<close>; the model's
  \<open>data\<close> is exactly those bytes.
\<close>

definition Write :: "u8 list \<Rightarrow> message_buffer \<Rightarrow> message_buffer option" where
  "Write data b =
     (if data \<noteq> [] then
        (case blit (GetWritePointer b) data (storage b) of
           None \<Rightarrow> None
         | Some xs \<Rightarrow> Some (WriteCompleted (of_nat (length data)) (b\<lparr>storage := xs\<rparr>)))
      else Some b)"

text \<open>
  \<^verbatim>\<open>Move()\<close> resets both positions and yields the storage as an rvalue; its caller moves
  the vector out, which leaves the source empty.  The result is (storage, source afterwards).
\<close>

definition Move :: "message_buffer \<Rightarrow> u8 list \<times> message_buffer" where
  "Move b = (storage b, \<lparr>wpos = 0, rpos = 0, storage = []\<rparr>)"

text \<open>The move constructor: the members are initialised in declaration order.\<close>

definition MessageBuffer_move :: "message_buffer \<Rightarrow> message_buffer \<times> message_buffer" where
  "MessageBuffer_move right =
     (let (st, right') = Move right
      in (\<lparr>wpos = wpos right, rpos = rpos right, storage = st\<rparr>, right'))"

text \<open>
  Assignment: \<open>same\<close> is the test \<^verbatim>\<open>this == &right\<close>.  Move assignment returns
  (this, right) afterwards.
\<close>

definition assign_copy :: "bool \<Rightarrow> message_buffer \<Rightarrow> message_buffer \<Rightarrow> message_buffer" where
  "assign_copy same this right =
     (if \<not> same
      then this\<lparr>wpos := wpos right, rpos := rpos right, storage := storage right\<rparr>
      else this)"

definition assign_move ::
    "bool \<Rightarrow> message_buffer \<Rightarrow> message_buffer \<Rightarrow> message_buffer \<times> message_buffer" where
  "assign_move same this right =
     (if \<not> same
      then (let w = wpos right; r = rpos right; (st, right') = Move right
            in (this\<lparr>wpos := w, rpos := r, storage := st\<rparr>, right'))
      else (this, right))"

lemmas [buffer_simps] = MessageBuffer_def MessageBuffer_size_def MessageBuffer_copy_def
  Reset_def Resize_def GetReadPointer_def GetWritePointer_def ReadCompleted_def
  WriteCompleted_def GetActiveSize_def GetBufferSize_def GetRemainingSpace_def Move_def
  MessageBuffer_move_def assign_copy_def assign_move_def

section \<open>Invariant and abstraction\<close>

text \<open>
  The invariant of a buffer in use: read position before write position, both inside the
  storage, whose size fits \<^verbatim>\<open>size_t\<close>.  The abstraction is the sequence of active bytes.
\<close>

definition wf_buffer :: "message_buffer \<Rightarrow> bool" where
  "wf_buffer b \<longleftrightarrow> unat (rpos b) \<le> unat (wpos b) \<and> unat (wpos b) \<le> length (storage b)
     \<and> length (storage b) < 2 ^ 64"

definition active :: "message_buffer \<Rightarrow> u8 list" where
  "active b = drop (unat (rpos b)) (take (unat (wpos b)) (storage b))"

definition free_space :: "message_buffer \<Rightarrow> nat" where
  "free_space b = length (storage b) - unat (wpos b)"

lemma GetActiveSize_eq: "wf_buffer b \<Longrightarrow> unat (GetActiveSize b) = length (active b)"
  by (simp add: wf_buffer_def active_def GetActiveSize_def unat_sub_le)

lemma GetRemainingSpace_eq: "wf_buffer b \<Longrightarrow> unat (GetRemainingSpace b) = free_space b"
  by (simp add: wf_buffer_def free_space_def GetRemainingSpace_def unat_sub_le unat_of_nat_small)

lemma wf_MessageBuffer [simp]: "wf_buffer MessageBuffer"
  by (simp add: wf_buffer_def MessageBuffer_def)

lemma wf_MessageBuffer_size [simp]: "wf_buffer (MessageBuffer_size n)"
  using unat_bound [of n] by (simp add: wf_buffer_def MessageBuffer_size_def)

lemma active_MessageBuffer [simp]:
  "active MessageBuffer = []" "active (MessageBuffer_size n) = []"
  by (simp_all add: active_def MessageBuffer_def MessageBuffer_size_def)

lemma Reset_spec: "wf_buffer b \<Longrightarrow> wf_buffer (Reset b) \<and> active (Reset b) = []"
  by (simp add: wf_buffer_def active_def Reset_def)

lemma ReadCompleted_spec:
  assumes "wf_buffer b" and "n \<le> length (active b)"
  shows "wf_buffer (ReadCompleted (of_nat n) b)
       \<and> active (ReadCompleted (of_nat n) b) = drop n (active b)
       \<and> free_space (ReadCompleted (of_nat n) b) = free_space b"
proof -
  from assms have n: "unat (rpos b) + n \<le> unat (wpos b)" "n < 2 ^ 64"
    by (auto simp: wf_buffer_def active_def)
  then have "unat (rpos b + of_nat n) = unat (rpos b) + n"
    using unat_bound [of "wpos b"] by (simp add: unat_add_no_overflow unat_of_nat_small)
  with assms n show ?thesis
    by (auto simp: wf_buffer_def active_def free_space_def ReadCompleted_def add.commute)
qed

lemma WriteCompleted_pos:
  assumes "wf_buffer b" and "n \<le> free_space b"
  shows "unat (wpos b + of_nat n) = unat (wpos b) + n"
proof -
  from assms have "unat (wpos b) + n < 2 ^ 64" by (auto simp: wf_buffer_def free_space_def)
  then show ?thesis by (simp add: unat_add_no_overflow unat_of_nat_small)
qed

lemma Write_spec:
  assumes "wf_buffer b" and "length data \<le> free_space b"
  shows "\<exists>b'. Write data b = Some b' \<and> wf_buffer b' \<and> active b' = active b @ data
            \<and> free_space b' = free_space b - length data
            \<and> length (storage b') = length (storage b) \<and> rpos b' = rpos b"
proof (cases "data = []")
  case True
  with assms show ?thesis by (simp add: Write_def)
next
  case False
  from assms have le: "unat (wpos b) + length data \<le> length (storage b)"
    by (auto simp: wf_buffer_def free_space_def)
  then obtain xs where xs: "blit (unat (wpos b)) data (storage b) = Some xs"
    using blit_total by blast
  note [simp] = WriteCompleted_pos [OF assms]
  from assms False le show ?thesis
    by (auto simp: Write_def GetWritePointer_def xs WriteCompleted_def wf_buffer_def active_def
        free_space_def blit_SomeD [OF xs])
qed

lemma Write_overflow:
  assumes "wf_buffer b" and "free_space b < length data"
  shows "Write data b = None"
proof -
  from assms have "\<not> unat (wpos b) + length data \<le> length (storage b)" and "data \<noteq> []"
    by (auto simp: wf_buffer_def free_space_def)
  then show ?thesis by (simp add: Write_def GetWritePointer_def blit_def)
qed

lemma Normalize_spec:
  assumes wf: "wf_buffer b"
  shows "\<exists>b'. Normalize b = Some b' \<and> wf_buffer b' \<and> active b' = active b \<and> rpos b' = 0
            \<and> free_space b' = free_space b + unat (rpos b)
            \<and> length (storage b') = length (storage b)"
proof (cases "rpos b = 0")
  case True
  with wf show ?thesis by (simp add: Normalize_def)
next
  case False
  have sub: "unat (wpos b - rpos b) = unat (wpos b) - unat (rpos b)"
    using wf by (simp add: wf_buffer_def unat_sub_le)
  have le: "unat (rpos b) + (unat (wpos b) - unat (rpos b)) \<le> length (storage b)"
    using wf by (simp add: wf_buffer_def)
  obtain xs where xs: "move_block 0 (unat (rpos b)) (unat (wpos b) - unat (rpos b)) (storage b) = Some xs"
    "length xs = length (storage b)"
    "take (unat (wpos b) - unat (rpos b)) xs
       = take (unat (wpos b) - unat (rpos b)) (drop (unat (rpos b)) (storage b))"
    using move_block_front [OF le] by blast
  from wf False show ?thesis
    by (auto simp: Normalize_def wf_buffer_def active_def free_space_def GetReadPointer_def
        GetActiveSize_def sub xs drop_take)
qed

text \<open>
  \<^verbatim>\<open>EnsureFreeSpace\<close> grows a full buffer by half.  For a storage of at least two bytes,
  small enough that tripling its size does not wrap, there is free space afterwards.
\<close>

lemma EnsureFreeSpace_spec:
  assumes wf: "wf_buffer b" and small: "length (storage b) * 3 < 2 ^ 64"
  shows "wf_buffer (EnsureFreeSpace b) \<and> active (EnsureFreeSpace b) = active b
       \<and> rpos (EnsureFreeSpace b) = rpos b \<and> wpos (EnsureFreeSpace b) = wpos b
       \<and> length (storage (EnsureFreeSpace b)) =
           (if free_space b = 0 then length (storage b) * 3 div 2 else length (storage b))
       \<and> (2 \<le> length (storage b) \<longrightarrow> 0 < free_space (EnsureFreeSpace b))"
proof (cases "free_space b = 0")
  case True
  with wf have full: "unat (wpos b) = length (storage b)"
    by (simp add: wf_buffer_def free_space_def)
  have rem: "GetRemainingSpace b = 0"
    using GetRemainingSpace_eq [OF wf] True by (simp add: unat_eq_zero_iff)
  have "unat (of_nat (length (storage b)) * 3 :: size_t) = length (storage b) * 3"
    using small unat_of_nat_small [where 'a = 64, of "length (storage b) * 3"] by simp
  then have sz: "unat (of_nat (length (storage b)) * 3 div 2 :: size_t) = length (storage b) * 3 div 2"
    by (simp add: unat_div)
  have grow: "length (storage b) \<le> length (storage b) * 3 div 2"
    "length (storage b) * 3 div 2 < 2 ^ 64"
    using small by auto
  from wf full grow show ?thesis
    by (auto simp: EnsureFreeSpace_def rem GetBufferSize_def sz wf_buffer_def active_def
        free_space_def take_vec_resize)
next
  case False
  with GetRemainingSpace_eq [OF wf] have "GetRemainingSpace b \<noteq> 0" by auto
  with wf False show ?thesis by (simp add: EnsureFreeSpace_def)
qed


section \<open>The contract of a byte queue\<close>

text \<open>
  What the network layer relies on: an abstraction to a byte sequence, an invariant, room for
  more bytes, and operations that compact, grow, append and consume without disturbing the
  rest of the sequence.  \<open>growable\<close> is the condition under which growing makes room.
\<close>

locale byte_fifo =
  fixes bytes :: "'b \<Rightarrow> u8 list"
    and invar :: "'b \<Rightarrow> bool"
    and room :: "'b \<Rightarrow> nat"
    and growable :: "'b \<Rightarrow> bool"
    and compact :: "'b \<Rightarrow> 'b option"
    and grow :: "'b \<Rightarrow> 'b"
    and put :: "u8 list \<Rightarrow> 'b \<Rightarrow> 'b option"
    and consume :: "nat \<Rightarrow> 'b \<Rightarrow> 'b"
  assumes compact_law: "invar b \<Longrightarrow>
      \<exists>b'. compact b = Some b' \<and> invar b' \<and> bytes b' = bytes b \<and> room b \<le> room b'
         \<and> growable b' = growable b"
    and grow_law: "invar b \<Longrightarrow> growable b \<Longrightarrow>
      invar (grow b) \<and> bytes (grow b) = bytes b \<and> 0 < room (grow b)"
    and put_law: "invar b \<Longrightarrow> length d \<le> room b \<Longrightarrow>
      \<exists>b'. put d b = Some b' \<and> invar b' \<and> bytes b' = bytes b @ d"
    and consume_law: "invar b \<Longrightarrow> n \<le> length (bytes b) \<Longrightarrow>
      invar (consume n b) \<and> bytes (consume n b) = drop n (bytes b)"
begin

text \<open>A receive cycle: compact, make room, let the peer's bytes in.\<close>

lemma receive_cycle:
  assumes "invar b" and "growable b"
  obtains b1 where "compact b = Some b1" and "invar (grow b1)" and "bytes (grow b1) = bytes b"
    and "0 < room (grow b1)"
    and "\<And>d. length d \<le> room (grow b1) \<Longrightarrow>
           \<exists>b2. put d (grow b1) = Some b2 \<and> invar b2 \<and> bytes b2 = bytes b @ d"
  using assms compact_law [of b] grow_law put_law by metis

text \<open>Appending and then consuming a whole message gives back what was there before it.\<close>

lemma put_consume:
  assumes "invar b" and "length d \<le> room b" and "bytes b = []"
  shows "\<exists>b'. put d b = Some b' \<and> invar (consume (length d) b') \<and> bytes (consume (length d) b') = []"
  using assms put_law [of b d] consume_law by fastforce

end

definition growable :: "message_buffer \<Rightarrow> bool" where
  "growable b \<longleftrightarrow> 2 \<le> length (storage b) \<and> length (storage b) * 3 < 2 ^ 64"

interpretation mb: byte_fifo active wf_buffer free_space growable Normalize EnsureFreeSpace Write
  "\<lambda>n. ReadCompleted (of_nat n)"
proof
  fix b assume "wf_buffer b"
  then show "\<exists>b'. Normalize b = Some b' \<and> wf_buffer b' \<and> active b' = active b
      \<and> free_space b \<le> free_space b' \<and> growable b' = growable b"
    using Normalize_spec [of b] by (auto simp: growable_def)
next
  fix b assume "wf_buffer b" "growable b"
  then show "wf_buffer (EnsureFreeSpace b) \<and> active (EnsureFreeSpace b) = active b
      \<and> 0 < free_space (EnsureFreeSpace b)"
    using EnsureFreeSpace_spec [of b] by (simp add: growable_def)
next
  fix b and d :: "u8 list" assume "wf_buffer b" "length d \<le> free_space b"
  then show "\<exists>b'. Write d b = Some b' \<and> wf_buffer b' \<and> active b' = active b @ d"
    using Write_spec by blast
next
  fix b n assume "wf_buffer b" "n \<le> length (active b)"
  then show "wf_buffer (ReadCompleted (of_nat n) b)
      \<and> active (ReadCompleted (of_nat n) b) = drop n (active b)"
    using ReadCompleted_spec by blast
qed

section \<open>Refinement to an abstract byte queue\<close>

text \<open>
  Programs over a buffer, and the obligations of their caller: a read never claims more than
  the active bytes, a write fits the free space, growing does not wrap \<^verbatim>\<open>size_t\<close>.
\<close>

datatype buffer_op = WriteOp "u8 list" | ReadOp nat | NormalizeOp | EnsureOp | ResetOp

fun buffer_step :: "buffer_op \<Rightarrow> message_buffer \<Rightarrow> message_buffer option" where
  "buffer_step (WriteOp d) b = Write d b"
| "buffer_step (ReadOp n) b = Some (ReadCompleted (of_nat n) b)"
| "buffer_step NormalizeOp b = Normalize b"
| "buffer_step EnsureOp b = Some (EnsureFreeSpace b)"
| "buffer_step ResetOp b = Some (Reset b)"

fun queue_step :: "buffer_op \<Rightarrow> u8 list \<Rightarrow> u8 list" where
  "queue_step (WriteOp d) q = q @ d"
| "queue_step (ReadOp n) q = drop n q"
| "queue_step NormalizeOp q = q"
| "queue_step EnsureOp q = q"
| "queue_step ResetOp q = []"

fun legal_op :: "buffer_op \<Rightarrow> message_buffer \<Rightarrow> bool" where
  "legal_op (WriteOp d) b \<longleftrightarrow> length d \<le> free_space b"
| "legal_op (ReadOp n) b \<longleftrightarrow> n \<le> length (active b)"
| "legal_op EnsureOp b \<longleftrightarrow> length (storage b) * 3 < 2 ^ 64"
| "legal_op _ b \<longleftrightarrow> True"

fun buffer_run :: "buffer_op list \<Rightarrow> message_buffer \<Rightarrow> message_buffer option" where
  "buffer_run [] b = Some b"
| "buffer_run (op # ops) b = Option.bind (buffer_step op b) (buffer_run ops)"

fun legal_run :: "buffer_op list \<Rightarrow> message_buffer \<Rightarrow> bool" where
  "legal_run [] b \<longleftrightarrow> True"
| "legal_run (op # ops) b \<longleftrightarrow> legal_op op b \<and>
     (case buffer_step op b of None \<Rightarrow> False | Some b' \<Rightarrow> legal_run ops b')"

definition queue_run :: "buffer_op list \<Rightarrow> u8 list \<Rightarrow> u8 list" where
  "queue_run ops q = fold queue_step ops q"

lemma buffer_step_refines:
  assumes "wf_buffer b" and "legal_op op b"
  shows "\<exists>b'. buffer_step op b = Some b' \<and> wf_buffer b' \<and> active b' = queue_step op (active b)"
proof (cases op)
  case (WriteOp d)
  with assms Write_spec [of b d] show ?thesis by auto
next
  case (ReadOp n)
  with assms ReadCompleted_spec [of b n] show ?thesis by simp
next
  case NormalizeOp
  with assms Normalize_spec [of b] show ?thesis by auto
next
  case EnsureOp
  with assms EnsureFreeSpace_spec [of b] show ?thesis by simp
next
  case ResetOp
  with assms Reset_spec [of b] show ?thesis by simp
qed



end
