(* ===== verification/C_Library.thy ===== *)
theory C_Library
  imports Prelude
begin

text \<open>
  The functions of the C and C++ standard library that the sources call on strings: decimal
  output (\<^verbatim>\<open>sprintf\<close> with \<^verbatim>\<open>%d\<close>, \<^verbatim>\<open>std::to_string\<close>), \<^verbatim>\<open>atoi\<close>,
  \<^verbatim>\<open>strtol\<close> with base detection, \<^verbatim>\<open>strtoul\<close> in base 16, \<^verbatim>\<open>strstr\<close> and
  \<^verbatim>\<open>std::string::find_first_of\<close>.  They are defined as the C standard specifies them in
  the C locale and carry the facts the components share: decimal output is read back by
  \<^verbatim>\<open>atoi\<close> and \<^verbatim>\<open>strtol\<close>.
\<close>

section \<open>Decimal output\<close>

definition digit_char :: "nat \<Rightarrow> char" where
  "digit_char d = char_of (48 + d)"

definition digit_val :: "char \<Rightarrow> nat" where
  "digit_val c = ord c - 48"

fun dec :: "nat \<Rightarrow> string" where
  "dec n = (if n < 10 then [digit_char n] else dec (n div 10) @ [digit_char (n mod 10)])"

declare dec.simps [simp del]

definition dec_int :: "int \<Rightarrow> string" where
  "dec_int i = (if i < 0 then ''-'' @ dec (nat (- i)) else dec (nat i))"

lemma ord_digit_char [simp]: "d < 10 \<Longrightarrow> ord (digit_char d) = 48 + d"
  by (simp add: digit_char_def)

lemma isdigit_digit_char [simp]: "d < 10 \<Longrightarrow> isdigit (digit_char d)"
  by (simp add: isdigit_def)

lemma digit_val_digit_char [simp]: "d < 10 \<Longrightarrow> digit_val (digit_char d) = d"
  by (simp add: digit_val_def)

lemma isdigit_not_space: "isdigit c \<Longrightarrow> \<not> isspace c"
  by (auto simp: isdigit_def isspace_def)

lemma isdigit_not_sign: "isdigit c \<Longrightarrow> c \<noteq> CHR ''-'' \<and> c \<noteq> CHR ''+''"
  by (auto simp: isdigit_def)

lemma dec_digits: "\<forall>c \<in> set (dec n). isdigit c"
proof (induction n rule: dec.induct)
  case (1 n)
  then show ?case by (cases "n < 10") (auto simp: dec.simps [of n])
qed

lemma dec_not_Nil [simp]: "dec n \<noteq> []"
  by (simp add: dec.simps [of n])

lemma dec_no_NUL: "NUL \<notin> set (dec n)"
  using dec_digits [of n] by (auto simp: isdigit_def)

lemma length_dec_le: "n < 10 ^ k \<Longrightarrow> 0 < k \<Longrightarrow> length (dec n) \<le> k"
proof (induction k arbitrary: n)
  case (Suc k)
  show ?case
  proof (cases "n < 10")
    case True
    then show ?thesis by (simp add: dec.simps [of n])
  next
    case False
    with Suc.prems have "0 < k" by (cases k) auto
    moreover from Suc.prems have "n div 10 < 10 ^ k" by (simp add: less_mult_imp_div_less mult.commute)
    ultimately show ?thesis using False Suc.IH [of "n div 10"] by (simp add: dec.simps [of n])
  qed
qed simp

section \<open>Decimal input\<close>

definition digits_val :: "string \<Rightarrow> nat" where
  "digits_val ds = foldl (\<lambda>a c. a * 10 + digit_val c) 0 ds"

lemma digits_val_snoc [simp]: "digits_val (ds @ [c]) = digits_val ds * 10 + digit_val c"
  by (simp add: digits_val_def)

lemma digits_val_dec [simp]: "digits_val (dec n) = n"
proof (induction n rule: dec.induct)
  case (1 n)
  then show ?case by (cases "n < 10") (simp_all add: dec.simps [of n] digits_val_def)
qed

text \<open>An optional sign: (is it a minus, the rest).\<close>

fun split_sign :: "string \<Rightarrow> bool \<times> string" where
  "split_sign [] = (False, [])"
| "split_sign (c # cs) =
     (if c = CHR ''-'' then (True, cs) else if c = CHR ''+'' then (False, cs) else (False, c # cs))"

definition apply_sign :: "bool \<Rightarrow> nat \<Rightarrow> int" where
  "apply_sign neg n = (if neg then - int n else int n)"

text \<open>
  \<^verbatim>\<open>atoi\<close>: white space, an optional sign, digits; the rest is ignored and no digits give 0.
  The result is the mathematical value; it is defined by the C standard where it fits \<^verbatim>\<open>int\<close>.
\<close>

definition atoi :: "string \<Rightarrow> int" where
  "atoi s = (let (neg, t) = split_sign (dropWhile isspace s)
             in apply_sign neg (digits_val (takeWhile isdigit t)))"

lemma split_sign_length: "split_sign s = (neg, t) \<Longrightarrow> length t \<le> length s"
  by (cases s) (auto split: if_splits)

lemma split_sign_digits:
  assumes "ds \<noteq> []" and "\<forall>c \<in> set ds. isdigit c"
  shows "split_sign (ds @ t) = (False, ds @ t)"
  using assms by (cases ds) (auto dest: isdigit_not_sign)

lemma dropWhile_space_digits:
  assumes "\<forall>c \<in> set sp. isspace c" and "ds \<noteq> []" and "\<forall>c \<in> set ds. isdigit c"
  shows "dropWhile isspace (sp @ ds @ t) = ds @ t"
  using assms by (cases ds) (auto simp: dropWhile_append dest: isdigit_not_space)

lemma takeWhile_digits:
  assumes "\<forall>c \<in> set ds. isdigit c" and "t = [] \<or> \<not> isdigit (hd t)"
  shows "takeWhile isdigit (ds @ t) = ds"
  using assms by (cases t) (auto simp: takeWhile_append)

lemma atoi_dec:
  assumes "\<forall>c \<in> set sp. isspace c" and "t = [] \<or> \<not> isdigit (hd t)"
  shows "atoi (sp @ dec n @ t) = int n"
proof -
  have "dropWhile isspace (sp @ dec n @ t) = dec n @ t"
    using assms(1) dec_digits by (intro dropWhile_space_digits) auto
  moreover have "split_sign (dec n @ t) = (False, dec n @ t)"
    using dec_digits by (intro split_sign_digits) auto
  moreover have "takeWhile isdigit (dec n @ t) = dec n"
    using assms(2) dec_digits by (intro takeWhile_digits) auto
  ultimately show ?thesis by (simp only: atoi_def Let_def split_def fst_conv snd_conv apply_sign_def
        digits_val_dec if_False)
qed

lemma digits_val_bound: "\<forall>c \<in> set ds. isdigit c \<Longrightarrow> digits_val ds < 10 ^ length ds"
proof (induction ds rule: rev_induct)
  case (snoc c ds)
  then have "digit_val c < 10" and "digits_val ds < 10 ^ length ds"
    by (auto simp: digit_val_def isdigit_def)
  then show ?case by simp
qed (simp add: digits_val_def)

lemma atoi_bound: "\<bar>atoi s\<bar> < 10 ^ length s"
proof -
  obtain neg t where st: "split_sign (dropWhile isspace s) = (neg, t)" by fastforce
  have "length t \<le> length (dropWhile isspace s)"
    using st by (rule split_sign_length)
  then have "length (takeWhile isdigit t) \<le> length s"
    using length_dropWhile_le [of isspace s] length_takeWhile_le [of isdigit t] by linarith
  then have "(10::nat) ^ length (takeWhile isdigit t) \<le> 10 ^ length s"
    by (simp add: power_increasing)
  moreover have "digits_val (takeWhile isdigit t) < 10 ^ length (takeWhile isdigit t)"
    by (intro digits_val_bound) (auto dest: set_takeWhileD)
  ultimately have "digits_val (takeWhile isdigit t) < 10 ^ length s"
    by (rule order.strict_trans2 [rotated])
  then have "int (digits_val (takeWhile isdigit t)) < int (10 ^ length s)"
    by (simp only: of_nat_less_iff)
  moreover have "\<bar>atoi s\<bar> = int (digits_val (takeWhile isdigit t))"
    by (simp add: atoi_def st apply_sign_def)
  ultimately show ?thesis by simp
qed

section \<open>Integer conversion with a base\<close>

text \<open>The value of an alphanumeric character as a digit.\<close>

definition xdigit_val :: "char \<Rightarrow> nat option" where
  "xdigit_val c =
     (if isdigit c then Some (ord c - 48)
      else if islower c then Some (ord c - 97 + 10)
      else if isupper c then Some (ord c - 65 + 10)
      else None)"

definition is_base_digit :: "nat \<Rightarrow> char \<Rightarrow> bool" where
  "is_base_digit base c = (case xdigit_val c of None \<Rightarrow> False | Some d \<Rightarrow> d < base)"

definition base_val :: "nat \<Rightarrow> string \<Rightarrow> nat" where
  "base_val base ds = foldl (\<lambda>a c. a * base + the (xdigit_val c)) 0 ds"

text \<open>
  \<^verbatim>\<open>strtol(s, &end, 0)\<close> for a \<^verbatim>\<open>long\<close> of \<open>bits\<close> bits: the value, clamped to the
  range of \<^verbatim>\<open>long\<close>, and whether \<^verbatim>\<open>end > s\<close>, that is whether anything was converted.
  A prefix \<^verbatim>\<open>0x\<close> counts only before a hexadecimal digit.
\<close>

definition detect_base :: "string \<Rightarrow> nat \<times> string" where
  "detect_base t =
     (case t of
        z # x # h # rest \<Rightarrow>
          if z = CHR ''0'' \<and> (x = CHR ''x'' \<or> x = CHR ''X'') \<and> is_base_digit 16 h
          then (16, h # rest) else if z = CHR ''0'' then (8, t) else (10, t)
      | z # rest \<Rightarrow> if z = CHR ''0'' then (8, t) else (10, t)
      | [] \<Rightarrow> (10, t))"

definition clamp_long :: "nat \<Rightarrow> int \<Rightarrow> int" where
  "clamp_long bits i = max (- (2 ^ (bits - 1))) (min (2 ^ (bits - 1) - 1) i)"

definition strtol0 :: "nat \<Rightarrow> string \<Rightarrow> int \<times> bool" where
  "strtol0 bits s =
     (let (neg, t) = split_sign (dropWhile isspace s);
          (base, u) = detect_base t;
          ds = takeWhile (is_base_digit base) u
      in (clamp_long bits (apply_sign neg (base_val base ds)), ds \<noteq> []))"

lemma clamp_long_range:
  "- (2 ^ (bits - 1)) \<le> clamp_long bits i \<and> clamp_long bits i \<le> 2 ^ (bits - 1) - 1"
  by (simp add: clamp_long_def)

lemma isdigit_base10: "is_base_digit 10 c \<longleftrightarrow> isdigit c"
  by (auto simp: is_base_digit_def xdigit_val_def isdigit_def islower_def isupper_def split: if_splits)

lemma base_val_10: "\<forall>c \<in> set ds. isdigit c \<Longrightarrow> base_val 10 ds = digits_val ds"
proof (induction ds rule: rev_induct)
  case (snoc c ds)
  then show ?case by (simp add: base_val_def digits_val_def xdigit_val_def digit_val_def)
qed (simp add: base_val_def digits_val_def)

lemma detect_base_decimal:
  assumes "t \<noteq> []" and "hd t \<noteq> CHR ''0''"
  shows "detect_base t = (10, t)"
  using assms by (auto simp: detect_base_def split: list.splits)

lemma hd_dec_nonzero: "0 < n \<Longrightarrow> hd (dec n) \<noteq> CHR ''0''"
proof (induction n rule: dec.induct)
  case (1 n)
  show ?case
  proof (cases "n < 10")
    case True
    with "1.prems" have "ord (digit_char n) \<noteq> ord (CHR ''0'')" by simp
    then have "digit_char n \<noteq> CHR ''0''" by metis
    with True show ?thesis by (simp add: dec.simps [of n])
  next
    case False
    with "1.IH" have "hd (dec (n div 10)) \<noteq> CHR ''0''" by simp
    with False show ?thesis by (simp add: dec.simps [of n] hd_append)
  qed
qed

lemma strtol0_dec:
  assumes "0 < n" and "int n < 2 ^ (bits - 1)"
  shows "strtol0 bits (dec n) = (int n, True)"
proof -
  have sp: "dropWhile isspace (dec n) = dec n" and sg: "split_sign (dec n) = (False, dec n)"
    using dec_digits [of n] dropWhile_space_digits [of "[]" "dec n" "[]"] split_sign_digits [of "dec n" "[]"]
    by auto
  have tw: "takeWhile (is_base_digit 10) (dec n) = dec n"
    using dec_digits [of n] by (simp add: isdigit_base10)
  have bv: "base_val 10 (dec n) = n"
    using dec_digits [of n] by (simp add: base_val_10)
  have "- (2 ^ (bits - 1)) \<le> (0::int)" by simp
  then have "- (2 ^ (bits - 1)) \<le> int n" by linarith
  with assms have cl: "clamp_long bits (int n) = int n" by (simp add: clamp_long_def max_def)
  show ?thesis
    using assms by (simp add: strtol0_def sp sg tw bv cl detect_base_decimal hd_dec_nonzero apply_sign_def)
qed

section \<open>Searching strings\<close>

text \<open>
  \<^verbatim>\<open>find_first_of(c)\<close>: the position of the first occurrence, \<^term>\<open>None\<close> for
  \<^verbatim>\<open>npos\<close>.
\<close>

fun find_first :: "('a \<Rightarrow> bool) \<Rightarrow> 'a list \<Rightarrow> nat option" where
  "find_first P [] = None"
| "find_first P (x # xs) = (if P x then Some 0 else map_option Suc (find_first P xs))"

lemma find_first_append:
  assumes "\<forall>x \<in> set us. \<not> P x" and "P v"
  shows "find_first P (us @ v # vs) = Some (length us)"
  using assms by (induction us) auto

lemma find_first_None: "find_first P xs = None \<longleftrightarrow> (\<forall>x \<in> set xs. \<not> P x)"
  by (induction xs) auto

lemma find_first_SomeD:
  assumes "find_first P xs = Some i"
  shows "i < length xs \<and> P (xs ! i) \<and> (\<forall>j < i. \<not> P (xs ! j))"
  using assms
proof (induction xs arbitrary: i)
  case (Cons x xs)
  then show ?case by (auto simp: nth_Cons split: if_splits nat.splits)
qed simp

definition find_last :: "('a \<Rightarrow> bool) \<Rightarrow> 'a list \<Rightarrow> nat option" where
  "find_last P xs = map_option (\<lambda>i. length xs - Suc i) (find_first P (rev xs))"

lemma find_last_SomeD:
  assumes "find_last P xs = Some i"
  shows "i < length xs \<and> P (xs ! i)"
  using assms find_first_SomeD [of P "rev xs"] by (auto simp: find_last_def rev_nth)

text \<open>\<^verbatim>\<open>strstr(s, p) == s\<close>: the pattern occurs, and first at position 0.\<close>

definition is_prefix :: "string \<Rightarrow> string \<Rightarrow> bool" where
  "is_prefix p s \<longleftrightarrow> take (length p) s = p"

fun strstr :: "string \<Rightarrow> string \<Rightarrow> nat option" where
  "strstr [] p = (if p = [] then Some 0 else None)"
| "strstr (c # cs) p = (if is_prefix p (c # cs) then Some 0 else map_option Suc (strstr cs p))"

lemma strstr_zero: "strstr s p = Some 0 \<longleftrightarrow> is_prefix p s"
  by (cases s) (auto simp: is_prefix_def)

end
