(* ===== verification/Chat_Message.thy ===== *)
theory Chat_Message
  imports C_Library
begin

text \<open>
  The wire format of the chat programs, \<^verbatim>\<open>Source/Core/Public/Detail/ChatMessage.h\<close>: a
  four-character decimal header and a body of at most 512 bytes in one array.  The theory
  models every member, the sender of \<^verbatim>\<open>Source/ChatClient/main.cpp\<close> and the receiving loop
  shared by \<^verbatim>\<open>chat_client\<close> and \<^verbatim>\<open>ChatSession\<close>, and shows that framing round-trips.
\<close>

section \<open>State and operations\<close>

definition header_length :: nat where "header_length = 4"
definition max_body_length :: nat where "max_body_length = 512"

record chat_message =
  msg_data :: string
  msg_body_length :: size_t

text \<open>
  The constructor leaves the array uninitialised: \<open>mem\<close> is the memory it starts with.
\<close>

definition ChatMessage :: "string \<Rightarrow> chat_message" where
  "ChatMessage mem = \<lparr>msg_data = mem, msg_body_length = 0\<rparr>"

definition msg_length :: "chat_message \<Rightarrow> size_t" where
  "msg_length m = of_nat header_length + msg_body_length m"

definition set_body_length :: "size_t \<Rightarrow> chat_message \<Rightarrow> chat_message" where
  "set_body_length new_length m =
     (let m1 = m\<lparr>msg_body_length := new_length\<rparr>
      in if msg_body_length m1 > of_nat max_body_length
         then m1\<lparr>msg_body_length := of_nat max_body_length\<rparr> else m1)"

text \<open>
  \<^verbatim>\<open>decode_header\<close>: \<^verbatim>\<open>strncat\<close> copies at most four characters, stopping at a
  terminator; the \<^verbatim>\<open>int\<close> result of \<^verbatim>\<open>atoi\<close> is converted to \<^verbatim>\<open>size_t\<close>.
\<close>

definition header_text :: "chat_message \<Rightarrow> string" where
  "header_text m = c_str (take header_length (msg_data m))"

definition decode_header :: "chat_message \<Rightarrow> chat_message \<times> bool" where
  "decode_header m =
     (let m1 = m\<lparr>msg_body_length := word_of_int (atoi (header_text m))\<rparr>
      in if msg_body_length m1 > of_nat max_body_length
         then (m1\<lparr>msg_body_length := 0\<rparr>, False)
         else (m1, True))"

text \<open>
  \<^verbatim>\<open>encode_header\<close>: \<^verbatim>\<open>sprintf("%4d")\<close> of the length as \<^verbatim>\<open>int\<close> into an array of
  five characters; a text of more than four overruns it.
\<close>

definition pad_left :: "nat \<Rightarrow> string \<Rightarrow> string" where
  "pad_left w s = replicate (w - length s) CHR '' '' @ s"

definition encode_header :: "chat_message \<Rightarrow> chat_message option" where
  "encode_header m =
     (let header = pad_left 4 (dec_int (sint (ucast (msg_body_length m) :: 32 word)))
      in if length header > header_length then None
         else map_option (\<lambda>d. m\<lparr>msg_data := d\<rparr>) (blit 0 (take header_length header) (msg_data m)))"

definition body :: "chat_message \<Rightarrow> string" where
  "body m = take (unat (msg_body_length m)) (drop header_length (msg_data m))"

definition write_body :: "string \<Rightarrow> chat_message \<Rightarrow> chat_message option" where
  "write_body bs m = map_option (\<lambda>d. m\<lparr>msg_data := d\<rparr>) (blit header_length bs (msg_data m))"

text \<open>
  The sending side of \<^verbatim>\<open>Source/ChatClient/main.cpp\<close>: a line of input becomes a message.
\<close>

definition make_message :: "string \<Rightarrow> string \<Rightarrow> chat_message option" where
  "make_message mem line =
     (let m = set_body_length (of_nat (length (c_str line))) (ChatMessage mem)
      in Option.bind (write_body (take (unat (msg_body_length m)) (c_str line)) m) encode_header)"

text \<open>The bytes \<^verbatim>\<open>async_write\<close> sends for a message: \<^verbatim>\<open>length()\<close> bytes of the array.\<close>

definition wire :: "chat_message \<Rightarrow> string" where
  "wire m = take (unat (msg_length m)) (msg_data m)"

text \<open>
  The receiving loop (\<^verbatim>\<open>do_read_header\<close>, \<^verbatim>\<open>do_read_body\<close>) on the whole input of a
  connection: the messages it hands on.  A short read, the end of the input or a bad header
  ends it.
\<close>

definition read_header :: "string \<Rightarrow> chat_message \<Rightarrow> chat_message option" where
  "read_header hs m = map_option (\<lambda>d. m\<lparr>msg_data := d\<rparr>) (blit 0 hs (msg_data m))"

function read_loop :: "chat_message \<Rightarrow> string \<Rightarrow> chat_message list" where
  "read_loop m inp =
     (if length inp < header_length then []
      else case read_header (take header_length inp) m of
        None \<Rightarrow> []
      | Some m1 \<Rightarrow>
          (let (m2, ok) = decode_header m1; n = unat (msg_body_length m2); rest = drop header_length inp
           in if \<not> ok \<or> length rest < n then []
              else case write_body (take n rest) m2 of
                None \<Rightarrow> []
              | Some m3 \<Rightarrow> m3 # read_loop m3 (drop n rest)))"
  by pat_completeness auto
termination
  by (relation "measure (\<lambda>(m, inp). length inp)") (auto simp: header_length_def)

declare read_loop.simps [simp del]

section \<open>Well-formedness\<close>

definition wf_message :: "chat_message \<Rightarrow> bool" where
  "wf_message m \<longleftrightarrow> length (msg_data m) = header_length + max_body_length
     \<and> unat (msg_body_length m) \<le> max_body_length"

lemmas chat_consts = header_length_def max_body_length_def

lemma word_le_512: "(w :: size_t) \<le> 512 \<longleftrightarrow> unat w \<le> 512"
  by (simp add: word_le_nat_alt)

lemma set_body_length_bound: "unat (msg_body_length (set_body_length n m)) = min (unat n) max_body_length"
  by (auto simp: set_body_length_def max_body_length_def word_less_nat_alt min_def)

lemma wf_set_body_length:
  "length (msg_data m) = header_length + max_body_length \<Longrightarrow> wf_message (set_body_length n m)"
  using set_body_length_bound [of n m]
  by (auto simp: wf_message_def set_body_length_def Let_def)

lemma length_header_text: "length (header_text m) \<le> 4"
  by (simp add: header_text_def c_str_def header_length_def)
     (metis length_take length_takeWhile_le min.bounded_iff)

text \<open>The value of a four-character header is far from overflowing \<^verbatim>\<open>int\<close>.\<close>

lemma header_value_bound: "\<bar>atoi (header_text m)\<bar> < 10000"
proof -
  have "(10::int) ^ length (header_text m) \<le> 10 ^ 4"
    by (rule power_increasing [OF length_header_text]) simp
  with atoi_bound [of "header_text m"] show ?thesis by simp
qed

lemma size_t_of_header:
  assumes "\<bar>i\<bar> < 10000"
  shows "(word_of_int i :: size_t) \<le> 512 \<longleftrightarrow> 0 \<le> i \<and> i \<le> 512"
    and "0 \<le> i \<Longrightarrow> unat (word_of_int i :: size_t) = nat i"
proof -
  have pos: "unat (word_of_int i :: size_t) = nat i" if "0 \<le> i"
    using assms that by (simp add: unat_eq_nat_uint uint_word_of_int)
  then show "0 \<le> i \<Longrightarrow> unat (word_of_int i :: size_t) = nat i" .
  show "(word_of_int i :: size_t) \<le> 512 \<longleftrightarrow> 0 \<le> i \<and> i \<le> 512"
  proof (cases "0 \<le> i")
    case True
    with pos show ?thesis by (simp add: word_le_512 nat_le_iff)
  next
    case False
    with assms have "i mod 2 ^ 64 = i + 2 ^ 64"
      using mod_pos_pos_trivial [of "i + 2 ^ 64" "2 ^ 64"] by simp
    with assms False show ?thesis by (simp add: word_le_def uint_word_of_int)
  qed
qed

lemma decode_header_cases:
  "decode_header m =
     (let n = atoi (header_text m)
      in if 0 \<le> n \<and> n \<le> 512 then (m\<lparr>msg_body_length := word_of_int n\<rparr>, True)
         else (m\<lparr>msg_body_length := 0\<rparr>, False))"
  using size_t_of_header(1) [OF header_value_bound [of m]]
  by (auto simp: decode_header_def max_body_length_def Let_def not_le [symmetric])


lemma decode_header_wf:
  assumes "length (msg_data m) = header_length + max_body_length"
  shows "wf_message (fst (decode_header m))"
  using assms size_t_of_header(2) [OF header_value_bound [of m]]
  by (auto simp: decode_header_cases wf_message_def max_body_length_def Let_def)

section \<open>Encoding\<close>

lemma sint_of_small:
  assumes "unat (w :: size_t) \<le> 512"
  shows "sint (ucast w :: 32 word) = int (unat w)"
proof -
  have "(ucast w :: 32 word) = of_nat (unat w)" by transfer simp
  moreover have "sint (of_nat (unat w) :: 32 word) = signed_take_bit 31 (int (unat w))"
    by (simp only: signed_of_nat) simp
  moreover have "signed_take_bit 31 (int n) = int n" if "n \<le> 512" for n :: nat
    by (rule signed_take_bit_int_eq_self) (use that in simp_all)
  ultimately show ?thesis using assms by (simp only:)
qed

lemma header_of_small:
  assumes "unat (msg_body_length m) \<le> 512"
  shows "pad_left 4 (dec_int (sint (ucast (msg_body_length m) :: 32 word)))
       = replicate (4 - length (dec (unat (msg_body_length m)))) CHR '' '' @ dec (unat (msg_body_length m))"
    and "length (dec (unat (msg_body_length m))) \<le> 4"
  using assms length_dec_le [of "unat (msg_body_length m)" 4]
  by (simp_all add: sint_of_small pad_left_def dec_int_def)

lemma encode_header_spec:
  assumes "wf_message m"
  shows "\<exists>m'. encode_header m = Some m' \<and> wf_message m' \<and> msg_body_length m' = msg_body_length m
            \<and> drop header_length (msg_data m') = drop header_length (msg_data m)
            \<and> atoi (header_text m') = int (unat (msg_body_length m))"
proof -
  let ?n = "unat (msg_body_length m)"
  let ?h = "replicate (4 - length (dec ?n)) CHR '' '' @ dec ?n"
  from assms have small: "?n \<le> 512" and len: "length (msg_data m) = 516"
    by (auto simp: wf_message_def chat_consts)
  note h = header_of_small [OF small]
  have lh: "length ?h = 4" using h(2) by simp
  obtain d where d: "blit 0 ?h (msg_data m) = Some d"
    using blit_total [of 0 ?h "msg_data m"] lh len by auto
  have "NUL \<notin> set ?h" using dec_no_NUL by auto
  then have htext: "header_text (m\<lparr>msg_data := d\<rparr>) = ?h"
    using blit_SomeD(4) [OF d] lh by (simp add: header_text_def header_length_def c_str_id)
  have "\<forall>c \<in> set (replicate (4 - length (dec ?n)) CHR '' ''). isspace c"
    by (simp add: isspace_def)
  then have "atoi ?h = int ?n" using atoi_dec [of _ "[]" ?n] by simp
  with htext small len blit_SomeD [OF d] lh d h show ?thesis
    by (intro exI [of _ "m\<lparr>msg_data := d\<rparr>"])
       (simp add: encode_header_def header_length_def wf_message_def max_body_length_def)
qed

lemma wire_split:
  assumes "wf_message m"
  shows "wire m = take header_length (msg_data m) @ body m" and "length (wire m) = header_length + unat (msg_body_length m)"
    and "length (body m) = unat (msg_body_length m)"
proof -
  from assms have "unat (4 + msg_body_length m :: size_t) = 4 + unat (msg_body_length m)"
    by (subst unat_add_no_overflow) (auto simp: wf_message_def chat_consts)
  then show "wire m = take header_length (msg_data m) @ body m"
    using assms by (simp add: wire_def msg_length_def body_def header_length_def take_add)
  with assms show "length (wire m) = header_length + unat (msg_body_length m)"
    and "length (body m) = unat (msg_body_length m)"
    by (auto simp: body_def wf_message_def chat_consts)
qed

text \<open>A message whose header has been encoded for its length.\<close>

definition framed :: "chat_message \<Rightarrow> bool" where
  "framed m \<longleftrightarrow> wf_message m \<and> atoi (header_text m) = int (unat (msg_body_length m))"

section \<open>Properties\<close>

text \<open>
  Encoding the header of a message of at most 512 bytes never overruns the header
  array, leaves the body alone, and decoding the encoded message accepts it and recovers
  exactly its length.
\<close>

theorem header_roundtrip:
  assumes "wf_message m"
  shows "\<exists>m'. encode_header m = Some m' \<and> decode_header m' = (m', True)
            \<and> msg_body_length m' = msg_body_length m \<and> body m' = body m"
proof -
  obtain m' where m': "encode_header m = Some m'" "wf_message m'" "msg_body_length m' = msg_body_length m"
      "drop header_length (msg_data m') = drop header_length (msg_data m)"
      "atoi (header_text m') = int (unat (msg_body_length m))"
    using encode_header_spec [OF assms] by blast
  have "word_of_int (int (unat (msg_body_length m))) = msg_body_length m"
    by simp
  with m' assms have "decode_header m' = (m', True)"
    by (simp add: decode_header_cases wf_message_def max_body_length_def del: of_nat_unat)
  with m' show ?thesis by (auto simp: body_def)
qed

theorem header_roundtrip_witness:
  "\<exists>m'. encode_header \<lparr>msg_data = replicate 516 CHR ''x'', msg_body_length = 42\<rparr> = Some m'
      \<and> decode_header m' = (m', True) \<and> msg_body_length m' = 42"
proof -
  have "wf_message \<lparr>msg_data = replicate 516 CHR ''x'', msg_body_length = 42\<rparr>"
    by (simp add: wf_message_def chat_consts)
  from header_roundtrip [OF this] show ?thesis by auto
qed

text \<open>
  Whatever four bytes arrive from the peer, the body length that
  \<^verbatim>\<open>decode_header\<close> leaves is at most 512, so the read of the body stays inside the array;
  a header is accepted exactly when its decimal value is between 0 and 512, a negative value
  being rejected through its conversion to \<^verbatim>\<open>size_t\<close>.
\<close>

theorem decode_header_safe:
  "unat (msg_body_length (fst (decode_header m))) \<le> max_body_length
   \<and> (snd (decode_header m) = (0 \<le> atoi (header_text m) \<and> atoi (header_text m) \<le> 512))
   \<and> msg_data (fst (decode_header m)) = msg_data m"
  using size_t_of_header(2) [OF header_value_bound [of m]]
  by (auto simp: decode_header_cases Let_def max_body_length_def)

section \<open>Framing a stream\<close>

text \<open>
  The client's input buffer holds at most 512 characters of a line.  Every such line becomes
  a framed message with that body.
\<close>

lemma make_message_framed:
  assumes mem: "length mem = header_length + max_body_length" and line: "length line \<le> max_body_length"
  shows "\<exists>m. make_message mem line = Some m \<and> framed m \<and> body m = c_str line"
proof -
  let ?s = "c_str line"
  let ?m = "set_body_length (of_nat (length ?s)) (ChatMessage mem)"
  have ls: "length ?s \<le> 512"
    using line length_takeWhile_le [of "\<lambda>c. c \<noteq> NUL" line] by (simp add: c_str_def max_body_length_def)
  have n: "unat (msg_body_length ?m) = length ?s"
    using ls by (simp add: set_body_length_bound max_body_length_def unat_of_nat_small)
  have d: "msg_data ?m = mem" by (simp add: set_body_length_def ChatMessage_def Let_def)
  obtain x where x: "blit header_length ?s mem = Some x"
    using blit_total [of header_length ?s mem] mem ls by (auto simp: max_body_length_def)
  have "wf_message (?m\<lparr>msg_data := x\<rparr>)"
    using mem n ls blit_SomeD(1) [OF x] by (simp add: wf_message_def max_body_length_def)
  from encode_header_spec [OF this] obtain m' where
      m': "encode_header (?m\<lparr>msg_data := x\<rparr>) = Some m'" "wf_message m'"
      "msg_body_length m' = msg_body_length ?m" "drop header_length (msg_data m') = drop header_length x"
      "atoi (header_text m') = int (unat (msg_body_length ?m))"
    by auto
  have "make_message mem line = Some m'"
    using m'(1) x n by (simp add: make_message_def write_body_def d Let_def)
  moreover have "body m' = ?s"
    using m'(3,4) n blit_SomeD(3) [OF x] by (simp add: body_def)
  ultimately show ?thesis using m' by (auto simp: framed_def)
qed

lemma read_loop_step:
  assumes f: "framed m" and m0: "length (msg_data m0) = header_length + max_body_length"
  shows "\<exists>m3. read_loop m0 (wire m @ rest) = m3 # read_loop m3 rest \<and> body m3 = body m
            \<and> framed m3 \<and> length (msg_data m3) = header_length + max_body_length"
proof -
  let ?n = "unat (msg_body_length m)"
  from f have wf: "wf_message m" and at: "atoi (header_text m) = int ?n" and n: "?n \<le> 512"
    by (auto simp: framed_def wf_message_def max_body_length_def)
  note w = wire_split [OF wf]
  let ?h = "take header_length (msg_data m)"
  have lh: "length ?h = header_length" using wf by (simp add: wf_message_def)
  obtain x where x: "blit 0 ?h (msg_data m0) = Some x"
    using blit_total [of 0 ?h "msg_data m0"] m0 lh by auto
  let ?m1 = "m0\<lparr>msg_data := x\<rparr>"
  have ht: "header_text ?m1 = header_text m"
    using blit_SomeD(4) [OF x] lh by (simp add: header_text_def)
  let ?m2 = "?m1\<lparr>msg_body_length := msg_body_length m\<rparr>"
  have wn: "(of_nat ?n :: size_t) = msg_body_length m" by simp
  have dec: "decode_header ?m1 = (?m2, True)"
    using at n by (simp add: decode_header_cases ht wn del: of_nat_unat)
  have lb: "length (body m) = ?n" by (rule w(3))
  obtain y where y: "blit header_length (body m) x = Some y"
    using blit_total [of header_length "body m" x] blit_SomeD(1) [OF x] m0 n lb
    by (auto simp: max_body_length_def)
  let ?m3 = "?m2\<lparr>msg_data := y\<rparr>"
  have eq: "read_loop m0 (wire m @ rest) = ?m3 # read_loop ?m3 rest"
    using lh lb by (subst read_loop.simps)
      (simp add: w(1) read_header_def x dec write_body_def y Let_def)
  have len: "length y = header_length + max_body_length"
    using blit_SomeD(1) [OF x] blit_SomeD(1) [OF y] m0 by simp
  have "take header_length y = ?h"
    using blit_SomeD(2) [OF y] blit_SomeD(4) [OF x] lh by simp
  then have "header_text ?m3 = header_text m" by (simp add: header_text_def)
  with at n len have "framed ?m3" by (simp add: framed_def wf_message_def max_body_length_def)
  moreover have "body ?m3 = body m" using blit_SomeD(3) [OF y] lb by (simp add: body_def)
  ultimately show ?thesis using eq len by (intro exI [of _ ?m3]) simp
qed

lemma stream_bodies:
  assumes "\<forall>m \<in> set ms. framed m" and "length (msg_data m0) = header_length + max_body_length"
  shows "map body (read_loop m0 (concat (map wire ms))) = map body ms"
  using assms
proof (induction ms arbitrary: m0)
  case Nil
  then show ?case by (simp add: read_loop.simps header_length_def)
next
  case (Cons m ms)
  then obtain m3 where "read_loop m0 (wire m @ concat (map wire ms)) = m3 # read_loop m3 (concat (map wire ms))"
      "body m3 = body m" "length (msg_data m3) = header_length + max_body_length"
    using read_loop_step [of m m0 "concat (map wire ms)"] by auto
  with Cons show ?case by simp
qed

text \<open>
  Claim C8.  Framing is transparent: a receiver that reads the concatenated wire images of
  any sequence of framed messages delivers exactly those bodies in that order and nothing else.
\<close>

theorem stream_roundtrip:
  assumes "\<forall>m \<in> set ms. framed m" and "length (msg_data m0) = header_length + max_body_length"
  shows "map body (read_loop m0 (concat (map wire ms))) = map body ms"
  using assms by (rule stream_bodies)

theorem stream_roundtrip_witness:
  "\<exists>m1 m2. make_message (replicate 516 NUL) ''hello'' = Some m1
     \<and> make_message (replicate 516 NUL) '''' = Some m2
     \<and> map body (read_loop m1 (concat (map wire [m1, m2, m1]))) = [''hello'', '''', ''hello'']"
proof -
  have len: "length (replicate 516 NUL) = header_length + max_body_length"
    by (simp add: chat_consts)
  obtain m1 where m1: "make_message (replicate 516 NUL) ''hello'' = Some m1" "framed m1" "body m1 = ''hello''"
    using make_message_framed [OF len, of "''hello''"] by (auto simp: max_body_length_def c_str_def)
  obtain m2 where m2: "make_message (replicate 516 NUL) '''' = Some m2" "framed m2" "body m2 = ''''"
    using make_message_framed [OF len, of "''''"] by (auto simp: max_body_length_def c_str_def)
  have "map body (read_loop m1 (concat (map wire [m1, m2, m1]))) = map body [m1, m2, m1]"
    using m1 m2 by (intro stream_roundtrip) (auto simp: framed_def wf_message_def)
  with m1 m2 show ?thesis by auto
qed

end
