(* ===== verification/Chat.thy ===== *)
theory Chat
  imports Chat_Message
begin

text \<open>
  The chat server, \<^verbatim>\<open>Source/ChatServer/\<close>: \<^verbatim>\<open>ChatRoom\<close>, \<^verbatim>\<open>ChatSession\<close> and
  \<^verbatim>\<open>ChatServer\<close>, and the client of \<^verbatim>\<open>Source/ChatClient/ChatClient.cpp\<close>.  All
  handlers run on one \<^verbatim>\<open>io_service\<close>, so a run is a sequence of completed handlers: an
  accept, the end of a header read, of a body read or of a write, each with success or an
  error.  Every handler is one equation of the step functions.  Fields marked ghost are not
  in the code; they record what the properties speak about.
\<close>

section \<open>State\<close>

text \<open>Which \<^verbatim>\<open>async_read\<close> of a session is outstanding.\<close>

datatype read_state = ReadHeader | ReadBody | ReadNone

record chat_session =
  MessageRead :: chat_message
  WriteMessages :: "chat_message list"
  reading :: read_state
  writing :: bool \<comment> \<open>an \<^verbatim>\<open>async_write\<close> is outstanding\<close>
  sent :: "chat_message list" \<comment> \<open>ghost: messages written to the connection\<close>
  joined_at :: nat \<comment> \<open>ghost: index in the history of the first message it was given\<close>

record chat_state =
  Participants :: "nat set"
  RecentMessages :: "chat_message list"
  sessions :: "nat \<Rightarrow> chat_session option"
  next_session :: nat
  history :: "chat_message list" \<comment> \<open>ghost: every message the room delivered\<close>

definition max_recent_msgs :: nat where "max_recent_msgs = 100"

section \<open>Sessions\<close>

definition ChatSession :: "string \<Rightarrow> chat_session" where
  "ChatSession mem =
     \<lparr>MessageRead = ChatMessage mem, WriteMessages = [], reading = ReadNone, writing = False,
      sent = [], joined_at = 0\<rparr>"

definition do_write :: "chat_session \<Rightarrow> chat_session" where
  "do_write s = s\<lparr>writing := True\<rparr>"

definition do_read_header :: "chat_session \<Rightarrow> chat_session" where
  "do_read_header s = s\<lparr>reading := ReadHeader\<rparr>"

definition do_read_body :: "chat_session \<Rightarrow> chat_session" where
  "do_read_body s = s\<lparr>reading := ReadBody\<rparr>"

definition Deliver :: "chat_message \<Rightarrow> chat_session \<Rightarrow> chat_session" where
  "Deliver msg s =
     (let write_in_progress = WriteMessages s \<noteq> [];
          s1 = s\<lparr>WriteMessages := WriteMessages s @ [msg]\<rparr>
      in if \<not> write_in_progress then do_write s1 else s1)"

text \<open>The completion handler of \<^verbatim>\<open>do_write\<close>, without its error branch.\<close>

definition on_written :: "chat_session \<Rightarrow> chat_session" where
  "on_written s =
     (let s1 = s\<lparr>WriteMessages := tl (WriteMessages s), sent := sent s @ [hd (WriteMessages s)],
                 writing := False\<rparr>
      in if WriteMessages s1 \<noteq> [] then do_write s1 else s1)"

section \<open>The room\<close>

definition update_session :: "nat \<Rightarrow> (chat_session \<Rightarrow> chat_session) \<Rightarrow> chat_state \<Rightarrow> chat_state" where
  "update_session i f st = st\<lparr>sessions := (sessions st)(i := map_option f (sessions st i))\<rparr>"

definition Join :: "nat \<Rightarrow> chat_state \<Rightarrow> chat_state" where
  "Join i st =
     update_session i (fold Deliver (RecentMessages st))
       (st\<lparr>Participants := insert i (Participants st)\<rparr>)"

definition Leave :: "nat \<Rightarrow> chat_state \<Rightarrow> chat_state" where
  "Leave i st = st\<lparr>Participants := Participants st - {i}\<rparr>"

fun trim_recent :: "chat_message list \<Rightarrow> chat_message list" where
  "trim_recent [] = []"
| "trim_recent (m # ms) = (if length (m # ms) > max_recent_msgs then trim_recent ms else m # ms)"

definition room_deliver :: "chat_message \<Rightarrow> chat_state \<Rightarrow> chat_state" where
  "room_deliver msg st =
     st\<lparr>RecentMessages := trim_recent (RecentMessages st @ [msg]),
        sessions := (\<lambda>i. if i \<in> Participants st then map_option (Deliver msg) (sessions st i)
                         else sessions st i),
        history := history st @ [msg]\<rparr>"

section \<open>The server's handlers\<close>

text \<open>
  An accepted connection gets a session over the memory \<open>mem\<close>; \<^verbatim>\<open>start()\<close> joins the
  room and reads the first header.
\<close>

definition start :: "string \<Rightarrow> chat_state \<Rightarrow> chat_state" where
  "start mem st =
     (let i = next_session st;
          s = (ChatSession mem)\<lparr>joined_at := length (history st) - length (RecentMessages st)\<rparr>
      in update_session i do_read_header
           (Join i (st\<lparr>sessions := (sessions st)(i \<mapsto> s), next_session := Suc i\<rparr>)))"

datatype chat_event =
    Accepted string | AcceptError
  | HeaderRead nat string | HeaderError nat
  | BodyRead nat string | BodyError nat
  | Written nat | WriteError nat

text \<open>
  \<^term>\<open>None\<close> is either an event that cannot happen (no such operation is outstanding, or it
  completes with a wrong number of bytes) or an access outside a message's array.
\<close>

definition header_handler :: "nat \<Rightarrow> string \<Rightarrow> chat_session \<Rightarrow> chat_state \<Rightarrow> chat_state option" where
  "header_handler i hs s st =
     (case read_header hs (MessageRead s) of
        None \<Rightarrow> None
      | Some m \<Rightarrow>
          (let (m', ok) = decode_header m;
               st' = update_session i (\<lambda>s. s\<lparr>MessageRead := m', reading := ReadNone\<rparr>) st
           in Some (if ok then update_session i do_read_body st' else Leave i st')))"

definition body_handler :: "nat \<Rightarrow> string \<Rightarrow> chat_session \<Rightarrow> chat_state \<Rightarrow> chat_state option" where
  "body_handler i bs s st =
     (case write_body bs (MessageRead s) of
        None \<Rightarrow> None
      | Some m \<Rightarrow>
          Some (update_session i do_read_header
                  (room_deliver m (update_session i (\<lambda>s. s\<lparr>MessageRead := m, reading := ReadNone\<rparr>) st))))"

fun chat_step :: "chat_event \<Rightarrow> chat_state \<Rightarrow> chat_state option" where
  "chat_step (Accepted mem) st =
     (if length mem = header_length + max_body_length then Some (start mem st) else None)"
| "chat_step AcceptError st = Some st"
| "chat_step (HeaderRead i hs) st =
     (case sessions st i of None \<Rightarrow> None
      | Some s \<Rightarrow> if reading s = ReadHeader \<and> length hs = header_length
                  then header_handler i hs s st else None)"
| "chat_step (HeaderError i) st =
     (case sessions st i of None \<Rightarrow> None
      | Some s \<Rightarrow> if reading s = ReadHeader
                  then Some (Leave i (update_session i (\<lambda>s. s\<lparr>reading := ReadNone\<rparr>) st)) else None)"
| "chat_step (BodyRead i bs) st =
     (case sessions st i of None \<Rightarrow> None
      | Some s \<Rightarrow> if reading s = ReadBody \<and> length bs = unat (msg_body_length (MessageRead s))
                  then body_handler i bs s st else None)"
| "chat_step (BodyError i) st =
     (case sessions st i of None \<Rightarrow> None
      | Some s \<Rightarrow> if reading s = ReadBody
                  then Some (Leave i (update_session i (\<lambda>s. s\<lparr>reading := ReadNone\<rparr>) st)) else None)"
| "chat_step (Written i) st =
     (case sessions st i of None \<Rightarrow> None
      | Some s \<Rightarrow> if writing s then Some (update_session i on_written st) else None)"
| "chat_step (WriteError i) st =
     (case sessions st i of None \<Rightarrow> None
      | Some s \<Rightarrow> if writing s
                  then Some (Leave i (update_session i (\<lambda>s. s\<lparr>writing := False\<rparr>) st)) else None)"

definition chat_init :: chat_state where
  "chat_init = \<lparr>Participants = {}, RecentMessages = [], sessions = (\<lambda>_. None), next_session = 0,
                history = []\<rparr>"

inductive chat_reachable :: "chat_state \<Rightarrow> bool" where
  init: "chat_reachable chat_init"
| step: "chat_reachable st \<Longrightarrow> chat_step e st = Some st' \<Longrightarrow> chat_reachable st'"

section \<open>Invariants\<close>

lemma trim_recent_eq: "trim_recent ms = drop (length ms - max_recent_msgs) ms"
  by (induction ms) (auto simp: Suc_diff_le)

lemma trim_recent_history:
  "trim_recent (drop (length h - max_recent_msgs) h @ [m]) = drop (length (h @ [m]) - max_recent_msgs) (h @ [m])"
proof -
  let ?k = "length h - max_recent_msgs"
  have "drop ?k h @ [m] = drop ?k (h @ [m])" by simp
  moreover have "length (h @ [m]) - ?k - max_recent_msgs + ?k = length (h @ [m]) - max_recent_msgs"
    by (simp add: max_recent_msgs_def)
  ultimately show ?thesis by (simp only: trim_recent_eq drop_drop length_drop)
qed

text \<open>
  A session's queue and its outstanding write agree; a participant has been given exactly the
  suffix of the history that starts where it joined, part of it sent and the rest queued.
\<close>

definition session_ok :: "chat_session \<Rightarrow> bool" where
  "session_ok s \<longleftrightarrow> length (msg_data (MessageRead s)) = header_length + max_body_length
     \<and> (reading s = ReadBody \<longrightarrow> framed (MessageRead s))
     \<and> (writing s \<longrightarrow> WriteMessages s \<noteq> [])"

definition member_ok :: "chat_message list \<Rightarrow> chat_session \<Rightarrow> bool" where
  "member_ok h s \<longleftrightarrow> joined_at s \<le> length h \<and> sent s @ WriteMessages s = drop (joined_at s) h
     \<and> (WriteMessages s \<noteq> [] \<longrightarrow> writing s)"

definition chat_inv :: "chat_state \<Rightarrow> bool" where
  "chat_inv st \<longleftrightarrow>
     RecentMessages st = drop (length (history st) - max_recent_msgs) (history st)
     \<and> (\<forall>m \<in> set (history st). framed m)
     \<and> (\<forall>i s. sessions st i = Some s \<longrightarrow> session_ok s \<and> i < next_session st)
     \<and> (\<forall>i \<in> Participants st. \<exists>s. sessions st i = Some s \<and> member_ok (history st) s)"

lemmas session_defs = session_ok_def member_ok_def do_write_def do_read_header_def do_read_body_def
  on_written_def

lemma Deliver_fields [simp]:
  "WriteMessages (Deliver m s) = WriteMessages s @ [m]" "sent (Deliver m s) = sent s"
  "joined_at (Deliver m s) = joined_at s" "MessageRead (Deliver m s) = MessageRead s"
  "reading (Deliver m s) = reading s" "writing (Deliver m s) = (WriteMessages s = [] \<or> writing s)"
  by (simp_all add: Deliver_def do_write_def Let_def)

lemma fold_Deliver_queue [simp]: "WriteMessages (fold Deliver ms s) = WriteMessages s @ ms"
  by (induction ms arbitrary: s) simp_all

lemma fold_Deliver_fields [simp]:
  "sent (fold Deliver ms s) = sent s" "joined_at (fold Deliver ms s) = joined_at s"
  "MessageRead (fold Deliver ms s) = MessageRead s" "reading (fold Deliver ms s) = reading s"
  by (induct ms arbitrary: s) simp_all

lemma fold_Deliver_writing:
  "WriteMessages s = [] \<Longrightarrow> \<not> writing s \<Longrightarrow> writing (fold Deliver ms s) \<longleftrightarrow> ms \<noteq> []"
proof (cases ms)
  case (Cons m ns)
  have "writing (fold Deliver ns t)" if "writing t" for t
    using that by (induction ns arbitrary: t) simp_all
  then show ?thesis if "WriteMessages s = []" using that Cons by simp
qed simp

lemma Deliver_session_ok: "session_ok s \<Longrightarrow> session_ok (Deliver m s)"
  by (auto simp: session_ok_def)

lemma Deliver_member_ok: "member_ok h s \<Longrightarrow> member_ok (h @ [m]) (Deliver m s)"
  by (auto simp: member_ok_def)

lemma on_written_ok:
  assumes "session_ok s" and "writing s"
  shows "session_ok (on_written s)" and "member_ok h s \<Longrightarrow> member_ok h (on_written s)"
  using assms by (auto simp: session_defs neq_Nil_conv Let_def)

lemma update_session_inv:
  assumes "chat_inv st" and "sessions st i = Some s" and "session_ok (f s)"
    and "member_ok (history st) s \<Longrightarrow> member_ok (history st) (f s)"
  shows "chat_inv (update_session i f st)"
  using assms by (auto simp: chat_inv_def update_session_def)

lemma do_read_fun:
  "do_read_header = (\<lambda>s. s\<lparr>reading := ReadHeader\<rparr>)" "do_read_body = (\<lambda>s. s\<lparr>reading := ReadBody\<rparr>)"
  by (simp_all add: fun_eq_iff do_read_header_def do_read_body_def)

lemma Leave_inv: "chat_inv st \<Longrightarrow> chat_inv (Leave i st)"
  by (auto simp: chat_inv_def Leave_def)

lemma sessions_update_session [simp]:
  "sessions (update_session i f st) j = (if j = i then map_option f (sessions st i) else sessions st j)"
  by (simp add: update_session_def)

lemma room_deliver_inv: "chat_inv st \<Longrightarrow> framed m \<Longrightarrow> chat_inv (room_deliver m st)"
  by (auto simp: chat_inv_def room_deliver_def trim_recent_history Deliver_session_ok
      dest: Deliver_member_ok split: if_splits) (metis option.simps(9) Deliver_member_ok)

lemma update_session_fields [simp]:
  "history (update_session i f st) = history st" "Participants (update_session i f st) = Participants st"
  "next_session (update_session i f st) = next_session st" "RecentMessages (update_session i f st) = RecentMessages st"
  by (simp_all add: update_session_def)

lemma session_ok_of: "chat_inv st \<Longrightarrow> sessions st i = Some s \<Longrightarrow> session_ok s"
  by (simp add: chat_inv_def)

lemma joining_ok:
  assumes "h' = drop n h" and "n \<le> length h" and "length mem = header_length + max_body_length"
  shows "session_ok (do_read_header (fold Deliver h' ((ChatSession mem)\<lparr>joined_at := n\<rparr>)))"
    and "member_ok h (do_read_header (fold Deliver h' ((ChatSession mem)\<lparr>joined_at := n\<rparr>)))"
proof -
  let ?s = "(ChatSession mem)\<lparr>joined_at := n\<rparr>"
  have "WriteMessages ?s = []" "\<not> writing ?s" by (simp_all add: ChatSession_def)
  note w = fold_Deliver_writing [OF this]
  show "session_ok (do_read_header (fold Deliver h' ?s))" and "member_ok h (do_read_header (fold Deliver h' ?s))"
    using assms by (simp_all add: session_ok_def member_ok_def do_read_header_def w)
      (simp_all add: ChatSession_def ChatMessage_def)
qed

lemma start_inv:
  assumes inv: "chat_inv st" and mem: "length mem = header_length + max_body_length"
  shows "chat_inv (start mem st)"
proof -
  let ?n = "length (history st) - length (RecentMessages st)"
  have r: "RecentMessages st = drop ?n (history st)"
    using inv by (simp add: chat_inv_def max_recent_msgs_def)
  note new = joining_ok [OF r _ mem]
  have "sessions st j = Some s \<Longrightarrow> session_ok s \<and> j < Suc (next_session st)" for j s
    using inv by (auto simp: chat_inv_def less_Suc_eq)
  moreover have "j \<in> Participants st \<Longrightarrow> j \<noteq> next_session st" for j
    using inv by (force simp: chat_inv_def)
  ultimately show ?thesis
    using inv new by (auto simp: chat_inv_def start_def Join_def update_session_def Let_def)
qed

lemma read_done_inv:
  assumes "chat_inv st" and "sessions st i = Some s"
    and "length (msg_data m) = header_length + max_body_length"
  shows "chat_inv (update_session i (\<lambda>s. s\<lparr>MessageRead := m, reading := ReadNone\<rparr>) st)"
  using assms session_ok_of [OF assms(1,2)]
  by (intro update_session_inv) (auto simp: session_ok_def member_ok_def)

lemma reading_inv:
  assumes "chat_inv st" and "\<And>s. sessions st i = Some s \<Longrightarrow> r = ReadBody \<Longrightarrow> framed (MessageRead s)"
  shows "chat_inv (update_session i (\<lambda>s. s\<lparr>reading := r\<rparr>) st)"
proof (cases "sessions st i")
  case None
  then have "(sessions st)(i := None) = sessions st" by auto
  with None assms(1) show ?thesis by (simp add: update_session_def)
next
  case (Some s)
  then show ?thesis
    using assms session_ok_of [OF assms(1) Some]
    by (intro update_session_inv) (auto simp: session_ok_def member_ok_def)
qed

lemma write_failed_inv:
  assumes "chat_inv st" and "sessions st i = Some s"
  shows "chat_inv (Leave i (update_session i (\<lambda>s. s\<lparr>writing := False\<rparr>) st))"
  using assms by (auto simp: chat_inv_def Leave_def update_session_def session_ok_def)

lemma decode_header_framed:
  assumes "length (msg_data m) = header_length + max_body_length" and "snd (decode_header m)"
  shows "framed (fst (decode_header m))"
proof -
  let ?n = "atoi (header_text m)"
  from assms(2) have n: "0 \<le> ?n" "?n \<le> 512" by (auto simp: decode_header_cases Let_def split: if_splits)
  then have d: "fst (decode_header m) = m\<lparr>msg_body_length := word_of_int ?n\<rparr>" by (simp add: decode_header_cases)
  have "int (unat (word_of_int ?n :: size_t)) = ?n"
    using size_t_of_header(2) [OF header_value_bound [of m] n(1)] n(1) by (simp del: of_nat_unat)
  moreover have "header_text (fst (decode_header m)) = header_text m" by (simp add: d header_text_def)
  ultimately show ?thesis
    using decode_header_wf [OF assms(1)] by (simp add: framed_def d del: of_nat_unat)
qed

lemma write_body_framed:
  assumes "framed m" and "length bs = unat (msg_body_length m)"
  shows "\<exists>m'. write_body bs m = Some m' \<and> framed m' \<and> body m' = bs \<and> msg_body_length m' = msg_body_length m"
proof -
  from assms obtain x where x: "blit header_length bs (msg_data m) = Some x"
    using blit_total [of header_length bs "msg_data m"] by (auto simp: framed_def wf_message_def)
  have "header_text (m\<lparr>msg_data := x\<rparr>) = header_text m"
    using blit_SomeD(2) [OF x] by (simp add: header_text_def)
  with assms x blit_SomeD(1) [OF x] blit_SomeD(3) [OF x] show ?thesis
    by (auto simp: write_body_def framed_def wf_message_def body_def)
qed

lemma header_handler_inv:
  assumes inv: "chat_inv st" and s: "sessions st i = Some s" and h: "header_handler i hs s st = Some st'"
  shows "chat_inv st'"
proof -
  from h obtain m where m: "read_header hs (MessageRead s) = Some m" by (auto simp: header_handler_def split: option.splits)
  then have len: "length (msg_data m) = header_length + max_body_length"
    using session_ok_of [OF inv s] by (auto simp: read_header_def session_ok_def dest: blit_SomeD(1))
  obtain m' ok where d: "decode_header m = (m', ok)" by fastforce
  have inv': "chat_inv (update_session i (\<lambda>s. s\<lparr>MessageRead := m', reading := ReadNone\<rparr>) st)"
    using decode_header_wf [OF len] d by (intro read_done_inv [OF inv s]) (simp add: wf_message_def)
  have "ok \<Longrightarrow> framed m'" using decode_header_framed [OF len] d by simp
  then have "ok \<Longrightarrow> chat_inv (update_session i do_read_body (update_session i (\<lambda>s. s\<lparr>MessageRead := m', reading := ReadNone\<rparr>) st))"
    unfolding do_read_fun using s by (intro reading_inv [OF inv']) auto
  with Leave_inv [OF inv', of i] h m d show ?thesis
    by (cases ok) (auto simp: header_handler_def do_read_fun)
qed

lemma body_handler_inv:
  assumes inv: "chat_inv st" and s: "sessions st i = Some s" and r: "reading s = ReadBody"
    and bs: "length bs = unat (msg_body_length (MessageRead s))"
  shows "\<exists>st'. body_handler i bs s st = Some st' \<and> chat_inv st'"
proof -
  from session_ok_of [OF inv s] r have "framed (MessageRead s)" by (simp add: session_ok_def)
  from write_body_framed [OF this bs] obtain m where m: "write_body bs (MessageRead s) = Some m" "framed m" by auto
  have "chat_inv (update_session i (\<lambda>s. s\<lparr>MessageRead := m, reading := ReadNone\<rparr>) st)"
    using m(2) by (intro read_done_inv [OF inv s]) (simp add: framed_def wf_message_def)
  from reading_inv [OF room_deliver_inv [OF this m(2)], of i ReadHeader] m(1) show ?thesis
    by (auto simp: body_handler_def do_read_fun)
qed

lemma chat_step_inv:
  assumes "chat_inv st" and "chat_step e st = Some st'"
  shows "chat_inv st'"
proof (cases e)
  case (HeaderRead i hs)
  with assms header_handler_inv show ?thesis by (auto split: option.splits if_splits)
next
  case (BodyRead i bs)
  with assms body_handler_inv [OF assms(1)] show ?thesis by (fastforce split: option.splits if_splits)
next
  case (Written i)
  with assms on_written_ok session_ok_of [OF assms(1)] show ?thesis
    by (auto split: option.splits if_splits intro!: update_session_inv [OF assms(1)])
qed (use assms start_inv write_failed_inv Leave_inv reading_inv [of st _ ReadNone] in
      \<open>auto split: option.splits if_splits\<close>)

theorem chat_reachable_inv: "chat_reachable st \<Longrightarrow> chat_inv st"
proof (induction rule: chat_reachable.induct)
  case init
  then show ?case by (simp add: chat_inv_def chat_init_def)
qed (rule chat_step_inv)

lemma reachable_member:
  assumes "chat_reachable st" and "i \<in> Participants st"
  obtains s where "sessions st i = Some s" "session_ok s" "member_ok (history st) s"
  using chat_reachable_inv [OF assms(1)] assms(2) by (auto simp: chat_inv_def)

fun chat_run :: "chat_event list \<Rightarrow> chat_state \<Rightarrow> chat_state option" where
  "chat_run [] st = Some st"
| "chat_run (e # es) st = Option.bind (chat_step e st) (chat_run es)"

lemma chat_run_reachable: "chat_reachable st \<Longrightarrow> chat_run es st = Some st' \<Longrightarrow> chat_reachable st'"
  by (induction es arbitrary: st) (auto split: Option.bind_splits intro: chat_reachable.step)


definition one_line_run :: "chat_event list" where
  "one_line_run =
     [Accepted (replicate 516 NUL), HeaderRead 0 ''   2'', BodyRead 0 ''hi'', Written 0,
      Accepted (replicate 516 NUL)]"

lemma one_line_run_result:
  "map_option (\<lambda>st. (Participants st = {0, 1}, map body (history st),
       map_option (\<lambda>s. map body (WriteMessages s)) (sessions st 1))) (chat_run one_line_run chat_init)
   = Some (True, [''hi''], Some [''hi''])"
  by code_simp


text \<open>
  Claim C28.  The recent messages are the last hundred of the history, every message ever
  delivered is well framed, and the read handlers are memory safe: whatever bytes complete
  an outstanding header or body read, the handler stays inside the message's array and the
  server goes on.
\<close>

theorem chat_read_safe:
  assumes "chat_reachable st" and "sessions st i = Some s"
  shows "RecentMessages st = drop (length (history st) - 100) (history st)
    \<and> (\<forall>m \<in> set (history st). framed m)
    \<and> (reading s = ReadHeader \<longrightarrow> length hs = header_length \<longrightarrow> chat_step (HeaderRead i hs) st \<noteq> None)
    \<and> (reading s = ReadBody \<longrightarrow> length bs = unat (msg_body_length (MessageRead s))
         \<longrightarrow> chat_step (BodyRead i bs) st \<noteq> None)"
proof -
  note inv = chat_reachable_inv [OF assms(1)]
  have "reading s = ReadHeader \<longrightarrow> length hs = header_length \<longrightarrow> chat_step (HeaderRead i hs) st \<noteq> None"
    using assms(2) session_ok_of [OF inv assms(2)] blit_total [of 0 hs "msg_data (MessageRead s)"]
    by (auto simp: header_handler_def read_header_def session_ok_def Let_def split: prod.splits)
  moreover have "reading s = ReadBody \<longrightarrow> length bs = unat (msg_body_length (MessageRead s))
         \<longrightarrow> chat_step (BodyRead i bs) st \<noteq> None"
    using assms(2) body_handler_inv [OF inv assms(2)] by auto
  ultimately show ?thesis using inv by (simp add: chat_inv_def max_recent_msgs_def)
qed

theorem chat_read_safe_witness:
  "\<exists>st s. chat_run [Accepted (replicate 516 NUL)] chat_init = Some st \<and> sessions st 0 = Some s
     \<and> reading s = ReadHeader \<and> chat_step (HeaderRead 0 ''abcd'') st \<noteq> None"
proof -
  have "map_option (\<lambda>st. map_option reading (sessions st 0)) (chat_run [Accepted (replicate 516 NUL)] chat_init)
      = Some (Some ReadHeader)" by code_simp
  then obtain st s where st: "chat_run [Accepted (replicate 516 NUL)] chat_init = Some st"
      "sessions st 0 = Some s" "reading s = ReadHeader" by auto
  from chat_read_safe [OF chat_run_reachable [OF chat_reachable.init st(1)] st(2), of "''abcd''" "[]"] st
  show ?thesis by (auto simp: header_length_def)
qed

end
