(* ===== verification/Chat_Client.thy ===== *)
theory Chat_Client
  imports Chat
begin

text \<open>
  The chat client, \<^verbatim>\<open>Source/ChatClient/ChatClient.cpp\<close>: the handlers that its
  \<^verbatim>\<open>io_service\<close> thread runs, one after the other.  \<^verbatim>\<open>write\<close> and \<^verbatim>\<open>close\<close> are
  called from the input thread and post a handler; the model's \<open>PostedWrite\<close> and
  \<open>PostedClose\<close> are those handlers running.  The ghost fields record what was posted,
  what went to the connection and what came from it.
\<close>

section \<open>State and handlers\<close>

record chat_client =
  read_msg :: chat_message
  write_msgs :: "chat_message list"
  c_reading :: read_state
  c_writing :: bool
  connecting :: bool \<comment> \<open>the \<^verbatim>\<open>async_connect\<close> is outstanding\<close>
  socket_open :: bool
  cout :: "string list" \<comment> \<open>the lines written to the terminal\<close>
  posted :: "chat_message list" \<comment> \<open>ghost\<close>
  c_sent :: "chat_message list" \<comment> \<open>ghost\<close>
  c_received :: string \<comment> \<open>ghost\<close>

definition chat_client_init :: "string \<Rightarrow> chat_client" where
  "chat_client_init mem =
     \<lparr>read_msg = ChatMessage mem, write_msgs = [], c_reading = ReadNone, c_writing = False,
      connecting = True, socket_open = True, cout = [], posted = [], c_sent = [], c_received = []\<rparr>"

definition client_do_write :: "chat_client \<Rightarrow> chat_client" where
  "client_do_write c = c\<lparr>c_writing := True\<rparr>"

definition client_write :: "chat_message \<Rightarrow> chat_client \<Rightarrow> chat_client" where
  "client_write msg c =
     (let write_in_progress = write_msgs c \<noteq> [];
          c1 = c\<lparr>write_msgs := write_msgs c @ [msg], posted := posted c @ [msg]\<rparr>
      in if \<not> write_in_progress then client_do_write c1 else c1)"

definition client_close :: "chat_client \<Rightarrow> chat_client" where
  "client_close c = c\<lparr>socket_open := False\<rparr>"

definition client_on_written :: "chat_client \<Rightarrow> chat_client" where
  "client_on_written c =
     (let c1 = c\<lparr>write_msgs := tl (write_msgs c), c_sent := c_sent c @ [hd (write_msgs c)], c_writing := False\<rparr>
      in if write_msgs c1 \<noteq> [] then client_do_write c1 else c1)"

definition client_on_header :: "string \<Rightarrow> chat_client \<Rightarrow> chat_client option" where
  "client_on_header hs c =
     map_option (\<lambda>m. let (m', ok) = decode_header m;
                         c1 = c\<lparr>read_msg := m', c_received := c_received c @ hs\<rparr>
                     in if ok then c1\<lparr>c_reading := ReadBody\<rparr>
                        else client_close (c1\<lparr>c_reading := ReadNone\<rparr>))
       (read_header hs (read_msg c))"

definition client_on_body :: "string \<Rightarrow> chat_client \<Rightarrow> chat_client option" where
  "client_on_body bs c =
     map_option (\<lambda>m. c\<lparr>read_msg := m, c_received := c_received c @ bs, cout := cout c @ [body m],
                       c_reading := ReadHeader\<rparr>)
       (write_body bs (read_msg c))"

datatype client_event =
    ConnectDone | ConnectError
  | PostedWrite chat_message | PostedClose
  | HeaderDone string | BodyDone string | ReadError
  | WriteDone | WriteFailed

fun client_step :: "client_event \<Rightarrow> chat_client \<Rightarrow> chat_client option" where
  "client_step ConnectDone c =
     (if connecting c then Some (c\<lparr>connecting := False, c_reading := ReadHeader\<rparr>) else None)"
| "client_step ConnectError c = (if connecting c then Some (c\<lparr>connecting := False\<rparr>) else None)"
| "client_step (PostedWrite msg) c = Some (client_write msg c)"
| "client_step PostedClose c = Some (client_close c)"
| "client_step (HeaderDone hs) c =
     (if c_reading c = ReadHeader \<and> length hs = header_length then client_on_header hs c else None)"
| "client_step (BodyDone bs) c =
     (if c_reading c = ReadBody \<and> length bs = unat (msg_body_length (read_msg c)) then client_on_body bs c else None)"
| "client_step ReadError c =
     (if c_reading c \<noteq> ReadNone then Some (client_close (c\<lparr>c_reading := ReadNone\<rparr>)) else None)"
| "client_step WriteDone c = (if c_writing c then Some (client_on_written c) else None)"
| "client_step WriteFailed c = (if c_writing c then Some (client_close (c\<lparr>c_writing := False\<rparr>)) else None)"

inductive client_reachable :: "string \<Rightarrow> chat_client \<Rightarrow> bool" for mem where
  init: "client_reachable mem (chat_client_init mem)"
| step: "client_reachable mem c \<Longrightarrow> client_step e c = Some c' \<Longrightarrow> client_reachable mem c'"

section \<open>The terminal shows what the receiving loop delivers\<close>

text \<open>
  The receiving loop of the wire format, started on the client's first message object, has
  read \<open>c_received\<close> and stands where the client stands.
\<close>

definition loop_at :: "string \<Rightarrow> chat_client \<Rightarrow> bool" where
  "loop_at mem c \<longleftrightarrow> length (msg_data (read_msg c)) = header_length + max_body_length
     \<and> (connecting c \<longrightarrow> c_reading c = ReadNone \<and> c_received c = [] \<and> cout c = [] \<and> read_msg c = ChatMessage mem)
     \<and> (case c_reading c of
        ReadHeader \<Rightarrow> \<forall>rest. map body (read_loop (ChatMessage mem) (c_received c @ rest))
                         = cout c @ map body (read_loop (read_msg c) rest)
      | ReadBody \<Rightarrow> framed (read_msg c) \<and>
          (\<forall>bs m rest. length bs = unat (msg_body_length (read_msg c)) \<longrightarrow> write_body bs (read_msg c) = Some m \<longrightarrow>
             map body (read_loop (ChatMessage mem) (c_received c @ bs @ rest))
               = cout c @ body m # map body (read_loop m rest))
      | ReadNone \<Rightarrow> True)"

definition queue_at :: "chat_client \<Rightarrow> bool" where
  "queue_at c \<longleftrightarrow> c_sent c @ write_msgs c = posted c \<and> (c_writing c \<longrightarrow> write_msgs c \<noteq> [])
     \<and> (write_msgs c \<noteq> [] \<longrightarrow> c_writing c \<or> \<not> socket_open c)"

lemma client_on_header_fields:
  assumes "client_on_header hs c = Some c'"
  shows "write_msgs c' = write_msgs c" and "c_writing c' = c_writing c" and "posted c' = posted c"
    and "c_sent c' = c_sent c" and "socket_open c' \<Longrightarrow> socket_open c" and "connecting c' = connecting c"
  using assms by (auto simp: client_on_header_def client_close_def Let_def case_prod_beta split: if_splits)

lemma client_on_written_queue:
  "queue_at c \<Longrightarrow> c_writing c \<Longrightarrow> queue_at (client_on_written c)"
  by (cases "write_msgs c") (auto simp: queue_at_def client_on_written_def client_do_write_def Let_def)

lemma queue_at_step:
  assumes "queue_at c" and "client_step e c = Some c'"
  shows "queue_at c'"
proof (cases e)
  case (HeaderDone hs)
  with assms(2) have "client_on_header hs c = Some c'" by (auto split: if_splits)
  note f = client_on_header_fields [OF this]
  from assms(1) f(5) show ?thesis by (auto simp: queue_at_def f(1-4))
qed (use assms client_on_written_queue in \<open>auto simp: queue_at_def client_write_def client_do_write_def
       client_close_def client_on_body_def Let_def split: if_splits\<close>)

lemma read_loop_header:
  assumes "length (msg_data m) = header_length + max_body_length" and hs: "length hs = header_length"
    and "read_header hs m = Some m1" and "decode_header m1 = (m2, True)"
    and bs: "length bs = unat (msg_body_length m2)" and "write_body bs m2 = Some m3"
  shows "read_loop m (hs @ bs @ rest) = m3 # read_loop m3 rest"
  using assms by (subst read_loop.simps) (simp add: Let_def)

lemma read_header_keeps_length:
  "read_header hs m = Some m1 \<Longrightarrow> length (msg_data m1) = length (msg_data m)"
  by (auto simp: read_header_def dest: blit_SomeD(1))

lemma loop_at_header:
  assumes l: "loop_at mem c" and r: "c_reading c = ReadHeader" and hs: "length hs = header_length"
    and h: "client_on_header hs c = Some c'"
  shows "loop_at mem c'"
proof -
  from l r have len: "length (msg_data (read_msg c)) = header_length + max_body_length"
    and nc: "\<not> connecting c" and loop: "\<And>rest. map body (read_loop (ChatMessage mem) (c_received c @ rest))
                 = cout c @ map body (read_loop (read_msg c) rest)"
    by (auto simp: loop_at_def)
  from h obtain m where m: "read_header hs (read_msg c) = Some m" by (auto simp: client_on_header_def)
  have len_m: "length (msg_data m) = header_length + max_body_length"
    using read_header_keeps_length [OF m] len by simp
  obtain m' ok where d: "decode_header m = (m', ok)" by fastforce
  have len': "length (msg_data m') = header_length + max_body_length"
    using decode_header_wf [OF len_m] d by (simp add: wf_message_def)
  show ?thesis
  proof (cases ok)
    case True
    with decode_header_framed [OF len_m] d have "framed m'" by simp
    with True h m d len' nc show ?thesis
      using read_loop_header [OF len hs m] by (auto simp: client_on_header_def loop_at_def loop)
  next
    case False
    with h m d len' nc show ?thesis by (auto simp: client_on_header_def loop_at_def client_close_def)
  qed
qed

lemma loop_at_step:
  assumes l: "loop_at mem c" and st: "client_step e c = Some c'"
  shows "loop_at mem c'"
proof (cases e)
  case (HeaderDone hs)
  with l st loop_at_header show ?thesis by (auto split: if_splits)
next
  case (BodyDone bs)
  with st have r: "c_reading c = ReadBody" and bs: "length bs = unat (msg_body_length (read_msg c))"
    and b: "client_on_body bs c = Some c'" by (auto split: if_splits)
  from l r have "framed (read_msg c)" by (simp add: loop_at_def)
  from write_body_framed [OF this bs] obtain m where
    m: "write_body bs (read_msg c) = Some m" "framed m" by auto
  with l r bs b show ?thesis
    by (auto simp: loop_at_def client_on_body_def framed_def wf_message_def)
next
  case ConnectDone
  with l st show ?thesis by (auto simp: loop_at_def split: if_splits)
qed (use l st in \<open>auto simp: loop_at_def client_write_def client_do_write_def client_close_def
       client_on_written_def Let_def split: if_splits read_state.splits\<close>)
lemma client_reachable_inv:
  assumes "length mem = header_length + max_body_length" and "client_reachable mem c"
  shows "loop_at mem c" and "queue_at c"
proof -
  from assms(2) have "loop_at mem c \<and> queue_at c"
  proof (induction rule: client_reachable.induct)
    case init
    then show ?case
      using assms(1) by (simp add: loop_at_def queue_at_def chat_client_init_def ChatMessage_def)
  qed (blast intro: loop_at_step queue_at_step)
  then show "loop_at mem c" and "queue_at c" by simp_all
qed

fun client_run :: "client_event list \<Rightarrow> chat_client \<Rightarrow> chat_client option" where
  "client_run [] c = Some c"
| "client_run (e # es) c = Option.bind (client_step e c) (client_run es)"

lemma client_run_reachable:
  "client_reachable mem c \<Longrightarrow> client_run es c = Some c' \<Longrightarrow> client_reachable mem c'"
  by (induction es arbitrary: c) (auto split: Option.bind_splits intro: client_reachable.step)



end
