(* ===== verification/Chat_Network.thy ===== *)
theory Chat_Network
  imports Chat_Client "HOL-Library.Sublist"
begin

text \<open>
  The chat system as a whole: one server and its clients, joined by connections that carry bytes in
  order.  A step is a completed handler of the server or of one client; a write puts the bytes of a
  message on the connection, a completed read takes bytes off it, and any operation may fail.  The
  history of the room carries the session each message came from.
\<close>

section \<open>The network\<close>

record network =
  server :: chat_state
  clients :: "nat \<Rightarrow> chat_client option"
  up :: "nat \<Rightarrow> string" \<comment> \<open>on the way from a client to the server\<close>
  down :: "nat \<Rightarrow> string" \<comment> \<open>on the way from the server to a client\<close>
  origin :: "nat list" \<comment> \<open>ghost: the session each message of the history came from\<close>

definition network_init :: network where
  "network_init = \<lparr>server = chat_init, clients = \<lambda>_. None, up = \<lambda>_. [], down = \<lambda>_. [], origin = []\<rparr>"

text \<open>The errors that end an operation, on either side.\<close>

fun server_error :: "chat_event \<Rightarrow> bool" where
  "server_error (HeaderError i) = True"
| "server_error (BodyError i) = True"
| "server_error (WriteError i) = True"
| "server_error AcceptError = True"
| "server_error _ = False"

fun client_error :: "client_event \<Rightarrow> bool" where
  "client_error ReadError = True"
| "client_error WriteFailed = True"
| "client_error PostedClose = True"
| "client_error _ = False"

inductive net_step :: "network \<Rightarrow> network \<Rightarrow> bool" where
  connect: "chat_step (Accepted mem) (server n) = Some sv \<Longrightarrow> length mem' = header_length + max_body_length
     \<Longrightarrow> client_step ConnectDone (chat_client_init mem') = Some c \<Longrightarrow> i = next_session (server n)
     \<Longrightarrow> net_step n (n\<lparr>server := sv, clients := (clients n)(i \<mapsto> c), up := (up n)(i := []), down := (down n)(i := [])\<rparr>)"
| post: "clients n i = Some c \<Longrightarrow> make_message mem line = Some m \<Longrightarrow> length mem = header_length + max_body_length
     \<Longrightarrow> length line \<le> max_body_length \<Longrightarrow> client_step (PostedWrite m) c = Some c'
     \<Longrightarrow> net_step n (n\<lparr>clients := (clients n)(i \<mapsto> c')\<rparr>)"
| client_sends: "clients n i = Some c \<Longrightarrow> client_step WriteDone c = Some c'
     \<Longrightarrow> net_step n (n\<lparr>clients := (clients n)(i \<mapsto> c'), up := (up n)(i := up n i @ wire (hd (write_msgs c)))\<rparr>)"
| server_header: "up n i = hs @ rest \<Longrightarrow> chat_step (HeaderRead i hs) (server n) = Some sv
     \<Longrightarrow> net_step n (n\<lparr>server := sv, up := (up n)(i := rest)\<rparr>)"
| server_body: "up n i = bs @ rest \<Longrightarrow> chat_step (BodyRead i bs) (server n) = Some sv
     \<Longrightarrow> net_step n (n\<lparr>server := sv, up := (up n)(i := rest), origin := origin n @ [i]\<rparr>)"
| server_sends: "sessions (server n) i = Some s \<Longrightarrow> chat_step (Written i) (server n) = Some sv
     \<Longrightarrow> net_step n (n\<lparr>server := sv, down := (down n)(i := down n i @ wire (hd (WriteMessages s)))\<rparr>)"
| client_header: "clients n i = Some c \<Longrightarrow> down n i = hs @ rest \<Longrightarrow> client_step (HeaderDone hs) c = Some c'
     \<Longrightarrow> net_step n (n\<lparr>clients := (clients n)(i \<mapsto> c'), down := (down n)(i := rest)\<rparr>)"
| client_body: "clients n i = Some c \<Longrightarrow> down n i = bs @ rest \<Longrightarrow> client_step (BodyDone bs) c = Some c'
     \<Longrightarrow> net_step n (n\<lparr>clients := (clients n)(i \<mapsto> c'), down := (down n)(i := rest)\<rparr>)"
| server_fails: "server_error e \<Longrightarrow> chat_step e (server n) = Some sv \<Longrightarrow> net_step n (n\<lparr>server := sv\<rparr>)"
| client_fails: "clients n i = Some c \<Longrightarrow> client_error e \<Longrightarrow> client_step e c = Some c'
     \<Longrightarrow> net_step n (n\<lparr>clients := (clients n)(i \<mapsto> c')\<rparr>)"

inductive net_reachable :: "network \<Rightarrow> bool" where
  init: "net_reachable network_init"
| step: "net_reachable n \<Longrightarrow> net_step n n' \<Longrightarrow> net_reachable n'"

section \<open>What a receiver has printed\<close>

lemma read_loop_message:
  assumes "length hs = header_length" "read_header hs m = Some m1" "decode_header m1 = (m2, True)"
    "length bs = unat (msg_body_length m2)" "write_body bs m2 = Some m3"
  shows "read_loop m (hs @ bs @ rest) = m3 # read_loop m3 rest"
  using assms by (subst read_loop.simps) (simp add: Let_def)

lemma read_loop_mono: "prefix (map body (read_loop m a)) (map body (read_loop m (a @ b)))"
proof (induction m a rule: read_loop.induct)
  case (1 m a)
  show ?case
  proof (cases "length a < header_length")
    case True
    then show ?thesis by (simp add: read_loop.simps [of m a])
  next
    case False
    then have t: "take header_length (a @ b) = take header_length a" "drop header_length (a @ b) = drop header_length a @ b"
      "\<not> length (a @ b) < header_length" by simp_all
    show ?thesis
    proof (cases "read_header (take header_length a) m")
      case None
      then show ?thesis using False by (simp add: read_loop.simps [of m a])
    next
      case (Some m1)
      obtain m2 ok where d: "decode_header m1 = (m2, ok)" by fastforce
      let ?n = "unat (msg_body_length m2)" and ?r = "drop header_length a"
      show ?thesis
      proof (cases "ok \<and> ?n \<le> length ?r \<and> write_body (take ?n ?r) m2 \<noteq> None")
        case True
        then obtain m3 where m3: "write_body (take ?n ?r) m2 = Some m3" by auto
        have a: "a = take header_length a @ take ?n ?r @ drop ?n ?r" by (simp only: append_take_drop_id)
        then have ab: "a @ b = take header_length a @ take ?n ?r @ (drop ?n ?r @ b)" by (metis append_assoc)
        have "prefix (map body (read_loop m3 (drop ?n ?r))) (map body (read_loop m3 (drop ?n ?r @ b)))"
          using 1 [OF False Some refl d [symmetric] refl refl _ m3] True by simp
        moreover have m: "read_loop m (take header_length a @ take ?n ?r @ x) = m3 # read_loop m3 x" for x
          using read_loop_message [OF _ Some _ _ m3] False True d by simp
        have "read_loop m a = m3 # read_loop m3 (drop ?n ?r)" by (rule m [of "drop ?n ?r", folded a])
        moreover have "read_loop m (a @ b) = m3 # read_loop m3 (drop ?n ?r @ b)" by (rule m [of "drop ?n ?r @ b", folded ab])
        ultimately show ?thesis by simp
      next
        case no: False
        then have "read_loop m a = []" using False Some d by (auto simp: read_loop.simps [of m a] Let_def split: option.splits)
        then show ?thesis by simp
      qed
    qed
  qed
qed

text \<open>Whatever the client waits for, its terminal shows no more than the receiving loop delivers on the bytes received.\<close>

lemma client_shows_prefix:
  assumes "length mem = header_length + max_body_length" "client_reachable mem c"
  shows "prefix (cout c) (map body (read_loop (ChatMessage mem) (c_received c)))"
  using assms(2)
proof (induction rule: client_reachable.induct)
  case init
  then show ?case by (simp add: chat_client_init_def)
next
  case (step c e c')
  have r': "client_reachable mem c'" by (rule client_reachable.step [OF step.hyps])
  note inv = client_reachable_inv(1) [OF assms(1) r']
  show ?case
  proof (cases e)
    case (HeaderDone hs)
    then have "cout c' = cout c" "c_received c' = c_received c @ hs"
      using step.hyps(2) by (auto simp: client_on_header_def client_close_def Let_def case_prod_beta split: if_splits)
    then show ?thesis using step.IH read_loop_mono prefix_order.trans by metis
  next
    case (BodyDone bs)
    then have "c_reading c' = ReadHeader" using step.hyps(2) by (auto simp: client_on_body_def split: if_splits)
    then have "map body (read_loop (ChatMessage mem) (c_received c' @ [])) = cout c' @ map body (read_loop (read_msg c') [])"
      using inv unfolding loop_at_def by (simp del: append_Nil2)
    then show ?thesis by simp
  qed (use step in \<open>auto simp: client_write_def client_do_write_def client_close_def client_on_written_def Let_def split: if_splits\<close>)
qed

section \<open>What the server's steps do to the sessions\<close>

definition view :: "chat_session \<Rightarrow> chat_message \<times> read_state \<times> chat_message list" where
  "view s = (MessageRead s, reading s, sent s)"

definition views :: "chat_state \<Rightarrow> nat \<Rightarrow> (chat_message \<times> read_state \<times> chat_message list) option" where
  "views st i = map_option view (sessions st i)"

lemma view_Deliver [simp]: "view (Deliver m s) = view s" "view (fold Deliver ms s) = view s"
  by (simp_all add: view_def)

lemma views_of: "sessions st i = Some s \<Longrightarrow> views st i = Some (MessageRead s, reading s, sent s)"
  by (simp add: views_def view_def)

lemma views_update_session: "views (update_session i f st) = (views st)(i := map_option (view \<circ> f) (sessions st i))"
  by (simp add: views_def fun_eq_iff option.map_comp)

lemma views_Leave [simp]: "views (Leave i st) = views st"
  by (simp add: views_def Leave_def fun_eq_iff)

lemma views_room_deliver [simp]: "views (room_deliver m st) = views st"
  by (simp add: views_def room_deliver_def fun_eq_iff option.map_comp comp_def)

lemma history_Leave [simp]: "history (Leave i st) = history st"
  by (simp add: Leave_def)

lemma accepted_views:
  assumes "chat_step (Accepted mem) st = Some st'"
  shows "views st' = (views st)(next_session st \<mapsto> (ChatMessage mem, ReadHeader, []))" "history st' = history st"
    "length mem = header_length + max_body_length"
  using assms
  by (auto simp: start_def Join_def Let_def views_update_session views_def fun_eq_iff do_read_header_def view_def ChatSession_def
      update_session_def split: if_splits)

lemma header_views:
  assumes "chat_step (HeaderRead i hs) st = Some st'"
  shows "\<exists>s m m' ok. sessions st i = Some s \<and> reading s = ReadHeader \<and> length hs = header_length
    \<and> read_header hs (MessageRead s) = Some m \<and> decode_header m = (m', ok)
    \<and> views st' = (views st)(i \<mapsto> (m', if ok then ReadBody else ReadNone, sent s)) \<and> history st' = history st"
proof -
  obtain s where s: "sessions st i = Some s" "reading s = ReadHeader" "length hs = header_length" "header_handler i hs s st = Some st'"
    using assms by (auto split: option.splits if_splits)
  then obtain m where m: "read_header hs (MessageRead s) = Some m" by (auto simp: header_handler_def split: option.splits)
  obtain m' ok where d: "decode_header m = (m', ok)" by fastforce
  have "views st' = (views st)(i \<mapsto> (m', if ok then ReadBody else ReadNone, sent s)) \<and> history st' = history st"
    using s(1,4) m d by (auto simp: header_handler_def views_update_session view_def do_read_body_def split: if_splits)
  with s m d show ?thesis by blast
qed

lemma body_views:
  assumes "chat_step (BodyRead i bs) st = Some st'"
  shows "\<exists>s m. sessions st i = Some s \<and> reading s = ReadBody \<and> length bs = unat (msg_body_length (MessageRead s))
    \<and> write_body bs (MessageRead s) = Some m
    \<and> views st' = (views st)(i \<mapsto> (m, ReadHeader, sent s)) \<and> history st' = history st @ [m]"
proof -
  obtain s where s: "sessions st i = Some s" "reading s = ReadBody" "length bs = unat (msg_body_length (MessageRead s))" "body_handler i bs s st = Some st'"
    using assms by (auto split: option.splits if_splits)
  then obtain m where m: "write_body bs (MessageRead s) = Some m" by (auto simp: body_handler_def split: option.splits)
  let ?st = "room_deliver m (update_session i (\<lambda>s. s\<lparr>MessageRead := m, reading := ReadNone\<rparr>) st)"
  have st': "st' = update_session i do_read_header ?st" using s(4) m by (simp add: body_handler_def)
  have v: "views ?st = (views st)(i \<mapsto> (m, ReadNone, sent s))" using s(1) by (simp add: views_update_session view_def)
  then have "map_option view (sessions ?st i) = Some (m, ReadNone, sent s)" by (metis fun_upd_same views_def)
  then obtain t where "sessions ?st i = Some t" "MessageRead t = m" "sent t = sent s" by (auto simp: view_def)
  then have "views st' = (views st)(i \<mapsto> (m, ReadHeader, sent s))" using v by (simp add: st' views_update_session view_def do_read_header_def)
  moreover have "history st' = history st @ [m]" by (simp add: st' room_deliver_def)
  ultimately show ?thesis using s m by blast
qed

lemma written_views:
  assumes "chat_step (Written i) st = Some st'" "sessions st i = Some s"
  shows "views st' = (views st)(i \<mapsto> (MessageRead s, reading s, sent s @ [hd (WriteMessages s)]))" "history st' = history st"
  using assms by (auto simp: views_update_session on_written_def do_write_def view_def Let_def split: if_splits)

text \<open>An error keeps what was sent; a read ends with it.\<close>

lemma error_views:
  assumes "server_error e" "chat_step e st = Some st'"
  shows "history st' = history st \<and> (\<forall>j. views st' j = views st j
    \<or> (\<exists>m r ms. views st j = Some (m, r, ms) \<and> r \<noteq> ReadNone \<and> views st' j = Some (m, ReadNone, ms)))"
  using assms
  by (cases e) (auto simp: views_update_session view_def views_of split: option.splits if_splits)

section \<open>The invariant of the connections\<close>

definition delivered_by :: "nat \<Rightarrow> network \<Rightarrow> string list" where
  "delivered_by i n = map (body \<circ> fst) (filter (\<lambda>(m, j). j = i) (zip (history (server n)) (origin n)))"

text \<open>
  The bytes a client has received and those still on the way are what the server has sent to it; the server
  reads like a client \<open>v\<close> that has received what the client sent, less what is on the way, and has printed
  what came from that client.
\<close>

definition receives :: "string \<Rightarrow> chat_message \<Rightarrow> read_state \<Rightarrow> string list \<Rightarrow> chat_message list \<Rightarrow> bool" where
  "receives ch m r out ms \<longleftrightarrow> (\<exists>mem v. length mem = header_length + max_body_length \<and> client_reachable mem v
     \<and> read_msg v = m \<and> c_reading v = r \<and> cout v = out \<and> c_received v @ ch = concat (map wire ms))"

definition link :: "network \<Rightarrow> nat \<Rightarrow> chat_client \<Rightarrow> bool" where
  "link n i c \<longleftrightarrow> (\<forall>m\<in>set (posted c). framed m) \<and> queue_at c
     \<and> (\<exists>m r ms. views (server n) i = Some (m, r, ms)
          \<and> receives (down n i) (read_msg c) (c_reading c) (cout c) ms
          \<and> receives (up n i) m r (delivered_by i n) (c_sent c))"

definition net_inv :: "network \<Rightarrow> bool" where
  "net_inv n \<longleftrightarrow> chat_reachable (server n) \<and> length (origin n) = length (history (server n))
     \<and> (\<forall>i. sessions (server n) i = None \<longrightarrow> clients n i = None \<and> i \<notin> set (origin n))
     \<and> (\<forall>i c. clients n i = Some c \<longrightarrow> link n i c)"

lemma receives_new: "length mem = header_length + max_body_length \<Longrightarrow> receives [] (ChatMessage mem) ReadHeader [] []"
proof -
  assume m: "length mem = header_length + max_body_length"
  have "client_reachable mem ((chat_client_init mem)\<lparr>connecting := False, c_reading := ReadHeader\<rparr>)"
    by (rule client_reachable.step [OF client_reachable.init, of ConnectDone]) (simp add: chat_client_init_def)
  with m show ?thesis unfolding receives_def by (intro exI conjI) (assumption, assumption, simp_all add: chat_client_init_def)
qed

lemma receives_send: "receives ch m r out ms \<Longrightarrow> receives (ch @ wire x) m r out (ms @ [x])"
  unfolding receives_def by (auto simp flip: append_assoc)

lemma receives_header:
  assumes "receives (hs @ rest) m ReadHeader out ms" "length hs = header_length" "read_header hs m = Some m1" "decode_header m1 = (m', ok)"
  shows "receives rest m' (if ok then ReadBody else ReadNone) out ms"
proof -
  obtain mem v where v: "length mem = header_length + max_body_length" "client_reachable mem v" "read_msg v = m" "c_reading v = ReadHeader"
    "cout v = out" "c_received v @ hs @ rest = concat (map wire ms)" using assms(1) by (auto simp: receives_def)
  obtain v' where v': "client_step (HeaderDone hs) v = Some v'" "read_msg v' = m'" "c_reading v' = (if ok then ReadBody else ReadNone)"
    "cout v' = out" "c_received v' = c_received v @ hs"
    using v assms(2-4) by (cases ok) (auto simp: client_on_header_def client_close_def)
  have "client_reachable mem v'" by (rule client_reachable.step [OF v(2) v'(1)])
  with v v' show ?thesis unfolding receives_def by (intro exI [of _ mem] exI [of _ v']) simp
qed

lemma receives_body:
  assumes "receives (bs @ rest) m ReadBody out ms" "length bs = unat (msg_body_length m)" "write_body bs m = Some m'"
  shows "receives rest m' ReadHeader (out @ [body m']) ms"
proof -
  obtain mem v where v: "length mem = header_length + max_body_length" "client_reachable mem v" "read_msg v = m" "c_reading v = ReadBody"
    "cout v = out" "c_received v @ bs @ rest = concat (map wire ms)" using assms(1) by (auto simp: receives_def)
  obtain v' where v': "client_step (BodyDone bs) v = Some v'" "read_msg v' = m'" "c_reading v' = ReadHeader"
    "cout v' = out @ [body m']" "c_received v' = c_received v @ bs"
    using v assms(2,3) by (auto simp: client_on_body_def)
  have "client_reachable mem v'" by (rule client_reachable.step [OF v(2) v'(1)])
  with v v' show ?thesis unfolding receives_def by (intro exI [of _ mem] exI [of _ v']) simp
qed

lemma receives_error:
  assumes "receives ch m r out ms" "r \<noteq> ReadNone"
  shows "receives ch m ReadNone out ms"
proof -
  obtain mem v where v: "length mem = header_length + max_body_length" "client_reachable mem v" "read_msg v = m" "c_reading v = r"
    "cout v = out" "c_received v @ ch = concat (map wire ms)" using assms(1) by (auto simp: receives_def)
  have "client_reachable mem (client_close (v\<lparr>c_reading := ReadNone\<rparr>))"
    by (rule client_reachable.step [OF v(2), of ReadError]) (use v(4) assms(2) in simp)
  with v show ?thesis unfolding receives_def by (intro exI [of _ mem] exI [of _ "client_close (v\<lparr>c_reading := ReadNone\<rparr>)"]) (simp add: client_close_def)
qed

lemma receives_prefix:
  assumes "receives ch m r out ms" "\<forall>x\<in>set ms. framed x"
  shows "prefix out (map body ms)"
proof -
  obtain mem v where v: "length mem = header_length + max_body_length" "client_reachable mem v"
    "cout v = out" "c_received v @ ch = concat (map wire ms)" using assms(1) by (auto simp: receives_def)
  have "prefix out (map body (read_loop (ChatMessage mem) (c_received v @ ch)))"
    using client_shows_prefix [OF v(1,2)] read_loop_mono v(3) prefix_order.trans by metis
  moreover have "length (msg_data (ChatMessage mem)) = header_length + max_body_length" using v(1) by (simp add: ChatMessage_def)
  ultimately show ?thesis using stream_bodies [OF assms(2)] v(4) by simp
qed

lemma receives_all:
  assumes "receives [] m ReadHeader out ms" "\<forall>x\<in>set ms. framed x"
  shows "out = map body ms"
proof -
  obtain mem v where v: "length mem = header_length + max_body_length" "client_reachable mem v" "c_reading v = ReadHeader"
    "cout v = out" "c_received v = concat (map wire ms)" using assms(1) by (auto simp: receives_def)
  have "map body (read_loop (ChatMessage mem) (c_received v @ [])) = cout v @ map body (read_loop (read_msg v) [])"
    using client_reachable_inv(1) [OF v(1,2)] v(3) unfolding loop_at_def by (simp del: append_Nil2)
  moreover have "length (msg_data (ChatMessage mem)) = header_length + max_body_length" using v(1) by (simp add: ChatMessage_def)
  ultimately show ?thesis using stream_bodies [OF assms(2)] v(4,5)
    by (simp add: read_loop.simps [of "read_msg v" "[]"] header_length_def)
qed

section \<open>Every step keeps the invariant\<close>

lemma link_cong:
  assumes "link n i c" "views (server n') i = views (server n) i" "up n' i = up n i" "down n' i = down n i"
    "delivered_by i n' = delivered_by i n"
  shows "link n' i c"
  using assms by (simp add: link_def)

lemma views_None: "views st i = None \<longleftrightarrow> sessions st i = None"
  by (simp add: views_def)

lemma delivered_same: "history (server n') = history (server n) \<Longrightarrow> origin n' = origin n \<Longrightarrow> delivered_by i n' = delivered_by i n"
  by (simp add: delivered_by_def)

lemma client_step_inv:
  assumes inv: "net_inv n" and c: "clients n i = Some c" and "link (n\<lparr>up := (up n)(i := u), down := (down n)(i := d)\<rparr>) i c'"
  shows "net_inv (n\<lparr>clients := (clients n)(i \<mapsto> c'), up := (up n)(i := u), down := (down n)(i := d)\<rparr>)"
proof -
  have "link (n\<lparr>clients := (clients n)(i \<mapsto> c'), up := (up n)(i := u), down := (down n)(i := d)\<rparr>) j x"
    if "((clients n)(i \<mapsto> c')) j = Some x" for j x
  proof (cases "j = i")
    case True
    then show ?thesis using that assms(3) by (auto intro: link_cong simp: delivered_by_def)
  next
    case False
    then have "link n j x" using that inv by (simp add: net_inv_def)
    then show ?thesis using False by (rule_tac link_cong) (auto simp: delivered_by_def)
  qed
  then show ?thesis using inv c by (auto simp: net_inv_def)
qed

lemma queue_at_post: "queue_at c \<Longrightarrow> queue_at (client_write m c)"
  using queue_at_step [of c "PostedWrite m"] by simp

lemma client_post_inv:
  assumes inv: "net_inv n" and c: "clients n i = Some c" and f: "framed m"
  shows "net_inv (n\<lparr>clients := (clients n)(i \<mapsto> client_write m c)\<rparr>)"
proof -
  have l: "link n i c" using inv c by (simp add: net_inv_def)
  have "client_write m c = c\<lparr>write_msgs := write_msgs c @ [m], posted := posted c @ [m], c_writing := (c_writing c \<or> write_msgs c = [])\<rparr>"
    by (simp add: client_write_def client_do_write_def Let_def)
  then have "link n i (client_write m c)" using l f queue_at_post [of c m] by (auto simp: link_def)
  then show ?thesis using client_step_inv [OF inv c, where u = "up n i" and d = "down n i"] by simp
qed

lemma client_sends_inv:
  assumes inv: "net_inv n" and c: "clients n i = Some c" and w: "client_step WriteDone c = Some c'"
  shows "net_inv (n\<lparr>clients := (clients n)(i \<mapsto> c'), up := (up n)(i := up n i @ wire (hd (write_msgs c)))\<rparr>)"
proof -
  have l: "link n i c" using inv c by (simp add: net_inv_def)
  have c': "c' = client_on_written c" using w by (simp split: if_splits)
  have f: "read_msg c' = read_msg c" "c_reading c' = c_reading c" "cout c' = cout c" "posted c' = posted c"
    "c_sent c' = c_sent c @ [hd (write_msgs c)]"
    by (simp_all add: c' client_on_written_def client_do_write_def Let_def)
  have "queue_at c'" using queue_at_step [OF _ w] l by (simp add: link_def)
  then have "link (n\<lparr>up := (up n)(i := up n i @ wire (hd (write_msgs c))), down := (down n)(i := down n i)\<rparr>) i c'"
    using l f receives_send by (fastforce simp: link_def delivered_by_def)
  then show ?thesis using client_step_inv [OF inv c, where d = "down n i"] by simp
qed

lemma client_read_inv:
  assumes inv: "net_inv n" and c: "clients n i = Some c" and d: "down n i = bs @ rest"
    and st: "client_step (HeaderDone bs) c = Some c' \<or> client_step (BodyDone bs) c = Some c'"
  shows "net_inv (n\<lparr>clients := (clients n)(i \<mapsto> c'), down := (down n)(i := rest)\<rparr>)"
proof -
  have l: "link n i c" using inv c by (simp add: net_inv_def)
  then obtain m r ms where v: "views (server n) i = Some (m, r, ms)"
    and dn: "receives (bs @ rest) (read_msg c) (c_reading c) (cout c) ms" and u: "receives (up n i) m r (delivered_by i n) (c_sent c)"
    using d by (auto simp: link_def)
  have q: "queue_at c'" using st queue_at_step l by (auto simp: link_def simp del: client_step.simps)
  have "posted c' = posted c \<and> c_sent c' = c_sent c \<and> receives rest (read_msg c') (c_reading c') (cout c') ms"
    using st
  proof
    assume h: "client_step (HeaderDone bs) c = Some c'"
    then obtain m1 m' ok where x: "c_reading c = ReadHeader" "length bs = header_length" "read_header bs (read_msg c) = Some m1" "decode_header m1 = (m', ok)"
      and e: "client_on_header bs c = Some c'" by (auto simp: client_on_header_def split: if_splits) (metis surj_pair)
    have "read_msg c' = m'" "c_reading c' = (if ok then ReadBody else ReadNone)" "cout c' = cout c"
      using e x by (auto simp: client_on_header_def client_close_def Let_def)
    then show ?thesis using receives_header [of bs rest "read_msg c" "cout c" ms m1 m' ok] dn x client_on_header_fields [OF e] by simp
  next
    assume h: "client_step (BodyDone bs) c = Some c'"
    then obtain m' where x: "c_reading c = ReadBody" "length bs = unat (msg_body_length (read_msg c))" "write_body bs (read_msg c) = Some m'"
      and e: "c' = c\<lparr>read_msg := m', c_received := c_received c @ bs, cout := cout c @ [body m'], c_reading := ReadHeader\<rparr>"
      by (auto simp: client_on_body_def split: if_splits)
    then show ?thesis using receives_body [of bs rest "read_msg c" "cout c" ms m'] dn by simp
  qed
  then have "link (n\<lparr>up := (up n)(i := up n i), down := (down n)(i := rest)\<rparr>) i c'"
    using l v u q by (auto simp: link_def delivered_by_def)
  then show ?thesis using client_step_inv [OF inv c, where u = "up n i"] by simp
qed

lemma client_fails_inv:
  assumes inv: "net_inv n" and c: "clients n i = Some c" and e: "client_error e" "client_step e c = Some c'"
  shows "net_inv (n\<lparr>clients := (clients n)(i \<mapsto> c')\<rparr>)"
proof -
  have l: "link n i c" using inv c by (simp add: net_inv_def)
  have q: "queue_at c'" using queue_at_step [OF _ e(2)] l by (simp add: link_def)
  have f: "posted c' = posted c" "c_sent c' = c_sent c" "read_msg c' = read_msg c" "cout c' = cout c"
    "c_reading c' = c_reading c \<or> c_reading c \<noteq> ReadNone \<and> c_reading c' = ReadNone"
    using e by (cases e; auto simp: client_close_def split: if_splits)+
  then have "link n i c'" using l q receives_error by (fastforce simp: link_def)
  then show ?thesis using client_step_inv [OF inv c, where u = "up n i" and d = "down n i"] by simp
qed

lemma server_step_inv:
  assumes inv: "net_inv n" and st: "chat_step e (server n) = Some sv" and "length org = length (history sv)"
    and n': "n' = n\<lparr>server := sv, up := (up n)(i := u), down := (down n)(i := d), origin := org\<rparr>"
    and "\<forall>j. views sv j = None \<longrightarrow> views (server n) j = None" "set org \<subseteq> insert i (set (origin n))" "views sv i \<noteq> None"
    and "\<forall>j. j \<noteq> i \<longrightarrow> views sv j = views (server n) j \<and> delivered_by j n' = delivered_by j n"
    and "\<And>c. clients n i = Some c \<Longrightarrow> link n' i c"
  shows "net_inv n'"
proof -
  have "link n' j c" if "clients n' j = Some c" for j c
  proof (cases "j = i")
    case False
    then have "link n j c" using that inv n' by (simp add: net_inv_def)
    then show ?thesis using False assms(8) n' by (rule_tac link_cong) auto
  qed (use that assms(9) n' in simp)
  moreover have "chat_reachable sv" using inv chat_reachable.step [OF _ st] by (simp add: net_inv_def)
  moreover have "clients n' j = None \<and> j \<notin> set org" if "sessions sv j = None" for j
  proof -
    have "views sv j = None" using that by (simp add: views_None)
    then have "sessions (server n) j = None" "j \<noteq> i" using assms(5,7) by (auto simp flip: views_None)
    then show ?thesis using inv n' assms(6) by (auto simp: net_inv_def)
  qed
  ultimately show ?thesis using assms(3) n' by (simp add: net_inv_def)
qed

lemma server_header_inv:
  assumes inv: "net_inv n" and u: "up n i = hs @ rest" and st: "chat_step (HeaderRead i hs) (server n) = Some sv"
  shows "net_inv (n\<lparr>server := sv, up := (up n)(i := rest)\<rparr>)"
proof -
  obtain s m m' ok where s: "sessions (server n) i = Some s" "reading s = ReadHeader" "length hs = header_length"
    "read_header hs (MessageRead s) = Some m" "decode_header m = (m', ok)"
    and v: "views sv = (views (server n))(i \<mapsto> (m', if ok then ReadBody else ReadNone, sent s))" and h: "history sv = history (server n)"
    using header_views [OF st] by blast
  let ?n = "n\<lparr>server := sv, up := (up n)(i := rest), down := (down n)(i := down n i), origin := origin n\<rparr>"
  have "link ?n i c" if "clients n i = Some c" for c
  proof -
    have l: "link n i c" using inv that by (simp add: net_inv_def)
    then have "receives (hs @ rest) (MessageRead s) ReadHeader (delivered_by i n) (c_sent c)"
      using s u by (auto simp: link_def views_of)
    then have "receives rest m' (if ok then ReadBody else ReadNone) (delivered_by i n) (c_sent c)" using receives_header s by blast
    then show ?thesis using l s v h by (auto simp: link_def views_of delivered_by_def)
  qed
  then have "net_inv ?n"
    using v h inv by (intro server_step_inv [OF inv st _ refl]) (auto simp: delivered_by_def net_inv_def)
  then show ?thesis by simp
qed

lemma server_body_inv:
  assumes inv: "net_inv n" and u: "up n i = bs @ rest" and st: "chat_step (BodyRead i bs) (server n) = Some sv"
  shows "net_inv (n\<lparr>server := sv, up := (up n)(i := rest), origin := origin n @ [i]\<rparr>)"
proof -
  obtain s m where s: "sessions (server n) i = Some s" "reading s = ReadBody" "length bs = unat (msg_body_length (MessageRead s))"
    "write_body bs (MessageRead s) = Some m"
    and v: "views sv = (views (server n))(i \<mapsto> (m, ReadHeader, sent s))" and h: "history sv = history (server n) @ [m]"
    using body_views [OF st] by blast
  let ?n = "n\<lparr>server := sv, up := (up n)(i := rest), down := (down n)(i := down n i), origin := origin n @ [i]\<rparr>"
  have "length (origin n) = length (history (server n))" using inv by (simp add: net_inv_def)
  then have dl: "delivered_by j ?n = delivered_by j n @ (if j = i then [body m] else [])" for j by (simp add: delivered_by_def h)
  have "link ?n i c" if "clients n i = Some c" for c
  proof -
    have l: "link n i c" using inv that by (simp add: net_inv_def)
    then have "receives (bs @ rest) (MessageRead s) ReadBody (delivered_by i n) (c_sent c)"
      using s u by (auto simp: link_def views_of)
    then have "receives rest m ReadHeader (delivered_by i ?n) (c_sent c)" using receives_body s(3,4) dl [of i] by simp
    then show ?thesis using l s v by (auto simp: link_def views_of)
  qed
  then have "net_inv ?n"
    using v h inv dl by (intro server_step_inv [OF inv st _ refl]) (auto simp: net_inv_def)
  then show ?thesis by simp
qed

lemma server_sends_inv:
  assumes inv: "net_inv n" and s: "sessions (server n) i = Some s" and st: "chat_step (Written i) (server n) = Some sv"
  shows "net_inv (n\<lparr>server := sv, down := (down n)(i := down n i @ wire (hd (WriteMessages s)))\<rparr>)"
proof -
  note v = written_views [OF st s]
  let ?n = "n\<lparr>server := sv, up := (up n)(i := up n i), down := (down n)(i := down n i @ wire (hd (WriteMessages s))), origin := origin n\<rparr>"
  have "link ?n i c" if "clients n i = Some c" for c
  proof -
    have l: "link n i c" using inv that by (simp add: net_inv_def)
    then have "receives (down n i) (read_msg c) (c_reading c) (cout c) (sent s)" using s by (auto simp: link_def views_of)
    then have "receives (down n i @ wire (hd (WriteMessages s))) (read_msg c) (c_reading c) (cout c) (sent s @ [hd (WriteMessages s)])"
      by (rule receives_send)
    then show ?thesis using l s v by (auto simp: link_def views_of delivered_by_def)
  qed
  then have "net_inv ?n"
    using v inv by (intro server_step_inv [OF inv st _ refl]) (auto simp: delivered_by_def net_inv_def)
  then show ?thesis by simp
qed

lemma server_fails_inv:
  assumes inv: "net_inv n" and e: "server_error e" and st: "chat_step e (server n) = Some sv"
  shows "net_inv (n\<lparr>server := sv\<rparr>)"
proof -
  have h: "history sv = history (server n)" and v: "\<And>j. views sv j = views (server n) j
    \<or> (\<exists>m r ms. views (server n) j = Some (m, r, ms) \<and> r \<noteq> ReadNone \<and> views sv j = Some (m, ReadNone, ms))"
    using error_views [OF e st] by blast+
  have "chat_reachable sv" using inv chat_reachable.step [OF _ st] by (simp add: net_inv_def)
  moreover have "sessions sv j = None \<longleftrightarrow> sessions (server n) j = None" for j using v [of j] by (auto simp flip: views_None)
  moreover have "link (n\<lparr>server := sv\<rparr>) j c" if "clients n j = Some c" for j c
  proof -
    have "link n j c" using inv that by (simp add: net_inv_def)
    then show ?thesis using v [of j] h receives_error by (fastforce simp: link_def delivered_by_def)
  qed
  ultimately show ?thesis using inv h by (simp add: net_inv_def)
qed

lemma connect_inv:
  assumes inv: "net_inv n" and st: "chat_step (Accepted mem) (server n) = Some sv" and l: "length mem' = header_length + max_body_length"
    and c: "client_step ConnectDone (chat_client_init mem') = Some c" and i: "i = next_session (server n)"
  shows "net_inv (n\<lparr>server := sv, clients := (clients n)(i \<mapsto> c), up := (up n)(i := []), down := (down n)(i := [])\<rparr>)"
proof -
  note v = accepted_views [OF st]
  let ?n = "n\<lparr>server := sv, clients := (clients n)(i \<mapsto> c), up := (up n)(i := []), down := (down n)(i := [])\<rparr>"
  have "sessions (server n) i = None"
    using inv chat_reachable_inv i by (cases "sessions (server n) i") (fastforce simp: net_inv_def chat_inv_def)+
  then have none: "i \<notin> set (origin n)" using inv by (simp add: net_inv_def)
  then have d0: "delivered_by i ?n = []" by (auto simp: delivered_by_def filter_empty_conv dest: set_zip_rightD)
  have c': "c = (chat_client_init mem')\<lparr>connecting := False, c_reading := ReadHeader\<rparr>" using c by (simp add: chat_client_init_def)
  have "link ?n i c"
    using receives_new [OF l] receives_new [OF v(3)] v(1) i d0 by (auto simp: link_def c' chat_client_init_def queue_at_def)
  moreover have "link ?n j x" if "j \<noteq> i" "clients n j = Some x" for j x
  proof -
    have "link n j x" using inv that by (simp add: net_inv_def)
    then show ?thesis using that v i by (rule_tac link_cong) (auto simp: delivered_by_def)
  qed
  moreover have "chat_reachable sv" using inv chat_reachable.step [OF _ st] by (simp add: net_inv_def)
  moreover have "clients ?n j = None \<and> j \<notin> set (origin n)" if "sessions sv j = None" for j
  proof -
    have "views sv j = None" using that by (simp add: views_None)
    then have "j \<noteq> i" "sessions (server n) j = None" using v(1) i by (auto simp flip: views_None split: if_splits)
    then show ?thesis using inv by (simp add: net_inv_def)
  qed
  ultimately show ?thesis using inv v(2) by (simp add: net_inv_def)
qed

lemma net_step_inv: "net_step n n' \<Longrightarrow> net_inv n \<Longrightarrow> net_inv n'"
proof (induction rule: net_step.induct)
  case (post n i c mem line m c')
  then have "framed m" using make_message_framed by fastforce
  moreover have "c' = client_write m c" using post.hyps(5) by simp
  ultimately show ?case using post client_post_inv by simp
qed (auto simp del: chat_step.simps client_step.simps intro: connect_inv client_sends_inv server_header_inv server_body_inv server_sends_inv
      client_read_inv server_fails_inv client_fails_inv)

lemma net_reachable_inv: "net_reachable n \<Longrightarrow> net_inv n"
proof (induction rule: net_reachable.induct)
  case init
  then show ?case by (simp add: net_inv_def network_init_def chat_init_def chat_reachable.init [unfolded chat_init_def])
qed (rule net_step_inv)

section \<open>From terminal to terminal\<close>


text \<open>Steps by name, to run the network on an example.\<close>

datatype net_event = Connect_Client string | Post nat string | Client_Sends nat | Server_Header nat | Server_Body nat nat | Server_Sends nat
  | Client_Header nat | Client_Body nat nat

definition on_client :: "network \<Rightarrow> nat \<Rightarrow> client_event \<Rightarrow> (chat_client \<Rightarrow> chat_client \<Rightarrow> network) \<Rightarrow> network option" where
  "on_client n i e k = Option.bind (clients n i) (\<lambda>c. map_option (k c) (client_step e c))"

fun net_exec :: "net_event \<Rightarrow> network \<Rightarrow> network option" where
  "net_exec (Connect_Client mem) n =
     Option.bind (chat_step (Accepted mem) (server n)) (\<lambda>sv. map_option (\<lambda>c.
       n\<lparr>server := sv, clients := (clients n)(next_session (server n) \<mapsto> c), up := (up n)(next_session (server n) := []),
         down := (down n)(next_session (server n) := [])\<rparr>) (client_step ConnectDone (chat_client_init mem)))"
| "net_exec (Post i line) n =
     (if length line \<le> max_body_length then
        Option.bind (make_message (replicate (header_length + max_body_length) NUL) line) (\<lambda>m.
          on_client n i (PostedWrite m) (\<lambda>c c'. n\<lparr>clients := (clients n)(i \<mapsto> c')\<rparr>))
      else None)"
| "net_exec (Client_Sends i) n =
     on_client n i WriteDone (\<lambda>c c'. n\<lparr>clients := (clients n)(i \<mapsto> c'), up := (up n)(i := up n i @ wire (hd (write_msgs c)))\<rparr>)"
| "net_exec (Server_Header i) n =
     map_option (\<lambda>sv. n\<lparr>server := sv, up := (up n)(i := drop header_length (up n i))\<rparr>)
       (chat_step (HeaderRead i (take header_length (up n i))) (server n))"
| "net_exec (Server_Body i k) n =
     map_option (\<lambda>sv. n\<lparr>server := sv, up := (up n)(i := drop k (up n i)), origin := origin n @ [i]\<rparr>)
       (chat_step (BodyRead i (take k (up n i))) (server n))"
| "net_exec (Server_Sends i) n =
     Option.bind (sessions (server n) i) (\<lambda>s.
       map_option (\<lambda>sv. n\<lparr>server := sv, down := (down n)(i := down n i @ wire (hd (WriteMessages s)))\<rparr>) (chat_step (Written i) (server n)))"
| "net_exec (Client_Header i) n =
     on_client n i (HeaderDone (take header_length (down n i))) (\<lambda>c c'.
       n\<lparr>clients := (clients n)(i \<mapsto> c'), down := (down n)(i := drop header_length (down n i))\<rparr>)"
| "net_exec (Client_Body i k) n =
     on_client n i (BodyDone (take k (down n i))) (\<lambda>c c'. n\<lparr>clients := (clients n)(i \<mapsto> c'), down := (down n)(i := drop k (down n i))\<rparr>)"

lemma net_exec_step:
  assumes "net_exec e n = Some n'"
  shows "net_step n n'"
proof (cases e)
  case (Connect_Client mem)
  then obtain sv c where sv: "chat_step (Accepted mem) (server n) = Some sv" and "client_step ConnectDone (chat_client_init mem) = Some c"
    and "n' = n\<lparr>server := sv, clients := (clients n)(next_session (server n) \<mapsto> c), up := (up n)(next_session (server n) := []),
         down := (down n)(next_session (server n) := [])\<rparr>"
    using assms by (auto simp del: chat_step.simps client_step.simps split: Option.bind_splits)
  then show ?thesis using net_step.connect [OF sv accepted_views(3) [OF sv]] by simp
next
  case (Post i line)
  then show ?thesis using assms net_step.post by (auto simp: on_client_def simp del: client_step.simps split: Option.bind_splits if_splits)
next
  case (Server_Header i)
  then show ?thesis using assms net_step.server_header [of n i "take header_length (up n i)" "drop header_length (up n i)"]
    by (auto simp del: chat_step.simps)
next
  case (Server_Body i k)
  then show ?thesis using assms net_step.server_body [of n i "take k (up n i)" "drop k (up n i)"] by (auto simp del: chat_step.simps)
next
  case (Client_Header i)
  then show ?thesis using assms net_step.client_header [of n i _ "take header_length (down n i)" "drop header_length (down n i)"]
    by (auto simp: on_client_def simp del: client_step.simps split: Option.bind_splits)
next
  case (Client_Body i k)
  then show ?thesis using assms net_step.client_body [of n i _ "take k (down n i)" "drop k (down n i)"]
    by (auto simp: on_client_def simp del: client_step.simps split: Option.bind_splits)
qed (use assms in \<open>auto simp: on_client_def simp del: client_step.simps chat_step.simps split: Option.bind_splits
       intro: net_step.client_sends net_step.server_sends\<close>)

fun net_run :: "net_event list \<Rightarrow> network \<Rightarrow> network option" where
  "net_run [] n = Some n"
| "net_run (e # es) n = Option.bind (net_exec e n) (net_run es)"

lemma net_run_reachable: "net_reachable n \<Longrightarrow> net_run es n = Some n' \<Longrightarrow> net_reachable n'"
proof (induction es arbitrary: n)
  case (Cons e es)
  then obtain n1 where "net_exec e n = Some n1" "net_run es n1 = Some n'" by (auto split: Option.bind_splits)
  then show ?case using Cons net_reachable.step net_exec_step by metis
qed simp

text \<open>Two clients; the first posts a line and both show it.\<close>

definition two_clients_run :: "net_event list" where
  "two_clients_run =
     [Connect_Client (replicate 516 NUL), Connect_Client (replicate 516 NUL), Post 0 ''hi'', Client_Sends 0, Server_Header 0, Server_Body 0 2,
      Server_Sends 1, Client_Header 1, Client_Body 1 2]"

lemma two_clients_result:
  "map_option (\<lambda>n. (map_option (\<lambda>c. (cout c, write_msgs c = [], c_reading c)) (clients n 1), up n 1, down n 1,
       map_option (\<lambda>s. (WriteMessages s = [], reading s)) (sessions (server n) 1), 1 \<in> Participants (server n), map body (history (server n)), origin n))
     (net_run two_clients_run network_init)
   = Some (Some ([''hi''], True, ReadHeader), [], [], Some (True, ReadHeader), True, [''hi''], [0])"
  by code_simp


end
