(* ===== verification/Ini.thy ===== *)
theory Ini
  imports C_Library
begin

text \<open>
  The INI parser, \<^verbatim>\<open>Source/Core/Private/Detail/Config/ini.c\<close>, in the configuration of
  \<^verbatim>\<open>ini.h\<close> (multi-line values and a byte order mark allowed, no stop at the first
  error, lines of at most 200 characters).  A pointer into the line buffer is the rest of the C
  string it points to; writing a terminator cuts a string.  The handler is the argument that
  the code gets as a function pointer with its user data.
\<close>

section \<open>String helpers\<close>

definition MAX_SECTION :: nat where "MAX_SECTION = 50"
definition MAX_NAME :: nat where "MAX_NAME = 50"
definition INI_MAX_LINE :: nat where "INI_MAX_LINE = 200"

text \<open>\<^verbatim>\<open>rstrip\<close>: \<open>p\<close> runs down from the terminator and cuts the string there.\<close>

fun rstrip_from :: "nat \<Rightarrow> string \<Rightarrow> string" where
  "rstrip_from 0 s = s"
| "rstrip_from (Suc p) s = (if isspace (s ! p) then rstrip_from p (take p s) else s)"

definition rstrip :: "string \<Rightarrow> string" where
  "rstrip s = rstrip_from (length s) s"

fun lskip :: "string \<Rightarrow> string" where
  "lskip [] = []"
| "lskip (c # s) = (if isspace c then lskip s else c # s)"

text \<open>
  \<^verbatim>\<open>find_char_or_comment\<close>: the text before the pointer it returns and the text from it.
\<close>

fun find_char_from :: "bool \<Rightarrow> string \<Rightarrow> char \<Rightarrow> string \<times> string" where
  "find_char_from was_whitespace [] c = ([], [])"
| "find_char_from was_whitespace (x # s) c =
     (if x \<noteq> c \<and> \<not> (was_whitespace \<and> x = CHR '';'')
      then (let (before, at) = find_char_from (isspace x) s c in (x # before, at))
      else ([], x # s))"

definition find_char_or_comment :: "string \<Rightarrow> char \<Rightarrow> string \<times> string" where
  "find_char_or_comment s c = find_char_from False s c"

text \<open>\<^verbatim>\<open>strncpy0\<close>: the C string the destination of \<open>n\<close> bytes holds.\<close>

definition strncpy0 :: "nat \<Rightarrow> string \<Rightarrow> string" where
  "strncpy0 n src = take (n - 1) src"

text \<open>
  \<^verbatim>\<open>fgets(line, n, file)\<close>: at most \<open>n - 1\<close> characters, up to and including a newline.
\<close>

fun fgets_chars :: "nat \<Rightarrow> string \<Rightarrow> string \<times> string" where
  "fgets_chars 0 fin = ([], fin)"
| "fgets_chars (Suc n) [] = ([], [])"
| "fgets_chars (Suc n) (c # fin) =
     (if c = CHR 0x0A then ([c], fin) else (let (l, rest) = fgets_chars n fin in (c # l, rest)))"

definition fgets :: "nat \<Rightarrow> string \<Rightarrow> (string \<times> string) option" where
  "fgets n fin = (if fin = [] then None else Some (fgets_chars (n - 1) fin))"

lemma fgets_chars_split: "fgets_chars n fin = (l, rest) \<Longrightarrow> fin = l @ rest \<and> length l \<le> n"
  by (induction n fin arbitrary: l rest rule: fgets_chars.induct) (auto split: if_splits prod.splits)

lemma fgets_progress: "fgets (Suc (Suc n)) fin = Some (l, rest) \<Longrightarrow> length rest < length fin"
  by (cases fin) (auto simp: fgets_def split: if_splits prod.splits dest!: fgets_chars_split)

section \<open>The parser\<close>

type_synonym 'u handler = "'u \<Rightarrow> string \<Rightarrow> string \<Rightarrow> string \<Rightarrow> 'u \<times> bool"

record 'u ini_state =
  ini_section :: string
  prev_name :: string
  lineno :: nat
  error :: nat
  user :: 'u

text \<open>\<^verbatim>\<open>if (... && !error) error = lineno;\<close>\<close>

definition note_error :: "bool \<Rightarrow> 'u ini_state \<Rightarrow> 'u ini_state" where
  "note_error bad st = (if bad \<and> error st = 0 then st\<lparr>error := lineno st\<rparr> else st)"

definition call_handler :: "'u handler \<Rightarrow> string \<Rightarrow> string \<Rightarrow> 'u ini_state \<Rightarrow> 'u ini_state" where
  "call_handler h name val st =
     (let (u, ok) = h (user st) (ini_section st) name val in note_error (\<not> ok) (st\<lparr>user := u\<rparr>))"

definition skip_bom :: "nat \<Rightarrow> string \<Rightarrow> string" where
  "skip_bom n line = (if n = 1 \<and> map ord (take 3 line) = [0xEF, 0xBB, 0xBF] then drop 3 line else line)"

definition starts_with :: "char \<Rightarrow> string \<Rightarrow> bool" where
  "starts_with c s \<longleftrightarrow> s \<noteq> [] \<and> hd s = c"

definition section_line :: "string \<Rightarrow> 'u ini_state \<Rightarrow> 'u ini_state" where
  "section_line start st =
     (let (before, at) = find_char_or_comment (tl start) CHR '']''
      in if starts_with CHR '']'' at
         then st\<lparr>ini_section := strncpy0 MAX_SECTION before, prev_name := []\<rparr>
         else note_error True st)"

definition split_pair :: "string \<Rightarrow> (string \<times> string) option" where
  "split_pair start =
     (let (b1, a1) = find_char_or_comment start CHR ''='';
          (before, at) = (if starts_with CHR ''='' a1 then (b1, a1) else find_char_or_comment start CHR '':'')
      in if starts_with CHR ''='' at \<or> starts_with CHR '':'' at
         then Some (rstrip before,
                    let val = lskip (tl at); (vb, va) = find_char_or_comment val NUL
                    in rstrip (if starts_with CHR '';'' va then vb else val))
         else None)"

definition pair_line :: "'u handler \<Rightarrow> string \<Rightarrow> 'u ini_state \<Rightarrow> 'u ini_state" where
  "pair_line h start st =
     (case split_pair start of
        Some (name, val) \<Rightarrow> call_handler h name val (st\<lparr>prev_name := strncpy0 MAX_NAME name\<rparr>)
      | None \<Rightarrow> note_error True st)"

text \<open>
  One round of the loop.  \<open>moved\<close> is \<^verbatim>\<open>start > line\<close>: the byte order mark or leading
  white space was skipped.
\<close>

definition parse_line :: "'u handler \<Rightarrow> string \<Rightarrow> 'u ini_state \<Rightarrow> 'u ini_state" where
  "parse_line h buffer st0 =
     (let st = st0\<lparr>lineno := Suc (lineno st0)\<rparr>;
          line = c_str buffer;
          line1 = skip_bom (lineno st) line;
          stripped = rstrip line1;
          start = lskip stripped;
          moved = 0 < (length line - length line1) + (length stripped - length start)
      in if starts_with CHR '';'' start \<or> starts_with CHR ''#'' start then st
         else if prev_name st \<noteq> [] \<and> start \<noteq> [] \<and> moved then call_handler h (prev_name st) start st
         else if starts_with CHR ''['' start then section_line start st
         else if start \<noteq> [] \<and> \<not> starts_with CHR '';'' start then pair_line h start st
         else st)"

function parse_loop :: "'u handler \<Rightarrow> string \<Rightarrow> 'u ini_state \<Rightarrow> 'u ini_state" where
  "parse_loop h fin st =
     (case fgets INI_MAX_LINE fin of
        None \<Rightarrow> st
      | Some (line, rest) \<Rightarrow> parse_loop h rest (parse_line h line st))"
  by pat_completeness auto
termination
  by (relation "measure (\<lambda>(h, fin, st). length fin)")
     (auto simp: INI_MAX_LINE_def numeral_eq_Suc dest: fgets_progress)

declare parse_loop.simps [simp del]

definition ini_init :: "'u \<Rightarrow> 'u ini_state" where
  "ini_init u = \<lparr>ini_section = [], prev_name = [], lineno = 0, error = 0, user = u\<rparr>"

definition ini_parse_file :: "string \<Rightarrow> 'u handler \<Rightarrow> 'u \<Rightarrow> int \<times> 'u" where
  "ini_parse_file fin h u = (let st = parse_loop h fin (ini_init u) in (int (error st), user st))"

text \<open>\<open>fopen_r\<close> is the file system: the content of a file that can be opened for reading.\<close>

definition ini_parse :: "(string \<Rightarrow> string option) \<Rightarrow> string \<Rightarrow> 'u handler \<Rightarrow> 'u \<Rightarrow> int \<times> 'u" where
  "ini_parse fopen_r filename h u =
     (case fopen_r filename of
        None \<Rightarrow> (- 1, u)
      | Some fin \<Rightarrow> ini_parse_file fin h u)"

section \<open>What the helpers compute\<close>

lemma rstrip_from_eq: "p = length s \<Longrightarrow> rstrip_from p s = rev (dropWhile isspace (rev s))"
proof (induction p s rule: rstrip_from.induct)
  case (2 p s)
  then obtain t c where s: "s = t @ [c]" "length t = p" by (cases s rule: rev_cases) auto
  with 2 show ?case by (auto simp: nth_append)
qed simp

lemma rstrip_eq: "rstrip s = rev (dropWhile isspace (rev s))"
  by (simp add: rstrip_def rstrip_from_eq)

lemma lskip_eq: "lskip s = dropWhile isspace s"
  by (induction s) auto

lemma rstrip_id: "s = [] \<or> \<not> isspace (last s) \<Longrightarrow> rstrip s = s"
  by (cases s rule: rev_cases) (auto simp: rstrip_eq)

lemma rstrip_append_spaces: "\<forall>c \<in> set w. isspace c \<Longrightarrow> rstrip (s @ w) = rstrip s"
  by (simp add: rstrip_eq dropWhile_append)

lemma lskip_id: "s = [] \<or> \<not> isspace (hd s) \<Longrightarrow> lskip s = s"
  by (cases s) auto

lemma length_rstrip_le: "length (rstrip s) \<le> length s"
  using length_dropWhile_le [of isspace "rev s"] by (simp add: rstrip_eq)

lemma length_lskip_le: "length (lskip s) \<le> length s"
  by (simp add: lskip_eq length_dropWhile_le)

lemma find_char_from_split: "find_char_from w s c = (b, a) \<Longrightarrow> s = b @ a"
  by (induction w s c arbitrary: b a rule: find_char_from.induct) (auto split: if_splits prod.splits)

lemma find_char_from_hit:
  "\<forall>x \<in> set b. x \<noteq> c \<and> x \<noteq> CHR '';'' \<Longrightarrow> find_char_from w (b @ c # a) c = (b, c # a)"
  by (induction b arbitrary: w) auto

lemma find_char_from_miss:
  "\<forall>x \<in> set b. x \<noteq> c \<and> x \<noteq> CHR '';'' \<Longrightarrow> find_char_from w b c = (b, [])"
  by (induction b arbitrary: w) auto

section \<open>Lines\<close>

text \<open>The lines as \<^verbatim>\<open>fgets\<close> cuts them, and the parser as a fold over them.\<close>

function file_lines :: "string \<Rightarrow> string list" where
  "file_lines fin =
     (case fgets INI_MAX_LINE fin of None \<Rightarrow> [] | Some (line, rest) \<Rightarrow> line # file_lines rest)"
  by pat_completeness auto
termination
  by (relation "measure length") (auto simp: INI_MAX_LINE_def numeral_eq_Suc dest: fgets_progress)

declare file_lines.simps [simp del]

lemma parse_loop_fold: "parse_loop h fin st = fold (parse_line h) (file_lines fin) st"
proof (induction h fin st rule: parse_loop.induct)
  case (1 h fin st)
  then show ?case
    by (cases "fgets INI_MAX_LINE fin") (auto simp: parse_loop.simps [of h fin] file_lines.simps [of fin])
qed

lemma concat_file_lines: "concat (file_lines fin) = fin"
proof (induction fin rule: file_lines.induct)
  case (1 fin)
  show ?case
  proof (cases "fgets INI_MAX_LINE fin")
    case None
    then show ?thesis by (simp add: file_lines.simps [of fin]) (simp add: fgets_def split: if_splits)
  next
    case (Some p)
    obtain l rest where p: "p = (l, rest)" by fastforce
    with Some 1 have "concat (file_lines rest) = rest" by simp
    moreover have "fin = l @ rest"
      using Some p by (auto simp: fgets_def dest: fgets_chars_split split: if_splits)
    moreover have "file_lines fin = l # file_lines rest"
      by (subst file_lines.simps) (simp add: Some p)
    ultimately show ?thesis by simp
  qed
qed

lemma fgets_chars_newline:
  "CHR 0x0A \<notin> set l \<Longrightarrow> length l < n \<Longrightarrow> fgets_chars n (l @ CHR 0x0A # rest) = (l @ [CHR 0x0A], rest)"
proof (induction l arbitrary: n)
  case Nil
  then show ?case by (cases n) auto
next
  case (Cons c l)
  then show ?case by (cases n) auto
qed

lemma file_lines_Cons:
  assumes "CHR 0x0A \<notin> set l" and "length l < 199"
  shows "file_lines (l @ CHR 0x0A # rest) = (l @ [CHR 0x0A]) # file_lines rest"
  using assms by (subst file_lines.simps) (simp add: fgets_def INI_MAX_LINE_def fgets_chars_newline)

lemma file_lines_Nil: "file_lines [] = []"
  by (simp add: file_lines.simps fgets_def)

section \<open>The result code\<close>

lemma note_error_error: "error (note_error bad st) = (if bad \<and> error st = 0 then lineno st else error st)"
  by (simp add: note_error_def)

lemma note_error_lineno [simp]: "lineno (note_error bad st) = lineno st"
  by (simp add: note_error_def)

lemma call_handler_facts:
  "lineno (call_handler h n v st) = lineno st"
  "error st \<noteq> 0 \<Longrightarrow> error (call_handler h n v st) = error st"
  "error (call_handler h n v st) \<in> {0, lineno st, error st}"
  by (auto simp: call_handler_def note_error_error split: prod.splits)

lemma pair_line_facts:
  "lineno (pair_line h s st) = lineno st"
  "error st \<noteq> 0 \<Longrightarrow> error (pair_line h s st) = error st"
  "error (pair_line h s st) \<in> {0, lineno st, error st}"
  using call_handler_facts(1) [of h _ _ "st\<lparr>prev_name := _\<rparr>"] call_handler_facts(2) [of "st\<lparr>prev_name := _\<rparr>" h]
    call_handler_facts(3) [of h _ _ "st\<lparr>prev_name := _\<rparr>"]
  by (auto simp: pair_line_def note_error_error split: option.splits)

lemma section_line_facts:
  "lineno (section_line s st) = lineno st"
  "error st \<noteq> 0 \<Longrightarrow> error (section_line s st) = error st"
  "error (section_line s st) \<in> {0, lineno st, error st}"
  by (auto simp: section_line_def note_error_error split: prod.splits)

lemma parse_line_cases:
  obtains (skip) "parse_line h l st = st\<lparr>lineno := Suc (lineno st)\<rparr>"
    | (cont) v where "parse_line h l st = call_handler h (prev_name st) v (st\<lparr>lineno := Suc (lineno st)\<rparr>)"
        "length v \<le> length l"
    | (sect) s where "parse_line h l st = section_line s (st\<lparr>lineno := Suc (lineno st)\<rparr>)"
    | (pair) s where "parse_line h l st = pair_line h s (st\<lparr>lineno := Suc (lineno st)\<rparr>)" "length s \<le> length l"
proof -
  let ?s = "lskip (rstrip (skip_bom (Suc (lineno st)) (c_str l)))"
  have "length (skip_bom (Suc (lineno st)) (c_str l)) \<le> length (c_str l)" by (simp add: skip_bom_def)
  also have "\<dots> \<le> length l" by (simp add: c_str_def length_takeWhile_le)
  finally have len: "length ?s \<le> length l" by (meson length_rstrip_le length_lskip_le le_trans)
  have "parse_line h l st = st\<lparr>lineno := Suc (lineno st)\<rparr>
    \<or> parse_line h l st = call_handler h (prev_name st) ?s (st\<lparr>lineno := Suc (lineno st)\<rparr>)
    \<or> parse_line h l st = section_line ?s (st\<lparr>lineno := Suc (lineno st)\<rparr>)
    \<or> parse_line h l st = pair_line h ?s (st\<lparr>lineno := Suc (lineno st)\<rparr>)"
    unfolding parse_line_def Let_def by simp
  then show thesis using len that by metis
qed

lemma parse_line_lineno [simp]: "lineno (parse_line h l st) = Suc (lineno st)"
  by (rule parse_line_cases [of h l st]) (simp_all add: call_handler_facts pair_line_facts section_line_facts)

lemma parse_line_keeps_error: "error st \<noteq> 0 \<Longrightarrow> error (parse_line h l st) = error st"
  by (rule parse_line_cases [of h l st]) (simp_all add: call_handler_facts pair_line_facts section_line_facts)

lemma parse_line_error:
  assumes "error st = 0"
  shows "error (parse_line h l st) \<in> {0, Suc (lineno st)}"
proof (cases rule: parse_line_cases [of h l st])
  case (cont v)
  with assms call_handler_facts(3) [of h "prev_name st" v "st\<lparr>lineno := Suc (lineno st)\<rparr>"] show ?thesis by auto
next
  case (sect s)
  with assms section_line_facts(3) [of s "st\<lparr>lineno := Suc (lineno st)\<rparr>"] show ?thesis by auto
next
  case (pair s)
  with assms pair_line_facts(3) [of h s "st\<lparr>lineno := Suc (lineno st)\<rparr>"] show ?thesis by auto
qed (use assms in simp)

lemma fold_keeps_error: "error st \<noteq> 0 \<Longrightarrow> error (fold (parse_line h) ls st) = error st"
  by (induction ls arbitrary: st) (simp_all add: parse_line_keeps_error)

lemma fold_first_error:
  "error st = 0 \<Longrightarrow> error (fold (parse_line h) ls st) = e \<Longrightarrow> 0 < e \<Longrightarrow>
     lineno st < e \<and> e \<le> lineno st + length ls
     \<and> error (fold (parse_line h) (take (e - Suc (lineno st)) ls) st) = 0
     \<and> (\<forall>k \<ge> e - lineno st. error (fold (parse_line h) (take k ls) st) = e)"
proof (induction ls arbitrary: st)
  case (Cons l ls)
  let ?s = "parse_line h l st"
  show ?case
  proof (cases "error ?s = 0")
    case True
    with Cons.IH [OF True] Cons.prems have ih: "Suc (lineno st) < e" "e \<le> Suc (lineno st + length ls)"
        "error (fold (parse_line h) (take (e - Suc (Suc (lineno st))) ls) ?s) = 0"
        "\<forall>k \<ge> e - Suc (lineno st). error (fold (parse_line h) (take k ls) ?s) = e" by auto
    then obtain d where d: "e - Suc (lineno st) = Suc d" "d = e - Suc (Suc (lineno st))" by (metis Suc_diff_Suc)
    have "error (fold (parse_line h) (take k (l # ls)) st) = e" if "k \<ge> e - lineno st" for k
      using that ih(1,4) by (cases k) auto
    with ih d show ?thesis by simp
  next
    case False
    with parse_line_error [OF Cons.prems(1), of h l] have s: "error ?s = Suc (lineno st)" by simp
    with fold_keeps_error [OF False, of h] Cons.prems have e: "e = Suc (lineno st)" by simp
    have "error (fold (parse_line h) (take k (l # ls)) st) = e" if "k \<ge> e - lineno st" for k
      using that e s fold_keeps_error [OF False, of h] by (cases k) auto
    with e Cons.prems show ?thesis by simp
  qed
qed simp


definition collect :: "(string \<times> string \<times> string) list handler" where
  "collect u s n v = (u @ [(s, n, v)], True)"


section \<open>Bounds\<close>

text \<open>The handler is only called with strings that fit the parser's buffers.\<close>

definition call_bounded :: "string \<times> string \<times> string \<Rightarrow> bool" where
  "call_bounded c = (case c of (s, n, v) \<Rightarrow> length s < MAX_SECTION \<and> length n < INI_MAX_LINE \<and> length v < INI_MAX_LINE)"

definition state_bounded :: "(string \<times> string \<times> string) list ini_state \<Rightarrow> bool" where
  "state_bounded st \<longleftrightarrow> length (ini_section st) < MAX_SECTION \<and> length (prev_name st) < MAX_NAME
     \<and> (\<forall>c \<in> set (user st). call_bounded c)"

lemma split_pair_length:
  assumes "split_pair s = Some (n, v)"
  shows "length n \<le> length s" and "length v \<le> length s"
proof -
  obtain b1 a1 where f1: "find_char_or_comment s CHR ''='' = (b1, a1)" by fastforce
  obtain b2 a2 where f2: "find_char_or_comment s CHR '':'' = (b2, a2)" by fastforce
  define b a where ba: "b = (if starts_with CHR ''='' a1 then b1 else b2)" "a = (if starts_with CHR ''='' a1 then a1 else a2)"
  have s: "s = b @ a"
    using f1 f2 find_char_from_split by (auto simp: ba find_char_or_comment_def)
  obtain vb va where v: "find_char_or_comment (lskip (tl a)) NUL = (vb, va)" by fastforce
  then have "lskip (tl a) = vb @ va" by (simp add: find_char_or_comment_def find_char_from_split)
  then have "length (if starts_with CHR '';'' va then vb else lskip (tl a)) \<le> length (lskip (tl a))" by simp
  also have "\<dots> \<le> length s" using length_lskip_le [of "tl a"] s by simp
  finally have "length (rstrip (if starts_with CHR '';'' va then vb else lskip (tl a))) \<le> length s"
    using length_rstrip_le le_trans by blast
  moreover have "n = rstrip b" and "v = rstrip (if starts_with CHR '';'' va then vb else lskip (tl a))"
    using assms v by (auto simp: split_pair_def f1 f2 ba Let_def split: if_splits prod.splits)
  ultimately show "length n \<le> length s" and "length v \<le> length s"
    using length_rstrip_le [of b] s by simp_all
qed

lemma file_lines_bounded: "l \<in> set (file_lines fin) \<Longrightarrow> length l < INI_MAX_LINE"
proof (induction fin rule: file_lines.induct)
  case (1 fin)
  then show ?case
    by (cases "fgets INI_MAX_LINE fin")
       (auto simp: file_lines.simps [of fin] fgets_def INI_MAX_LINE_def dest!: fgets_chars_split split: if_splits)
qed

lemma call_collect_bounded:
  assumes "state_bounded st" and "length n < INI_MAX_LINE" and "length v < INI_MAX_LINE"
  shows "state_bounded (call_handler collect n v st)"
  using assms by (simp add: state_bounded_def call_handler_def collect_def note_error_def call_bounded_def)

lemma parse_line_bounded:
  assumes b: "state_bounded st" and l: "length l < INI_MAX_LINE"
  shows "state_bounded (parse_line collect l st)"
proof -
  have b': "state_bounded (st\<lparr>lineno := k, prev_name := strncpy0 MAX_NAME n\<rparr>)" for k n
    using b by (simp add: state_bounded_def strncpy0_def MAX_NAME_def)
  have b1: "state_bounded (st\<lparr>lineno := k\<rparr>)" for k using b by (simp add: state_bounded_def)
  show ?thesis
  proof (cases rule: parse_line_cases [of collect l st])
    case (cont v)
    have "length (prev_name st) < INI_MAX_LINE"
      using b by (simp add: state_bounded_def MAX_NAME_def INI_MAX_LINE_def)
    with cont l call_collect_bounded [OF b1] show ?thesis by simp
  next
    case (sect s)
    with b1 show ?thesis
      by (auto simp: section_line_def state_bounded_def strncpy0_def MAX_SECTION_def MAX_NAME_def
          note_error_def split: prod.splits)
  next
    case (pair s)
    have "state_bounded (note_error True (st\<lparr>lineno := k\<rparr>))" for k
      using b by (simp add: state_bounded_def note_error_def)
    with pair l show ?thesis
      using split_pair_length [of s] call_collect_bounded [OF b']
      by (fastforce simp: pair_line_def split: option.splits)
  qed (use b1 in simp)
qed

text \<open>
  Claim C26.  Bounds of the parser.  On every input, however malformed, every handler call
  gets a section of at most 49 characters and a name and a value that fit the line buffer.
\<close>

theorem ini_calls_bounded: "list_all call_bounded (snd (ini_parse_file fin collect []))"
proof -
  have "state_bounded (fold (parse_line collect) ls st)"
    if "state_bounded st" and "\<And>l. l \<in> set ls \<Longrightarrow> length l < INI_MAX_LINE" for ls st
    using that by (induction ls arbitrary: st) (simp_all add: parse_line_bounded)
  then have "state_bounded (fold (parse_line collect) (file_lines fin) (ini_init []))"
    by this (simp_all add: file_lines_bounded state_bounded_def ini_init_def MAX_SECTION_def MAX_NAME_def)
  then show ?thesis
    by (simp add: ini_parse_file_def parse_loop_fold state_bounded_def list_all_iff Let_def)
qed

section \<open>Round trip\<close>

text \<open>Documents and how they are written out.\<close>

type_synonym ini_doc = "(string \<times> (string \<times> string) list) list"

definition plain :: "string \<Rightarrow> bool" where
  "plain s \<longleftrightarrow> list_all (\<lambda>c. c \<noteq> CHR 0x0A \<and> c \<noteq> NUL \<and> c \<noteq> CHR '';'') s
     \<and> (s = [] \<or> \<not> isspace (hd s) \<and> \<not> isspace (last s))"

definition name_ok :: "string \<Rightarrow> bool" where
  "name_ok n \<longleftrightarrow> n \<noteq> [] \<and> plain n \<and> list_all (\<lambda>c. c \<noteq> CHR ''='') n \<and> hd n \<noteq> CHR ''#'' \<and> hd n \<noteq> CHR ''[''"

definition section_ok :: "string \<Rightarrow> bool" where
  "section_ok s \<longleftrightarrow> list_all (\<lambda>c. c \<noteq> CHR 0x0A \<and> c \<noteq> NUL \<and> c \<noteq> CHR '';'' \<and> c \<noteq> CHR '']'') s
     \<and> length s < MAX_SECTION"

definition pair_text :: "string \<Rightarrow> string \<Rightarrow> string" where
  "pair_text n v = n @ '' = '' @ v"

definition pair_ok :: "string \<times> string \<Rightarrow> bool" where
  "pair_ok p \<longleftrightarrow> (case p of (n, v) \<Rightarrow> name_ok n \<and> plain v \<and> length (pair_text n v) < INI_MAX_LINE - 1)"

definition doc_ok :: "ini_doc \<Rightarrow> bool" where
  "doc_ok d \<longleftrightarrow> list_all (\<lambda>(s, ps). section_ok s \<and> list_all pair_ok ps) d"

definition render :: "ini_doc \<Rightarrow> string" where
  "render d = concat (map (\<lambda>(s, ps). ''['' @ s @ '']'' @ [CHR 0x0A]
                 @ concat (map (\<lambda>(n, v). pair_text n v @ [CHR 0x0A]) ps)) d)"

definition doc_entries :: "ini_doc \<Rightarrow> (string \<times> string \<times> string) list" where
  "doc_entries d = concat (map (\<lambda>(s, ps). map (\<lambda>(n, v). (s, n, v)) ps) d)"

text \<open>The handler calls a document stands for.\<close>

definition feed :: "'u handler \<Rightarrow> (string \<times> string \<times> string) list \<Rightarrow> 'u \<Rightarrow> 'u" where
  "feed h es u = fold (\<lambda>(s, n, v) u. fst (h u s n v)) es u"

lemma plain_chars: "plain s \<Longrightarrow> CHR 0x0A \<notin> set s \<and> NUL \<notin> set s \<and> CHR '';'' \<notin> set s"
  unfolding plain_def list_all_iff by blast

lemma plain_lskip: "plain s \<Longrightarrow> lskip s = s"
  by (auto simp: plain_def intro: lskip_id)

lemma plain_rstrip: "plain s \<Longrightarrow> rstrip s = s"
  by (auto simp: plain_def intro: rstrip_id)

lemma isspace_newline: "isspace CHR 0x0A" and isspace_blank: "isspace CHR '' ''"
  by (simp_all add: isspace_def)

lemma isspace_eq_not: "\<not> isspace CHR ''=''" "\<not> isspace CHR ''[''" "\<not> isspace CHR '']''"
  by (simp_all add: isspace_def)

lemma rstrip_pair:
  assumes "plain v"
  shows "rstrip (pair_text n v @ [CHR 0x0A]) = (if v = [] then n @ '' ='' else pair_text n v)"
proof (cases "v = []")
  case True
  have "rstrip ((n @ '' ='') @ [CHR '' '', CHR 0x0A]) = rstrip (n @ '' ='')"
    by (rule rstrip_append_spaces) (simp add: isspace_newline isspace_blank)
  with True show ?thesis by (simp add: pair_text_def rstrip_id isspace_eq_not)
next
  case False
  then have "rstrip (pair_text n v @ [CHR 0x0A]) = rstrip (pair_text n v)"
    by (intro rstrip_append_spaces) (simp add: isspace_newline)
  with False assms show ?thesis by (simp add: plain_def pair_text_def rstrip_id)
qed

lemma split_pair_render:
  assumes n: "name_ok n" and v: "plain v"
  shows "split_pair (if v = [] then n @ '' ='' else pair_text n v) = Some (n, v)"
proof -
  have nc: "\<forall>x \<in> set (n @ '' ''). x \<noteq> CHR ''='' \<and> x \<noteq> CHR '';''"
    using n by (auto simp: name_ok_def plain_def list_all_iff)
  have hit: "find_char_from False ((n @ '' '') @ CHR ''='' # t) CHR ''='' = (n @ '' '', CHR ''='' # t)" for t
    by (rule find_char_from_hit [OF nc])
  have rs: "rstrip (n @ '' '') = n"
    using n plain_rstrip [of n] by (simp add: rstrip_append_spaces isspace_blank name_ok_def)
  have vm: "find_char_from False v NUL = (v, [])"
    using v by (intro find_char_from_miss) (auto simp: plain_def list_all_iff)
  have "split_pair ((n @ '' '') @ CHR ''='' # t) = Some (n, v)" if "lskip t = v" for t
    using that v by (simp only: split_pair_def find_char_or_comment_def hit)
      (simp add: starts_with_def rs vm plain_rstrip)
  from this [of "[]"] this [of "CHR '' '' # v"] v show ?thesis
    by (simp add: pair_text_def isspace_blank plain_lskip)
qed

lemma parse_section_line:
  assumes s: "section_ok s"
  shows "parse_line h (''['' @ s @ '']'' @ [CHR 0x0A]) st
         = st\<lparr>lineno := Suc (lineno st), ini_section := s, prev_name := []\<rparr>"
proof -
  let ?l = "(''['' @ s @ '']'') @ [CHR 0x0A]"
  have cs: "c_str ?l = ?l"
    using s by (intro c_str_id) (auto simp: section_ok_def list_all_iff)
  have bom: "skip_bom k ?l = ?l" for k by (simp add: skip_bom_def)
  have rs: "rstrip ?l = ''['' @ s @ '']''"
    by (subst rstrip_append_spaces) (simp_all add: isspace_newline rstrip_id isspace_eq_not)
  have hit: "find_char_from False (s @ CHR '']'' # []) CHR '']'' = (s, '']'')"
    using s by (intro find_char_from_hit) (auto simp: section_ok_def list_all_iff)
  have "strncpy0 MAX_SECTION s = s" using s by (simp add: strncpy0_def section_ok_def MAX_SECTION_def)
  with hit show ?thesis
    using cs bom [of "Suc (lineno st)"] rs
    by (simp add: parse_line_def section_line_def find_char_or_comment_def starts_with_def isspace_eq_not)
qed

lemma parse_pair_line:
  assumes p: "pair_ok (n, v)" and l: "lineno st \<noteq> 0" and h: "snd (h (user st) (ini_section st) n v)"
  shows "parse_line h (pair_text n v @ [CHR 0x0A]) st
         = st\<lparr>lineno := Suc (lineno st), prev_name := strncpy0 MAX_NAME n,
              user := fst (h (user st) (ini_section st) n v)\<rparr>"
proof -
  let ?l = "pair_text n v @ [CHR 0x0A]"
  define s where s: "s = (if v = [] then n @ '' ='' else pair_text n v)"
  from p have n: "name_ok n" and v: "plain v" by (auto simp: pair_ok_def)
  have "NUL \<notin> set n" and "NUL \<notin> set v" using n v plain_chars name_ok_def by blast+
  then have cs: "c_str ?l = ?l" by (intro c_str_id) (simp add: pair_text_def)
  have bom: "skip_bom (Suc (lineno st)) ?l = ?l" using l by (simp add: skip_bom_def)
  have rs: "rstrip ?l = s" using rstrip_pair [OF v] s by simp
  have n0: "n \<noteq> []" "\<not> isspace (hd n)" "hd n \<in> set n" using n by (auto simp: name_ok_def plain_def)
  then have hd: "hd s = hd n" "s \<noteq> []" by (simp_all add: s pair_text_def)
  with n0(2) have ls: "lskip s = s" by (metis lskip_id)
  have "hd n \<noteq> CHR '';''" using n n0(3) plain_chars [of n] unfolding name_ok_def by metis
  then have "parse_line h ?l st = pair_line h s (st\<lparr>lineno := Suc (lineno st)\<rparr>)"
    using hd n by (simp add: parse_line_def cs bom rs ls starts_with_def name_ok_def)
  moreover have "split_pair s = Some (n, v)" using split_pair_render [OF n v] s by simp
  ultimately show ?thesis
    using h by (simp add: pair_line_def call_handler_def note_error_def split: prod.splits)
qed

lemma lines_of_pair: "pair_ok (n, v) \<Longrightarrow> CHR 0x0A \<notin> set (pair_text n v) \<and> length (pair_text n v) < 199"
  by (auto simp: pair_ok_def name_ok_def plain_def pair_text_def list_all_iff INI_MAX_LINE_def)

text \<open>The state after a part of a document.\<close>

definition consumed :: "'u handler \<Rightarrow> (string \<times> string \<times> string) list \<Rightarrow> 'u ini_state \<Rightarrow> 'u ini_state \<Rightarrow> bool" where
  "consumed h es st st' \<longleftrightarrow> user st' = feed h es (user st) \<and> error st' = error st \<and> lineno st' \<ge> lineno st"

lemma parse_pairs:
  assumes "\<And>u s n v. snd (h u s n v)" and "list_all pair_ok ps" and "lineno st \<noteq> 0"
  shows "\<exists>st'. parse_loop h (concat (map (\<lambda>(n, v). pair_text n v @ [CHR 0x0A]) ps) @ rest) st = parse_loop h rest st'
           \<and> consumed h (map (\<lambda>(n, v). (ini_section st, n, v)) ps) st st'"
  using assms(2,3)
proof (induction ps arbitrary: st)
  case Nil
  then show ?case by (auto simp: feed_def consumed_def)
next
  case (Cons p ps)
  obtain n v where p: "p = (n, v)" by fastforce
  with Cons.prems have ok: "pair_ok (n, v)" by simp
  let ?st = "parse_line h (pair_text n v @ [CHR 0x0A]) st"
  note st = parse_pair_line [OF ok Cons.prems(2), of h, OF assms(1)]
  have "\<exists>st'. parse_loop h (concat (map (\<lambda>(n, v). pair_text n v @ [CHR 0x0A]) ps) @ rest) ?st = parse_loop h rest st'
           \<and> consumed h (map (\<lambda>(n, v). (ini_section st, n, v)) ps) ?st st'"
    using Cons.IH [of ?st] Cons.prems by (simp add: st)
  then show ?case
    using lines_of_pair [OF ok]
    by (auto simp: p parse_loop_fold file_lines_Cons consumed_def feed_def st)
qed

lemma parse_doc:
  assumes h: "\<And>u s n v. snd (h u s n v)" and "doc_ok d"
  shows "consumed h (doc_entries d) st (parse_loop h (render d) st)"
  using assms(2)
proof (induction d arbitrary: st)
  case Nil
  then show ?case by (simp add: render_def doc_entries_def parse_loop_fold file_lines_Nil consumed_def feed_def)
next
  case (Cons b d)
  obtain s ps where b: "b = (s, ps)" by fastforce
  with Cons.prems have s: "section_ok s" and ps: "list_all pair_ok ps" and d: "doc_ok d" by (auto simp: doc_ok_def)
  let ?l = "''['' @ s @ '']''"
  let ?st = "parse_line h (''['' @ s @ '']'' @ [CHR 0x0A]) st"
  have sec: "ini_section ?st = s" "user ?st = user st" "error ?st = error st" "lineno ?st = Suc (lineno st)"
    using parse_section_line [OF s, of h st] by simp_all
  let ?rest = "concat (map (\<lambda>(n, v). pair_text n v @ [CHR 0x0A]) ps) @ render d"
  have "file_lines (?l @ CHR 0x0A # ?rest) = (?l @ [CHR 0x0A]) # file_lines ?rest"
    using s by (intro file_lines_Cons) (auto simp: section_ok_def list_all_iff MAX_SECTION_def)
  then have "parse_loop h (render (b # d)) st = parse_loop h ?rest ?st"
    by (simp add: parse_loop_fold b render_def)
  moreover obtain st' where "parse_loop h ?rest ?st = parse_loop h (render d) st'"
      "consumed h (map (\<lambda>(n, v). (s, n, v)) ps) ?st st'"
    using parse_pairs [where h = h, OF h ps, where st = ?st and rest = "render d"] sec by auto
  ultimately show ?case
    using Cons.IH [OF d, of st'] sec by (auto simp: consumed_def feed_def doc_entries_def b)
qed

text \<open>
  Claim C24.  Round trip.  Parsing the text of a document calls the handler exactly once for
  every entry, in order, with its section, name and value unchanged, and reports success.
\<close>

theorem ini_roundtrip:
  assumes "doc_ok d"
  shows "ini_parse_file (render d) collect [] = (0, doc_entries d)"
proof -
  have "consumed collect (doc_entries d) (ini_init []) (parse_loop collect (render d) (ini_init []))"
    using assms by (intro parse_doc) (simp_all add: collect_def)
  moreover have "feed collect es u = u @ es" for es u
    by (induction es arbitrary: u) (auto simp: feed_def collect_def)
  ultimately show ?thesis by (simp add: ini_parse_file_def consumed_def ini_init_def Let_def)
qed

definition sample_doc :: ini_doc where
  "sample_doc = [(''LoginREST'', [(''Port'', ''8081''), (''ExternalAddress'', ''127.0.0.1'')]),
                 (''Empty'', []), (''MySQL'', [(''Password'', ''''), (''Url'', ''a=b'')])]"

theorem ini_roundtrip_witness:
  "ini_parse_file (render sample_doc) collect [] = (0, doc_entries sample_doc) \<and> length (doc_entries sample_doc) = 4"
proof -
  have "doc_ok sample_doc" by code_simp
  moreover have "length (doc_entries sample_doc) = 4" by code_simp
  ultimately show ?thesis using ini_roundtrip by blast
qed

end
