(* ===== verification/Config_Files.thy ===== *)
theory Config_Files
  imports Ini
begin

text \<open>
  \<^verbatim>\<open>ConfigFile\<close> and \<^verbatim>\<open>Config\<close> of \<^verbatim>\<open>Source/Core/Private/Detail/Config/Config.cpp\<close>
  and \<^verbatim>\<open>Source/Core/Public/Detail/Config.h\<close>.  An output parameter that is only written on
  \<^verbatim>\<open>Status::OK\<close> is an \<^typ>\<open>'a option\<close>: \<^term>\<open>None\<close> is \<^verbatim>\<open>Status::FAILED\<close> with
  the output unchanged.  The width of \<^verbatim>\<open>long\<close> is the argument \<open>bits\<close>; the conversion of
  \<^verbatim>\<open>strtod\<close> is the argument \<open>strtod\<close>, with the flag that something was converted.  The
  file system is the argument \<open>fopen_r\<close>.
\<close>

section \<open>One file\<close>

record config_file =
  Filename :: string
  Error :: int
  Values :: "string \<Rightarrow> string option"
  Sections :: "string set"
  Fields :: "string \<Rightarrow> string set option"

definition ConfigFile :: config_file where
  "ConfigFile = \<lparr>Filename = [], Error = 0, Values = Map.empty, Sections = {}, Fields = Map.empty\<rparr>"

definition MakeKey :: "string \<Rightarrow> string \<Rightarrow> string" where
  "MakeKey sec name = lower_string (sec @ ''.'' @ name)"

definition map_get :: "(string \<Rightarrow> 'a option) \<Rightarrow> 'a \<Rightarrow> string \<Rightarrow> 'a" where
  "map_get m dflt k = (case m k of None \<Rightarrow> dflt | Some v \<Rightarrow> v)"

definition ValueHandler :: "config_file handler" where
  "ValueHandler reader sec name val =
     (let key = MakeKey sec name;
          v0 = map_get (Values reader) [] key;
          v1 = (if length v0 > 0 then v0 @ [CHR 0x0A] else v0);
          v2 = v1 @ val;
          sectionKey = lower_string sec;
          fieldsSet = map_get (Fields reader) {} sectionKey
      in (reader\<lparr>Values := (Values reader)(key \<mapsto> v2),
                 Sections := insert sec (Sections reader),
                 Fields := (Fields reader)(sectionKey \<mapsto> insert name fieldsSet)\<rparr>, True))"

definition stem :: "string \<Rightarrow> string" where
  "stem filename = takeWhile (\<lambda>c. c \<noteq> CHR ''.'') filename"

definition LoadFile :: "(string \<Rightarrow> string option) \<Rightarrow> string \<Rightarrow> config_file \<Rightarrow> int \<times> config_file" where
  "LoadFile fopen_r filename cf =
     (let (err, cf1) = ini_parse fopen_r (c_str filename) ValueHandler (cf\<lparr>Filename := stem filename\<rparr>)
      in (err, cf1\<lparr>Error := err\<rparr>))"

definition File_GetString :: "string \<Rightarrow> config_file \<Rightarrow> string option" where
  "File_GetString key cf = Values cf key"

text \<open>The value the getters convert: empty when the key is missing.\<close>

definition value_or_empty :: "string option \<Rightarrow> string" where
  "value_or_empty v = (case v of None \<Rightarrow> [] | Some s \<Rightarrow> s)"

definition File_GetLong :: "nat \<Rightarrow> string \<Rightarrow> config_file \<Rightarrow> int option" where
  "File_GetLong bits key cf =
     (let (res, moved) = strtol0 bits (c_str (value_or_empty (File_GetString key cf)))
      in if moved then Some res else None)"

definition File_GetDouble :: "(string \<Rightarrow> 'd \<times> bool) \<Rightarrow> string \<Rightarrow> config_file \<Rightarrow> 'd option" where
  "File_GetDouble strtod key cf =
     (let (res, moved) = strtod (c_str (value_or_empty (File_GetString key cf)))
      in if moved then Some res else None)"

definition parse_boolean :: "string \<Rightarrow> bool option" where
  "parse_boolean v =
     (let val = lower_string v
      in if val \<in> {''true'', ''yes'', ''on'', ''1''} then Some True
         else if val \<in> {''false'', ''no'', ''off'', ''0''} then Some False
         else None)"

definition File_GetBoolean :: "string \<Rightarrow> config_file \<Rightarrow> bool option" where
  "File_GetBoolean key cf = parse_boolean (value_or_empty (File_GetString key cf))"

text \<open>The overloads with a section.\<close>

definition File_GetString_in :: "string \<Rightarrow> string \<Rightarrow> config_file \<Rightarrow> string option" where
  "File_GetString_in sec name cf = Values cf (MakeKey sec name)"

definition File_GetLong_in :: "nat \<Rightarrow> string \<Rightarrow> string \<Rightarrow> config_file \<Rightarrow> int option" where
  "File_GetLong_in bits sec name cf =
     (let (res, moved) = strtol0 bits (c_str (value_or_empty (File_GetString_in sec name cf)))
      in if moved then Some res else None)"

definition File_GetDouble_in :: "(string \<Rightarrow> 'd \<times> bool) \<Rightarrow> string \<Rightarrow> string \<Rightarrow> config_file \<Rightarrow> 'd option" where
  "File_GetDouble_in strtod sec name cf =
     (let (res, moved) = strtod (c_str (value_or_empty (File_GetString_in sec name cf)))
      in if moved then Some res else None)"

definition File_GetBoolean_in :: "string \<Rightarrow> string \<Rightarrow> config_file \<Rightarrow> bool option" where
  "File_GetBoolean_in sec name cf = parse_boolean (value_or_empty (File_GetString_in sec name cf))"

definition GetFields :: "string \<Rightarrow> config_file \<Rightarrow> string set" where
  "GetFields sec cf = (case Fields cf (lower_string sec) of None \<Rightarrow> {} | Some fs \<Rightarrow> fs)"

section \<open>The list of loaded files\<close>

type_synonym config = "config_file list"

definition Find :: "string \<Rightarrow> config \<Rightarrow> config_file option" where
  "Find filename cs = find (\<lambda>cf. Filename cf = filename) cs"

definition GetFile :: "string \<Rightarrow> config \<Rightarrow> config_file option" where
  "GetFile filename cs = find (\<lambda>cf. Filename cf = filename) cs"

text \<open>
  \<^verbatim>\<open>ConfigFilesList.back().GetFilename() = Filename\<close> assigns to the copy that
  \<^verbatim>\<open>GetFilename\<close> returns: the stored name stays the stem.
\<close>

definition Load :: "(string \<Rightarrow> string option) \<Rightarrow> string \<Rightarrow> config \<Rightarrow> status \<times> config" where
  "Load fopen_r filename cs =
     (if Find filename cs \<noteq> None then (OK, cs)
      else let (res, cf) = LoadFile fopen_r filename ConfigFile
           in if res = 0 then (OK, cs @ [cf]) else (FAILED, cs))"

fun Unload_loop :: "string \<Rightarrow> config \<Rightarrow> config" where
  "Unload_loop filename [] = []"
| "Unload_loop filename (cf # cs) =
     (if Filename cf = filename then Unload_loop filename cs else cf # Unload_loop filename cs)"

definition Unload :: "string \<Rightarrow> config \<Rightarrow> status \<times> config" where
  "Unload filename cs = (OK, Unload_loop filename cs)"

definition Reload :: "(string \<Rightarrow> string option) \<Rightarrow> string \<Rightarrow> config \<Rightarrow> status \<times> config" where
  "Reload fopen_r filename cs =
     (let (r, cs') = Unload filename cs in if r = OK then Load fopen_r filename cs' else (FAILED, cs'))"

definition GetFilenames :: "config \<Rightarrow> string list" where
  "GetFilenames cs = map Filename cs"

definition GetKeys :: "string \<Rightarrow> config \<Rightarrow> string set" where
  "GetKeys filename cs = (case Find filename cs of None \<Rightarrow> {} | Some cf \<Rightarrow> GetFields [] cf)"

definition GetKeysByString :: "string \<Rightarrow> string \<Rightarrow> config \<Rightarrow> string list" where
  "GetKeysByString key filename cs = (case Find filename cs of None \<Rightarrow> [] | Some cf \<Rightarrow> [])"

text \<open>
  The file part and the lower-cased rest of a key.  With no dot in the key,
  \<^verbatim>\<open>npos + 1\<close> is 0, so both are the whole key.
\<close>

definition split_key :: "string \<Rightarrow> string \<times> string" where
  "split_key key =
     (case find_first (\<lambda>c. c = CHR ''.'') key of
        Some i \<Rightarrow> (take i key, lower_string (drop (Suc i) key))
      | None \<Rightarrow> (key, lower_string key))"

definition GetString :: "string \<Rightarrow> config \<Rightarrow> string option" where
  "GetString key cs =
     (let (filename, subkey) = split_key key
      in case Find filename cs of None \<Rightarrow> None | Some cf \<Rightarrow> File_GetString subkey cf)"

definition GetBool :: "string \<Rightarrow> config \<Rightarrow> bool option" where
  "GetBool key cs =
     (let (filename, subkey) = split_key key
      in case Find filename cs of None \<Rightarrow> None | Some cf \<Rightarrow> File_GetBoolean subkey cf)"

definition GetLong :: "nat \<Rightarrow> string \<Rightarrow> config \<Rightarrow> int option" where
  "GetLong bits key cs =
     (let (filename, subkey) = split_key key
      in case Find filename cs of None \<Rightarrow> None | Some cf \<Rightarrow> File_GetLong bits subkey cf)"

definition GetUInt :: "nat \<Rightarrow> string \<Rightarrow> config \<Rightarrow> u32 option" where
  "GetUInt bits key cs =
     (let (filename, subkey) = split_key key
      in case Find filename cs of None \<Rightarrow> None
         | Some cf \<Rightarrow> map_option word_of_int (File_GetLong bits subkey cf))"

definition GetInt :: "nat \<Rightarrow> string \<Rightarrow> config \<Rightarrow> int option" where
  "GetInt bits key cs =
     (let (filename, subkey) = split_key key
      in case Find filename cs of None \<Rightarrow> None
         | Some cf \<Rightarrow> map_option (\<lambda>l. sint (word_of_int l :: 32 word)) (File_GetLong bits subkey cf))"

definition GetDouble :: "(string \<Rightarrow> 'd \<times> bool) \<Rightarrow> string \<Rightarrow> config \<Rightarrow> 'd option" where
  "GetDouble strtod key cs =
     (let (filename, subkey) = split_key key
      in case Find filename cs of None \<Rightarrow> None | Some cf \<Rightarrow> File_GetDouble strtod subkey cf)"

definition GetFloat :: "(string \<Rightarrow> 'd \<times> bool) \<Rightarrow> ('d \<Rightarrow> 'f) \<Rightarrow> string \<Rightarrow> config \<Rightarrow> 'f option" where
  "GetFloat strtod to_float key cs =
     (let (filename, subkey) = split_key key
      in case Find filename cs of None \<Rightarrow> None
         | Some cf \<Rightarrow> map_option to_float (File_GetDouble strtod subkey cf))"

text \<open>The overloads with a section and a file name; the one for \<^verbatim>\<open>uint32\<close> has no body.\<close>

definition GetString_in :: "string \<Rightarrow> string \<Rightarrow> string \<Rightarrow> config \<Rightarrow> string option" where
  "GetString_in sec key filename cs =
     (case Find filename cs of None \<Rightarrow> None | Some cf \<Rightarrow> File_GetString_in (c_str sec) (c_str key) cf)"

definition GetBool_in :: "string \<Rightarrow> string \<Rightarrow> string \<Rightarrow> config \<Rightarrow> bool option" where
  "GetBool_in sec key filename cs =
     (case Find filename cs of None \<Rightarrow> None | Some cf \<Rightarrow> File_GetBoolean_in (c_str sec) (c_str key) cf)"

definition GetLong_in :: "nat \<Rightarrow> string \<Rightarrow> string \<Rightarrow> string \<Rightarrow> config \<Rightarrow> int option" where
  "GetLong_in bits sec key filename cs =
     (case Find filename cs of None \<Rightarrow> None | Some cf \<Rightarrow> File_GetLong_in bits (c_str sec) (c_str key) cf)"

definition GetUInt_in :: "string \<Rightarrow> string \<Rightarrow> string \<Rightarrow> config \<Rightarrow> u32 option" where
  "GetUInt_in sec key filename cs = None"

definition GetInt_in :: "nat \<Rightarrow> string \<Rightarrow> string \<Rightarrow> string \<Rightarrow> config \<Rightarrow> int option" where
  "GetInt_in bits sec key filename cs =
     (case Find filename cs of None \<Rightarrow> None
      | Some cf \<Rightarrow> map_option (\<lambda>l. sint (word_of_int l :: 32 word))
                     (File_GetLong_in bits (c_str sec) (c_str key) cf))"

definition GetDouble_in :: "(string \<Rightarrow> 'd \<times> bool) \<Rightarrow> string \<Rightarrow> string \<Rightarrow> string \<Rightarrow> config \<Rightarrow> 'd option" where
  "GetDouble_in strtod sec key filename cs =
     (case Find filename cs of None \<Rightarrow> None
      | Some cf \<Rightarrow> File_GetDouble_in strtod (c_str sec) (c_str key) cf)"

definition GetFloat_in ::
  "(string \<Rightarrow> 'd \<times> bool) \<Rightarrow> ('d \<Rightarrow> 'f) \<Rightarrow> string \<Rightarrow> string \<Rightarrow> string \<Rightarrow> config \<Rightarrow> 'f option" where
  "GetFloat_in strtod to_float sec key filename cs =
     (case Find filename cs of None \<Rightarrow> None
      | Some cf \<Rightarrow> map_option to_float (File_GetDouble_in strtod (c_str sec) (c_str key) cf))"

section \<open>What a file holds after loading\<close>

text \<open>
  The specification: a key holds the values of its entries, case-insensitively, joined by
  newlines.
\<close>

definition join_value :: "string \<Rightarrow> string \<Rightarrow> string" where
  "join_value a v = (if a = [] then v else a @ CHR 0x0A # v)"

definition values_of :: "string \<Rightarrow> (string \<times> string \<times> string) list \<Rightarrow> string list" where
  "values_of key es = map (\<lambda>(s, n, v). v) (filter (\<lambda>(s, n, v). MakeKey s n = key) es)"

definition spec_value :: "string option \<Rightarrow> string list \<Rightarrow> string option" where
  "spec_value v0 vs = (if vs = [] then v0 else Some (foldl join_value (value_or_empty v0) vs))"

lemma ValueHandler_Values:
  "Values (fst (ValueHandler cf s n v)) key =
     (if MakeKey s n = key then Some (join_value (value_or_empty (Values cf key)) v) else Values cf key)"
  by (auto simp: ValueHandler_def join_value_def value_or_empty_def map_get_def Let_def)

lemma spec_value_step: "spec_value (Some (join_value (value_or_empty v0) v)) vs = spec_value v0 (v # vs)"
  by (simp add: spec_value_def value_or_empty_def)

lemma feed_Values: "Values (feed ValueHandler es cf) key = spec_value (Values cf key) (values_of key es)"
proof (induction es arbitrary: cf)
  case (Cons e es)
  obtain s n v where e: "e = (s, n, v)" by (cases e) auto
  have "feed ValueHandler (e # es) cf = feed ValueHandler es (fst (ValueHandler cf s n v))"
    by (simp add: feed_def e)
  with Cons show ?case by (simp add: ValueHandler_Values values_of_def e spec_value_step)
qed (simp add: feed_def values_of_def spec_value_def)

lemma feed_Filename [simp]: "Filename (feed ValueHandler es cf) = Filename cf"
  by (induction es arbitrary: cf) (auto simp: feed_def ValueHandler_def Let_def)

lemma LoadFile_doc:
  assumes "fopen_r filename = Some (render d)" and "doc_ok d" and "NUL \<notin> set filename"
  shows "LoadFile fopen_r filename cf = (0, (feed ValueHandler (doc_entries d) (cf\<lparr>Filename := stem filename\<rparr>))\<lparr>Error := 0\<rparr>)"
proof -
  have "consumed ValueHandler (doc_entries d) (ini_init u) (parse_loop ValueHandler (render d) (ini_init u))" for u
    using assms(2) by (intro parse_doc) (simp_all add: ValueHandler_def Let_def)
  then have "ini_parse_file (render d) ValueHandler u = (0, feed ValueHandler (doc_entries d) u)" for u
    by (auto simp: ini_parse_file_def consumed_def ini_init_def Let_def)
  with assms show ?thesis by (simp add: LoadFile_def ini_parse_def c_str_id)
qed

lemma split_key_stem:
  assumes "CHR ''.'' \<notin> set f"
  shows "split_key (f @ ''.'' @ k) = (f, lower_string k)"
proof -
  have "find_first (\<lambda>c. c = CHR ''.'') (f @ CHR ''.'' # k) = Some (length f)"
    using assms by (intro find_first_append) auto
  then show ?thesis by (simp add: split_key_def)
qed

lemma Find_append: "Find f (cs @ ds) = (case Find f cs of None \<Rightarrow> Find f ds | Some cf \<Rightarrow> Some cf)"
  by (induction cs) (auto simp: Find_def)

lemma stem_no_dot: "CHR ''.'' \<notin> set (stem f)"
  by (auto simp: stem_def dest: set_takeWhileD)

section \<open>Properties\<close>

lemma Load_doc:
  assumes "fopen_r f = Some (render d)" and "doc_ok d" and "NUL \<notin> set f" and "Find f cs = None"
  shows "Load fopen_r f cs
         = (OK, cs @ [(feed ValueHandler (doc_entries d) (ConfigFile\<lparr>Filename := stem f\<rparr>))\<lparr>Error := 0\<rparr>])"
  using assms by (simp add: Load_def LoadFile_doc)

lemma GetString_stem:
  assumes "CHR ''.'' \<notin> set g"
  shows "GetString (g @ ''.'' @ key) cs = (case Find g cs of None \<Rightarrow> None | Some cf \<Rightarrow> Values cf (lower_string key))"
  using split_key_stem [OF assms, of key] by (simp add: GetString_def File_GetString_def split: option.split)

lemma loaded_lookup:
  assumes "fopen_r f = Some (render d)" and "doc_ok d" and "NUL \<notin> set f"
    and "Find f cs = None" and "Find (stem f) cs = None"
  shows "GetString (stem f @ ''.'' @ key) (snd (Load fopen_r f cs)) = spec_value None (values_of (lower_string key) (doc_entries d))"
proof -
  let ?cf = "(feed ValueHandler (doc_entries d) (ConfigFile\<lparr>Filename := stem f\<rparr>))\<lparr>Error := 0\<rparr>"
  have "Find (stem f) (snd (Load fopen_r f cs)) = Some ?cf"
    using Load_doc [where fopen_r = fopen_r, OF assms(1-4)] assms(5) by (simp add: Find_append) (simp add: Find_def)
  moreover have "Values ?cf (lower_string key) = spec_value None (values_of (lower_string key) (doc_entries d))"
    by (simp add: feed_Values) (simp add: ConfigFile_def)
  ultimately show ?thesis by (simp only: GetString_stem [OF stem_no_dot] option.simps)
qed


definition sample_fs :: "string \<Rightarrow> string option" where
  "sample_fs f = (if f = ''Server.ini'' then Some (render sample_doc) else None)"


text \<open>
  Numeric settings.  When a loaded document has exactly one entry for a key and its
  value is a positive decimal number below \<open>2 ^ 31\<close>, \<^verbatim>\<open>GetInt\<close> and \<^verbatim>\<open>GetUInt\<close>
  return that number, for a \<^verbatim>\<open>long\<close> of 32 bits as for one of 64.
\<close>

theorem config_number:
  assumes "fopen_r f = Some (render d)" and "doc_ok d" and "NUL \<notin> set f"
    and "Find f cs = None" and "Find (stem f) cs = None"
    and "values_of (lower_string key) (doc_entries d) = [dec n]" and "0 < n" and "n < 2 ^ 31"
    and "bits = 32 \<or> bits = 64"
  shows "GetInt bits (stem f @ ''.'' @ key) (snd (Load fopen_r f cs)) = Some (int n)
       \<and> GetUInt bits (stem f @ ''.'' @ key) (snd (Load fopen_r f cs)) = Some (of_nat n)"
proof -
  let ?cs = "snd (Load fopen_r f cs)" and ?k = "stem f @ ''.'' @ key"
  have "GetString ?k ?cs = Some (dec n)"
    using loaded_lookup [where fopen_r = fopen_r, OF assms(1-5), of key] assms(6)
    by (simp add: spec_value_def value_or_empty_def join_value_def)
  then obtain cf where cf: "Find (stem f) ?cs = Some cf" "Values cf (lower_string key) = Some (dec n)"
    unfolding GetString_stem [OF stem_no_dot] by (auto split: option.splits)
  have "int n < 2 ^ (bits - 1)" using assms(8,9) by auto
  then have l: "File_GetLong bits (lower_string key) cf = Some (int n)"
    using cf(2) assms(7) by (simp add: File_GetLong_def File_GetString_def value_or_empty_def c_str_id
        dec_no_NUL strtol0_dec)
  have "sint (word_of_int (int n) :: 32 word) = int n"
    using sint_of_nat_small [OF assms(8)] by simp
  with l cf(1) show ?thesis
    unfolding GetInt_def GetUInt_def split_key_stem [OF stem_no_dot] by simp
qed

theorem config_number_witness:
  "GetUInt 64 (stem ''Server.ini'' @ ''.'' @ ''LOGINREST.PORT'') (snd (Load sample_fs ''Server.ini'' [])) = Some 8081"
proof -
  have ok: "doc_ok sample_doc" by code_simp
  have v: "values_of (lower_string ''LOGINREST.PORT'') (doc_entries sample_doc) = [''8081'']" by code_simp
  have "digit_char 8 = CHR ''8''" "digit_char 0 = CHR ''0''" "digit_char 1 = CHR ''1''" by code_simp+
  then have d: "dec 8081 = ''8081''" by (simp add: dec.simps)
  show ?thesis
    using config_number [of sample_fs "''Server.ini''" sample_doc "[]" "''LOGINREST.PORT''" 8081 64] ok v d
    by (simp add: sample_fs_def Find_def)
qed

text \<open>The list of files the program can reach.\<close>

inductive config_reachable :: "config \<Rightarrow> bool" where
  init: "config_reachable []"
| load: "config_reachable cs \<Longrightarrow> Load fopen_r f cs = (r, cs') \<Longrightarrow> config_reachable cs'"
| unload: "config_reachable cs \<Longrightarrow> Unload f cs = (r, cs') \<Longrightarrow> config_reachable cs'"
| reload: "config_reachable cs \<Longrightarrow> Reload fopen_r f cs = (r, cs') \<Longrightarrow> config_reachable cs'"

definition names_are_stems :: "config \<Rightarrow> bool" where
  "names_are_stems cs \<longleftrightarrow> (\<forall>cf \<in> set cs. CHR ''.'' \<notin> set (Filename cf))"

lemma parse_user_invariant:
  assumes "\<And>u s n v. P u \<Longrightarrow> P (fst (h u s n v))" and "P (user st)"
  shows "P (user (parse_line h l st))"
proof -
  have call: "P (user st') \<Longrightarrow> P (user (call_handler h n v st'))" for n v st'
    using assms(1) by (auto simp: call_handler_def note_error_def split: prod.splits) (metis fst_conv)+
  show ?thesis
    by (cases rule: parse_line_cases [of h l st])
      (use assms(2) call in \<open>auto simp: section_line_def pair_line_def note_error_def split: prod.splits option.splits\<close>)
qed

lemma LoadFile_Filename: "Filename (snd (LoadFile fopen_r f cf)) = stem f"
proof -
  have "Filename (user (fold (parse_line ValueHandler) ls st)) = stem f" if "Filename (user st) = stem f" for ls st
    using that parse_user_invariant [of "\<lambda>u. Filename u = stem f" ValueHandler]
    by (induction ls arbitrary: st) (simp_all add: ValueHandler_def Let_def)
  then show ?thesis
    by (auto simp: LoadFile_def ini_parse_def ini_parse_file_def parse_loop_fold ini_init_def Let_def split: option.splits)
qed

lemma Load_stems: "names_are_stems cs \<Longrightarrow> names_are_stems (snd (Load fopen_r f cs))"
  using LoadFile_Filename [of fopen_r f ConfigFile] stem_no_dot [of f]
  by (auto simp: Load_def names_are_stems_def split: prod.splits)

lemma Unload_loop_filter: "Unload_loop f cs = filter (\<lambda>cf. Filename cf \<noteq> f) cs"
  by (induction cs) auto

lemma config_reachable_stems: "config_reachable cs \<Longrightarrow> names_are_stems cs"
proof (induction rule: config_reachable.induct)
  case (load cs fopen_r f r cs')
  with Load_stems [of cs fopen_r f] show ?case by simp
next
  case (unload cs f r cs')
  then show ?case by (auto simp: Unload_def Unload_loop_filter names_are_stems_def)
next
  case (reload cs fopen_r f r cs')
  then have "names_are_stems (Unload_loop f cs)" by (auto simp: Unload_loop_filter names_are_stems_def)
  with reload Load_stems [of "Unload_loop f cs" fopen_r f] show ?case by (simp add: Reload_def Unload_def)
qed (simp add: names_are_stems_def)

lemma dotted_not_found:
  assumes "config_reachable cs" and "CHR ''.'' \<in> set f"
  shows "Find f cs = None" and "Unload_loop f cs = cs"
proof -
  have "\<forall>cf \<in> set cs. Filename cf \<noteq> f"
    using config_reachable_stems [OF assms(1)] assms(2) by (auto simp: names_are_stems_def)
  then show "Find f cs = None" and "Unload_loop f cs = cs"
    by (auto simp: Find_def find_None_iff Unload_loop_filter filter_id_conv)
qed

text \<open>
  Reloading has no visible effect.  Files are stored under their stem, because the
  assignment of the full name goes to a temporary.  So for a file name with an extension
  \<^verbatim>\<open>Unload\<close> removes nothing, the guard of \<^verbatim>\<open>Load\<close> against loading twice never
  fires, and after \<^verbatim>\<open>Reload\<close>, whatever the file now holds, every key that was set
  before still yields the old value.
\<close>

theorem reload_keeps_old_values:
  assumes "config_reachable cs" and "CHR ''.'' \<in> set f" and "GetString key cs = Some v"
  shows "snd (Unload f cs) = cs \<and> Find f cs = None \<and> GetString key (snd (Reload fopen_r f cs)) = Some v"
proof -
  note nf = dotted_not_found [OF assms(1,2)]
  have "\<exists>ds. snd (Reload fopen_r f cs) = cs @ ds"
    by (auto simp: Reload_def Unload_def nf Load_def split: prod.splits)
  then obtain ds where "snd (Reload fopen_r f cs) = cs @ ds" ..
  with nf assms(3) show ?thesis
    by (auto simp: GetString_def Unload_def Find_append split: prod.splits option.splits)
qed

theorem reload_keeps_old_values_witness:
  "\<exists>cs. Load sample_fs ''Server.ini'' [] = (OK, cs) \<and> GetString ''Server.LoginREST.Port'' cs = Some ''8081''
     \<and> GetString ''Server.LoginREST.Port'' (snd (Reload (\<lambda>_. Some '''') ''Server.ini'' cs)) = Some ''8081''"
proof -
  have "map_prod id (GetString ''Server.LoginREST.Port'') (Load sample_fs ''Server.ini'' []) = (OK, Some ''8081'')"
    by code_simp
  then obtain cs where cs: "Load sample_fs ''Server.ini'' [] = (OK, cs)" "GetString ''Server.LoginREST.Port'' cs = Some ''8081''"
    by (cases "Load sample_fs ''Server.ini'' []") auto
  from reload_keeps_old_values [OF config_reachable.load [OF config_reachable.init cs(1)] _ cs(2), of "''Server.ini''" "\<lambda>_. Some ''''"] cs
  show ?thesis by simp
qed

end
