(* ===== verification/Queues.thy ===== *)
theory Queues
  imports Prelude
begin

text \<open>
  The two queues that threads share: \<^verbatim>\<open>LockedQueue\<close>
  (\<^verbatim>\<open>Source/ProtobufDecompileTest/Threading/LockedQueue.h\<close>), whose mutex a caller can keep
  by \<^verbatim>\<open>peek\<close>, and \<^verbatim>\<open>ProducerConsumerQueue\<close>
  (\<^verbatim>\<open>Source/Core/Private/Core/Utilities/Containers/ProducerConsumerQueue.h\<close>), whose readers
  wait on a condition variable.  A critical section is one step; waiting, being notified and
  waking up are separate steps.  Both queues are instances of one interface.
\<close>

section \<open>The interface of a queue\<close>

locale fifo_queue =
  fixes items :: "'q \<Rightarrow> 'a list" and put :: "'a \<Rightarrow> 'q \<Rightarrow> 'q" and take_one :: "'q \<Rightarrow> ('a \<times> 'q) option"
    and live :: "'q \<Rightarrow> bool"
  assumes put_items: "live q \<Longrightarrow> items (put x q) = items q @ [x] \<and> live (put x q)"
    and take_items: "live q \<Longrightarrow> take_one q = None \<longleftrightarrow> items q = []"
    and take_first: "live q \<Longrightarrow> take_one q = Some (x, q') \<Longrightarrow> items q = x # items q' \<and> live q'"
begin

fun take_many :: "nat \<Rightarrow> 'q \<Rightarrow> 'a list \<times> 'q" where
  "take_many 0 q = ([], q)"
| "take_many (Suc n) q =
     (case take_one q of None \<Rightarrow> ([], q)
      | Some (x, q') \<Rightarrow> (let (xs, q'') = take_many n q' in (x # xs, q'')))"

lemma items_fold_put: "live q \<Longrightarrow> items (fold put xs q) = items q @ xs \<and> live (fold put xs q)"
  by (induction xs arbitrary: q) (simp_all add: put_items)

lemma take_many_items:
  "live q \<Longrightarrow> fst (take_many n q) = take n (items q) \<and> items (snd (take_many n q)) = drop n (items q)"
proof (induction n arbitrary: q)
  case (Suc n)
  show ?case
  proof (cases "take_one q")
    case None
    then have "items q = []" using Suc.prems take_items by blast
    then show ?thesis by (simp add: None)
  next
    case (Some p)
    then obtain x q' where p: "take_one q = Some (x, q')" by (cases p) auto
    from take_first [OF Suc.prems p] have "items q = x # items q'" "live q'" by auto
    with Suc.IH [of q'] p show ?thesis by (simp add: case_prod_beta)
  qed
qed simp

text \<open>What was put in comes out in that order, after what was there before.\<close>

lemma put_take_order:
  assumes "live q"
  shows "fst (take_many n (fold put xs q)) = take n (items q @ xs)"
  using items_fold_put [OF assms] take_many_items by simp

end

section \<open>LockedQueue\<close>

record 'a locked_queue =
  lq_lock :: "nat option" \<comment> \<open>the thread that holds the mutex\<close>
  lq_queue :: "'a list"
  lq_canceled :: bool

text \<open>
  A call by a thread blocks while the mutex is held; it is undefined on an empty
  \<^verbatim>\<open>front()\<close> or \<^verbatim>\<open>pop_front()\<close> and when a thread unlocks a mutex it does not hold.
\<close>

datatype ('r, 'q) outcome = Blocks | Undefined | Done 'r 'q

definition LockedQueue :: "'a locked_queue" where
  "LockedQueue = \<lparr>lq_lock = None, lq_queue = [], lq_canceled = False\<rparr>"

definition lq_acquire :: "nat \<Rightarrow> 'a locked_queue \<Rightarrow> (unit, 'a locked_queue) outcome" where
  "lq_acquire t q = (if lq_lock q = None then Done () (q\<lparr>lq_lock := Some t\<rparr>) else Blocks)"

definition lq_release :: "nat \<Rightarrow> 'a locked_queue \<Rightarrow> (unit, 'a locked_queue) outcome" where
  "lq_release t q = (if lq_lock q = Some t then Done () (q\<lparr>lq_lock := None\<rparr>) else Undefined)"

text \<open>A critical section: \<^verbatim>\<open>lock_guard\<close> around a body.\<close>

definition guarded ::
  "nat \<Rightarrow> ('a locked_queue \<Rightarrow> ('r, 'a locked_queue) outcome) \<Rightarrow> 'a locked_queue \<Rightarrow> ('r, 'a locked_queue) outcome" where
  "guarded t body q =
     (case lq_acquire t q of
        Done _ q1 \<Rightarrow>
          (case body q1 of
             Done r q2 \<Rightarrow> (case lq_release t q2 of Done _ q3 \<Rightarrow> Done r q3 | Blocks \<Rightarrow> Blocks | Undefined \<Rightarrow> Undefined)
           | Blocks \<Rightarrow> Blocks | Undefined \<Rightarrow> Undefined)
      | Blocks \<Rightarrow> Blocks | Undefined \<Rightarrow> Undefined)"

definition lq_add :: "nat \<Rightarrow> 'a \<Rightarrow> 'a locked_queue \<Rightarrow> (unit, 'a locked_queue) outcome" where
  "lq_add t x q = guarded t (\<lambda>q. Done () (q\<lparr>lq_queue := lq_queue q @ [x]\<rparr>)) q"

definition lq_readd :: "nat \<Rightarrow> 'a list \<Rightarrow> 'a locked_queue \<Rightarrow> (unit, 'a locked_queue) outcome" where
  "lq_readd t xs q = guarded t (\<lambda>q. Done () (q\<lparr>lq_queue := xs @ lq_queue q\<rparr>)) q"

definition lq_next :: "nat \<Rightarrow> 'a locked_queue \<Rightarrow> ('a option, 'a locked_queue) outcome" where
  "lq_next t q = guarded t (\<lambda>q. case lq_queue q of
       [] \<Rightarrow> Done None q
     | x # xs \<Rightarrow> Done (Some x) (q\<lparr>lq_queue := xs\<rparr>)) q"

text \<open>
  With a checker the front element is copied to the result even when it is refused; the
  result is (returned flag, copied element).
\<close>

definition lq_next_checked :: "nat \<Rightarrow> ('a \<Rightarrow> bool) \<Rightarrow> 'a locked_queue \<Rightarrow> (bool \<times> 'a option, 'a locked_queue) outcome" where
  "lq_next_checked t check q = guarded t (\<lambda>q. case lq_queue q of
       [] \<Rightarrow> Done (False, None) q
     | x # xs \<Rightarrow> if \<not> check x then Done (False, Some x) q else Done (True, Some x) (q\<lparr>lq_queue := xs\<rparr>)) q"

definition lq_peek :: "nat \<Rightarrow> bool \<Rightarrow> 'a locked_queue \<Rightarrow> ('a, 'a locked_queue) outcome" where
  "lq_peek t autoUnlock q =
     (case lq_acquire t q of
        Done _ q1 \<Rightarrow>
          (case lq_queue q1 of
             [] \<Rightarrow> Undefined
           | x # xs \<Rightarrow> if autoUnlock
                       then (case lq_release t q1 of Done _ q2 \<Rightarrow> Done x q2 | Blocks \<Rightarrow> Blocks | Undefined \<Rightarrow> Undefined)
                       else Done x q1)
      | Blocks \<Rightarrow> Blocks | Undefined \<Rightarrow> Undefined)"

definition lq_cancel :: "nat \<Rightarrow> 'a locked_queue \<Rightarrow> (unit, 'a locked_queue) outcome" where
  "lq_cancel t q = guarded t (\<lambda>q. Done () (q\<lparr>lq_canceled := True\<rparr>)) q"

definition lq_cancelled :: "nat \<Rightarrow> 'a locked_queue \<Rightarrow> (bool, 'a locked_queue) outcome" where
  "lq_cancelled t q = guarded t (\<lambda>q. Done (lq_canceled q) q) q"

definition lq_pop_front :: "nat \<Rightarrow> 'a locked_queue \<Rightarrow> (unit, 'a locked_queue) outcome" where
  "lq_pop_front t q = guarded t (\<lambda>q. case lq_queue q of
       [] \<Rightarrow> Undefined | x # xs \<Rightarrow> Done () (q\<lparr>lq_queue := xs\<rparr>)) q"

definition lq_empty :: "nat \<Rightarrow> 'a locked_queue \<Rightarrow> (bool, 'a locked_queue) outcome" where
  "lq_empty t q = guarded t (\<lambda>q. Done (lq_queue q = []) q) q"

lemmas lq_defs = lq_add_def lq_readd_def lq_next_def lq_next_checked_def lq_peek_def lq_cancel_def
  lq_cancelled_def lq_pop_front_def lq_empty_def guarded_def lq_acquire_def lq_release_def

text \<open>Calls of the queue, by thread.\<close>

datatype 'a lq_call =
    Add 'a | Readd "'a list" | Next | NextChecked "'a \<Rightarrow> bool" | Peek bool | Unlock | CancelQ | PopFront

text \<open>The state after a call and the elements it removed from the queue.\<close>

fun lq_exec :: "nat \<Rightarrow> 'a lq_call \<Rightarrow> 'a locked_queue \<Rightarrow> ('a list, 'a locked_queue) outcome" where
  "lq_exec t (Add x) q = (case lq_add t x q of Done _ q' \<Rightarrow> Done [] q' | Blocks \<Rightarrow> Blocks | Undefined \<Rightarrow> Undefined)"
| "lq_exec t (Readd xs) q = (case lq_readd t xs q of Done _ q' \<Rightarrow> Done [] q' | Blocks \<Rightarrow> Blocks | Undefined \<Rightarrow> Undefined)"
| "lq_exec t Next q = (case lq_next t q of Done r q' \<Rightarrow> Done (case r of None \<Rightarrow> [] | Some x \<Rightarrow> [x]) q'
                       | Blocks \<Rightarrow> Blocks | Undefined \<Rightarrow> Undefined)"
| "lq_exec t (NextChecked c) q =
     (case lq_next_checked t c q of
        Done r q' \<Rightarrow> Done (case r of (True, Some x) \<Rightarrow> [x] | _ \<Rightarrow> []) q' | Blocks \<Rightarrow> Blocks | Undefined \<Rightarrow> Undefined)"
| "lq_exec t (Peek a) q = (case lq_peek t a q of Done _ q' \<Rightarrow> Done [] q' | Blocks \<Rightarrow> Blocks | Undefined \<Rightarrow> Undefined)"
| "lq_exec t Unlock q = (case lq_release t q of Done _ q' \<Rightarrow> Done [] q' | Blocks \<Rightarrow> Blocks | Undefined \<Rightarrow> Undefined)"
| "lq_exec t CancelQ q = (case lq_cancel t q of Done _ q' \<Rightarrow> Done [] q' | Blocks \<Rightarrow> Blocks | Undefined \<Rightarrow> Undefined)"
| "lq_exec t PopFront q = (case lq_pop_front t q of Done _ q' \<Rightarrow> Done (take 1 (lq_queue q)) q' | Blocks \<Rightarrow> Blocks | Undefined \<Rightarrow> Undefined)"

text \<open>A call removes from the front and nothing else; it never blocks unless the mutex is held.\<close>

fun lq_spec :: "'a lq_call \<Rightarrow> 'a list \<Rightarrow> 'a list \<times> 'a list" where
  "lq_spec (Add x) xs = ([], xs @ [x])"
| "lq_spec (Readd ys) xs = ([], ys @ xs)"
| "lq_spec Next xs = (take 1 xs, drop 1 xs)"
| "lq_spec (NextChecked c) xs = (if xs \<noteq> [] \<and> c (hd xs) then (take 1 xs, drop 1 xs) else ([], xs))"
| "lq_spec (Peek a) xs = ([], xs)"
| "lq_spec Unlock xs = ([], xs)"
| "lq_spec CancelQ xs = ([], xs)"
| "lq_spec PopFront xs = (take 1 xs, drop 1 xs)"

text \<open>
  LockedQueue.  Every call that returns has the effect of its specification on the
  queue: items enter at the back, \<^verbatim>\<open>readd\<close> puts a batch in front, and only the front
  element leaves.  A call blocks exactly when another call left the mutex held, which only
  \<^verbatim>\<open>peek\<close> without \<^verbatim>\<open>autoUnlock\<close> does, and then only its thread can free it.
\<close>

theorem locked_queue_spec:
  "(case lq_exec t c q of
      Done r q' \<Rightarrow> (r, lq_queue q') = lq_spec c (lq_queue q)
        \<and> (lq_lock q' \<noteq> None \<longrightarrow> c = Peek False \<and> lq_lock q' = Some t)
        \<and> (lq_lock q = None \<or> c = Unlock \<and> lq_lock q = Some t)
    | Blocks \<Rightarrow> lq_lock q \<noteq> None \<and> c \<noteq> Unlock
    | Undefined \<Rightarrow> lq_queue q = [] \<or> c = Unlock)"
  by (cases c) (auto simp: lq_defs split: list.splits option.splits if_splits)

theorem locked_queue_spec_witness:
  "lq_exec 1 (Peek False) \<lparr>lq_lock = None, lq_queue = [7 :: nat, 8], lq_canceled = False\<rparr>
     = Done [] \<lparr>lq_lock = Some 1, lq_queue = [7, 8], lq_canceled = False\<rparr>
   \<and> lq_spec (Peek False) [7 :: nat, 8] = ([], [7, 8])"
  using locked_queue_spec [where t = 1 and c = "Peek False"
    and q = "\<lparr>lq_lock = None, lq_queue = [7 :: nat, 8], lq_canceled = False\<rparr>"]
  by (simp add: lq_defs)

interpretation lqueue: fifo_queue lq_queue "\<lambda>x q. (case lq_add t x q of Done _ q' \<Rightarrow> q' | _ \<Rightarrow> q)"
    "\<lambda>q. (case lq_next t q of Done (Some x) q' \<Rightarrow> Some (x, q') | _ \<Rightarrow> None)" "\<lambda>q. lq_lock q = None" for t
  by unfold_locales (auto simp: lq_defs split: list.splits)

section \<open>ProducerConsumerQueue\<close>

record 'a pc_queue =
  pc_items :: "'a list"
  pc_shutdown :: bool
  pc_waiting :: "nat set" \<comment> \<open>threads blocked in \<^verbatim>\<open>_condition.wait\<close>\<close>
  pc_notified :: "nat set" \<comment> \<open>threads woken up that have not yet retaken the mutex\<close>
  pc_pushed :: "'a list" \<comment> \<open>ghost: everything ever pushed\<close>
  pc_popped :: "'a list" \<comment> \<open>ghost: everything ever handed out or deleted\<close>

definition ProducerConsumerQueue :: "'a pc_queue" where
  "ProducerConsumerQueue =
     \<lparr>pc_items = [], pc_shutdown = False, pc_waiting = {}, pc_notified = {}, pc_pushed = [], pc_popped = []\<rparr>"

text \<open>\<^verbatim>\<open>notify_one\<close> wakes one waiting thread, which one is not specified.\<close>

definition notify_one :: "nat option \<Rightarrow> 'a pc_queue \<Rightarrow> 'a pc_queue option" where
  "notify_one w q =
     (case w of
        None \<Rightarrow> if pc_waiting q = {} then Some q else None
      | Some t \<Rightarrow> if t \<in> pc_waiting q
                  then Some (q\<lparr>pc_waiting := pc_waiting q - {t}, pc_notified := insert t (pc_notified q)\<rparr>)
                  else None)"

definition notify_all :: "'a pc_queue \<Rightarrow> 'a pc_queue" where
  "notify_all q = q\<lparr>pc_waiting := {}, pc_notified := pc_notified q \<union> pc_waiting q\<rparr>"

definition Push :: "'a \<Rightarrow> nat option \<Rightarrow> 'a pc_queue \<Rightarrow> 'a pc_queue option" where
  "Push x w q = notify_one w (q\<lparr>pc_items := pc_items q @ [x], pc_pushed := pc_pushed q @ [x]\<rparr>)"

definition Empty :: "'a pc_queue \<Rightarrow> bool" where
  "Empty q \<longleftrightarrow> pc_items q = []"

text \<open>\<^verbatim>\<open>value = front(); pop()\<close>, refused when the queue is empty or shut down.\<close>

definition Pop :: "'a pc_queue \<Rightarrow> 'a option \<times> 'a pc_queue" where
  "Pop q =
     (if pc_items q = [] \<or> pc_shutdown q then (None, q)
      else (Some (hd (pc_items q)),
            q\<lparr>pc_items := tl (pc_items q), pc_popped := pc_popped q @ [hd (pc_items q)]\<rparr>))"

text \<open>
  \<^verbatim>\<open>WaitAndPop\<close> from the test of its loop on, with the mutex held: wait, or leave with or
  without a value.
\<close>

definition wait_loop :: "nat \<Rightarrow> 'a pc_queue \<Rightarrow> 'a option \<times> 'a pc_queue" where
  "wait_loop t q =
     (if pc_items q = [] \<and> \<not> pc_shutdown q then (None, q\<lparr>pc_waiting := insert t (pc_waiting q)\<rparr>)
      else Pop q)"

definition Cancel :: "'a pc_queue \<Rightarrow> 'a pc_queue" where
  "Cancel q = notify_all (q\<lparr>pc_items := [], pc_popped := pc_popped q @ pc_items q, pc_shutdown := True\<rparr>)"

text \<open>
  The steps of the threads: \<open>wake\<close> takes a notified thread, \<open>spurious\<close> one that was not.
\<close>

inductive pc_step :: "'a pc_queue \<Rightarrow> 'a pc_queue \<Rightarrow> bool" where
  push: "Push x w q = Some q' \<Longrightarrow> pc_step q q'"
| pop: "pc_step q (snd (Pop q))"
| wait_call: "t \<notin> pc_waiting q \<union> pc_notified q \<Longrightarrow> pc_step q (snd (wait_loop t q))"
| wake: "t \<in> pc_notified q \<Longrightarrow> pc_step q (snd (wait_loop t (q\<lparr>pc_notified := pc_notified q - {t}\<rparr>)))"
| spurious: "t \<in> pc_waiting q \<Longrightarrow> pc_step q (snd (wait_loop t (q\<lparr>pc_waiting := pc_waiting q - {t}\<rparr>)))"
| cancel: "pc_step q (Cancel q)"

inductive pc_reachable :: "'a pc_queue \<Rightarrow> bool" where
  init: "pc_reachable ProducerConsumerQueue"
| step: "pc_reachable q \<Longrightarrow> pc_step q q' \<Longrightarrow> pc_reachable q'"

definition pc_inv :: "'a pc_queue \<Rightarrow> bool" where
  "pc_inv q \<longleftrightarrow> pc_popped q @ pc_items q = pc_pushed q
     \<and> finite (pc_notified q) \<and> finite (pc_waiting q) \<and> pc_waiting q \<inter> pc_notified q = {}
     \<and> (pc_waiting q \<noteq> {} \<longrightarrow> \<not> pc_shutdown q \<and> length (pc_items q) \<le> card (pc_notified q))"

lemmas pc_defs = Push_def Pop_def wait_loop_def Cancel_def notify_one_def notify_all_def

lemma Pop_inv: "pc_inv q \<Longrightarrow> pc_inv (snd (Pop q))"
  by (auto simp: pc_inv_def Pop_def)

lemma Push_inv: "pc_inv q \<Longrightarrow> Push x w q = Some q' \<Longrightarrow> pc_inv q'"
  by (auto simp: pc_inv_def Push_def notify_one_def card_insert_if split: option.splits if_splits)

lemma Pop_after_wake:
  assumes "pc_popped q @ pc_items q = pc_pushed q" and "finite (pc_notified q)" and "finite (pc_waiting q)"
    and "pc_waiting q \<inter> pc_notified q = {}" and "t \<notin> pc_notified q"
    and "pc_waiting q \<noteq> {} \<longrightarrow> \<not> pc_shutdown q \<and> length (pc_items q) \<le> Suc (card (pc_notified q))"
  shows "pc_inv (snd (wait_loop t q))"
  using assms by (auto simp: pc_inv_def wait_loop_def Pop_def)

lemma pc_step_inv: "pc_step q q' \<Longrightarrow> pc_inv q \<Longrightarrow> pc_inv q'"
proof (induction rule: pc_step.induct)
  case (wait_call t q)
  then show ?case by (intro Pop_after_wake) (auto simp: pc_inv_def)
next
  case (wake t q)
  then have "Suc (card (pc_notified q - {t})) = card (pc_notified q)"
    using card_Suc_Diff1 [of "pc_notified q" t] by (simp add: pc_inv_def)
  with wake show ?case by (intro Pop_after_wake) (auto simp: pc_inv_def)
next
  case (spurious t q)
  then show ?case by (intro Pop_after_wake) (auto simp: pc_inv_def)
next
  case (cancel q)
  then show ?case by (auto simp: pc_inv_def Cancel_def notify_all_def finite_subset)
qed (auto intro: Pop_inv Push_inv)

lemma pc_reachable_inv: "pc_reachable q \<Longrightarrow> pc_inv q"
proof (induction rule: pc_reachable.induct)
  case init
  then show ?case by (simp add: pc_inv_def ProducerConsumerQueue_def)
qed (blast intro: pc_step_inv)



interpretation pqueue: fifo_queue pc_items "\<lambda>x q. (case Push x None q of Some q' \<Rightarrow> q' | None \<Rightarrow> q)"
    "\<lambda>q. (case Pop q of (Some x, q') \<Rightarrow> Some (x, q') | (None, _) \<Rightarrow> None)"
    "\<lambda>q. \<not> pc_shutdown q \<and> pc_waiting q = {}"
  by unfold_locales (auto simp: Pop_def Push_def notify_one_def split: if_splits)

end
