(* ===== verification/Flag128.thy ===== *)
theory Flag128
  imports Prelude
begin

text \<open>
  The 128-bit flag set \<^verbatim>\<open>flag128\<close> of \<^verbatim>\<open>Source/ProtobufDecompileTest/Util.h\<close>, four
  32-bit parts, and the helpers \<^verbatim>\<open>CompareValues\<close> and \<^verbatim>\<open>HookList\<close> beside it.
  The abstraction \<open>flag_word\<close> reads the parts as one 128-bit word, part 0 the lowest; every
  operator of the class is shown to be the operation on that word.
\<close>

unbundle bit_operations_syntax

section \<open>The class\<close>

datatype flag128 = Flag128 (part0: u32) (part1: u32) (part2: u32) (part3: u32)

text \<open>\<^verbatim>\<open>operator []\<close>: an index past the array is undefined.\<close>

definition flag_part :: "flag128 \<Rightarrow> u8 \<Rightarrow> u32 option" where
  "flag_part f el =
     (if el = 0 then Some (part0 f) else if el = 1 then Some (part1 f)
      else if el = 2 then Some (part2 f) else if el = 3 then Some (part3 f) else None)"

definition flag_set_part :: "u8 \<Rightarrow> u32 \<Rightarrow> flag128 \<Rightarrow> flag128 option" where
  "flag_set_part el v f =
     (if el = 0 then Some (Flag128 v (part1 f) (part2 f) (part3 f))
      else if el = 1 then Some (Flag128 (part0 f) v (part2 f) (part3 f))
      else if el = 2 then Some (Flag128 (part0 f) (part1 f) v (part3 f))
      else if el = 3 then Some (Flag128 (part0 f) (part1 f) (part2 f) v)
      else None)"

definition IsEqual :: "flag128 \<Rightarrow> u32 \<Rightarrow> u32 \<Rightarrow> u32 \<Rightarrow> u32 \<Rightarrow> bool" where
  "IsEqual f p1 p2 p3 p4 \<longleftrightarrow> part0 f = p1 \<and> part1 f = p2 \<and> part2 f = p3 \<and> part3 f = p4"

definition HasFlag :: "flag128 \<Rightarrow> u32 \<Rightarrow> u32 \<Rightarrow> u32 \<Rightarrow> u32 \<Rightarrow> bool" where
  "HasFlag f p1 p2 p3 p4 \<longleftrightarrow>
     part0 f AND p1 \<noteq> 0 \<or> part1 f AND p2 \<noteq> 0 \<or> part2 f AND p3 \<noteq> 0 \<or> part3 f AND p4 \<noteq> 0"

definition flag_set :: "u32 \<Rightarrow> u32 \<Rightarrow> u32 \<Rightarrow> u32 \<Rightarrow> flag128" where
  "flag_set p1 p2 p3 p4 = Flag128 p1 p2 p3 p4"

text \<open>\<^verbatim>\<open>operator <\<close>: the loop runs \<open>i\<close> from 4 down to 1.\<close>

fun less_loop :: "nat \<Rightarrow> flag128 \<Rightarrow> flag128 \<Rightarrow> bool" where
  "less_loop 0 f g = False"
| "less_loop (Suc i) f g =
     (let a = [part0 f, part1 f, part2 f, part3 f] ! i; b = [part0 g, part1 g, part2 g, part3 g] ! i
      in if a < b then True else if a > b then False else less_loop i f g)"

definition flag_less :: "flag128 \<Rightarrow> flag128 \<Rightarrow> bool" where
  "flag_less f g = less_loop 4 f g"

definition flag_eq :: "flag128 \<Rightarrow> flag128 \<Rightarrow> bool" where
  "flag_eq f g \<longleftrightarrow> part0 f = part0 g \<and> part1 f = part1 g \<and> part2 f = part2 g \<and> part3 f = part3 g"

definition flag_neq :: "flag128 \<Rightarrow> flag128 \<Rightarrow> bool" where
  "flag_neq f g \<longleftrightarrow> \<not> flag_eq f g"

definition flag_assign :: "flag128 \<Rightarrow> flag128" where
  "flag_assign right = Flag128 (part0 right) (part1 right) (part2 right) (part3 right)"

definition flag_and :: "flag128 \<Rightarrow> flag128 \<Rightarrow> flag128" where
  "flag_and f g = Flag128 (part0 f AND part0 g) (part1 f AND part1 g) (part2 f AND part2 g) (part3 f AND part3 g)"

definition flag_or :: "flag128 \<Rightarrow> flag128 \<Rightarrow> flag128" where
  "flag_or f g = Flag128 (part0 f OR part0 g) (part1 f OR part1 g) (part2 f OR part2 g) (part3 f OR part3 g)"

definition flag_xor :: "flag128 \<Rightarrow> flag128 \<Rightarrow> flag128" where
  "flag_xor f g = Flag128 (part0 f XOR part0 g) (part1 f XOR part1 g) (part2 f XOR part2 g) (part3 f XOR part3 g)"

definition flag_not :: "flag128 \<Rightarrow> flag128" where
  "flag_not f = Flag128 (NOT (part0 f)) (NOT (part1 f)) (NOT (part2 f)) (NOT (part3 f))"

text \<open>The compound assignments update the left operand part by part.\<close>

definition flag_and_assign :: "flag128 \<Rightarrow> flag128 \<Rightarrow> flag128" where
  "flag_and_assign f g =
     (case f of Flag128 a b c d \<Rightarrow> Flag128 (a AND part0 g) (b AND part1 g) (c AND part2 g) (d AND part3 g))"

definition flag_or_assign :: "flag128 \<Rightarrow> flag128 \<Rightarrow> flag128" where
  "flag_or_assign f g =
     (case f of Flag128 a b c d \<Rightarrow> Flag128 (a OR part0 g) (b OR part1 g) (c OR part2 g) (d OR part3 g))"

definition flag_xor_assign :: "flag128 \<Rightarrow> flag128 \<Rightarrow> flag128" where
  "flag_xor_assign f g =
     (case f of Flag128 a b c d \<Rightarrow> Flag128 (a XOR part0 g) (b XOR part1 g) (c XOR part2 g) (d XOR part3 g))"

definition flag_bool :: "flag128 \<Rightarrow> bool" where
  "flag_bool f \<longleftrightarrow> part0 f \<noteq> 0 \<or> part1 f \<noteq> 0 \<or> part2 f \<noteq> 0 \<or> part3 f \<noteq> 0"

definition flag_is_false :: "flag128 \<Rightarrow> bool" where
  "flag_is_false f \<longleftrightarrow> \<not> flag_bool f"

section \<open>The abstraction to a 128-bit word\<close>

definition flag_int :: "flag128 \<Rightarrow> int" where
  "flag_int f =
     concat_bit 32 (uint (part0 f)) (concat_bit 32 (uint (part1 f)) (concat_bit 32 (uint (part2 f)) (uint (part3 f))))"

definition flag_word :: "flag128 \<Rightarrow> 128 word" where
  "flag_word f = word_of_int (flag_int f)"

lemma take_bit_uint_32: "take_bit 32 (uint (w :: u32)) = uint w"
  by (rule take_bit_int_eq_self) (use uint_lt2p [of w] in simp_all)

lemma uint_32: "0 \<le> uint (w :: u32)" "uint w < 4294967296"
  using uint_lt2p [of w] by simp_all

lemma flag_int_sum:
  "flag_int f = uint (part0 f) + 2 ^ 32 * (uint (part1 f) + 2 ^ 32 * (uint (part2 f) + 2 ^ 32 * uint (part3 f)))"
  by (simp add: flag_int_def concat_bit_eq take_bit_uint_32 push_bit_eq_mult)

lemma uint_flag_word: "uint (flag_word f) = flag_int f"
proof -
  have "0 \<le> flag_int f" "flag_int f < 2 ^ 128"
    using uint_32 [of "part0 f"] uint_32 [of "part1 f"] uint_32 [of "part2 f"] uint_32 [of "part3 f"]
    by (simp_all add: flag_int_sum)
  then show ?thesis by (simp add: flag_word_def uint_word_of_int)
qed

lemma bit_flag_int:
  "bit (flag_int f) n \<longleftrightarrow>
     n < 32 \<and> bit (part0 f) n \<or> 32 \<le> n \<and> n < 64 \<and> bit (part1 f) (n - 32)
     \<or> 64 \<le> n \<and> n < 96 \<and> bit (part2 f) (n - 64) \<or> 96 \<le> n \<and> n < 128 \<and> bit (part3 f) (n - 96)"
  by (auto simp: flag_int_def bit_concat_bit_iff bit_uint_iff dest: bit_imp_le_length)

lemma bit_flag_word: "bit (flag_word f) n \<longleftrightarrow> n < 128 \<and> bit (flag_int f) n"
  by (simp add: flag_word_def bit_word_of_int_iff)

text \<open>Comparing two numbers by their high digits, then by their low ones.\<close>

lemma digit_less:
  fixes a a' r r' :: int
  assumes "0 \<le> a" "a < 4294967296" "0 \<le> a'" "a' < 4294967296"
  shows "a + 2 ^ 32 * r < a' + 2 ^ 32 * r' \<longleftrightarrow> r < r' \<or> r = r' \<and> a < a'"
  using assms by (cases r r' rule: linorder_cases) auto

lemma digit_eq:
  fixes a a' r r' :: int
  assumes "0 \<le> a" "a < 4294967296" "0 \<le> a'" "a' < 4294967296"
  shows "a + 2 ^ 32 * r = a' + 2 ^ 32 * r' \<longleftrightarrow> r = r' \<and> a = a'"
  using assms by (cases r r' rule: linorder_cases) auto

lemma flag_less_lex:
  "flag_less f g \<longleftrightarrow> part3 f < part3 g \<or> part3 f = part3 g \<and> (part2 f < part2 g \<or> part2 f = part2 g \<and>
     (part1 f < part1 g \<or> part1 f = part1 g \<and> part0 f < part0 g))"
  by (auto simp: flag_less_def eval_nat_numeral Let_def)

lemma flag_int_less: "flag_int f < flag_int g \<longleftrightarrow> flag_less f g"
  unfolding flag_int_sum flag_less_lex word_less_def word_uint_eq_iff digit_less [OF uint_32 uint_32]
    digit_eq [OF uint_32 uint_32]
  by auto

lemma flag_eq_iff: "flag_eq f g \<longleftrightarrow> f = g"
  by (cases f; cases g) (simp add: flag_eq_def)

lemma flag_word_less: "flag_word f < flag_word g \<longleftrightarrow> flag_less f g"
  by (simp add: word_less_def uint_flag_word flag_int_less)

lemma flag_word_inject: "flag_word f = flag_word g \<longleftrightarrow> f = g"
proof
  assume "flag_word f = flag_word g"
  then have "\<not> flag_less f g" "\<not> flag_less g f" by (simp_all flip: flag_word_less)
  then show "f = g" by (cases f; cases g) (auto simp: flag_less_lex)
qed simp

lemma bit_flag_parts:
  "n < 128 \<Longrightarrow> bit (flag_word f) n \<longleftrightarrow>
     (if n < 32 then bit (part0 f) n else if n < 64 then bit (part1 f) (n - 32)
      else if n < 96 then bit (part2 f) (n - 64) else bit (part3 f) (n - 96))"
  by (simp add: bit_flag_word bit_flag_int)

lemma flag_word_ops:
  "flag_word (flag_and f g) = flag_word f AND flag_word g"
  "flag_word (flag_or f g) = flag_word f OR flag_word g"
  "flag_word (flag_xor f g) = flag_word f XOR flag_word g"
  "flag_word (flag_not f) = NOT (flag_word f)"
  by (rule bit_word_eqI; simp add: bit_flag_parts flag_and_def flag_or_def flag_xor_def flag_not_def
      bit_and_iff bit_or_iff bit_xor_iff bit_not_iff; arith?)+

lemma flag_assign_ops:
  "flag_and_assign f g = flag_and f g" "flag_or_assign f g = flag_or f g" "flag_xor_assign f g = flag_xor f g"
  by (cases f; simp add: flag_and_assign_def flag_or_assign_def flag_xor_assign_def flag_and_def flag_or_def flag_xor_def)+

lemma flag_bool_zero: "flag_bool f \<longleftrightarrow> flag_word f \<noteq> 0"
proof -
  have "flag_word (Flag128 0 0 0 0) = 0" by (simp add: flag_word_def flag_int_def)
  then have "flag_word f = 0 \<longleftrightarrow> f = Flag128 0 0 0 0" using flag_word_inject by metis
  then show ?thesis by (cases f) (simp add: flag_bool_def)
qed

text \<open>
  Claim C31.  flag128 is a 128-bit word.  Reading the parts as one word, part 0 the lowest, is
  injective; the bitwise operators and their assigning forms, the comparison and equality
  operators, the test for zero and \<^verbatim>\<open>HasFlag\<close> are the operations on that word.
\<close>

theorem flag128_refines_word:
  "flag_word (flag_and f g) = flag_word f AND flag_word g
   \<and> flag_word (flag_or f g) = flag_word f OR flag_word g
   \<and> flag_word (flag_xor f g) = flag_word f XOR flag_word g
   \<and> flag_word (flag_not f) = NOT (flag_word f)
   \<and> flag_and_assign f g = flag_and f g \<and> flag_or_assign f g = flag_or f g \<and> flag_xor_assign f g = flag_xor f g
   \<and> (flag_less f g \<longleftrightarrow> flag_word f < flag_word g)
   \<and> (flag_eq f g \<longleftrightarrow> flag_word f = flag_word g) \<and> (flag_neq f g \<longleftrightarrow> flag_word f \<noteq> flag_word g)
   \<and> (flag_bool f \<longleftrightarrow> flag_word f \<noteq> 0) \<and> (flag_is_false f \<longleftrightarrow> flag_word f = 0)
   \<and> (HasFlag f (part0 g) (part1 g) (part2 g) (part3 g) \<longleftrightarrow> flag_word f AND flag_word g \<noteq> 0)"
proof -
  have "HasFlag f (part0 g) (part1 g) (part2 g) (part3 g) \<longleftrightarrow> flag_bool (flag_and f g)"
    by (simp add: HasFlag_def flag_bool_def flag_and_def)
  then show ?thesis
    by (simp add: flag_word_ops flag_assign_ops flag_word_less flag_word_inject flag_eq_iff flag_neq_def
        flag_bool_zero flag_is_false_def)
qed

text \<open>The comparison operator is a linear order, which gives the library's sorting facts.\<close>

instantiation flag128 :: linorder
begin

definition less_flag128 :: "flag128 \<Rightarrow> flag128 \<Rightarrow> bool" where
  "less_flag128 f g = flag_less f g"

definition less_eq_flag128 :: "flag128 \<Rightarrow> flag128 \<Rightarrow> bool" where
  "less_eq_flag128 f g \<longleftrightarrow> flag_less f g \<or> f = g"

instance
proof
  fix x y :: flag128
  show "x \<le> y \<or> y \<le> x"
    using less_linear [of "flag_word x" "flag_word y"]
    by (auto simp: less_eq_flag128_def flag_word_inject flag_word_less)
qed (auto simp: less_flag128_def less_eq_flag128_def flag_word_inject simp flip: flag_word_less)

end

section \<open>Comparison by type, hook lists\<close>

datatype ComparisionType =
  COMP_TYPE_EQ | COMP_TYPE_HIGH | COMP_TYPE_LOW | COMP_TYPE_HIGH_EQ | COMP_TYPE_LOW_EQ | COMP_TYPE_MAX

text \<open>\<^term>\<open>None\<close> is \<^verbatim>\<open>ABORT()\<close>.\<close>

fun CompareValues :: "ComparisionType \<Rightarrow> 'a::linorder \<Rightarrow> 'a \<Rightarrow> bool option" where
  "CompareValues COMP_TYPE_EQ a b = Some (a = b)"
| "CompareValues COMP_TYPE_HIGH a b = Some (a > b)"
| "CompareValues COMP_TYPE_LOW a b = Some (a < b)"
| "CompareValues COMP_TYPE_HIGH_EQ a b = Some (a \<ge> b)"
| "CompareValues COMP_TYPE_LOW_EQ a b = Some (a \<le> b)"
| "CompareValues COMP_TYPE_MAX a b = None"

definition RoundToInterval :: "'a::linorder \<Rightarrow> 'a \<Rightarrow> 'a \<Rightarrow> 'a" where
  "RoundToInterval num lo hi = min (max num lo) hi"

record 'a hook_list = container :: "'a list"

definition hook_add :: "'a \<Rightarrow> 'a hook_list \<Rightarrow> 'a hook_list" where
  "hook_add t h = h\<lparr>container := container h @ [t]\<rparr>"

definition hook_size :: "'a hook_list \<Rightarrow> nat" where
  "hook_size h = length (container h)"

text \<open>A range-based loop over a hook list visits the elements from \<^verbatim>\<open>begin\<close> to \<^verbatim>\<open>end\<close>.\<close>

definition hook_iterate :: "'a hook_list \<Rightarrow> 'a list" where
  "hook_iterate h = map (\<lambda>i. container h ! i) [0..<hook_size h]"

lemma hook_iterate_eq: "hook_iterate h = container h"
  by (simp add: hook_iterate_def hook_size_def map_nth)

text \<open>
  Comparing by type is total on the five comparison types and fails only on the
  sentinel; the strict and the weak comparisons are each other's negation; clamping to a
  non-empty interval lands inside it and leaves inner values alone.
\<close>

theorem compare_and_clamp:
  fixes a b lo hi x :: "'a::linorder"
  assumes "lo \<le> hi"
  shows "(CompareValues c a b = None \<longleftrightarrow> c = COMP_TYPE_MAX)
    \<and> CompareValues COMP_TYPE_HIGH a b = map_option Not (CompareValues COMP_TYPE_LOW_EQ a b)
    \<and> CompareValues COMP_TYPE_LOW a b = map_option Not (CompareValues COMP_TYPE_HIGH_EQ a b)
    \<and> lo \<le> RoundToInterval x lo hi \<and> RoundToInterval x lo hi \<le> hi
    \<and> (lo \<le> x \<and> x \<le> hi \<longrightarrow> RoundToInterval x lo hi = x)"
  using assms by (cases c) (auto simp: RoundToInterval_def min_def max_def)

theorem compare_and_clamp_witness:
  "RoundToInterval (50::int) 1 10 \<le> 10 \<and> CompareValues COMP_TYPE_HIGH (2::int) 1 = Some True"
  using compare_and_clamp [of 1 "10::int" COMP_TYPE_HIGH 2 1 50] by simp

end
