(* ===== verification/Wide_Chars.thy ===== *)
theory Wide_Chars
  imports Prelude
begin

text \<open>
  Character classes and case conversion on wide characters, the inline functions of
  \<^verbatim>\<open>Source/ProtobufDecompileTest/Util.h\<close>.  A \<^verbatim>\<open>wchar_t\<close> is a 32-bit word; the
  tests for ranges below \<open>2 ^ 31\<close> give the same answer for a signed \<^verbatim>\<open>wchar_t\<close>.  The
  casts through \<^verbatim>\<open>uint16\<close> are written out.
\<close>

type_synonym wchar_t = u32

definition in_range :: "wchar_t \<Rightarrow> wchar_t \<Rightarrow> wchar_t \<Rightarrow> bool" where
  "in_range lo hi w \<longleftrightarrow> w \<ge> lo \<and> w \<le> hi"

section \<open>Character classes\<close>

definition isBasicLatinCharacter :: "wchar_t \<Rightarrow> bool" where
  "isBasicLatinCharacter w =
     (if in_range 0x61 0x7A w then True
      else if in_range 0x41 0x5A w then True
      else False)"

definition isExtendedLatinCharacter :: "wchar_t \<Rightarrow> bool" where
  "isExtendedLatinCharacter w =
     (if isBasicLatinCharacter w then True
      else if in_range 0xC0 0xD6 w then True
      else if in_range 0xD8 0xDE w then True
      else if w = 0xDF then True
      else if in_range 0xE0 0xF6 w then True
      else if in_range 0xF8 0xFE w then True
      else if in_range 0x100 0x12F w then True
      else if w = 0x1E9E then True
      else False)"

definition isCyrillicCharacter :: "wchar_t \<Rightarrow> bool" where
  "isCyrillicCharacter w =
     (if in_range 0x410 0x44F w then True
      else if w = 0x401 \<or> w = 0x451 then True
      else False)"

definition isEastAsianCharacter :: "wchar_t \<Rightarrow> bool" where
  "isEastAsianCharacter w =
     (if in_range 0x1100 0x11F9 w then True
      else if in_range 0x3041 0x30FF w then True
      else if in_range 0x3131 0x318E w then True
      else if in_range 0x31F0 0x31FF w then True
      else if in_range 0x3400 0x4DB5 w then True
      else if in_range 0x4E00 0x9FC3 w then True
      else if in_range 0xAC00 0xD7A3 w then True
      else if in_range 0xFF01 0xFFEE w then True
      else False)"

definition isNumeric :: "wchar_t \<Rightarrow> bool" where
  "isNumeric w = in_range 0x30 0x39 w"

definition isNumeric_char :: "char \<Rightarrow> bool" where
  "isNumeric_char c \<longleftrightarrow> ord c \<ge> 48 \<and> ord c \<le> 57"

fun isNumeric_chars :: "string \<Rightarrow> bool" where
  "isNumeric_chars [] = True"
| "isNumeric_chars (c # s) =
     (if c = NUL then True else if \<not> isNumeric_char c then False else isNumeric_chars s)"

definition isNumericOrSpace :: "wchar_t \<Rightarrow> bool" where
  "isNumericOrSpace w \<longleftrightarrow> isNumeric w \<or> w = 0x20"

text \<open>The four string tests run the same loop over their character class.\<close>

fun isBasicLatinString :: "wchar_t list \<Rightarrow> bool \<Rightarrow> bool" where
  "isBasicLatinString [] numericOrSpace = True"
| "isBasicLatinString (w # ws) numericOrSpace =
     (if \<not> isBasicLatinCharacter w \<and> (\<not> numericOrSpace \<or> \<not> isNumericOrSpace w) then False
      else isBasicLatinString ws numericOrSpace)"

fun isExtendedLatinString :: "wchar_t list \<Rightarrow> bool \<Rightarrow> bool" where
  "isExtendedLatinString [] numericOrSpace = True"
| "isExtendedLatinString (w # ws) numericOrSpace =
     (if \<not> isExtendedLatinCharacter w \<and> (\<not> numericOrSpace \<or> \<not> isNumericOrSpace w) then False
      else isExtendedLatinString ws numericOrSpace)"

fun isCyrillicString :: "wchar_t list \<Rightarrow> bool \<Rightarrow> bool" where
  "isCyrillicString [] numericOrSpace = True"
| "isCyrillicString (w # ws) numericOrSpace =
     (if \<not> isCyrillicCharacter w \<and> (\<not> numericOrSpace \<or> \<not> isNumericOrSpace w) then False
      else isCyrillicString ws numericOrSpace)"

fun isEastAsianString :: "wchar_t list \<Rightarrow> bool \<Rightarrow> bool" where
  "isEastAsianString [] numericOrSpace = True"
| "isEastAsianString (w # ws) numericOrSpace =
     (if \<not> isEastAsianCharacter w \<and> (\<not> numericOrSpace \<or> \<not> isNumericOrSpace w) then False
      else isEastAsianString ws numericOrSpace)"

section \<open>Case conversion\<close>

definition to_uint16 :: "wchar_t \<Rightarrow> wchar_t" where
  "to_uint16 w = ucast (ucast w :: u16)"

definition wcharToUpper :: "wchar_t \<Rightarrow> wchar_t" where
  "wcharToUpper w =
     (if in_range 0x61 0x7A w then to_uint16 w - 0x20
      else if w = 0xDF then 0x1E9E
      else if in_range 0xE0 0xF6 w then to_uint16 w - 0x20
      else if in_range 0xF8 0xFE w then to_uint16 w - 0x20
      else if in_range 0x101 0x12F w \<and> w mod 2 = 1 then to_uint16 w - 1
      else if in_range 0x430 0x44F w then to_uint16 w - 0x20
      else if w = 0x451 then 0x401
      else w)"

definition wcharToUpperOnlyLatin :: "wchar_t \<Rightarrow> wchar_t" where
  "wcharToUpperOnlyLatin w = (if isBasicLatinCharacter w then wcharToUpper w else w)"

definition wcharToLower :: "wchar_t \<Rightarrow> wchar_t" where
  "wcharToLower w =
     (if in_range 0x41 0x5A w then to_uint16 w + 0x20
      else if in_range 0xC0 0xD6 w then to_uint16 w + 0x20
      else if in_range 0xD8 0xDE w then to_uint16 w + 0x20
      else if in_range 0x100 0x12E w \<and> w mod 2 = 0 then to_uint16 w + 1
      else if w = 0x1E9E then 0xDF
      else if w = 0x401 then 0x451
      else if in_range 0x410 0x42F w then to_uint16 w + 0x20
      else w)"

definition wstrToUpper :: "wchar_t list \<Rightarrow> wchar_t list" where
  "wstrToUpper s = map wcharToUpper s"

definition wstrToLower :: "wchar_t list \<Rightarrow> wchar_t list" where
  "wstrToLower s = map wcharToLower s"

section \<open>Code points as numbers\<close>

definition upper_nat :: "nat \<Rightarrow> nat" where
  "upper_nat n =
     (if 97 \<le> n \<and> n \<le> 122 \<or> 224 \<le> n \<and> n \<le> 246 \<or> 248 \<le> n \<and> n \<le> 254 \<or> 1072 \<le> n \<and> n \<le> 1103 then n - 32
      else if n = 223 then 7838 else if 257 \<le> n \<and> n \<le> 303 \<and> n mod 2 = 1 then n - 1
      else if n = 1105 then 1025 else n)"

definition lower_nat :: "nat \<Rightarrow> nat" where
  "lower_nat n =
     (if 65 \<le> n \<and> n \<le> 90 \<or> 192 \<le> n \<and> n \<le> 214 \<or> 216 \<le> n \<and> n \<le> 222 \<or> 1040 \<le> n \<and> n \<le> 1071 then n + 32
      else if n = 7838 then 223 else if 256 \<le> n \<and> n \<le> 302 \<and> n mod 2 = 0 then n + 1
      else if n = 1025 then 1105 else n)"

lemma to_uint16_small: "unat w < 65536 \<Longrightarrow> to_uint16 w = w"
  by (simp add: to_uint16_def word_unat_eq_iff unsigned_ucast_eq unsigned_take_bit_eq take_bit_nat_eq_self)

lemma unat_eq_numeral: "w = numeral k \<longleftrightarrow> unat w = unat (numeral k :: wchar_t)" for w :: wchar_t
  by (simp only: word_unat_eq_iff)

lemmas range_nat = in_range_def word_le_nat_alt

lemma unat_sub_wchar: "unat (k :: wchar_t) \<le> unat w \<Longrightarrow> unat (w - k) = unat w - unat k"
  by (rule unat_sub_le)

lemma unat_add_wchar: "unat w < 65536 \<Longrightarrow> unat k < 65536 \<Longrightarrow> unat (w + k :: wchar_t) = unat w + unat k"
  by (intro unat_add_no_overflow) simp

lemma mod2_nat: "w mod 2 = 1 \<longleftrightarrow> unat (w :: wchar_t) mod 2 = 1" "w mod 2 = 0 \<longleftrightarrow> unat (w :: wchar_t) mod 2 = 0"
  by (simp_all add: word_unat_eq_iff unat_mod_distrib)

lemma unat_upper: "unat (wcharToUpper w) = upper_nat (unat w)"
  unfolding wcharToUpper_def upper_nat_def mod2_nat
  by (simp add: range_nat unat_eq_numeral to_uint16_small unat_sub_wchar)

lemma unat_lower: "unat (wcharToLower w) = lower_nat (unat w)"
  unfolding wcharToLower_def lower_nat_def mod2_nat
  by (simp add: range_nat unat_eq_numeral to_uint16_small unat_add_wchar)

section \<open>Properties\<close>

text \<open>The pairs of a lower and an upper case letter.\<close>

definition case_pair :: "nat \<Rightarrow> nat \<Rightarrow> bool" where
  "case_pair u l \<longleftrightarrow>
     l = u + 32 \<and> (65 \<le> u \<and> u \<le> 90 \<or> 192 \<le> u \<and> u \<le> 214 \<or> 216 \<le> u \<and> u \<le> 222 \<or> 1040 \<le> u \<and> u \<le> 1071)
     \<or> l = u + 1 \<and> 256 \<le> u \<and> u \<le> 302 \<and> u mod 2 = 0
     \<or> l = 223 \<and> u = 7838 \<or> l = 1105 \<and> u = 1025"

lemma upper_pair: "case_pair u l \<Longrightarrow> upper_nat l = u \<and> upper_nat u = u"
  unfolding case_pair_def upper_nat_def by (elim disjE conjE) (simp_all, presburger?)

lemma lower_pair: "case_pair u l \<Longrightarrow> lower_nat u = l \<and> lower_nat l = l"
  unfolding case_pair_def lower_nat_def by (elim disjE conjE) (simp_all, presburger?)

lemma upper_cases: "upper_nat n = n \<or> case_pair (upper_nat n) n"
  unfolding case_pair_def upper_nat_def by (simp, presburger?)

lemma lower_cases: "lower_nat n = n \<or> case_pair n (lower_nat n)"
  unfolding case_pair_def lower_nat_def by simp

lemma case_nat:
  "lower_nat (upper_nat n) = lower_nat n" "upper_nat (lower_nat n) = upper_nat n"
  "upper_nat (upper_nat n) = upper_nat n" "lower_nat (lower_nat n) = lower_nat n"
  using upper_cases [of n] lower_cases [of n] upper_pair lower_pair by metis+

text \<open>
  Case conversion.  Converting to upper or to lower case is idempotent, the last
  conversion wins, so two strings agree after one conversion exactly when they agree after the
  other; the conversions of strings keep the length.
\<close>

theorem case_conversion:
  "wcharToLower (wcharToUpper w) = wcharToLower w \<and> wcharToUpper (wcharToLower w) = wcharToUpper w
   \<and> wcharToUpper (wcharToUpper w) = wcharToUpper w \<and> wcharToLower (wcharToLower w) = wcharToLower w
   \<and> (wstrToLower s = wstrToLower t \<longleftrightarrow> wstrToUpper s = wstrToUpper t)
   \<and> length (wstrToUpper s) = length s"
proof -
  have u: "wcharToLower (wcharToUpper x) = wcharToLower x" "wcharToUpper (wcharToLower x) = wcharToUpper x"
    "wcharToUpper (wcharToUpper x) = wcharToUpper x" "wcharToLower (wcharToLower x) = wcharToLower x" for x
    by (simp_all add: word_unat_eq_iff unat_upper unat_lower case_nat)
  then have "wstrToLower (wstrToUpper r) = wstrToLower r" "wstrToUpper (wstrToLower r) = wstrToUpper r" for r
    by (simp_all add: wstrToLower_def wstrToUpper_def)
  then have "wstrToLower s = wstrToLower t \<longleftrightarrow> wstrToUpper s = wstrToUpper t" by metis
  then show ?thesis using u by (simp add: wstrToUpper_def)
qed

lemma string_class_iff:
  "isBasicLatinString ws b \<longleftrightarrow> list_all (\<lambda>w. isBasicLatinCharacter w \<or> b \<and> isNumericOrSpace w) ws"
  "isExtendedLatinString ws b \<longleftrightarrow> list_all (\<lambda>w. isExtendedLatinCharacter w \<or> b \<and> isNumericOrSpace w) ws"
  "isCyrillicString ws b \<longleftrightarrow> list_all (\<lambda>w. isCyrillicCharacter w \<or> b \<and> isNumericOrSpace w) ws"
  "isEastAsianString ws b \<longleftrightarrow> list_all (\<lambda>w. isEastAsianCharacter w \<or> b \<and> isNumericOrSpace w) ws"
  by (induction ws) auto

lemma isNumeric_chars_iff: "isNumeric_chars s \<longleftrightarrow> list_all isdigit (c_str s)"
  by (induction s) (auto simp: isNumeric_char_def isdigit_def c_str_def)

lemma class_nat:
  "isBasicLatinCharacter w \<longleftrightarrow> 97 \<le> unat w \<and> unat w \<le> 122 \<or> 65 \<le> unat w \<and> unat w \<le> 90"
  "isCyrillicCharacter w \<longleftrightarrow> 1040 \<le> unat w \<and> unat w \<le> 1103 \<or> unat w = 1025 \<or> unat w = 1105"
  "isExtendedLatinCharacter w \<longleftrightarrow> 97 \<le> unat w \<and> unat w \<le> 122 \<or> 65 \<le> unat w \<and> unat w \<le> 90
     \<or> 192 \<le> unat w \<and> unat w \<le> 214 \<or> 216 \<le> unat w \<and> unat w \<le> 246 \<or> 248 \<le> unat w \<and> unat w \<le> 254
     \<or> 256 \<le> unat w \<and> unat w \<le> 303 \<or> unat w = 7838"
  "isEastAsianCharacter w \<longrightarrow> 4352 \<le> unat w \<and> unat w \<noteq> 7838"
  "isNumericOrSpace w \<longleftrightarrow> 48 \<le> unat w \<and> unat w \<le> 57 \<or> unat w = 32"
  by (auto simp: isBasicLatinCharacter_def isCyrillicCharacter_def isExtendedLatinCharacter_def
      isEastAsianCharacter_def isNumericOrSpace_def isNumeric_def range_nat unat_eq_numeral)

lemma pair_class:
  assumes "case_pair u l"
  shows "(97 \<le> u \<and> u \<le> 122 \<or> 65 \<le> u \<and> u \<le> 90) = (97 \<le> l \<and> l \<le> 122 \<or> 65 \<le> l \<and> l \<le> 90)"
    and "(1040 \<le> u \<and> u \<le> 1103 \<or> u = 1025 \<or> u = 1105) = (1040 \<le> l \<and> l \<le> 1103 \<or> l = 1025 \<or> l = 1105)"
  using assms unfolding case_pair_def by (elim disjE conjE; simp)+

lemma class_upper:
  "isBasicLatinCharacter (wcharToUpper w) = isBasicLatinCharacter w"
  "isCyrillicCharacter (wcharToUpper w) = isCyrillicCharacter w"
  using upper_cases [of "unat w"] pair_class by (auto simp only: class_nat unat_upper)

lemma class_lower:
  "isBasicLatinCharacter (wcharToLower w) = isBasicLatinCharacter w"
  "isCyrillicCharacter (wcharToLower w) = isCyrillicCharacter w"
  using lower_cases [of "unat w"] pair_class by (auto simp only: class_nat unat_lower)

text \<open>
  Character classes.  The string tests accept exactly the strings all of whose
  characters are in the class, or digits or blanks when these are allowed; the classes of
  the three scripts are disjoint, and changing case never leaves the basic Latin or the
  Cyrillic class.
\<close>

theorem character_classes:
  "(isBasicLatinString ws b \<longleftrightarrow> list_all (\<lambda>w. isBasicLatinCharacter w \<or> b \<and> isNumericOrSpace w) ws)
   \<and> (isExtendedLatinString ws b \<longleftrightarrow> list_all (\<lambda>w. isExtendedLatinCharacter w \<or> b \<and> isNumericOrSpace w) ws)
   \<and> (isCyrillicString ws b \<longleftrightarrow> list_all (\<lambda>w. isCyrillicCharacter w \<or> b \<and> isNumericOrSpace w) ws)
   \<and> (isEastAsianString ws b \<longleftrightarrow> list_all (\<lambda>w. isEastAsianCharacter w \<or> b \<and> isNumericOrSpace w) ws)
   \<and> (isNumeric_chars s \<longleftrightarrow> list_all isdigit (c_str s))
   \<and> \<not> (isExtendedLatinCharacter w \<and> isCyrillicCharacter w) \<and> \<not> (isExtendedLatinCharacter w \<and> isEastAsianCharacter w)
   \<and> \<not> (isCyrillicCharacter w \<and> isEastAsianCharacter w)
   \<and> isBasicLatinString (wstrToUpper ws) False = isBasicLatinString ws False
   \<and> isCyrillicString (wstrToLower ws) False = isCyrillicString ws False"
proof -
  have "isBasicLatinString (wstrToUpper ws) False = isBasicLatinString ws False"
    "isCyrillicString (wstrToLower ws) False = isCyrillicString ws False"
    by (simp_all add: string_class_iff wstrToUpper_def wstrToLower_def list.pred_map comp_def class_upper class_lower)
  moreover have "\<not> (isExtendedLatinCharacter w \<and> isCyrillicCharacter w)"
    "\<not> (isExtendedLatinCharacter w \<and> isEastAsianCharacter w)" "\<not> (isCyrillicCharacter w \<and> isEastAsianCharacter w)"
    using class_nat(4) [of w] unfolding class_nat(2,3) by linarith+
  ultimately show ?thesis by (simp only: string_class_iff isNumeric_chars_iff simp_thms)
qed

end
