(* ===== verification/File_Path.thy ===== *)
theory File_Path
  imports C_Library
begin

text \<open>
  Path names, \<^verbatim>\<open>Source/Core/Private/Detail/FileSystem/FilePath.h\<close>, and the search path of
  \<^verbatim>\<open>FilePathResolver.h\<close>, in the POSIX build.  Both path types of the class are
  modelled; the native one is the argument \<open>native\<close>.  An exception is \<^term>\<open>Inl\<close> of an
  error.  The operating system's calls (\<^verbatim>\<open>stat\<close>, \<^verbatim>\<open>realpath\<close>, \<^verbatim>\<open>getcwd\<close>,
  \<^verbatim>\<open>remove\<close>, \<^verbatim>\<open>truncate\<close>, \<^verbatim>\<open>mkdir\<close>) are arguments.
\<close>

section \<open>Data\<close>

datatype path_type = windows_path | posix_path

record path =
  m_type :: path_type
  m_path :: "string list"
  m_absolute :: bool

datatype path_error =
  NotRelative | TypeMismatch | CannotStat | RealpathFailed | GetcwdFailed

text \<open>What \<^verbatim>\<open>stat\<close> reports about a name.\<close>

datatype file_mode = S_IFREG | S_IFDIR | S_IFOTHER

record stat_buf =
  st_mode :: file_mode
  st_size :: nat

definition empty_path :: "path_type \<Rightarrow> path" where
  "empty_path native = \<lparr>m_type = native, m_path = [], m_absolute = False\<rparr>"

section \<open>Splitting and printing\<close>

definition find_first_from :: "(char \<Rightarrow> bool) \<Rightarrow> string \<Rightarrow> nat \<Rightarrow> nat option" where
  "find_first_from P s k = map_option (\<lambda>i. k + i) (find_first P (drop k s))"

text \<open>
  \<^verbatim>\<open>tokenize\<close>: at the head of the loop \<open>pos\<close> is always the next delimiter from
  \<open>lastPos\<close> on, \<^term>\<open>None\<close> for \<^verbatim>\<open>npos\<close>.
\<close>

function tokenize_loop :: "string \<Rightarrow> (char \<Rightarrow> bool) \<Rightarrow> nat \<Rightarrow> string list" where
  "tokenize_loop s delim lastPos =
     (case find_first_from delim s lastPos of
        None \<Rightarrow> [drop lastPos s]
      | Some pos \<Rightarrow>
          (let tokens = (if pos \<noteq> lastPos then [take (pos - lastPos) (drop lastPos s)] else [])
           in if pos + 1 = length s then tokens else tokens @ tokenize_loop s delim (pos + 1)))"
  by pat_completeness auto
termination
  by (relation "measure (\<lambda>(s, delim, lastPos). length s - lastPos)")
     (auto simp: find_first_from_def dest!: find_first_SomeD)

declare tokenize_loop.simps [simp del]

definition tokenize :: "string \<Rightarrow> (char \<Rightarrow> bool) \<Rightarrow> string list" where
  "tokenize s delim = tokenize_loop s delim 0"

definition is_delim :: "path_type \<Rightarrow> char \<Rightarrow> bool" where
  "is_delim t c = (case t of windows_path \<Rightarrow> c = CHR ''/'' \<or> c = CHR 0x5C | posix_path \<Rightarrow> c = CHR ''/'')"

definition path_set :: "path_type \<Rightarrow> string \<Rightarrow> path" where
  "path_set t s =
     \<lparr>m_type = t, m_path = tokenize s (is_delim t),
      m_absolute = (case t of
          windows_path \<Rightarrow> length s \<ge> 2 \<and> isalpha (s ! 0) \<and> s ! 1 = CHR '':''
        | posix_path \<Rightarrow> s \<noteq> [] \<and> s ! 0 = CHR ''/'')\<rparr>"

definition separator :: "path_type \<Rightarrow> char" where
  "separator t = (if t = posix_path then CHR ''/'' else CHR 0x5C)"

fun join_parts :: "char \<Rightarrow> string list \<Rightarrow> string" where
  "join_parts sep [] = []"
| "join_parts sep [x] = x"
| "join_parts sep (x # y # xs) = x @ sep # join_parts sep (y # xs)"

definition path_str :: "path_type \<Rightarrow> path \<Rightarrow> string" where
  "path_str t p =
     (if m_type p = posix_path \<and> m_absolute p then ''/'' else []) @ join_parts (separator t) (m_path p)"

section \<open>Operations\<close>

definition path_length :: "path \<Rightarrow> nat" where "path_length p = length (m_path p)"
definition path_empty :: "path \<Rightarrow> bool" where "path_empty p \<longleftrightarrow> m_path p = []"
definition is_absolute :: "path \<Rightarrow> bool" where "is_absolute p = m_absolute p"

definition make_absolute :: "path_type \<Rightarrow> (string \<Rightarrow> string option) \<Rightarrow> path \<Rightarrow> path_error + path" where
  "make_absolute native realpath p =
     (case realpath (path_str native p) of None \<Rightarrow> Inl RealpathFailed | Some s \<Rightarrow> Inr (path_set native s))"

definition path_exists :: "path_type \<Rightarrow> (string \<Rightarrow> stat_buf option) \<Rightarrow> path \<Rightarrow> bool" where
  "path_exists native stat p \<longleftrightarrow> stat (path_str native p) \<noteq> None"

definition file_size :: "path_type \<Rightarrow> (string \<Rightarrow> stat_buf option) \<Rightarrow> path \<Rightarrow> path_error + nat" where
  "file_size native stat p =
     (case stat (path_str native p) of None \<Rightarrow> Inl CannotStat | Some sb \<Rightarrow> Inr (st_size sb))"

definition is_directory :: "path_type \<Rightarrow> (string \<Rightarrow> stat_buf option) \<Rightarrow> path \<Rightarrow> bool" where
  "is_directory native stat p = (case stat (path_str native p) of None \<Rightarrow> False | Some sb \<Rightarrow> st_mode sb = S_IFDIR)"

definition is_file :: "path_type \<Rightarrow> (string \<Rightarrow> stat_buf option) \<Rightarrow> path \<Rightarrow> bool" where
  "is_file native stat p = (case stat (path_str native p) of None \<Rightarrow> False | Some sb \<Rightarrow> st_mode sb = S_IFREG)"

definition filename :: "path \<Rightarrow> string" where
  "filename p = (if path_empty p then [] else m_path p ! (length (m_path p) - 1))"

definition extension :: "path \<Rightarrow> string" where
  "extension p =
     (case find_last (\<lambda>c. c = CHR ''.'') (filename p) of None \<Rightarrow> [] | Some pos \<Rightarrow> drop (pos + 1) (filename p))"

definition parent_path :: "path_type \<Rightarrow> path \<Rightarrow> path" where
  "parent_path native p =
     (let res = (empty_path native)\<lparr>m_absolute := m_absolute p\<rparr>
      in if m_path p = []
         then (if \<not> m_absolute p then res\<lparr>m_path := m_path res @ [''..'']\<rparr> else res)
         else res\<lparr>m_path := map (\<lambda>i. m_path p ! i) [0..<length (m_path p) - 1]\<rparr>)"

definition path_append :: "path \<Rightarrow> path \<Rightarrow> path_error + path" where
  "path_append p other =
     (if m_absolute other then Inl NotRelative
      else if m_type p \<noteq> m_type other then Inl TypeMismatch
      else Inr (p\<lparr>m_path := m_path p @ m_path other\<rparr>))"

definition path_equal :: "path \<Rightarrow> path \<Rightarrow> bool" where
  "path_equal p q \<longleftrightarrow> m_path q = m_path p"

definition path_not_equal :: "path \<Rightarrow> path \<Rightarrow> bool" where
  "path_not_equal p q \<longleftrightarrow> m_path q \<noteq> m_path p"

text \<open>Assignment; moving leaves the source without components.\<close>

definition path_assign :: "path \<Rightarrow> path" where
  "path_assign p = \<lparr>m_type = m_type p, m_path = m_path p, m_absolute = m_absolute p\<rparr>"

definition path_move :: "path \<Rightarrow> path \<times> path" where
  "path_move p = (\<lparr>m_type = m_type p, m_path = m_path p, m_absolute = m_absolute p\<rparr>, p\<lparr>m_path := []\<rparr>)"

definition getcwd :: "path_type \<Rightarrow> string option \<Rightarrow> path_error + path" where
  "getcwd native cwd = (case cwd of None \<Rightarrow> Inl GetcwdFailed | Some s \<Rightarrow> Inr (path_set native s))"

text \<open>Calls that change the file system: the system call is the argument.\<close>

definition remove_file :: "path_type \<Rightarrow> (string \<Rightarrow> 'fs \<Rightarrow> int \<times> 'fs) \<Rightarrow> path \<Rightarrow> 'fs \<Rightarrow> bool \<times> 'fs" where
  "remove_file native remove p fs = (let (r, fs') = remove (path_str native p) fs in (r = 0, fs'))"

definition resize_file :: "path_type \<Rightarrow> (string \<Rightarrow> int \<Rightarrow> 'fs \<Rightarrow> int \<times> 'fs) \<Rightarrow> path \<Rightarrow> size_t \<Rightarrow> 'fs \<Rightarrow> bool \<times> 'fs" where
  "resize_file native trunc p target_length fs =
     (let (r, fs') = trunc (path_str native p) (sint target_length) fs in (r = 0, fs'))"

definition create_directory :: "path_type \<Rightarrow> (string \<Rightarrow> nat \<Rightarrow> 'fs \<Rightarrow> int \<times> 'fs) \<Rightarrow> path \<Rightarrow> 'fs \<Rightarrow> bool \<times> 'fs" where
  "create_directory native mkdir p fs = (let (r, fs') = mkdir (path_str native p) 0x1C0 fs in (r = 0, fs'))"

section \<open>The search path\<close>

type_synonym resolver = "path list"

definition resolver_init :: "path_type \<Rightarrow> string option \<Rightarrow> path_error + resolver" where
  "resolver_init native cwd = (case getcwd native cwd of Inl e \<Rightarrow> Inl e | Inr p \<Rightarrow> Inr [p])"

definition resolver_prepend :: "path \<Rightarrow> resolver \<Rightarrow> resolver" where
  "resolver_prepend p r = p # r"

definition resolver_append :: "path \<Rightarrow> resolver \<Rightarrow> resolver" where
  "resolver_append p r = r @ [p]"

definition resolver_erase :: "nat \<Rightarrow> resolver \<Rightarrow> resolver option" where
  "resolver_erase i r = (if i < length r then Some (take i r @ drop (Suc i) r) else None)"

fun resolve :: "path_type \<Rightarrow> (string \<Rightarrow> stat_buf option) \<Rightarrow> path \<Rightarrow> resolver \<Rightarrow> path_error + path" where
  "resolve native stat val [] = Inr val"
| "resolve native stat val (p # ps) =
     (case path_append p val of
        Inl e \<Rightarrow> Inl e
      | Inr combined \<Rightarrow> if path_exists native stat combined then Inr combined else resolve native stat val ps)"

section \<open>What splitting computes\<close>

text \<open>The specification: the maximal runs of other characters.\<close>

fun pieces :: "(char \<Rightarrow> bool) \<Rightarrow> string \<Rightarrow> string \<Rightarrow> string list" where
  "pieces delim acc [] = (if acc = [] then [] else [acc])"
| "pieces delim acc (c # s) =
     (if delim c then (if acc = [] then [] else [acc]) @ pieces delim [] s else pieces delim (acc @ [c]) s)"

lemma pieces_none: "\<forall>c \<in> set s. \<not> delim c \<Longrightarrow> pieces delim acc s = (if acc @ s = [] then [] else [acc @ s])"
  by (induction s arbitrary: acc) auto

lemma pieces_split:
  "\<forall>c \<in> set u. \<not> delim c \<Longrightarrow> delim d \<Longrightarrow>
     pieces delim acc (u @ d # s) = (if acc @ u = [] then [] else [acc @ u]) @ pieces delim [] s"
  by (induction u arbitrary: acc) auto

lemma find_first_split:
  assumes "find_first P s = Some i"
  shows "s = take i s @ s ! i # drop (Suc i) s \<and> P (s ! i) \<and> (\<forall>c \<in> set (take i s). \<not> P c)"
proof -
  from find_first_SomeD [OF assms] have i: "i < length s" "P (s ! i)" "\<forall>j < i. \<not> P (s ! j)" by auto
  then have "\<forall>c \<in> set (take i s). \<not> P c" by (auto simp: in_set_conv_nth)
  with i show ?thesis by (simp add: id_take_nth_drop)
qed

lemma tokenize_loop_pieces:
  "k < length s \<Longrightarrow> tokenize_loop s delim k = pieces delim [] (drop k s)"
proof (induction s delim k rule: tokenize_loop.induct)
  case (1 s delim k)
  let ?t = "drop k s"
  show ?case
  proof (cases "find_first delim ?t")
    case None
    then have "\<forall>c \<in> set ?t. \<not> delim c" by (simp add: find_first_None)
    with 1 None show ?thesis
      by (simp add: tokenize_loop.simps [of s] find_first_from_def pieces_none)
  next
    case (Some i)
    from find_first_split [OF Some] have t: "?t = take i ?t @ ?t ! i # drop (Suc i) ?t" "delim (?t ! i)"
        "\<forall>c \<in> set (take i ?t). \<not> delim c" by auto
    have i: "i < length ?t" using find_first_SomeD [OF Some] by simp
    have p: "pieces delim [] ?t = (if i = 0 then [] else [take i ?t]) @ pieces delim [] (drop (Suc i) ?t)"
      using pieces_split [OF t(3,2), of "[]" "drop (Suc i) ?t"] t(1) i by (auto simp: take_eq_Nil)
    have d: "drop (Suc i) ?t = drop (k + i + 1) s" by (simp add: ac_simps)
    have ih: "k + i + 1 \<noteq> length s \<Longrightarrow> tokenize_loop s delim (k + i + 1) = pieces delim [] (drop (k + i + 1) s)"
      using "1.IH" [of "k + i"] Some i by (simp add: find_first_from_def)
    show ?thesis
      unfolding p d tokenize_loop.simps [of s delim k] find_first_from_def Some
      using ih by (simp add: Let_def)
  qed
qed

lemma tokenize_spec: "tokenize s delim = (if s = [] then [[]] else pieces delim [] s)"
  by (cases "s = []") (simp_all add: tokenize_def tokenize_loop_pieces,
      simp add: tokenize_loop.simps find_first_from_def)

section \<open>Properties\<close>

definition part_ok :: "path_type \<Rightarrow> string \<Rightarrow> bool" where
  "part_ok t x \<longleftrightarrow> x \<noteq> [] \<and> (\<forall>c \<in> set x. \<not> is_delim t c)"

text \<open>
  The paths that their text determines: components that are not empty and hold no separator,
  at least one unless the path is the POSIX root, and the flag the text shows.
\<close>

definition printable :: "path \<Rightarrow> bool" where
  "printable p \<longleftrightarrow> (\<forall>x \<in> set (m_path p). part_ok (m_type p) x)
     \<and> (m_path p \<noteq> [] \<or> m_type p = posix_path \<and> m_absolute p)
     \<and> (m_type p = windows_path \<longrightarrow>
          (m_absolute p \<longleftrightarrow> (let x = hd (m_path p) in length x \<ge> 2 \<and> isalpha (x ! 0) \<and> x ! 1 = CHR '':'')))"

lemma is_delim_separator: "is_delim t (separator t)"
  by (cases t) (simp_all add: is_delim_def separator_def)

lemma pieces_join:
  "delim sep \<Longrightarrow> \<forall>x \<in> set xs. x \<noteq> [] \<and> (\<forall>c \<in> set x. \<not> delim c) \<Longrightarrow> pieces delim [] (join_parts sep xs) = xs"
proof (induction sep xs rule: join_parts.induct)
  case (2 sep x)
  then show ?case by (simp add: pieces_none)
next
  case (3 sep x y xs)
  then show ?case using pieces_split [of x delim sep "[]"] by simp
qed simp

lemma pieces_part:
  "x \<in> set (pieces delim acc s) \<Longrightarrow> \<forall>c \<in> set acc. \<not> delim c \<Longrightarrow> x \<noteq> [] \<and> (\<forall>c \<in> set x. \<not> delim c)"
  by (induction delim acc s rule: pieces.induct) (auto split: if_splits)

lemma join_parts_Nil: "join_parts sep xs = [] \<Longrightarrow> \<forall>x \<in> set xs. x \<noteq> [] \<Longrightarrow> xs = []"
  by (cases xs rule: remdups_adj.cases) auto

lemma join_parts_head: "xs \<noteq> [] \<Longrightarrow> hd xs \<noteq> [] \<Longrightarrow> \<exists>ys. join_parts sep xs = hd xs @ ys \<and> (ys = [] \<or> hd ys = sep)"
  by (cases xs rule: remdups_adj.cases) auto

lemma drive_prefix:
  assumes "x \<noteq> []" and "ys = [] \<or> hd ys = CHR 0x5C"
  shows "length (x @ ys) \<ge> 2 \<and> isalpha ((x @ ys) ! 0) \<and> (x @ ys) ! 1 = CHR '':''
     \<longleftrightarrow> length x \<ge> 2 \<and> isalpha (x ! 0) \<and> x ! 1 = CHR '':''"
proof (cases x)
  case (Cons a x')
  with assms show ?thesis by (cases x'; cases ys) auto
qed (use assms in simp)

text \<open>
  Claim C33.  Paths round-trip through their text: parsing what a printable path prints gives the
  path back, components, type and absoluteness included, for POSIX and Windows paths.
\<close>

theorem path_roundtrip:
  assumes "printable p"
  shows "path_set (m_type p) (path_str (m_type p) p) = p"
proof -
  let ?j = "join_parts (separator (m_type p)) (m_path p)" and ?d = "is_delim (m_type p)"
  have parts: "\<forall>x \<in> set (m_path p). x \<noteq> [] \<and> (\<forall>c \<in> set x. \<not> ?d c)"
    using assms by (auto simp: printable_def part_ok_def)
  have j: "pieces ?d [] ?j = m_path p"
    by (rule pieces_join [OF is_delim_separator parts])
  show ?thesis
  proof (cases "m_type p")
    case posix_path
    have hd_ok: "?j \<noteq> [] \<and> ?j ! 0 \<noteq> CHR ''/''" if "\<not> m_absolute p"
    proof -
      from assms that have ne: "m_path p \<noteq> []" by (auto simp: printable_def)
      with parts have x: "hd (m_path p) \<noteq> []" "\<forall>c \<in> set (hd (m_path p)). \<not> ?d c" by auto
      from join_parts_head [OF ne x(1)] obtain ys where "?j = hd (m_path p) @ ys" by blast
      with x posix_path show ?thesis by (cases "hd (m_path p)") (auto simp: is_delim_def)
    qed
    have "tokenize (path_str (m_type p) p) ?d = m_path p"
      using j hd_ok posix_path by (cases "m_absolute p") (auto simp: path_str_def tokenize_spec is_delim_def)
    moreover have "path_str (m_type p) p \<noteq> [] \<and> path_str (m_type p) p ! 0 = CHR ''/'' \<longleftrightarrow> m_absolute p"
      using hd_ok posix_path by (cases "m_absolute p") (auto simp: path_str_def)
    ultimately show ?thesis using posix_path by (simp add: path_set_def)
  next
    case windows_path
    with assms have ne: "m_path p \<noteq> []" by (auto simp: printable_def)
    with parts have x: "hd (m_path p) \<noteq> []" by auto
    from join_parts_head [OF ne x] obtain ys where ys: "?j = hd (m_path p) @ ys" "ys = [] \<or> hd ys = CHR 0x5C"
      using windows_path by (auto simp: separator_def)
    have s: "path_str (m_type p) p = ?j" using windows_path by (simp add: path_str_def)
    have "tokenize ?j ?d = m_path p" using j x ys by (auto simp: tokenize_spec)
    moreover have "m_absolute p \<longleftrightarrow> length ?j \<ge> 2 \<and> isalpha (?j ! 0) \<and> ?j ! 1 = CHR '':''"
      unfolding ys(1) drive_prefix [OF x ys(2)] using assms windows_path by (simp add: printable_def Let_def)
    ultimately show ?thesis unfolding s using windows_path by (simp add: path_set_def)
  qed
qed

theorem path_roundtrip_witness:
  "path_set posix_path (path_str posix_path \<lparr>m_type = posix_path, m_path = [''usr'', ''lib''], m_absolute = True\<rparr>)
   = \<lparr>m_type = posix_path, m_path = [''usr'', ''lib''], m_absolute = True\<rparr>"
proof -
  have "printable \<lparr>m_type = posix_path, m_path = [''usr'', ''lib''], m_absolute = True\<rparr>"
    by (simp add: printable_def part_ok_def is_delim_def)
  from path_roundtrip [OF this] show ?thesis by simp
qed

text \<open>
  Splitting a path yields exactly its maximal runs of characters that are no
  separator: no component is empty or holds a separator.  The one exception is the empty text,
  which yields one empty component, so a path made from it is not \<^verbatim>\<open>empty()\<close> and differs
  from the default path.
\<close>

theorem tokenize_components:
  "(s \<noteq> [] \<longrightarrow> tokenize s (is_delim t) = pieces (is_delim t) [] s
      \<and> (\<forall>x \<in> set (tokenize s (is_delim t)). part_ok t x))
   \<and> \<not> path_empty (path_set t []) \<and> \<not> path_equal (path_set t []) (empty_path t)"
  using pieces_part [of _ "is_delim t" "[]" s]
  by (simp add: tokenize_spec part_ok_def path_empty_def path_set_def path_equal_def empty_path_def)

theorem tokenize_components_witness:
  "tokenize ''a//b/'' (is_delim posix_path) = pieces (is_delim posix_path) [] ''a//b/''
   \<and> pieces (is_delim posix_path) [] ''a//b/'' = [''a'', ''b'']"
  using tokenize_components [of "''a//b/''" posix_path] by (simp add: is_delim_def)

lemma map_nth_butlast: "map (\<lambda>i. xs ! i) [0..<length xs - 1] = butlast xs"
  by (rule nth_equalityI) (simp_all add: nth_butlast)

text \<open>
  Parent and child.  Appending a relative one-component path of the native type and
  taking the parent gives the path back, and the file name is the component; appending an
  absolute path or one of the other type is refused.  Equality ignores absoluteness.
\<close>

theorem parent_of_child:
  assumes "m_type p = native"
  shows "\<exists>q. path_append p \<lparr>m_type = native, m_path = [x], m_absolute = False\<rparr> = Inr q
        \<and> parent_path native q = p \<and> filename q = x
        \<and> path_append p \<lparr>m_type = native, m_path = [x], m_absolute = True\<rparr> = Inl NotRelative
        \<and> path_equal p (p\<lparr>m_absolute := \<not> m_absolute p\<rparr>)"
  using assms map_nth_butlast [of "m_path p @ [x]"]
  by (cases p) (simp add: path_append_def parent_path_def empty_path_def filename_def path_empty_def
      path_equal_def Let_def)

theorem parent_of_child_witness:
  "\<exists>q. path_append (empty_path posix_path) \<lparr>m_type = posix_path, m_path = [''a''], m_absolute = False\<rparr> = Inr q
      \<and> parent_path posix_path q = empty_path posix_path"
  using parent_of_child [of "empty_path posix_path" posix_path "''a''"] by (auto simp: empty_path_def)

text \<open>
  The search path.  Resolving a relative path gives the first combination, in the
  order of the search path, that exists, and the path itself when none does; it never fails
  when the types agree.  An absolute path is refused unless the search path is empty.
\<close>

theorem resolve_first:
  assumes "\<forall>p \<in> set r. m_type p = m_type val"
  shows "(\<not> m_absolute val \<longrightarrow> resolve native stat val r =
        (case find (path_exists native stat) (map (\<lambda>p. p\<lparr>m_path := m_path p @ m_path val\<rparr>) r) of
           None \<Rightarrow> Inr val | Some q \<Rightarrow> Inr q))
     \<and> (m_absolute val \<and> r \<noteq> [] \<longrightarrow> resolve native stat val r = Inl NotRelative)"
proof (cases "m_absolute val")
  case True
  then show ?thesis by (cases r) (simp_all add: path_append_def)
next
  case False
  have "resolve native stat val r =
      (case find (path_exists native stat) (map (\<lambda>p. p\<lparr>m_path := m_path p @ m_path val\<rparr>) r) of
         None \<Rightarrow> Inr val | Some q \<Rightarrow> Inr q)"
    using assms
  proof (induction r)
    case (Cons p r)
    from Cons.prems have "m_type p = m_type val" by (meson list.set_intros(1))
    with False have "path_append p val = Inr (p\<lparr>m_path := m_path p @ m_path val\<rparr>)"
      by (simp add: path_append_def)
    moreover have "resolve native stat val r =
      (case find (path_exists native stat) (map (\<lambda>p. p\<lparr>m_path := m_path p @ m_path val\<rparr>) r) of
         None \<Rightarrow> Inr val | Some q \<Rightarrow> Inr q)"
      by (rule Cons.IH) (use Cons.prems in \<open>blast intro: list.set_intros\<close>)
    ultimately show ?case by (simp del: Fun.comp_apply)
  qed simp
  with False show ?thesis by simp
qed

theorem resolve_first_witness:
  "resolve posix_path (\<lambda>n. if n = ''/b/f'' then Some \<lparr>st_mode = S_IFREG, st_size = 1\<rparr> else None)
     (path_set posix_path ''f'') [path_set posix_path ''/a'', path_set posix_path ''/b'']
   = Inr (path_set posix_path ''/b/f'')"
proof -
  let ?stat = "\<lambda>n. if n = ''/b/f'' then Some \<lparr>st_mode = S_IFREG, st_size = 1\<rparr> else None"
  have s: "path_set posix_path ''/a'' = \<lparr>m_type = posix_path, m_path = [''a''], m_absolute = True\<rparr>"
    "path_set posix_path ''/b'' = \<lparr>m_type = posix_path, m_path = [''b''], m_absolute = True\<rparr>"
    "path_set posix_path ''f'' = \<lparr>m_type = posix_path, m_path = [''f''], m_absolute = False\<rparr>"
    "path_set posix_path ''/b/f'' = \<lparr>m_type = posix_path, m_path = [''b'', ''f''], m_absolute = True\<rparr>"
    by (simp_all add: path_set_def tokenize_spec is_delim_def)
  show ?thesis
    using resolve_first [of "[path_set posix_path ''/a'', path_set posix_path ''/b'']" "path_set posix_path ''f''" posix_path ?stat]
    by (simp add: s path_exists_def path_str_def separator_def)
qed

end
