(* ===== verification/Crc_Hex.thy ===== *)
theory Crc_Hex
  imports C_Library Wide_Chars
begin

text \<open>
  \<^verbatim>\<open>Source/Core/Private/Core/Utilities/StringUtils.h\<close>: the CRC-32 table and hash
  evaluated at compile time, and the case conversion copied there; with the hexadecimal output
  and input of byte arrays (\<^verbatim>\<open>StringUtils.cpp\<close>,
  \<^verbatim>\<open>Source/ProtobufDecompileTest/Util.cpp\<close>).
\<close>

unbundle bit_operations_syntax

section \<open>CRC-32\<close>

definition polynomial :: u32 where "polynomial = 0xEDB88320"

text \<open>One round of the inner loop: \<^verbatim>\<open>mask\<close> is all ones when the low bit is set.\<close>

definition crc_round :: "u32 \<Rightarrow> u32" where
  "crc_round crc = (let mask = - (crc AND 1) in drop_bit 1 crc XOR (polynomial AND mask))"

fun crc_rounds :: "nat \<Rightarrow> u32 \<Rightarrow> u32" where
  "crc_rounds 0 crc = crc"
| "crc_rounds (Suc i) crc = crc_rounds i (crc_round crc)"

definition gen_crc32_table :: "u32 list" where
  "gen_crc32_table = map (\<lambda>byte. crc_rounds 8 (of_nat byte)) [0..<256]"

text \<open>A \<^verbatim>\<open>char\<close> is signed: it is extended with its sign before the exclusive or.\<close>

definition crc_char :: "char \<Rightarrow> u32" where
  "crc_char c = scast (of_char c :: 8 word)"

fun crc_loop :: "u32 \<Rightarrow> string \<Rightarrow> u32" where
  "crc_loop crc [] = crc"
| "crc_loop crc (c # s) =
     (if c = NUL then crc
      else crc_loop (gen_crc32_table ! unat ((crc XOR crc_char c) AND 0xFF) XOR drop_bit 8 crc) s)"

definition crc32 :: "string \<Rightarrow> u32" where
  "crc32 s = NOT (crc_loop 0xFFFFFFFF s)"

subsection \<open>The bitwise definition\<close>

fun crc_bitwise :: "u32 \<Rightarrow> string \<Rightarrow> u32" where
  "crc_bitwise crc [] = crc"
| "crc_bitwise crc (c # s) = crc_bitwise (crc_rounds 8 (crc XOR of_char c)) s"

lemma bit_crc_round: "bit (crc_round x) n \<longleftrightarrow> n < 32 \<and> (bit x (Suc n) \<noteq> (bit x 0 \<and> bit polynomial n))"
proof -
  have "x AND 1 = (if bit x 0 then 1 else 0)"
    by (rule bit_word_eqI) (auto simp: bit_and_iff bit_1_iff, metis gr0I)
  then show ?thesis
    by (auto simp: crc_round_def Let_def bit_xor_iff bit_drop_bit_eq bit_and_iff dest: bit_imp_le_length)
qed

lemma crc_round_xor: "crc_round (x XOR y) = crc_round x XOR crc_round y"
  by (rule bit_word_eqI) (auto simp: bit_crc_round bit_xor_iff)

lemma crc_rounds_xor: "crc_rounds k (x XOR y) = crc_rounds k x XOR crc_rounds k y"
  by (induction k arbitrary: x y) (simp_all add: crc_round_xor)

lemma crc_rounds_high: "(\<And>i. i < k \<Longrightarrow> \<not> bit x i) \<Longrightarrow> crc_rounds k x = drop_bit k x"
proof (induction k arbitrary: x)
  case (Suc k)
  have "\<not> bit x 0" using Suc.prems by simp
  then have r: "crc_round x = drop_bit 1 x"
    by (intro bit_word_eqI) (auto simp: bit_crc_round bit_drop_bit_eq)
  have "crc_rounds k (drop_bit 1 x) = drop_bit k (drop_bit 1 x)"
    using Suc.prems by (intro Suc.IH) (simp add: bit_drop_bit_eq)
  then show ?case by (simp add: r)
qed simp

lemma bit_FF: "bit (0xFF :: u32) n \<longleftrightarrow> n < 8"
proof -
  have m8: "(0xFF :: u32) = mask 8" by (simp add: mask_eq_exp_minus_1)
  show ?thesis unfolding m8 bit_mask_iff possible_bit_word by auto
qed

lemma crc_table_step:
  "crc_rounds 8 x = crc_rounds 8 (x AND 0xFF) XOR drop_bit 8 x"
proof -
  define m :: u32 where "m = 0xFF"
  have m: "bit m n \<longleftrightarrow> n < 8" for n by (simp only: m_def bit_FF)
  have split: "x = (x AND m) XOR (x AND NOT m)"
    by (rule bit_word_eqI) (auto simp: bit_xor_iff bit_and_iff bit_not_iff)
  have "crc_rounds 8 (x AND NOT m) = drop_bit 8 (x AND NOT m)"
    by (rule crc_rounds_high) (simp add: bit_and_iff bit_not_iff m)
  also have "\<dots> = drop_bit 8 x"
    by (rule bit_word_eqI) (auto simp: bit_drop_bit_eq bit_and_iff bit_not_iff m dest: bit_imp_le_length)
  finally have "crc_rounds 8 ((x AND m) XOR (x AND NOT m)) = crc_rounds 8 (x AND m) XOR drop_bit 8 x"
    by (simp only: crc_rounds_xor)
  then show ?thesis by (simp only: split [symmetric]) (simp add: m_def)
qed

lemma char_word: "(of_char c :: u32) = ucast (of_char c :: 8 word)"
proof -
  have o: "ord c < 2 ^ LENGTH(8)" "ord c < 2 ^ LENGTH(32)"
    using ord_less_256 [of c] by (simp, simp del: ord_less_256)
  from this have "unat (of_nat (ord c) :: 8 word) = ord c" "unat (of_nat (ord c) :: u32) = ord c"
    by (simp_all only: unat_of_nat_small)
  then have "unat (of_char c :: 8 word) = ord c" "unat (of_char c :: u32) = ord c"
    by (simp_all only: of_nat_of_char)
  then show ?thesis using o(2)
    by (simp add: word_unat_eq_iff unsigned_ucast_eq take_bit_nat_eq_self)
qed

lemma crc_char_low: "(x XOR crc_char c) AND 0xFF = (x XOR of_char c) AND 0xFF"
  unfolding crc_char_def char_word
  by (rule bit_word_eqI) (simp only: bit_and_iff bit_FF, auto simp: bit_xor_iff bit_ucast_iff bit_signed_iff)

lemma drop_char: "drop_bit 8 (of_char c :: u32) = 0"
  unfolding char_word by (rule bit_word_eqI) (auto simp: bit_drop_bit_eq bit_ucast_iff dest: bit_imp_le_length)

lemma drop_bit_xor_char: "drop_bit 8 (x XOR of_char c :: u32) = drop_bit 8 x"
  by (simp add: drop_bit_xor drop_char)

lemma unat_low_byte: "unat (x AND 0xFF :: u32) < 256"
proof -
  have "x AND 0xFF = take_bit 8 x"
    by (rule bit_word_eqI) (simp only: bit_and_iff bit_FF, auto simp: bit_take_bit_iff)
  then show ?thesis by (simp add: unsigned_take_bit_eq take_bit_nat_less_exp [of 8, simplified])
qed

lemma table_lookup: "gen_crc32_table ! unat (x AND 0xFF :: u32) = crc_rounds 8 (x AND 0xFF)"
  using unat_low_byte [of x] by (simp add: gen_crc32_table_def del: upt_Suc)

lemma crc_loop_bitwise: "crc_loop crc s = crc_bitwise crc (c_str s)"
proof (induction s arbitrary: crc)
  case (Cons c s)
  have "gen_crc32_table ! unat ((crc XOR crc_char c) AND 0xFF) XOR drop_bit 8 crc = crc_rounds 8 (crc XOR of_char c)"
    by (simp only: crc_char_low table_lookup crc_table_step [of "crc XOR of_char c"] drop_bit_xor_char)
  with Cons show ?case by (simp add: c_str_def)
qed (simp add: c_str_def)


text \<open>
  The values that the source asserts at compile time or names in a comment: two
  entries of the table and the hash of a sample string.
\<close>

theorem crc32_asserted_values:
  "gen_crc32_table ! 1 = 0x77073096 \<and> gen_crc32_table ! 255 = 0x2D02EF8D \<and> crc32 ''some-id'' = 0x1A61BC96"
proof -
  have t: "gen_crc32_table ! 1 = crc_rounds 8 1" "gen_crc32_table ! 255 = crc_rounds 8 255"
    by (simp_all add: gen_crc32_table_def del: upt_Suc)
  have "crc_rounds 8 1 = 0x77073096" "crc_rounds 8 255 = 0x2D02EF8D" by code_simp+
  moreover have "NOT (crc_bitwise 0xFFFFFFFF ''some-id'') = 0x1A61BC96" by code_simp
  ultimately show ?thesis by (simp add: t crc32_def crc_loop_bitwise c_str_def del: One_nat_def)
qed

section \<open>The case conversion of StringUtils.h\<close>

definition Core_wcharToUpper :: "wchar_t \<Rightarrow> wchar_t" where
  "Core_wcharToUpper w =
     (if in_range 0x61 0x7A w then to_uint16 w - 0x20
      else if w = 0xDF then 0x1E9E
      else if in_range 0xE0 0xF6 w then to_uint16 w - 0x20
      else if in_range 0xF8 0xFE w then to_uint16 w - 0x20
      else if in_range 0x101 0x12F w \<and> w mod 2 = 1 then to_uint16 w - 1
      else if in_range 0x430 0x44F w then to_uint16 w - 0x20
      else if w = 0x451 then 0x401
      else w)"

definition Core_wcharToUpperOnlyLatin :: "wchar_t \<Rightarrow> wchar_t" where
  "Core_wcharToUpperOnlyLatin w = 0"

text \<open>
  \<^verbatim>\<open>Utf8ToUpperOnlyLatin\<close>: the decoding of the argument is commented out, so the wide
  string is empty; \<open>to_utf8\<close> is \<^verbatim>\<open>WStrToUtf8\<close>, on \<^term>\<open>None\<close> the argument is
  cleared.
\<close>

definition Core_Utf8ToUpperOnlyLatin :: "(wchar_t list \<Rightarrow> string option) \<Rightarrow> string \<Rightarrow> bool \<times> string" where
  "Core_Utf8ToUpperOnlyLatin to_utf8 utf8String =
     (let wstr = map Core_wcharToUpperOnlyLatin []
      in case to_utf8 wstr of None \<Rightarrow> (False, []) | Some s \<Rightarrow> (True, s))"

text \<open>\<^verbatim>\<open>WStrToUtf8\<close>: the encoder \<^verbatim>\<open>utf8::utf16to8\<close> is the argument and only called on a non-empty string.\<close>

definition Core_WStrToUtf8 :: "(wchar_t list \<Rightarrow> string option) \<Rightarrow> wchar_t list \<Rightarrow> string option" where
  "Core_WStrToUtf8 utf16to8 wstr = (if wstr \<noteq> [] then utf16to8 wstr else Some [])"

text \<open>
  The two copies of the upper-case conversion agree, but the Core function that
  should upper-case the Latin letters of a string erases it: whatever the argument, the result
  is the empty string with success.
\<close>

theorem core_upper_case:
  "Core_wcharToUpper w = wcharToUpper w
   \<and> Core_Utf8ToUpperOnlyLatin (Core_WStrToUtf8 utf16to8) s = (True, [])"
  by (simp add: Core_wcharToUpper_def wcharToUpper_def Core_Utf8ToUpperOnlyLatin_def Core_WStrToUtf8_def)

section \<open>Hexadecimal\<close>

definition hex_digit :: "nat \<Rightarrow> char" where
  "hex_digit d = (if d < 10 then char_of (48 + d) else char_of (55 + d))"

text \<open>\<^verbatim>\<open>sprintf("%02X")\<close> of a byte.\<close>

definition hex_byte :: "u8 \<Rightarrow> string" where
  "hex_byte b = [hex_digit (unat b div 16), hex_digit (unat b mod 16)]"

text \<open>
  The index loops: \<open>i\<close> runs from \<open>init\<close> by \<open>op\<close> until it equals \<open>end\<close>; in
  reverse that is from the last index down to 0.  An array of \<open>2 ^ 31\<close> bytes or more makes
  the \<^verbatim>\<open>int32\<close> bound negative and the loop overflows; so does an index outside the array.
\<close>

definition loop_indices :: "nat \<Rightarrow> bool \<Rightarrow> nat list" where
  "loop_indices n reverse = (if reverse then rev [0..<n] else [0..<n])"

definition ByteArrayToHexStr :: "u8 list \<Rightarrow> u32 \<Rightarrow> bool \<Rightarrow> string option" where
  "ByteArrayToHexStr bytes arrayLen reverse =
     (if unat arrayLen < 2 ^ 31 \<and> unat arrayLen \<le> length bytes
      then Some (concat (map (\<lambda>i. hex_byte (bytes ! i)) (loop_indices (unat arrayLen) reverse)))
      else None)"

text \<open>\<^verbatim>\<open>strtoul(buffer, NULL, 16)\<close> of a two-character buffer, truncated to a byte.\<close>

definition strtoul16 :: "string \<Rightarrow> int" where
  "strtoul16 s =
     (let (neg, t) = split_sign (dropWhile isspace (c_str s))
      in apply_sign neg (base_val 16 (takeWhile (is_base_digit 16) t)))"

definition HexStrToByteArray :: "string \<Rightarrow> u8 list \<Rightarrow> bool \<Rightarrow> u8 list option" where
  "HexStrToByteArray str out reverse =
     (if odd (length str) then Some out
      else if length str \<ge> 2 ^ 31 then None
      else blit 0 (map (\<lambda>i. word_of_int (strtoul16 [str ! (2 * i), str ! (2 * i + 1)]))
                     (loop_indices (length str div 2) reverse)) out)"

lemma hex_digit_facts:
  assumes "d < 16"
  shows "xdigit_val (hex_digit d) = Some d" and "\<not> isspace (hex_digit d)" and "hex_digit d \<noteq> NUL"
proof -
  have o: "ord (hex_digit d) = (if d < 10 then 48 + d else 55 + d)"
    using assms by (simp add: hex_digit_def)
  with assms show "xdigit_val (hex_digit d) = Some d" "\<not> isspace (hex_digit d)"
    by (auto simp: xdigit_val_def isdigit_def islower_def isupper_def isspace_def)
  show "hex_digit d \<noteq> NUL"
  proof
    assume "hex_digit d = NUL"
    with o show False by (simp split: if_splits)
  qed
qed

lemma strtoul16_hex: "strtoul16 (hex_byte b) = uint b"
proof -
  let ?h = "unat b div 16" and ?l = "unat b mod 16"
  have "unat b < 256" using unat_bound [of b] by simp
  then have h: "?h < 16" and l: "?l < 16" by simp_all
  note hf = hex_digit_facts [OF h] and lf = hex_digit_facts [OF l]
  have "hex_digit ?h \<noteq> CHR ''-''" "hex_digit ?h \<noteq> CHR ''+''"
    using hf(1) by (auto simp: xdigit_val_def isdigit_def islower_def isupper_def)
  then have "strtoul16 (hex_byte b) = int (?h * 16 + ?l)"
    using hf lf h l by (simp add: strtoul16_def hex_byte_def c_str_def base_val_def is_base_digit_def apply_sign_def)
  also have "?h * 16 + ?l = unat b" by simp
  finally show ?thesis by simp
qed

lemma concat_hex_nth:
  assumes "i < length bs"
  shows "concat (map hex_byte bs) ! (2 * i) = hex_byte (bs ! i) ! 0"
    and "concat (map hex_byte bs) ! (2 * i + 1) = hex_byte (bs ! i) ! 1"
  using assms by (induction bs arbitrary: i) (auto simp: hex_byte_def nth_Cons split: nat.splits)

lemma length_concat_hex: "length (concat (map hex_byte bs)) = 2 * length bs"
  by (induction bs) (simp_all add: hex_byte_def)

lemma loop_indices_nth: "map (\<lambda>i. xs ! i) (loop_indices (length xs) r) = (if r then rev xs else xs)"
  by (simp add: loop_indices_def map_nth flip: rev_map)

lemma hex_decode_map:
  "map (\<lambda>i. word_of_int (strtoul16 [concat (map hex_byte bs) ! (2 * i), concat (map hex_byte bs) ! (2 * i + 1)]))
     (loop_indices (length bs) r) = (if r then rev bs else bs)"
proof -
  have "word_of_int (strtoul16 [concat (map hex_byte bs) ! (2 * i), concat (map hex_byte bs) ! (2 * i + 1)]) = bs ! i"
    if "i < length bs" for i
    using concat_hex_nth [OF that] strtoul16_hex [of "bs ! i"] by (simp add: hex_byte_def)
  then have "map (\<lambda>i. word_of_int (strtoul16 [concat (map hex_byte bs) ! (2 * i), concat (map hex_byte bs) ! (2 * i + 1)]))
      (loop_indices (length bs) r) = map (\<lambda>i. bs ! i) (loop_indices (length bs) r)"
    by (intro map_cong) (auto simp: loop_indices_def split: if_splits)
  then show ?thesis by (simp only: loop_indices_nth)
qed

lemma hex_decode:
  assumes "length bs < 2 ^ 30"
  shows "HexStrToByteArray (concat (map hex_byte bs)) out r = blit 0 (if r then rev bs else bs) out"
  using assms unfolding HexStrToByteArray_def length_concat_hex
  by (simp add: hex_decode_map [simplified] del: concat_map_singleton)

text \<open>
  Hexadecimal round trip.  Writing a byte array as hexadecimal text and reading the
  text into a buffer that is large enough gives the bytes back, in both directions: with
  \<^verbatim>\<open>reverse\<close> on one side they come back reversed, on both sides unchanged; the rest of
  the buffer keeps its contents.
\<close>

theorem hex_roundtrip:
  assumes "length bs < 2 ^ 30" and "length bs \<le> length out"
  shows "\<exists>s. ByteArrayToHexStr bs (of_nat (length bs)) r1 = Some s
    \<and> HexStrToByteArray s out r2 = Some ((if r1 = r2 then bs else rev bs) @ drop (length bs) out)"
proof -
  let ?bs = "if r1 then rev bs else bs" and ?s = "concat (map hex_byte (if r1 then rev bs else bs))"
  have n: "unat (of_nat (length bs) :: u32) = length bs"
    using assms(1) by (intro unat_of_nat_small) simp
  have "map (\<lambda>i. hex_byte (bs ! i)) (loop_indices (length bs) r1) = map hex_byte ?bs"
    using arg_cong [OF loop_indices_nth [of bs r1], of "map hex_byte"] by (simp add: comp_def)
  then have "ByteArrayToHexStr bs (of_nat (length bs)) r1 = Some ?s"
    using assms(1) by (simp add: ByteArrayToHexStr_def n)
  moreover have "HexStrToByteArray ?s out r2 = blit 0 (if r2 then rev ?bs else ?bs) out"
    using assms(1) by (intro hex_decode) simp
  moreover have "blit 0 (if r2 then rev ?bs else ?bs) out = Some ((if r1 = r2 then bs else rev bs) @ drop (length bs) out)"
    using assms(2) by (auto simp: blit_def)
  ultimately show ?thesis by simp
qed

theorem hex_roundtrip_witness:
  "\<exists>s. ByteArrayToHexStr [0xDE, 0xAD] (of_nat (length [0xDE, 0xAD :: u8])) False = Some s
     \<and> HexStrToByteArray s [0, 0] True = Some [0xAD, 0xDE]"
  using hex_roundtrip [of "[0xDE, 0xAD]" "[0, 0]" False True] by simp

end
