(* ===== verification/Net_Socket.thy ===== *)
theory Net_Socket
  imports Message_Buffer
begin

text \<open>
  The asynchronous socket, \<^verbatim>\<open>Source/Core/Private/Detail/Network/Socket.cpp\<close>, in both of its
  builds: with completion ports (\<^verbatim>\<open>SOCKET_HAS_IOCP\<close>) a queued packet starts an
  asynchronous write, without them \<^verbatim>\<open>Update\<close> writes what the kernel takes.  What the
  kernel does with a write is an argument of the step.  The handlers of the derived class
  (\<^verbatim>\<open>ReadHandler\<close>) are an argument too.  Ghost fields record the bytes handed to
  \<^verbatim>\<open>QueuePacket\<close> and the bytes the kernel took.
\<close>

section \<open>State\<close>

definition READ_BLOCK_SIZE :: size_t where "READ_BLOCK_SIZE = 4096"

record socket =
  ReadBuffer :: message_buffer
  WriteQueue :: "message_buffer list"
  IsClosed :: bool
  IsClosing :: bool
  IsWritingAsync :: bool
  reading_async :: bool \<comment> \<open>an \<^verbatim>\<open>async_read_some\<close> is outstanding\<close>
  closes :: nat \<comment> \<open>ghost: calls of \<^verbatim>\<open>OnClose\<close>\<close>
  queued_bytes :: "u8 list" \<comment> \<open>ghost\<close>
  wire_bytes :: "u8 list" \<comment> \<open>ghost\<close>
  lost :: bool \<comment> \<open>ghost: a message was dropped after an error\<close>

definition Socket :: socket where
  "Socket =
     \<lparr>ReadBuffer = Resize READ_BLOCK_SIZE MessageBuffer, WriteQueue = [], IsClosed = False, IsClosing = False,
      IsWritingAsync = False, reading_async = False, closes = 0, queued_bytes = [], wire_bytes = [], lost = False\<rparr>"

definition IsOpen :: "socket \<Rightarrow> bool" where
  "IsOpen s \<longleftrightarrow> \<not> IsClosed s \<and> \<not> IsClosing s"

definition CloseSocket :: "socket \<Rightarrow> socket" where
  "CloseSocket s = (if IsClosed s then s else s\<lparr>IsClosed := True, closes := Suc (closes s)\<rparr>)"

definition DelayedCloseSocket :: "socket \<Rightarrow> socket" where
  "DelayedCloseSocket s = s\<lparr>IsClosing := True\<rparr>"

section \<open>Reading\<close>

text \<open>\<^term>\<open>None\<close> is an access outside the buffer.\<close>

definition AsyncRead :: "socket \<Rightarrow> socket option" where
  "AsyncRead s =
     (if \<not> IsOpen s then Some s
      else map_option (\<lambda>b. s\<lparr>ReadBuffer := EnsureFreeSpace b, reading_async := True\<rparr>) (Normalize (ReadBuffer s)))"

text \<open>
  The completion of a read: the kernel has put \<open>data\<close> into the free space of the buffer;
  \<open>handler\<close> is the derived class's \<^verbatim>\<open>ReadHandler\<close>.
\<close>

definition ReadHandlerInternal :: "(socket \<Rightarrow> socket) \<Rightarrow> u8 list option \<Rightarrow> socket \<Rightarrow> socket option" where
  "ReadHandlerInternal handler res s =
     (let s0 = s\<lparr>reading_async := False\<rparr>
      in case res of
           None \<Rightarrow> Some (CloseSocket s0)
         | Some data \<Rightarrow>
             map_option (\<lambda>st. handler (s0\<lparr>ReadBuffer := WriteCompleted (of_nat (length data)) ((ReadBuffer s0)\<lparr>storage := st\<rparr>)\<rparr>))
               (blit (GetWritePointer (ReadBuffer s0)) data (storage (ReadBuffer s0))))"

section \<open>Writing\<close>

definition AsyncProcessQueue :: "socket \<Rightarrow> socket" where
  "AsyncProcessQueue s = (if IsWritingAsync s then s else s\<lparr>IsWritingAsync := True\<rparr>)"

definition QueuePacket :: "bool \<Rightarrow> message_buffer \<Rightarrow> socket \<Rightarrow> socket" where
  "QueuePacket iocp buffer s =
     (let s1 = s\<lparr>WriteQueue := WriteQueue s @ [buffer], queued_bytes := queued_bytes s @ active buffer\<rparr>
      in if iocp then AsyncProcessQueue s1 else s1)"

definition pop_queue :: "socket \<Rightarrow> socket" where
  "pop_queue s = s\<lparr>WriteQueue := tl (WriteQueue s)\<rparr>"

text \<open>\<^verbatim>\<open>if (IsClosing && WriteQueue.empty()) CloseSocket();\<close>\<close>

definition close_if_drained :: "socket \<Rightarrow> socket" where
  "close_if_drained s = (if IsClosing s \<and> WriteQueue s = [] then CloseSocket s else s)"

datatype write_result = WouldBlock | WriteFailed | Sent nat

text \<open>\<^verbatim>\<open>HandleQueue\<close>: the flag it returns and the new state.\<close>

definition HandleQueue :: "write_result \<Rightarrow> socket \<Rightarrow> bool \<times> socket" where
  "HandleQueue r s =
     (case WriteQueue s of
        [] \<Rightarrow> (False, s)
      | queuedMessage # rest \<Rightarrow>
          (let bytesToSend = GetActiveSize queuedMessage
           in case r of
                WouldBlock \<Rightarrow> (False, AsyncProcessQueue s)
              | WriteFailed \<Rightarrow> (False, close_if_drained ((pop_queue s)\<lparr>lost := True\<rparr>))
              | Sent bytesSent \<Rightarrow>
                  (let s1 = s\<lparr>wire_bytes := wire_bytes s @ take bytesSent (active queuedMessage)\<rparr>
                   in if bytesSent = 0
                      then (False, close_if_drained ((pop_queue s1)\<lparr>lost := lost s \<or> bytesToSend \<noteq> 0\<rparr>))
                      else if bytesSent < unat bytesToSend
                      then (False, AsyncProcessQueue (s1\<lparr>WriteQueue := ReadCompleted (of_nat bytesSent) queuedMessage # rest\<rparr>))
                      else (let s2 = close_if_drained (pop_queue s1) in (WriteQueue s2 \<noteq> [], s2)))))"

definition WriteHandlerWrapper :: "write_result \<Rightarrow> socket \<Rightarrow> socket" where
  "WriteHandlerWrapper r s = snd (HandleQueue r (s\<lparr>IsWritingAsync := False\<rparr>))"

text \<open>\<open>rs\<close> is what the kernel answers to the successive writes; it blocks when they run out.\<close>

definition next_result :: "write_result list \<Rightarrow> write_result" where
  "next_result rs = (case rs of [] \<Rightarrow> WouldBlock | r # _ \<Rightarrow> r)"

lemma HandleQueue_True_shorter:
  "fst (HandleQueue r s) \<Longrightarrow> length (WriteQueue (snd (HandleQueue r s))) < length (WriteQueue s)"
  by (auto simp: HandleQueue_def Let_def close_if_drained_def CloseSocket_def pop_queue_def
      split: list.splits write_result.splits if_splits)

function queue_loop :: "write_result list \<Rightarrow> socket \<Rightarrow> socket" where
  "queue_loop rs s =
     (let (more, s') = HandleQueue (next_result rs) s in if more then queue_loop (tl rs) s' else s')"
  by pat_completeness auto
termination
proof (relation "measure (\<lambda>(rs, s). length (WriteQueue s))")
  fix rs s x more s'
  assume "x = HandleQueue (next_result rs) s" "(more, s') = x" more
  then show "((tl rs, s'), rs, s) \<in> measure (\<lambda>(rs, s). length (WriteQueue s))"
    using HandleQueue_True_shorter [of "next_result rs" s] by (metis case_prod_conv fst_conv in_measure snd_conv)
qed simp

declare queue_loop.simps [simp del]

definition Update :: "bool \<Rightarrow> write_result list \<Rightarrow> socket \<Rightarrow> bool \<times> socket" where
  "Update iocp rs s =
     (if IsClosed s then (False, s)
      else if iocp then (True, s)
      else if IsWritingAsync s \<or> (WriteQueue s = [] \<and> \<not> IsClosing s) then (True, s)
      else (True, queue_loop rs s))"

text \<open>The completion of a write in the build with completion ports; \<^term>\<open>None\<close>: no message.\<close>

definition WriteHandler :: "nat option \<Rightarrow> socket \<Rightarrow> socket option" where
  "WriteHandler res s =
     (case res of
        None \<Rightarrow> Some (CloseSocket s)
      | Some transferedBytes \<Rightarrow>
          (case WriteQueue s of
             [] \<Rightarrow> None
           | m # rest \<Rightarrow>
               (let m' = ReadCompleted (of_nat transferedBytes) m;
                    s1 = s\<lparr>IsWritingAsync := False, wire_bytes := wire_bytes s @ take transferedBytes (active m),
                           WriteQueue := m' # rest\<rparr>;
                    s2 = (if GetActiveSize m' = 0 then pop_queue s1 else s1)
                in Some (if WriteQueue s2 \<noteq> [] then AsyncProcessQueue s2
                         else if IsClosing s2 then CloseSocket s2 else s2))))"

section \<open>Runs\<close>

text \<open>
  A completion happens only when its operation is outstanding, and the kernel takes
  no more than it is given.
\<close>

definition front_size :: "socket \<Rightarrow> nat" where
  "front_size s = (case WriteQueue s of [] \<Rightarrow> 0 | m # _ \<Rightarrow> length (active m))"

inductive socket_step :: "bool \<Rightarrow> socket \<Rightarrow> socket \<Rightarrow> bool" for iocp where
  queue: "wf_buffer b \<Longrightarrow> socket_step iocp s (QueuePacket iocp b s)"
| update: "socket_step iocp s (snd (Update iocp rs s))"
| writable: "\<not> iocp \<Longrightarrow> IsWritingAsync s \<Longrightarrow> socket_step iocp s (WriteHandlerWrapper r s)"
| written: "iocp \<Longrightarrow> IsWritingAsync s \<Longrightarrow> n \<le> front_size s \<Longrightarrow> WriteHandler (Some n) s = Some s' \<Longrightarrow> socket_step iocp s s'"
| failed: "iocp \<Longrightarrow> IsWritingAsync s \<Longrightarrow> socket_step iocp s (CloseSocket s)"
| close: "socket_step iocp s (CloseSocket s)"
| delayed: "socket_step iocp s (DelayedCloseSocket s)"

inductive socket_reachable :: "bool \<Rightarrow> socket \<Rightarrow> bool" for iocp where
  init: "socket_reachable iocp Socket"
| step: "socket_reachable iocp s \<Longrightarrow> socket_step iocp s s' \<Longrightarrow> socket_reachable iocp s'"

inductive_cases socket_stepE: "socket_step iocp s s'"

definition socket_inv :: "bool \<Rightarrow> socket \<Rightarrow> bool" where
  "socket_inv iocp s \<longleftrightarrow> (\<forall>b \<in> set (WriteQueue s). wf_buffer b)
     \<and> closes s = (if IsClosed s then 1 else 0)
     \<and> (\<not> lost s \<longrightarrow> wire_bytes s @ concat (map active (WriteQueue s)) = queued_bytes s)
     \<and> (iocp \<longrightarrow> \<not> lost s \<and> (WriteQueue s \<noteq> [] \<longrightarrow> IsWritingAsync s) \<and> (IsWritingAsync s \<longrightarrow> WriteQueue s \<noteq> []))"

lemma CloseSocket_fields [simp]:
  "WriteQueue (CloseSocket s) = WriteQueue s" "wire_bytes (CloseSocket s) = wire_bytes s"
  "queued_bytes (CloseSocket s) = queued_bytes s" "lost (CloseSocket s) = lost s"
  "IsWritingAsync (CloseSocket s) = IsWritingAsync s" "IsClosed (CloseSocket s)" "IsClosing (CloseSocket s) = IsClosing s"
  by (simp_all add: CloseSocket_def)

lemma CloseSocket_inv: "socket_inv iocp s \<Longrightarrow> socket_inv iocp (CloseSocket s)"
  by (simp add: socket_inv_def) (simp add: CloseSocket_def)

lemma close_if_drained_inv: "socket_inv iocp s \<Longrightarrow> socket_inv iocp (close_if_drained s)"
  by (simp add: close_if_drained_def CloseSocket_inv)

lemma AsyncProcessQueue_inv: "socket_inv False s \<Longrightarrow> socket_inv False (AsyncProcessQueue s)"
  by (simp add: socket_inv_def AsyncProcessQueue_def)

lemma QueuePacket_inv:
  assumes "socket_inv iocp s" and "wf_buffer b"
  shows "socket_inv iocp (QueuePacket iocp b s)"
proof (cases iocp)
  case True
  with assms show ?thesis by (simp add: socket_inv_def QueuePacket_def AsyncProcessQueue_def Let_def flip: append_assoc)
next
  case False
  with assms show ?thesis by (simp add: socket_inv_def QueuePacket_def Let_def flip: append_assoc)
qed

lemma consumed_front:
  assumes "wf_buffer m" and "n \<le> length (active m)"
  shows "wf_buffer (ReadCompleted (of_nat n) m)" and "take n (active m) @ active (ReadCompleted (of_nat n) m) = active m"
  using mb.consume_law [OF assms] by simp_all

lemma HandleQueue_inv:
  assumes inv: "socket_inv False s"
  shows "socket_inv False (snd (HandleQueue r s))"
proof (cases "WriteQueue s")
  case Nil
  with inv show ?thesis by (simp add: HandleQueue_def)
next
  case (Cons m rest)
  with inv have m: "wf_buffer m" by (simp add: socket_inv_def)
  note sz = GetActiveSize_eq [OF m]
  have drop: "socket_inv False ((pop_queue (s\<lparr>wire_bytes := w\<rparr>))\<lparr>lost := True\<rparr>)" for w
    using inv Cons by (simp add: socket_inv_def pop_queue_def)
  show ?thesis
  proof (cases r)
    case (Sent n)
    let ?s1 = "s\<lparr>wire_bytes := wire_bytes s @ take n (active m)\<rparr>"
    consider (zero) "n = 0" | (part) "0 < n" "n < length (active m)" | (all) "0 < n" "length (active m) \<le> n" by linarith
    then show ?thesis
    proof cases
      case zero
      have "socket_inv False ((pop_queue ?s1)\<lparr>lost := lost s \<or> GetActiveSize m \<noteq> 0\<rparr>)"
        using inv Cons zero sz by (auto simp: socket_inv_def pop_queue_def)
      from close_if_drained_inv [OF this] show ?thesis using Cons Sent zero by (simp add: HandleQueue_def)
    next
      case part
      from consumed_front [OF m, of n] part inv Cons
      have "socket_inv False (?s1\<lparr>WriteQueue := ReadCompleted (of_nat n) m # rest\<rparr>)"
        by (auto simp: socket_inv_def) (metis append_assoc)
      from AsyncProcessQueue_inv [OF this] show ?thesis using Cons Sent part sz by (simp add: HandleQueue_def)
    next
      case all
      have "socket_inv False (pop_queue ?s1)"
        using inv Cons all by (auto simp: socket_inv_def pop_queue_def)
      from close_if_drained_inv [OF this] show ?thesis
        using Cons Sent all sz by (simp add: HandleQueue_def Let_def)
    qed
  next
    case WriteFailed
    with drop [of "wire_bytes s"] Cons close_if_drained_inv show ?thesis by (simp add: HandleQueue_def)
  next
    case WouldBlock
    with AsyncProcessQueue_inv [OF inv] Cons show ?thesis by (simp add: HandleQueue_def)
  qed
qed

lemma queue_loop_inv: "socket_inv False s \<Longrightarrow> socket_inv False (queue_loop rs s)"
proof (induction rs s rule: queue_loop.induct)
  case (1 rs s)
  show ?case
    using "1.IH" [OF refl prod.collapse] HandleQueue_inv [OF "1.prems", of "next_result rs"]
    by (simp add: queue_loop.simps [of rs s] case_prod_beta)
qed

lemma WriteHandler_inv:
  assumes inv: "socket_inv True s" and n: "n \<le> front_size s" and w: "WriteHandler (Some n) s = Some s'"
  shows "socket_inv True s'"
proof -
  from w obtain m rest where q: "WriteQueue s = m # rest" by (auto simp: WriteHandler_def split: list.splits)
  with inv n have m: "wf_buffer m" "n \<le> length (active m)" by (auto simp: socket_inv_def front_size_def)
  let ?m = "ReadCompleted (of_nat n) m"
  note c = consumed_front [OF m]
  have z: "GetActiveSize ?m = 0 \<longleftrightarrow> active ?m = []"
    using GetActiveSize_eq [OF c(1)] by (metis length_0_conv unat_eq_zero_iff)
  have "wire_bytes s @ take n (active m) @ active ?m @ concat (map active rest) = queued_bytes s"
    using inv q c(2) by (simp add: socket_inv_def) (metis append_assoc)
  with inv q c(1) w z show ?thesis
    by (cases rest) (auto simp: WriteHandler_def socket_inv_def pop_queue_def AsyncProcessQueue_def CloseSocket_def Let_def
        split: if_splits)
qed

lemma socket_step_inv: "socket_step iocp s s' \<Longrightarrow> socket_inv iocp s \<Longrightarrow> socket_inv iocp s'"
proof (induction rule: socket_step.induct)
  case (update s rs)
  then show ?case by (cases iocp) (simp_all add: Update_def queue_loop_inv)
next
  case (writable s r)
  then have "socket_inv False (s\<lparr>IsWritingAsync := False\<rparr>)" by (simp add: socket_inv_def)
  with writable show ?case by (simp add: WriteHandlerWrapper_def HandleQueue_inv)
next
  case (written s n s')
  then show ?case using WriteHandler_inv by simp
qed (simp_all add: QueuePacket_inv CloseSocket_inv, simp add: socket_inv_def DelayedCloseSocket_def)

lemma socket_reachable_inv: "socket_reachable iocp s \<Longrightarrow> socket_inv iocp s"
proof (induction rule: socket_reachable.induct)
  case init
  then show ?case by (simp add: socket_inv_def Socket_def)
qed (rule socket_step_inv)


definition hello_buffer :: message_buffer where
  "hello_buffer = \<lparr>wpos = 3, rpos = 0, storage = [1, 2, 3]\<rparr>"




text \<open>
  The read path.  On an open socket with a well-formed buffer that can grow, a read
  is started with free space; whatever bytes then arrive, as long as they fit that space, are
  appended to the unread bytes and nothing else is disturbed.
\<close>

theorem socket_read_path:
  assumes "wf_buffer (ReadBuffer s)" and "growable (ReadBuffer s)" and "IsOpen s"
  shows "\<exists>s'. AsyncRead s = Some s' \<and> 0 < free_space (ReadBuffer s') \<and> active (ReadBuffer s') = active (ReadBuffer s)
    \<and> (\<forall>data. length data \<le> free_space (ReadBuffer s') \<longrightarrow>
         (\<exists>s''. ReadHandlerInternal id (Some data) s' = Some s'' \<and> wf_buffer (ReadBuffer s'')
            \<and> active (ReadBuffer s'') = active (ReadBuffer s) @ data))"
proof -
  obtain b where b: "Normalize (ReadBuffer s) = Some b" "wf_buffer (EnsureFreeSpace b)"
      "active (EnsureFreeSpace b) = active (ReadBuffer s)" "0 < free_space (EnsureFreeSpace b)"
      "\<And>d. length d \<le> free_space (EnsureFreeSpace b) \<Longrightarrow>
         \<exists>b2. Write d (EnsureFreeSpace b) = Some b2 \<and> wf_buffer b2 \<and> active b2 = active (ReadBuffer s) @ d"
    using mb.receive_cycle [OF assms(1,2)] by metis
  let ?b = "EnsureFreeSpace b"
  have "\<exists>s''. ReadHandlerInternal id (Some d) (s\<lparr>ReadBuffer := ?b, reading_async := True\<rparr>) = Some s''
      \<and> wf_buffer (ReadBuffer s'') \<and> active (ReadBuffer s'') = active (ReadBuffer s) @ d"
    if d: "length d \<le> free_space ?b" for d
  proof -
    from b(5) [OF d] obtain b2 where b2: "Write d ?b = Some b2" "wf_buffer b2" "active b2 = active (ReadBuffer s) @ d" by blast
    have blit: "blit (GetWritePointer ?b) d (storage ?b) \<noteq> None"
      using d b(2) by (auto simp: blit_def GetWritePointer_def wf_buffer_def free_space_def)
    then obtain st where st: "blit (GetWritePointer ?b) d (storage ?b) = Some st" by auto
    have "b2 = WriteCompleted (of_nat (length d)) (?b\<lparr>storage := st\<rparr>)"
      using b2(1) st by (auto simp: Write_def blit_def GetWritePointer_def WriteCompleted_def split: if_splits)
    with b2 st show ?thesis by (auto simp: ReadHandlerInternal_def)
  qed
  with b assms(3) show ?thesis by (auto simp: AsyncRead_def)
qed

theorem socket_read_path_witness:
  "\<exists>s'. AsyncRead Socket = Some s' \<and> 0 < free_space (ReadBuffer s')"
proof -
  have "wf_buffer (ReadBuffer Socket)" "growable (ReadBuffer Socket)" "IsOpen Socket"
    by (simp_all add: Socket_def Resize_def READ_BLOCK_SIZE_def MessageBuffer_def wf_buffer_def growable_def IsOpen_def)
  from socket_read_path [OF this] show ?thesis by blast
qed

end
