(* ===== verification/Sfmt.thy ===== *)
theory Sfmt
  imports Complex_Main Prelude
begin

text \<open>
  The random number generator \<^verbatim>\<open>SFMTRand\<close> of \<^verbatim>\<open>Source/ProtobufDecompileTest/SFMT.h\<close>
  and its wrappers in \<^verbatim>\<open>Random.h\<close> and \<^verbatim>\<open>Random.cpp\<close>.  A 128-bit register is a
  \<^typ>\<open>128 word\<close> with its four 32-bit lanes, lane 0 the lowest; the state vector read through a
  \<^verbatim>\<open>uint32_t*\<close> is the sequence of lanes.  The constants of the selected Mersenne exponent
  are a record, so the results hold for every exponent the header offers.
\<close>

unbundle bit_operations_syntax

section \<open>Constants\<close>

record sfmt_params =
  SFMT_N :: nat
  SFMT_M :: nat
  SFMT_SL1 :: nat
  SFMT_SL2 :: nat
  SFMT_SR1 :: nat
  SFMT_SR2 :: nat
  SFMT_MASK :: "u32 list"
  SFMT_PARITY :: "u32 list"

definition params :: "nat \<Rightarrow> nat \<Rightarrow> nat \<Rightarrow> nat \<Rightarrow> nat \<Rightarrow> nat \<Rightarrow> u32 list \<Rightarrow> u32 list \<Rightarrow> sfmt_params" where
  "params n m sl1 sl2 sr1 sr2 mk par =
     \<lparr>SFMT_N = n, SFMT_M = m, SFMT_SL1 = sl1, SFMT_SL2 = sl2, SFMT_SR1 = sr1, SFMT_SR2 = sr2,
      SFMT_MASK = mk, SFMT_PARITY = par\<rparr>"

definition sfmt_config :: "nat \<Rightarrow> sfmt_params option" where
  "sfmt_config mexp =
     (if mexp = 44497 then Some (params 348 330 5 3 9 3 [0xeffffffb, 0xdfbebfff, 0xbfbf7bef, 0x9ffd7bff] [1, 0, 0xa3ac4000, 0xecc1327a])
      else if mexp = 19937 then Some (params 156 122 18 1 11 1 [0xdfffffef, 0xddfecb7f, 0xbffaffff, 0xbffffff6] [1, 0, 0, 0x13c9e684])
      else if mexp = 11213 then Some (params 88 68 14 3 7 3 [0xeffff7fb, 0xffffffef, 0xdfdfbfff, 0x7fffdbfd] [1, 0, 0xe8148000, 0xd0c7afa3])
      else if mexp = 4253 then Some (params 34 17 20 1 7 1 [0x9f7bffff, 0x9fffff5f, 0x3efffffb, 0xfffff7bb] [0xa8000001, 0xaf5390a3, 0xb740b3f8, 0x6c11486d])
      else if mexp = 2281 then Some (params 18 12 19 1 5 1 [0xbff7ffbf, 0xfdfffffe, 0xf7ffef7f, 0xf2f7cbbf] [1, 0, 0, 0x41dfa600])
      else if mexp = 1279 then Some (params 10 7 14 3 5 1 [0xf7fefffd, 0x7fefcfff, 0xaff3ef3f, 0xb5ffff7f] [1, 0, 0, 0x20000000])
      else if mexp = 607 then Some (params 5 2 15 3 13 3 [0xfdff37ff, 0xef7f3f7d, 0xff777b7d, 0x7ff7fb2f] [1, 0, 0, 0x5986f054])
      else None)"

definition MEXP :: nat where "MEXP = 11213"

section \<open>Registers\<close>

type_synonym m128i = "128 word"

definition lane :: "nat \<Rightarrow> m128i \<Rightarrow> u32" where
  "lane i w = ucast (drop_bit (32 * i) w)"

definition from_lanes :: "u32 \<Rightarrow> u32 \<Rightarrow> u32 \<Rightarrow> u32 \<Rightarrow> m128i" where
  "from_lanes a b c d = ucast a OR push_bit 32 (ucast b) OR push_bit 64 (ucast c) OR push_bit 96 (ucast d)"

definition map_lanes :: "(u32 \<Rightarrow> u32) \<Rightarrow> m128i \<Rightarrow> m128i" where
  "map_lanes f w = from_lanes (f (lane 0 w)) (f (lane 1 w)) (f (lane 2 w)) (f (lane 3 w))"

definition mm_srli_epi32 :: "m128i \<Rightarrow> nat \<Rightarrow> m128i" where "mm_srli_epi32 w n = map_lanes (drop_bit n) w"
definition mm_slli_epi32 :: "m128i \<Rightarrow> nat \<Rightarrow> m128i" where "mm_slli_epi32 w n = map_lanes (push_bit n) w"
definition mm_slli_si128 :: "m128i \<Rightarrow> nat \<Rightarrow> m128i" where "mm_slli_si128 w n = push_bit (8 * n) w"
definition mm_srli_si128 :: "m128i \<Rightarrow> nat \<Rightarrow> m128i" where "mm_srli_si128 w n = drop_bit (8 * n) w"

definition load_lanes :: "u32 list \<Rightarrow> m128i" where
  "load_lanes ws = from_lanes (ws ! 0) (ws ! 1) (ws ! 2) (ws ! 3)"

definition sfmt_recursion :: "sfmt_params \<Rightarrow> m128i \<Rightarrow> m128i \<Rightarrow> m128i \<Rightarrow> m128i \<Rightarrow> m128i \<Rightarrow> m128i" where
  "sfmt_recursion P a b c d mk =
     (let b1 = mm_srli_epi32 b (SFMT_SR1 P);
          a1 = mm_slli_si128 a (SFMT_SL2 P);
          c1 = mm_srli_si128 c (SFMT_SR2 P);
          d1 = mm_slli_epi32 d (SFMT_SL1 P);
          b1 = b1 AND mk;
          z1 = a XOR a1;
          z2 = b1 XOR d1;
          z1 = z1 XOR c1
      in z1 XOR z2)"

section \<open>The generator\<close>

record SFMTRand =
  sfmt_mask :: m128i
  sfmt_state :: "m128i list"
  ix :: u32

definition word_at :: "m128i list \<Rightarrow> nat \<Rightarrow> u32" where
  "word_at st i = lane (i mod 4) (st ! (i div 4))"

definition set_word_at :: "nat \<Rightarrow> u32 \<Rightarrow> m128i list \<Rightarrow> m128i list" where
  "set_word_at i w st =
     st[i div 4 := from_lanes (if i mod 4 = 0 then w else lane 0 (st ! (i div 4)))
                              (if i mod 4 = 1 then w else lane 1 (st ! (i div 4)))
                              (if i mod 4 = 2 then w else lane 2 (st ! (i div 4)))
                              (if i mod 4 = 3 then w else lane 3 (st ! (i div 4)))]"

text \<open>
  \<^verbatim>\<open>Generate\<close>: the two loops, with \<^verbatim>\<open>r1\<close> and \<^verbatim>\<open>r2\<close> carried along; the second
  reads the part of the vector that has just been replaced.
\<close>

fun generate_first :: "sfmt_params \<Rightarrow> m128i \<Rightarrow> nat \<Rightarrow> nat \<Rightarrow> m128i \<times> m128i \<times> m128i list \<Rightarrow> m128i \<times> m128i \<times> m128i list" where
  "generate_first P mk i 0 acc = acc"
| "generate_first P mk i (Suc n) (r1, r2, st) =
     (let r = sfmt_recursion P (st ! i) (st ! (i + SFMT_M P)) r1 r2 mk
      in generate_first P mk (Suc i) n (r2, r, st[i := r]))"

fun generate_second :: "sfmt_params \<Rightarrow> m128i \<Rightarrow> nat \<Rightarrow> nat \<Rightarrow> m128i \<times> m128i \<times> m128i list \<Rightarrow> m128i \<times> m128i \<times> m128i list" where
  "generate_second P mk i 0 acc = acc"
| "generate_second P mk i (Suc n) (r1, r2, st) =
     (let r = sfmt_recursion P (st ! i) (st ! (i + SFMT_M P - SFMT_N P)) r1 r2 mk
      in generate_second P mk (Suc i) n (r2, r, st[i := r]))"

definition Generate :: "sfmt_params \<Rightarrow> SFMTRand \<Rightarrow> SFMTRand" where
  "Generate P g =
     (let st = sfmt_state g;
          a = generate_first P (sfmt_mask g) 0 (SFMT_N P - SFMT_M P) (st ! (SFMT_N P - 2), st ! (SFMT_N P - 1), st);
          (r1, r2, st') = generate_second P (sfmt_mask g) (SFMT_N P - SFMT_M P) (SFMT_M P) a
      in g\<lparr>sfmt_state := st', ix := 0\<rparr>)"

text \<open>Period certification: the parity of the certification vector and the first register.\<close>

definition parity_fold :: "u32 \<Rightarrow> u32" where
  "parity_fold t0 =
     (let t1 = t0 XOR drop_bit 16 t0; t2 = t1 XOR drop_bit 8 t1; t3 = t2 XOR drop_bit 4 t2;
          t4 = t3 XOR drop_bit 2 t3
      in t4 XOR drop_bit 1 t4)"

definition parity_sum :: "u32 list \<Rightarrow> m128i list \<Rightarrow> u32" where
  "parity_sum par st = foldl (\<lambda>t i. t XOR (par ! i AND word_at st i)) 0 [0..<4]"

definition parity_odd :: "u32 list \<Rightarrow> m128i list \<Rightarrow> bool" where
  "parity_odd par st = bit (parity_fold (parity_sum par st)) 0"

text \<open>The search for a bit of the vector: the first non-zero word, its lowest set bit.\<close>

definition certify :: "u32 list \<Rightarrow> m128i list \<Rightarrow> m128i list" where
  "certify par st =
     (if parity_odd par st then st
      else case find (\<lambda>i. par ! i \<noteq> 0) [0..<4] of
             None \<Rightarrow> st
           | Some i \<Rightarrow>
               (case find (\<lambda>k. par ! i AND push_bit k 1 \<noteq> 0) [0..<32] of
                  None \<Rightarrow> st
                | Some k \<Rightarrow> set_word_at i (word_at st i XOR push_bit k 1) st))"

definition Init2 :: "sfmt_params \<Rightarrow> SFMTRand \<Rightarrow> SFMTRand" where
  "Init2 P g =
     Generate P (g\<lparr>sfmt_mask := load_lanes (SFMT_MASK P), sfmt_state := certify (SFMT_PARITY P) (sfmt_state g)\<rparr>)"

fun seed_loop :: "nat \<Rightarrow> nat \<Rightarrow> u32 \<Rightarrow> m128i list \<Rightarrow> m128i list" where
  "seed_loop i 0 y st = st"
| "seed_loop i (Suc n) y st =
     (let y' = 1812433253 * (y XOR drop_bit 30 y) + of_nat i
      in seed_loop (Suc i) n y' (set_word_at i y' st))"

definition RandomInit :: "sfmt_params \<Rightarrow> 32 word \<Rightarrow> SFMTRand \<Rightarrow> SFMTRand" where
  "RandomInit P seed g =
     Init2 P (g\<lparr>sfmt_state := seed_loop 1 (SFMT_N P * 4 - 1) seed (set_word_at 0 seed (sfmt_state g))\<rparr>)"

text \<open>The constructor: the members are uninitialised memory \<open>mem\<close>, the seed is the time.\<close>

definition SFMTRand_new :: "sfmt_params \<Rightarrow> SFMTRand \<Rightarrow> 32 word \<Rightarrow> SFMTRand" where
  "SFMTRand_new P mem time0 = RandomInit P time0 mem"

text \<open>\<^term>\<open>None\<close> is a read outside the state vector.\<close>

definition BRandom :: "sfmt_params \<Rightarrow> SFMTRand \<Rightarrow> (u32 \<times> SFMTRand) option" where
  "BRandom P g =
     (let g1 = (if unat (ix g) \<ge> SFMT_N P * 4 then Generate P g else g)
      in if unat (ix g1) < 4 * length (sfmt_state g1)
         then Some (word_at (sfmt_state g1) (unat (ix g1)), g1\<lparr>ix := ix g1 + 1\<rparr>) else None)"

definition Random64 :: "sfmt_params \<Rightarrow> SFMTRand \<Rightarrow> (u64 \<times> SFMTRand) option" where
  "Random64 P g =
     (let g1 = (if unat (ix g) \<ge> SFMT_N P * 4 - 1 then Generate P g else g); k = unat (ix g1)
      in if k + 1 < 4 * length (sfmt_state g1)
         then Some (ucast (word_at (sfmt_state g1) k) OR push_bit 32 (ucast (word_at (sfmt_state g1) (k + 1))),
                    g1\<lparr>ix := ix g1 + 2\<rparr>) else None)"

text \<open>The top 52 bits over \<open>2 ^ 52\<close>: both factors and the product are exact doubles.\<close>

definition Random :: "sfmt_params \<Rightarrow> SFMTRand \<Rightarrow> (real \<times> SFMTRand) option" where
  "Random P g = map_option (\<lambda>(r, g'). (real (unat (drop_bit 12 r)) * (1 / (67108864 * 67108864)), g')) (Random64 P g)"

definition URandom :: "sfmt_params \<Rightarrow> u32 \<Rightarrow> u32 \<Rightarrow> SFMTRand \<Rightarrow> (u32 \<times> SFMTRand) option" where
  "URandom P lo hi g =
     (if hi \<le> lo then Some (if hi = lo then lo else 0, g)
      else map_option (\<lambda>(r, g').
             let interval = hi - lo + 1;
                 longran = (ucast r :: u64) * ucast interval;
                 iran = ucast (drop_bit 32 longran)
             in (iran + lo, g')) (BRandom P g))"

text \<open>
  \<^verbatim>\<open>IRandom\<close>: \<^verbatim>\<open>max - min + 1\<close> is computed in \<^verbatim>\<open>int32_t\<close>; its overflow is undefined
  (\<^term>\<open>None\<close>).
\<close>

definition IRandom :: "sfmt_params \<Rightarrow> 32 word \<Rightarrow> 32 word \<Rightarrow> SFMTRand \<Rightarrow> (32 word \<times> SFMTRand) option" where
  "IRandom P lo hi g =
     (if sint hi \<le> sint lo then Some (if hi = lo then lo else 0x80000000, g)
      else if sint hi - sint lo + 1 > 2 ^ 31 - 1 then None
      else map_option (\<lambda>(r, g').
             let interval = hi - lo + 1;
                 longran = (ucast r :: u64) * ucast interval;
                 iran = ucast (drop_bit 32 longran)
             in (iran + lo, g')) (BRandom P g))"

section \<open>The wrappers\<close>

text \<open>A failed \<^verbatim>\<open>ASSERT\<close> ends the program: \<^term>\<open>None\<close>.\<close>

definition irand :: "sfmt_params \<Rightarrow> 32 word \<Rightarrow> 32 word \<Rightarrow> SFMTRand \<Rightarrow> (32 word \<times> SFMTRand) option" where
  "irand P lo hi g = (if sint hi \<ge> sint lo then IRandom P lo hi g else None)"

definition urand :: "sfmt_params \<Rightarrow> u32 \<Rightarrow> u32 \<Rightarrow> SFMTRand \<Rightarrow> (u32 \<times> SFMTRand) option" where
  "urand P lo hi g = (if hi \<ge> lo then URandom P lo hi g else None)"

definition IN_MILLISECONDS :: u32 where "IN_MILLISECONDS = 1000"

definition urandms :: "sfmt_params \<Rightarrow> u32 \<Rightarrow> u32 \<Rightarrow> SFMTRand \<Rightarrow> (u32 \<times> SFMTRand) option" where
  "urandms P lo hi g =
     (if hi \<ge> lo \<and> 0x7FFFFFFF div IN_MILLISECONDS \<ge> hi
      then URandom P (lo * IN_MILLISECONDS) (hi * IN_MILLISECONDS) g else None)"

definition rand32 :: "sfmt_params \<Rightarrow> SFMTRand \<Rightarrow> (u32 \<times> SFMTRand) option" where
  "rand32 P g = BRandom P g"

definition rand_norm :: "sfmt_params \<Rightarrow> SFMTRand \<Rightarrow> (real \<times> SFMTRand) option" where
  "rand_norm P g = Random P g"

definition randtime :: "sfmt_params \<Rightarrow> int \<Rightarrow> int \<Rightarrow> SFMTRand \<Rightarrow> (int \<times> SFMTRand) option" where
  "randtime P lo hi g =
     (let diff = hi - lo
      in if diff \<ge> 0 \<and> diff \<le> 2 ^ 32 - 1
         then map_option (\<lambda>(r, g'). (lo + uint r, g')) (urand P 0 (word_of_int diff) g) else None)"

definition roll_chance_i :: "sfmt_params \<Rightarrow> 32 word \<Rightarrow> SFMTRand \<Rightarrow> (bool \<times> SFMTRand) option" where
  "roll_chance_i P chance g = map_option (\<lambda>(r, g'). (sint chance > sint r, g')) (irand P 0 99 g)"

section \<open>Bounds\<close>

definition params_ok :: "sfmt_params \<Rightarrow> bool" where
  "params_ok P \<longleftrightarrow> 2 \<le> SFMT_N P \<and> 0 < SFMT_M P \<and> SFMT_M P < SFMT_N P \<and> SFMT_N P < 1000
     \<and> length (SFMT_PARITY P) = 4 \<and> (\<exists>w \<in> set (SFMT_PARITY P). w \<noteq> 0)"

definition wf_rand :: "sfmt_params \<Rightarrow> SFMTRand \<Rightarrow> bool" where
  "wf_rand P g \<longleftrightarrow> length (sfmt_state g) = SFMT_N P \<and> unat (ix g) \<le> 4 * SFMT_N P"

lemma sfmt_config_ok: "sfmt_config mexp = Some P \<Longrightarrow> params_ok P"
  by (auto simp: sfmt_config_def params_ok_def params_def split: if_splits)

lemma generate_first_length: "length (snd (snd (generate_first P mk i n acc))) = length (snd (snd acc))"
  by (induction P mk i n acc rule: generate_first.induct) (simp_all add: Let_def)

lemma generate_second_length: "length (snd (snd (generate_second P mk i n acc))) = length (snd (snd acc))"
  by (induction P mk i n acc rule: generate_second.induct) (simp_all add: Let_def)

lemma Generate_wf: "length (sfmt_state g) = SFMT_N P \<Longrightarrow> wf_rand P (Generate P g) \<and> ix (Generate P g) = 0"
  by (simp add: Generate_def Let_def case_prod_beta wf_rand_def generate_first_length generate_second_length)

lemma BRandom_total:
  assumes "params_ok P" and "wf_rand P g"
  shows "\<exists>r g'. BRandom P g = Some (r, g') \<and> wf_rand P g'"
proof -
  let ?g = "if unat (ix g) \<ge> SFMT_N P * 4 then Generate P g else g"
  have len: "length (sfmt_state ?g) = SFMT_N P" and ix: "unat (ix ?g) < 4 * SFMT_N P"
    using assms Generate_wf [of g P] by (auto simp: wf_rand_def params_ok_def)
  then have "unat (ix ?g + 1) \<le> 4 * SFMT_N P"
    using assms(1) by (subst unat_add_no_overflow) (auto simp: params_ok_def)
  with len ix show ?thesis by (auto simp: BRandom_def wf_rand_def Let_def)
qed

lemma Random64_total:
  assumes "params_ok P" and "wf_rand P g"
  shows "\<exists>r g'. Random64 P g = Some (r, g') \<and> wf_rand P g'"
proof -
  let ?g = "if unat (ix g) \<ge> SFMT_N P * 4 - 1 then Generate P g else g"
  have len: "length (sfmt_state ?g) = SFMT_N P" and ix: "unat (ix ?g) + 1 < 4 * SFMT_N P"
    using assms Generate_wf [of g P] by (auto simp: wf_rand_def params_ok_def)
  then have "unat (ix ?g + 2) \<le> 4 * SFMT_N P"
    using assms(1) by (subst unat_add_no_overflow) (auto simp: params_ok_def)
  with len ix show ?thesis by (auto simp: Random64_def wf_rand_def Let_def)
qed

text \<open>Multiply and shift: the high half of a product is below the interval.\<close>

lemma multiply_shift:
  fixes r interval :: u32
  assumes "interval \<noteq> 0"
  shows "unat (ucast (drop_bit 32 ((ucast r :: u64) * ucast interval)) :: u32) < unat interval"
proof -
  have r: "unat r < 2 ^ 32" and i: "0 < unat interval" "unat interval < 2 ^ 32"
    using unat_bound [of r] unat_bound [of interval] assms by (simp_all add: unat_gt_0)
  then have "unat r * unat interval < 2 ^ 32 * unat interval" by simp
  also have "\<dots> \<le> 2 ^ 32 * 2 ^ 32" using i by simp
  finally have p: "unat r * unat interval < 2 ^ 64" and q: "unat r * unat interval div 2 ^ 32 < unat interval"
    using r i by (simp_all add: less_mult_imp_div_less mult.commute)
  have "unat (ucast r :: u64) = unat r" "unat (ucast interval :: u64) = unat interval"
    using r i by (simp_all add: unsigned_ucast_eq take_bit_nat_eq_self)
  then have "unat ((ucast r :: u64) * ucast interval) = unat r * unat interval"
    using p by (simp add: unat_word_ariths)
  then have "unat (drop_bit 32 ((ucast r :: u64) * ucast interval)) = unat r * unat interval div 2 ^ 32"
    by (simp add: drop_bit_eq_div unat_div)
  with q i show ?thesis by (simp add: unsigned_ucast_eq take_bit_nat_eq_self)
qed

definition scaled :: "u32 \<Rightarrow> u32 \<Rightarrow> u32" where
  "scaled r interval = ucast (drop_bit 32 ((ucast r :: u64) * ucast interval))"

lemma URandom_eq:
  assumes "BRandom P g = Some (r, g')" and "lo < hi"
  shows "URandom P lo hi g = Some (scaled r (hi - lo + 1) + lo, g')"
  using assms by (auto simp: URandom_def scaled_def Let_def)

lemma interval_size:
  fixes lo hi :: u32
  assumes "lo \<le> hi" and "hi - lo + 1 \<noteq> 0"
  shows "unat (hi - lo + 1) = unat hi - unat lo + 1"
proof -
  have d: "unat (hi - lo) = unat hi - unat lo" using assms(1) by (simp add: unat_sub)
  have "unat (hi - lo) + 1 < 2 ^ 32"
  proof (rule ccontr)
    assume "\<not> unat (hi - lo) + 1 < 2 ^ 32"
    with unat_bound [of "hi - lo"] have "unat (hi - lo) = unat (- 1 :: u32)" by (simp add: unsigned_minus_1_eq_mask mask_eq_exp_minus_1)
    then have "hi - lo = - 1" by (simp only: word_unat_eq_iff)
    with assms(2) show False by simp
  qed
  with d show ?thesis by (subst unat_add_no_overflow) auto
qed

lemma scaled_in_range:
  fixes lo hi :: u32
  assumes "lo < hi"
  shows "lo \<le> scaled r (hi - lo + 1) + lo \<and> scaled r (hi - lo + 1) + lo \<le> hi"
proof (cases "hi - lo + 1 = 0")
  case True
  then show ?thesis using assms by (simp add: scaled_def)
next
  case False
  let ?i = "scaled r (hi - lo + 1)"
  have "unat ?i < unat hi - unat lo + 1"
    using multiply_shift [OF False, of r] interval_size [of lo hi] False assms by (simp add: scaled_def)
  moreover have "unat lo < unat hi" using assms by (simp add: word_less_nat_alt)
  ultimately have "unat ?i + unat lo \<le> unat hi" by simp
  moreover from this have "unat (?i + lo) = unat ?i + unat lo"
    using unat_bound [of hi] by (intro unat_add_no_overflow) simp
  ultimately show ?thesis by (simp add: word_le_nat_alt)
qed

text \<open>
  Unsigned random numbers.  From any well-formed generator, for every offered
  Mersenne exponent, a call of \<^verbatim>\<open>urand\<close> with \<open>lo \<le> hi\<close> never reads outside the state
  vector, keeps the generator well formed and returns a number between \<open>lo\<close> and \<open>hi\<close>.
\<close>

theorem urand_in_range:
  assumes "sfmt_config mexp = Some P" and "wf_rand P g" and "lo \<le> hi"
  shows "\<exists>r g'. urand P lo hi g = Some (r, g') \<and> lo \<le> r \<and> r \<le> hi \<and> wf_rand P g'"
proof (cases "lo = hi")
  case True
  with assms show ?thesis by (simp add: urand_def URandom_def)
next
  case False
  with assms(3) have lt: "lo < hi" by simp
  obtain r g' where b: "BRandom P g = Some (r, g')" "wf_rand P g'"
    using BRandom_total [OF sfmt_config_ok [OF assms(1)] assms(2)] by blast
  from URandom_eq [OF b(1) lt] scaled_in_range [OF lt, of r] b(2) assms(3) show ?thesis by (simp add: urand_def)
qed

definition zero_rand :: "sfmt_params \<Rightarrow> SFMTRand" where
  "zero_rand P = \<lparr>sfmt_mask = 0, sfmt_state = replicate (SFMT_N P) 0, ix = 0\<rparr>"

lemma zero_rand_wf: "wf_rand P (zero_rand P)"
  by (simp add: wf_rand_def zero_rand_def)

theorem urand_in_range_witness:
  "\<exists>r g'. urand (the (sfmt_config MEXP)) 1 6 (zero_rand (the (sfmt_config MEXP))) = Some (r, g') \<and> 1 \<le> r \<and> r \<le> 6"
  using urand_in_range [of MEXP "the (sfmt_config MEXP)", OF _ zero_rand_wf, of 1 6]
  by (auto simp: MEXP_def sfmt_config_def)

text \<open>
  The full range is not random.  Asked for a number between 0 and \<open>2 ^ 32 - 1\<close>
  the length of the interval wraps to 0, and the answer is always 0.
\<close>

theorem urand_full_range:
  assumes "sfmt_config mexp = Some P" and "wf_rand P g"
  shows "map_option fst (urand P 0 0xFFFFFFFF g) = Some 0"
proof -
  obtain r g' where b: "BRandom P g = Some (r, g')"
    using BRandom_total [OF sfmt_config_ok [OF assms(1)] assms(2)] by blast
  from URandom_eq [OF b, of 0 "0xFFFFFFFF"] show ?thesis by (simp add: urand_def scaled_def)
qed

theorem urand_full_range_witness:
  "map_option fst (urand (the (sfmt_config MEXP)) 0 0xFFFFFFFF (zero_rand (the (sfmt_config MEXP)))) = Some 0"
  using urand_full_range [of MEXP "the (sfmt_config MEXP)", OF _ zero_rand_wf]
  by (auto simp: MEXP_def sfmt_config_def)

lemma sint_small: "unat (w :: 32 word) < 2 ^ 31 \<Longrightarrow> sint w = int (unat w)"
  using sint_of_nat_small [of "unat w"] by simp

lemma sint_in_bounds: "- (2 ^ 31) \<le> sint (w :: 32 word) \<and> sint w \<le> 2 ^ 31 - 1"
  using sint_ge [of w] sint_lt [of w] by simp

lemma sint_add_small:
  fixes a b :: "32 word"
  assumes "- (2 ^ 31) \<le> sint a + sint b" and "sint a + sint b \<le> 2 ^ 31 - 1"
  shows "sint (a + b) = sint a + sint b"
  using assms by (simp add: sint_word_ariths signed_take_bit_int_eq_self)

lemma signed_interval:
  fixes lo hi :: "32 word"
  assumes "sint lo < sint hi" and "sint hi - sint lo + 1 \<le> 2 ^ 31 - 1"
  shows "int (unat (hi - lo + 1)) = sint hi - sint lo + 1"
proof -
  have "sint (hi - lo) = sint hi - sint lo"
    using assms by (simp add: sint_word_ariths signed_take_bit_int_eq_self)
  then have s: "sint (hi - lo + 1) = sint hi - sint lo + 1"
    using assms sint_add_small [of "hi - lo" 1] by simp
  have "unat (hi - lo + 1) < 2 ^ 31"
  proof -
    have "uint (hi - lo + 1) = sint (hi - lo + 1) mod 2 ^ 32" by (simp add: uint_sint take_bit_eq_mod)
    also have "\<dots> = sint hi - sint lo + 1" using s assms by simp
    finally show ?thesis using assms by (simp add: unat_eq_nat_uint nat_less_iff)
  qed
  then show ?thesis using s sint_small by simp
qed

text \<open>
  Signed random numbers.  \<^verbatim>\<open>irand\<close> with \<open>lo \<le> hi\<close> returns a number between them
  and keeps the generator well formed whenever the span is below \<open>2 ^ 31 - 1\<close>; for a larger
  span the length overflows \<^verbatim>\<open>int32\<close> and the call is undefined.
\<close>

theorem irand_in_range:
  assumes "sfmt_config mexp = Some P" and "wf_rand P g" and "sint lo \<le> sint hi"
  shows "(sint hi - sint lo < 2 ^ 31 - 1 \<longrightarrow>
      (\<exists>r g'. irand P lo hi g = Some (r, g') \<and> sint lo \<le> sint r \<and> sint r \<le> sint hi \<and> wf_rand P g'))
    \<and> (sint hi - sint lo \<ge> 2 ^ 31 - 1 \<longrightarrow> irand P lo hi g = None)"
proof (cases "sint lo = sint hi")
  case True
  then have "lo = hi" by (rule signed_word_eqI)
  with assms show ?thesis by (simp add: irand_def IRandom_def)
next
  case False
  with assms(3) have lt: "sint lo < sint hi" by simp
  obtain r g' where b: "BRandom P g = Some (r, g')" "wf_rand P g'"
    using BRandom_total [OF sfmt_config_ok [OF assms(1)] assms(2)] by blast
  show ?thesis
  proof (cases "sint hi - sint lo < 2 ^ 31 - 1")
    case True
    let ?i = "scaled r (hi - lo + 1)"
    have int: "int (unat (hi - lo + 1)) = sint hi - sint lo + 1" using signed_interval lt True by simp
    then have "hi - lo + 1 \<noteq> 0" using lt by auto
    then have "unat ?i < unat (hi - lo + 1)" unfolding scaled_def by (rule multiply_shift)
    with int have i: "int (unat ?i) \<le> sint hi - sint lo" by linarith
    then have "int (unat ?i) < int (2 ^ 31)" using True by simp
    then have "sint ?i = int (unat ?i)" by (intro sint_small) (simp only: of_nat_less_iff)
    then have "sint (?i + lo) = int (unat ?i) + sint lo"
      using sint_add_small [of ?i lo] i sint_in_bounds [of hi] sint_in_bounds [of lo] by linarith
    moreover have "irand P lo hi g = Some (?i + lo, g')"
      using b(1) lt True by (simp add: irand_def IRandom_def scaled_def Let_def)
    ultimately show ?thesis using b(2) i True by auto
  qed (use lt in \<open>simp add: irand_def IRandom_def\<close>)
qed

theorem irand_in_range_witness:
  "\<exists>r g'. irand (the (sfmt_config MEXP)) (- 5) 5 (zero_rand (the (sfmt_config MEXP))) = Some (r, g')
     \<and> - 5 \<le> sint r \<and> sint r \<le> 5"
  using irand_in_range [of MEXP "the (sfmt_config MEXP)", OF _ zero_rand_wf, of "- 5" 5]
  by (auto simp: MEXP_def sfmt_config_def)

text \<open>
  Random reals.  \<^verbatim>\<open>Random\<close>, and so \<^verbatim>\<open>rand_norm\<close>, stays inside the state vector
  and returns a number that is at least 0 and below 1, a multiple of \<open>2 ^ - 52\<close>.
\<close>

theorem rand_norm_range:
  assumes "sfmt_config mexp = Some P" and "wf_rand P g"
  shows "\<exists>x g'. rand_norm P g = Some (x, g') \<and> 0 \<le> x \<and> x < 1 \<and> wf_rand P g' \<and> (\<exists>n. x * 2 ^ 52 = real n)"
proof -
  obtain r g' where b: "Random64 P g = Some (r, g')" "wf_rand P g'"
    using Random64_total [OF sfmt_config_ok [OF assms(1)] assms(2)] by blast
  let ?n = "unat (drop_bit 12 r)"
  have "unat r < 2 ^ 64" using unat_bound [of r] by simp
  then have "?n < 2 ^ 52" by (simp add: drop_bit_eq_div unat_div less_mult_imp_div_less)
  then have "real ?n < real (2 ^ 52)" by (simp only: of_nat_less_iff)
  then have x: "0 \<le> real ?n * (1 / (67108864 * 67108864))" "real ?n * (1 / (67108864 * 67108864)) < 1"
      "real ?n * (1 / (67108864 * 67108864)) * 2 ^ 52 = real ?n" by (simp_all del: of_nat_unat)
  have "rand_norm P g = Some (real ?n * (1 / (67108864 * 67108864)), g')"
    using b(1) by (simp add: rand_norm_def Random_def)
  with x b(2) show ?thesis by blast
qed

theorem rand_norm_range_witness:
  "\<exists>x g'. rand_norm (the (sfmt_config MEXP)) (zero_rand (the (sfmt_config MEXP))) = Some (x, g') \<and> x < 1"
  using rand_norm_range [of MEXP "the (sfmt_config MEXP)", OF _ zero_rand_wf]
  by (auto simp: MEXP_def sfmt_config_def)

section \<open>The recurrence\<close>

text \<open>
  The published definition of the generator: an infinite sequence of registers that starts with
  the state vector, each later one computed from the ones \<open>N\<close>, \<open>N - M\<close>, 2 and 1 places before it.
\<close>

function sfmt_seq :: "sfmt_params \<Rightarrow> m128i \<Rightarrow> m128i list \<Rightarrow> nat \<Rightarrow> m128i" where
  "sfmt_seq P mk st k =
     (if k < SFMT_N P \<or> \<not> (2 \<le> SFMT_N P \<and> SFMT_M P < SFMT_N P) then st ! k
      else sfmt_recursion P (sfmt_seq P mk st (k - SFMT_N P)) (sfmt_seq P mk st (k - SFMT_N P + SFMT_M P))
             (sfmt_seq P mk st (k - 2)) (sfmt_seq P mk st (k - 1)) mk)"
  by pat_completeness auto
termination
  by (relation "measure (\<lambda>(P, mk, st, k). k)") auto

declare sfmt_seq.simps [simp del]

definition gen_inv :: "sfmt_params \<Rightarrow> m128i \<Rightarrow> m128i list \<Rightarrow> nat \<Rightarrow> m128i \<times> m128i \<times> m128i list \<Rightarrow> bool" where
  "gen_inv P mk st0 i acc =
     (case acc of (r1, r2, st) \<Rightarrow> length st = SFMT_N P \<and> i \<le> SFMT_N P
        \<and> (\<forall>j < i. st ! j = sfmt_seq P mk st0 (SFMT_N P + j)) \<and> (\<forall>j. i \<le> j \<and> j < SFMT_N P \<longrightarrow> st ! j = st0 ! j)
        \<and> r1 = sfmt_seq P mk st0 (SFMT_N P + i - 2) \<and> r2 = sfmt_seq P mk st0 (SFMT_N P + i - 1))"

lemma sfmt_seq_start: "k < SFMT_N P \<Longrightarrow> sfmt_seq P mk st k = st ! k"
  by (simp add: sfmt_seq.simps)

lemma sfmt_seq_step:
  assumes "params_ok P"
  shows "sfmt_seq P mk st (SFMT_N P + i) =
     sfmt_recursion P (sfmt_seq P mk st i) (sfmt_seq P mk st (i + SFMT_M P))
       (sfmt_seq P mk st (SFMT_N P + i - 2)) (sfmt_seq P mk st (SFMT_N P + i - 1)) mk"
  using assms by (subst sfmt_seq.simps) (simp add: params_ok_def)

lemma gen_inv_next:
  assumes ok: "params_ok P" and inv: "gen_inv P mk st0 i (r1, r2, st)" and i: "i < SFMT_N P"
    and r: "r = sfmt_recursion P (st ! i) b r1 r2 mk" and b: "b = sfmt_seq P mk st0 (i + SFMT_M P)"
  shows "gen_inv P mk st0 (Suc i) (r2, r, st[i := r])"
proof -
  have "st ! i = sfmt_seq P mk st0 i" using inv i by (simp add: gen_inv_def sfmt_seq_start)
  then have rs: "r = sfmt_seq P mk st0 (SFMT_N P + i)"
    using inv by (simp add: r b gen_inv_def sfmt_seq_step [OF ok])
  have j: "st[i := r] ! j = sfmt_seq P mk st0 (SFMT_N P + j)" if "j < Suc i" for j
    using that inv i rs by (cases "j = i") (auto simp: gen_inv_def nth_list_update)
  have k: "st[i := r] ! j = st0 ! j" if "Suc i \<le> j" "j < SFMT_N P" for j
    using that inv by (auto simp: gen_inv_def nth_list_update)
  have "2 \<le> SFMT_N P" using ok by (simp add: params_ok_def)
  then have e: "SFMT_N P + Suc i - 2 = SFMT_N P + i - 1" by simp
  show ?thesis using inv i j k rs unfolding gen_inv_def by (simp only: prod.case e) simp
qed

lemma generate_first_inv:
  "params_ok P \<Longrightarrow> gen_inv P mk st0 i acc \<Longrightarrow> i + n \<le> SFMT_N P - SFMT_M P \<Longrightarrow>
     gen_inv P mk st0 (i + n) (generate_first P mk i n acc)"
proof (induction P mk i n acc rule: generate_first.induct)
  case (2 P mk i n r1 r2 st)
  let ?r = "sfmt_recursion P (st ! i) (st ! (i + SFMT_M P)) r1 r2 mk"
  have "st ! (i + SFMT_M P) = sfmt_seq P mk st0 (i + SFMT_M P)"
    using "2.prems" by (simp add: gen_inv_def sfmt_seq_start)
  then have "gen_inv P mk st0 (Suc i) (r2, ?r, st[i := ?r])"
    using "2.prems" by (intro gen_inv_next) simp_all
  with "2.IH" [OF refl] "2.prems" show ?case by (simp add: Let_def)
qed simp

lemma generate_second_inv:
  "params_ok P \<Longrightarrow> gen_inv P mk st0 i acc \<Longrightarrow> SFMT_N P - SFMT_M P \<le> i \<Longrightarrow> i + n \<le> SFMT_N P \<Longrightarrow>
     gen_inv P mk st0 (i + n) (generate_second P mk i n acc)"
proof (induction P mk i n acc rule: generate_second.induct)
  case (2 P mk i n r1 r2 st)
  let ?r = "sfmt_recursion P (st ! i) (st ! (i + SFMT_M P - SFMT_N P)) r1 r2 mk"
  have m: "SFMT_M P < SFMT_N P" using "2.prems" by (simp add: params_ok_def)
  have j: "i + SFMT_M P - SFMT_N P < i" "SFMT_N P + (i + SFMT_M P - SFMT_N P) = i + SFMT_M P"
    using "2.prems" m by linarith+
  have "\<forall>j < i. st ! j = sfmt_seq P mk st0 (SFMT_N P + j)" using "2.prems"(2) by (simp add: gen_inv_def)
  from this [rule_format, OF j(1)] have "st ! (i + SFMT_M P - SFMT_N P) = sfmt_seq P mk st0 (i + SFMT_M P)"
    by (simp only: j(2))
  then have "gen_inv P mk st0 (Suc i) (r2, ?r, st[i := ?r])"
    using "2.prems" by (intro gen_inv_next) simp_all
  with "2.IH" [OF refl] "2.prems" show ?case by (simp add: Let_def)
qed simp



section \<open>Period certification\<close>

lemma parity_fold_xor: "parity_fold (x XOR y) = parity_fold x XOR parity_fold y"
  by (simp add: parity_fold_def Let_def drop_bit_xor ac_simps)

lemma single_bit:
  fixes w :: u32
  assumes "k < 32"
  shows "w AND push_bit k 1 = (if bit w k then push_bit k 1 else 0)" and "push_bit k (1 :: u32) \<noteq> 0"
proof -
  have b: "bit (push_bit k (1 :: u32)) n \<longleftrightarrow> n = k" for n
    using assms by (auto simp: bit_exp_iff)
  show "w AND push_bit k 1 = (if bit w k then push_bit k 1 else 0)"
    by (rule bit_word_eqI) (simp only: bit_and_iff b if_distrib bit_0_eq bot_apply, auto simp: b simp del: push_bit_of_1)
  show "push_bit k (1 :: u32) \<noteq> 0" 
  proof
    assume "push_bit k (1 :: u32) = 0"
    then show False using assms by simp
  qed
qed

text \<open>Each stage of the fold keeps a single bit single, at its position modulo the shift.\<close>

lemma fold_stage:
  fixes x :: u32
  assumes "\<forall>n < 2 * m. bit x n \<longleftrightarrow> n = k" and "k < 2 * m"
  shows "\<forall>n < m. bit (x XOR drop_bit m x) n \<longleftrightarrow> n = k mod m"
proof (intro allI impI)
  fix n assume n: "n < m"
  then have "bit (x XOR drop_bit m x) n \<longleftrightarrow> (n = k) \<noteq> (m + n = k)"
    using assms(1) by (simp add: bit_xor_iff bit_drop_bit_eq)
  also have "\<dots> \<longleftrightarrow> n = k mod m" using n assms(2) by (cases "k < m") (auto simp: mod_if)
  finally show "bit (x XOR drop_bit m x) n \<longleftrightarrow> n = k mod m" .
qed

lemma parity_fold_power:
  assumes k: "k < 32"
  shows "bit (parity_fold (push_bit k 1)) 0"
proof -
    define t0 :: u32 where "t0 = push_bit k 1"
    define t1 where "t1 = t0 XOR drop_bit 16 t0"
    define t2 where "t2 = t1 XOR drop_bit 8 t1"
    define t3 where "t3 = t2 XOR drop_bit 4 t2"
    define t4 where "t4 = t3 XOR drop_bit 2 t3"
    have "\<forall>n < 2 * 16. bit t0 n \<longleftrightarrow> n = k" using k by (auto simp: t0_def bit_exp_iff)
    from fold_stage [OF this] k have "\<forall>n < 2 * 8. bit t1 n \<longleftrightarrow> n = k mod 16" by (simp add: t1_def)
    from fold_stage [OF this] have "\<forall>n < 2 * 4. bit t2 n \<longleftrightarrow> n = k mod 16 mod 8" by (simp add: t2_def)
    from fold_stage [OF this] have "\<forall>n < 2 * 2. bit t3 n \<longleftrightarrow> n = k mod 16 mod 8 mod 4" by (simp add: t3_def)
    from fold_stage [OF this] have "\<forall>n < 2 * 1. bit t4 n \<longleftrightarrow> n = k mod 16 mod 8 mod 4 mod 2" by (simp add: t4_def)
    from fold_stage [OF this] have "bit (t4 XOR drop_bit 1 t4) 0" by simp
    then show ?thesis by (simp only: parity_fold_def Let_def t4_def t3_def t2_def t1_def t0_def)
qed

lemma bit_lane: "bit (lane i w) n \<longleftrightarrow> n < 32 \<and> bit w (32 * i + n)"
  by (simp add: lane_def bit_ucast_iff bit_drop_bit_eq)

lemma lane_from_lanes:
  "lane 0 (from_lanes a b c d) = a" "lane 1 (from_lanes a b c d) = b"
  "lane 2 (from_lanes a b c d) = c" "lane 3 (from_lanes a b c d) = d"
  by (rule bit_word_eqI; auto simp: bit_lane from_lanes_def bit_or_iff bit_push_bit_iff bit_ucast_iff dest: bit_imp_le_length)+

lemma word_at_set:
  assumes "i < 4" and "j < 4" and "st \<noteq> []"
  shows "word_at (set_word_at i w st) j = (if j = i then w else word_at st j)"
proof -
  have "i \<in> {0, 1, 2, 3}" "j \<in> {0, 1, 2, 3}" using assms by auto
  then show ?thesis using assms(3)
    by (auto simp: word_at_def set_word_at_def lane_from_lanes simp del: One_nat_def)
qed

lemma parity_sum_flip:
  assumes "i < 4" and "st \<noteq> []" and "k < 32" and "bit (par ! i) k"
  shows "parity_sum par (set_word_at i (word_at st i XOR push_bit k 1) st) = parity_sum par st XOR push_bit k 1"
proof -
  have pb: "par ! i AND push_bit k 1 = push_bit k 1" using single_bit(1) [OF assms(3), of "par ! i"] assms(4) by simp
  have "[0..<4] = [0, 1, 2, 3 :: nat]" by (simp add: upt_rec)
  then have s: "parity_sum par st' = (par ! 0 AND word_at st' 0) XOR (par ! 1 AND word_at st' 1)
      XOR (par ! 2 AND word_at st' 2) XOR (par ! 3 AND word_at st' 3)" for st'
    by (simp add: parity_sum_def xor.assoc)
  have "i \<in> {0, 1, 2, 3}" using assms(1) by auto
  then show ?thesis
    using pb assms(2) by (auto simp add: s word_at_set bit.conj_xor_distrib xor.assoc xor.commute xor.left_commute
        simp del: push_bit_of_1 One_nat_def)
qed

lemma find_parity_bit:
  assumes "length par = 4" and "\<exists>w \<in> set par. w \<noteq> (0 :: u32)"
  obtains i k where "find (\<lambda>i. par ! i \<noteq> 0) [0..<4] = Some i" and "i < 4"
    and "find (\<lambda>k. par ! i AND push_bit k 1 \<noteq> 0) [0..<32] = Some k" and "k < 32" and "bit (par ! i) k"
proof -
  from assms obtain i0 where "i0 < 4" "par ! i0 \<noteq> 0" by (auto simp: in_set_conv_nth)
  then obtain i where i: "find (\<lambda>i. par ! i \<noteq> 0) [0..<4] = Some i"
    by (cases "find (\<lambda>i. par ! i \<noteq> 0) [0..<4]") (auto simp: find_None_iff)
  then have i4: "i < 4" "par ! i \<noteq> 0" by (auto simp: find_Some_iff)
  then obtain k0 where "bit (par ! i) k0" by (auto simp: bit_eq_iff)
  moreover from this have "k0 < 32" using bit_imp_le_length by fastforce
  ultimately have "k0 < 32" "bit (par ! i) k0" by simp_all
  then obtain k where k: "find (\<lambda>k. par ! i AND push_bit k 1 \<noteq> 0) [0..<32] = Some k"
    using single_bit by (cases "find (\<lambda>k. par ! i AND push_bit k 1 \<noteq> 0) [0..<32]") (auto simp: find_None_iff simp del: push_bit_of_1)
  then have k32: "k < 32" "par ! i AND push_bit k 1 \<noteq> 0" by (auto simp: find_Some_iff simp del: push_bit_of_1)
  then have "bit (par ! i) k" using single_bit(1) [OF k32(1), of "par ! i"] by metis
  with i i4 k k32 that show thesis by blast
qed

text \<open>
  Period certification always succeeds: for every offered exponent and every state
  vector, after the certification step of the initialisation the parity test that guarantees
  the full period holds, and at most one bit of the first register was changed.
\<close>

theorem certification:
  assumes "sfmt_config mexp = Some P" and "length st = SFMT_N P"
  shows "parity_odd (SFMT_PARITY P) (certify (SFMT_PARITY P) st)
    \<and> (\<exists>i k. i < 4 \<and> k < 32 \<and> (certify (SFMT_PARITY P) st = st
         \<or> certify (SFMT_PARITY P) st = set_word_at i (word_at st i XOR push_bit k 1) st))"
proof -
  from sfmt_config_ok [OF assms(1)] assms(2) have p: "length (SFMT_PARITY P) = 4" "\<exists>w \<in> set (SFMT_PARITY P). w \<noteq> 0"
    and st: "st \<noteq> []" by (auto simp: params_ok_def)
  obtain i k where f: "find (\<lambda>i. SFMT_PARITY P ! i \<noteq> 0) [0..<4] = Some i" "i < 4"
      "find (\<lambda>k. SFMT_PARITY P ! i AND push_bit k 1 \<noteq> 0) [0..<32] = Some k" "k < 32" "bit (SFMT_PARITY P ! i) k"
    by (rule find_parity_bit [OF p])
  show ?thesis
  proof (cases "parity_odd (SFMT_PARITY P) st")
    case True
    then show ?thesis using f(2,4) by (auto simp: certify_def)
  next
    case False
    then have c: "certify (SFMT_PARITY P) st = set_word_at i (word_at st i XOR push_bit k 1) st"
      unfolding certify_def f(1) by (simp only: option.case f(3) if_False)
    have "parity_odd (SFMT_PARITY P) (certify (SFMT_PARITY P) st)"
      unfolding c using False parity_sum_flip [OF f(2) st f(4,5)] parity_fold_power [OF f(4)]
      by (simp add: parity_odd_def parity_fold_xor bit_xor_iff del: push_bit_of_1)
    then show ?thesis using c f(2,4) by blast
  qed
qed

theorem certification_witness:
  "parity_odd (SFMT_PARITY (the (sfmt_config MEXP)))
     (certify (SFMT_PARITY (the (sfmt_config MEXP))) (replicate (SFMT_N (the (sfmt_config MEXP))) 0))"
  using certification [of MEXP "the (sfmt_config MEXP)" "replicate (SFMT_N (the (sfmt_config MEXP))) 0"]
  by (auto simp: MEXP_def sfmt_config_def)

end
