(* ===== verification/Rpc_Error_Codes.thy ===== *)
theory Rpc_Error_Codes
  imports Prelude
begin

text \<open>
  The status codes of the Battle.net remote procedure calls,
  \<^verbatim>\<open>enum BattlenetRpcErrorCode : uint32\<close> of
  \<^verbatim>\<open>Source/ProtobufDecompileTest/BattlenetRpcErrorCodes.h\<close>.  The 601 enumerators are kept
  as tables of names and values in the order of the source (an enumeration of that size is a
  table, not a datatype); a code on the wire is a 32-bit word.
\<close>

section \<open>The enumerators\<close>

definition rpc_codes_general :: "(string \<times> int) list" where
 "rpc_codes_general = [
  (''ERROR_OK'', 0),
  (''ERROR_INTERNAL'', 1),
  (''ERROR_TIMED_OUT'', 2),
  (''ERROR_DENIED'', 3),
  (''ERROR_NOT_EXISTS'', 4),
  (''ERROR_NOT_STARTED'', 5),
  (''ERROR_IN_PROGRESS'', 6),
  (''ERROR_INVALID_ARGS'', 7),
  (''ERROR_INVALID_SUBSCRIBER'', 8),
  (''ERROR_WAITING_FOR_DEPENDENCY'', 9),
  (''ERROR_NO_AUTH'', 0xA),
  (''ERROR_PARENTAL_CONTROL_RESTRICTION'', 0xB),
  (''ERROR_NO_GAME_ACCOUNT'', 0xC),
  (''ERROR_NOT_IMPLEMENTED'', 0xD),
  (''ERROR_OBJECT_REMOVED'', 0xE),
  (''ERROR_INVALID_ENTITY_ID'', 0xF),
  (''ERROR_INVALID_ENTITY_ACCOUNT_ID'', 0x10),
  (''ERROR_INVALID_ENTITY_GAME_ACCOUNT_ID'', 0x11),
  (''ERROR_INVALID_AGENT_ID'', 0x13),
  (''ERROR_INVALID_TARGET_ID'', 0x14),
  (''ERROR_MODULE_NOT_LOADED'', 0x15),
  (''ERROR_MODULE_NO_ENTRY_POINT'', 0x16),
  (''ERROR_MODULE_SIGNATURE_INCORRECT'', 0x17),
  (''ERROR_MODULE_CREATE_FAILED'', 0x18),
  (''ERROR_NO_PROGRAM'', 0x19),
  (''ERROR_API_NOT_READY'', 0x1B),
  (''ERROR_BAD_VERSION'', 0x1C),
  (''ERROR_ATTRIBUTE_TOO_MANY_ATTRIBUTES_SET'', 0x1D),
  (''ERROR_ATTRIBUTE_MAX_SIZE_EXCEEDED'', 0x1E),
  (''ERROR_ATTRIBUTE_QUOTA_EXCEEDED'', 0x1F),
  (''ERROR_SERVER_POOL_SERVER_DISAPPEARED'', 0x20),
  (''ERROR_SERVER_IS_PRIVATE'', 0x21),
  (''ERROR_DISABLED'', 0x22),
  (''ERROR_MODULE_NOT_FOUND'', 0x24),
  (''ERROR_SERVER_BUSY'', 0x25),
  (''ERROR_NO_BATTLETAG'', 0x26),
  (''ERROR_INCOMPLETE_PROFANITY_FILTERS'', 0x27),
  (''ERROR_INVALID_REGION'', 0x28),
  (''ERROR_EXISTS_ALREADY'', 0x29),
  (''ERROR_INVALID_SERVER_THUMBPRINT'', 0x2A),
  (''ERROR_PHONE_LOCK'', 0x2B),
  (''ERROR_SQUELCHED'', 0x2C),
  (''ERROR_TARGET_OFFLINE'', 0x2D),
  (''ERROR_BAD_SERVER'', 0x2E),
  (''ERROR_NO_COOKIE'', 0x2F),
  (''ERROR_EXPIRED_COOKIE'', 0x30),
  (''ERROR_TOKEN_NOT_FOUND'', 0x31),
  (''ERROR_GAME_ACCOUNT_NO_TIME'', 0x32),
  (''ERROR_GAME_ACCOUNT_NO_PLAN'', 0x33),
  (''ERROR_GAME_ACCOUNT_BANNED'', 0x34),
  (''ERROR_GAME_ACCOUNT_SUSPENDED'', 0x35),
  (''ERROR_GAME_ACCOUNT_ALREADY_SELECTED'', 0x36),
  (''ERROR_GAME_ACCOUNT_CANCELLED'', 0x37),
  (''ERROR_GAME_ACCOUNT_CREATION_DISABLED'', 0x38),
  (''ERROR_GAME_ACCOUNT_LOCKED'', 0x39),
  (''ERROR_SESSION_DUPLICATE'', 0x3C),
  (''ERROR_SESSION_DISCONNECTED'', 0x3D),
  (''ERROR_SESSION_DATA_CHANGED'', 0x3E),
  (''ERROR_SESSION_UPDATE_FAILED'', 0x3F),
  (''ERROR_SESSION_NOT_FOUND'', 0x40),
  (''ERROR_ADMIN_KICK'', 0x46),
  (''ERROR_UNPLANNED_MAINTENANCE'', 0x47),
  (''ERROR_PLANNED_MAINTENANCE'', 0x48),
  (''ERROR_SERVICE_FAILURE_ACCOUNT'', 0x49),
  (''ERROR_SERVICE_FAILURE_SESSION'', 0x4A),
  (''ERROR_SERVICE_FAILURE_AUTH'', 0x4B),
  (''ERROR_SERVICE_FAILURE_RISK'', 0x4C),
  (''ERROR_BAD_PROGRAM'', 0x4D),
  (''ERROR_BAD_LOCALE'', 0x4E),
  (''ERROR_BAD_PLATFORM'', 0x4F),
  (''ERROR_LOCALE_RESTRICTED_LA'', 0x51),
  (''ERROR_LOCALE_RESTRICTED_RU'', 0x52),
  (''ERROR_LOCALE_RESTRICTED_KO'', 0x53),
  (''ERROR_LOCALE_RESTRICTED_TW'', 0x54),
  (''ERROR_LOCALE_RESTRICTED'', 0x55),
  (''ERROR_ACCOUNT_NEEDS_MAINTENANCE'', 0x56),
  (''ERROR_MODULE_API_ERROR'', 0x57),
  (''ERROR_MODULE_BAD_CACHE_HANDLE'', 0x58),
  (''ERROR_MODULE_ALREADY_LOADED'', 0x59),
  (''ERROR_NETWORK_BLACKLISTED'', 0x5A),
  (''ERROR_EVENT_PROCESSOR_SLOW'', 0x5B),
  (''ERROR_SERVER_SHUTTING_DOWN'', 0x5C),
  (''ERROR_NETWORK_NOT_PRIVILEGED'', 0x5D),
  (''ERROR_TOO_MANY_OUTSTANDING_REQUESTS'', 0x5E),
  (''ERROR_NO_ACCOUNT_REGISTERED'', 0x5F),
  (''ERROR_BATTLENET_ACCOUNT_BANNED'', 0x60),
  (''ERROR_OK_DEPRECATED'', 0x64),
  (''ERROR_SERVER_IN_MODE_ZOMBIE'', 0x65),
  (''ERROR_LOGON_MODULE_REQUIRED'', 0x1F4),
  (''ERROR_LOGON_MODULE_NOT_CONFIGURED'', 0x1F5),
  (''ERROR_LOGON_MODULE_TIMEOUT'', 0x1F6),
  (''ERROR_LOGON_AGREEMENT_REQUIRED'', 0x1FE),
  (''ERROR_LOGON_AGREEMENT_NOT_CONFIGURED'', 0x1FF),
  (''ERROR_LOGON_INVALID_SERVER_PROOF'', 0x208),
  (''ERROR_LOGON_WEB_VERIFY_TIMEOUT'', 0x209),
  (''ERROR_LOGON_INVALID_AUTH_TOKEN'', 0x20A),
  (''ERROR_CHALLENGE_SMS_TOO_SOON'', 0x258),
  (''ERROR_CHALLENGE_SMS_THROTTLED'', 0x259),
  (''ERROR_CHALLENGE_SMS_TEMP_OUTAGE'', 0x25A),
  (''ERROR_CHALLENGE_NO_CHALLENGE'', 0x25B),
  (''ERROR_CHALLENGE_NOT_PICKED'', 0x25C),
  (''ERROR_CHALLENGE_ALREADY_PICKED'', 0x25D),
  (''ERROR_CHALLENGE_IN_PROGRESS'', 0x25E),
  (''ERROR_CONFIG_FORMAT_INVALID'', 0x2BC),
  (''ERROR_CONFIG_NOT_FOUND'', 0x2BD),
  (''ERROR_CONFIG_RETRIEVE_FAILED'', 0x2BE),
  (''ERROR_NETWORK_MODULE_BUSY'', 0x3E8),
  (''ERROR_NETWORK_MODULE_CANT_RESOLVE_ADDRESS'', 0x3E9),
  (''ERROR_NETWORK_MODULE_CONNECTION_REFUSED'', 0x3EA),
  (''ERROR_NETWORK_MODULE_INTERRUPTED'', 0x3EB),
  (''ERROR_NETWORK_MODULE_CONNECTION_ABORTED'', 0x3EC),
  (''ERROR_NETWORK_MODULE_CONNECTION_RESET'', 0x3ED),
  (''ERROR_NETWORK_MODULE_BAD_ADDRESS'', 0x3EE),
  (''ERROR_NETWORK_MODULE_NOT_READY'', 0x3EF),
  (''ERROR_NETWORK_MODULE_ALREADY_CONNECTED'', 0x3F0),
  (''ERROR_NETWORK_MODULE_CANT_CREATE_SOCKET'', 0x3F1),
  (''ERROR_NETWORK_MODULE_NETWORK_UNREACHABLE'', 0x3F2),
  (''ERROR_NETWORK_MODULE_SOCKET_PERMISSION_DENIED'', 0x3F3),
  (''ERROR_NETWORK_MODULE_NOT_INITIALIZED'', 0x3F4),
  (''ERROR_NETWORK_MODULE_NO_SSL_CERTIFICATE_FOR_PEER'', 0x3F5),
  (''ERROR_NETWORK_MODULE_NO_SSL_COMMON_NAME_FOR_CERTIFICATE'', 0x3F6),
  (''ERROR_NETWORK_MODULE_SSL_COMMON_NAME_DOES_NOT_MATCH_REMOTE_ENDPOINT'', 0x3F7),
  (''ERROR_NETWORK_MODULE_SOCKET_CLOSED'', 0x3F8),
  (''ERROR_NETWORK_MODULE_SSL_PEER_IS_NOT_REGISTERED_IN_CERTBUNDLE'', 0x3F9),
  (''ERROR_NETWORK_MODULE_SSL_INITIALIZE_LOW_FIRST'', 0x3FA),
  (''ERROR_NETWORK_MODULE_SSL_CERT_BUNDLE_READ_ERROR'', 0x3FB),
  (''ERROR_NETWORK_MODULE_NO_CERT_BUNDLE'', 0x3FC),
  (''ERROR_NETWORK_MODULE_FAILED_TO_DOWNLOAD_CERT_BUNDLE'', 0x3FD),
  (''ERROR_NETWORK_MODULE_NOT_READY_TO_READ'', 0x3FE)]"

definition rpc_codes_transport :: "(string \<times> int) list" where
 "rpc_codes_transport = [
  (''ERROR_NETWORK_MODULE_OPENSSL_X509_OK'', 0x4B0),
  (''ERROR_NETWORK_MODULE_OPENSSL_X509_UNABLE_TO_GET_ISSUER_CERT'', 0x4B1),
  (''ERROR_NETWORK_MODULE_OPENSSL_X509_UNABLE_TO_GET_CRL'', 0x4B2),
  (''ERROR_NETWORK_MODULE_OPENSSL_X509_UNABLE_TO_DECRYPT_CERT_SIGNATURE'', 0x4B3),
  (''ERROR_NETWORK_MODULE_OPENSSL_X509_UNABLE_TO_DECRYPT_CRL_SIGNATURE'', 0x4B4),
  (''ERROR_NETWORK_MODULE_OPENSSL_X509_UNABLE_TO_DECODE_ISSUER_PUBLIC_KEY'', 0x4B5),
  (''ERROR_NETWORK_MODULE_OPENSSL_X509_CERT_SIGNATURE_FAILURE'', 0x4B6),
  (''ERROR_NETWORK_MODULE_OPENSSL_X509_CRL_SIGNATURE_FAILURE'', 0x4B7),
  (''ERROR_NETWORK_MODULE_OPENSSL_X509_CERT_NOT_YET_VALID'', 0x4B8),
  (''ERROR_NETWORK_MODULE_OPENSSL_X509_CERT_HAS_EXPIRED'', 0x4B9),
  (''ERROR_NETWORK_MODULE_OPENSSL_X509_CRL_NOT_YET_VALID'', 0x4BA),
  (''ERROR_NETWORK_MODULE_OPENSSL_X509_CRL_HAS_EXPIRED'', 0x4BB),
  (''ERROR_NETWORK_MODULE_OPENSSL_X509_ERROR_IN_CERT_NOT_BEFORE_FIELD'', 0x4BC),
  (''ERROR_NETWORK_MODULE_OPENSSL_X509_ERROR_IN_CERT_NOT_AFTER_FIELD'', 0x4BD),
  (''ERROR_NETWORK_MODULE_OPENSSL_X509_ERROR_IN_CRL_LAST_UPDATE_FIELD'', 0x4BE),
  (''ERROR_NETWORK_MODULE_OPENSSL_X509_ERROR_IN_CRL_NEXT_UPDATE_FIELD'', 0x4BF),
  (''ERROR_NETWORK_MODULE_OPENSSL_X509_OUT_OF_MEM'', 0x4C0),
  (''ERROR_NETWORK_MODULE_OPENSSL_X509_DEPTH_ZERO_SELF_SIGNED_CERT'', 0x4C1),
  (''ERROR_NETWORK_MODULE_OPENSSL_X509_SELF_SIGNED_CERT_IN_CHAIN'', 0x4C2),
  (''ERROR_NETWORK_MODULE_OPENSSL_X509_UNABLE_TO_GET_ISSUER_CERT_LOCALLY'', 0x4C3),
  (''ERROR_NETWORK_MODULE_OPENSSL_X509_UNABLE_TO_VERIFY_LEAF_SIGNATURE'', 0x4C4),
  (''ERROR_NETWORK_MODULE_OPENSSL_X509_CERT_CHAIN_TOO_LONG'', 0x4C5),
  (''ERROR_NETWORK_MODULE_OPENSSL_X509_CERT_REVOKED'', 0x4C6),
  (''ERROR_NETWORK_MODULE_OPENSSL_X509_INVALID_CA'', 0x4C7),
  (''ERROR_NETWORK_MODULE_OPENSSL_X509_PATH_LENGTH_EXCEEDED'', 0x4C8),
  (''ERROR_NETWORK_MODULE_OPENSSL_X509_INVALID_PURPOSE'', 0x4C9),
  (''ERROR_NETWORK_MODULE_OPENSSL_X509_CERT_UNTRUSTED'', 0x4CA),
  (''ERROR_NETWORK_MODULE_OPENSSL_X509_CERT_REJECTED'', 0x4CB),
  (''ERROR_NETWORK_MODULE_OPENSSL_X509_SUBJECT_ISSUER_MISMATCH'', 0x4CC),
  (''ERROR_NETWORK_MODULE_OPENSSL_X509_AKID_SKID_MISMATCH'', 0x4CD),
  (''ERROR_NETWORK_MODULE_OPENSSL_X509_AKID_ISSUER_SERIAL_MISMATCH'', 0x4CE),
  (''ERROR_NETWORK_MODULE_OPENSSL_X509_KEYUSAGE_NO_CERTSIGN'', 0x4CF),
  (''ERROR_NETWORK_MODULE_OPENSSL_X509_APPLICATION_VERIFICATION'', 0x4D0),
  (''ERROR_NETWORK_MODULE_SCHANNEL_CANNOT_FIND_OS_VERSION'', 0x514),
  (''ERROR_NETWORK_MODULE_SCHANNEL_OS_NOT_SUPPORTED'', 0x515),
  (''ERROR_NETWORK_MODULE_SCHANNEL_LOADLIBRARY_FAIL'', 0x516),
  (''ERROR_NETWORK_MODULE_SCHANNEL_CANNOT_FIND_INTERFACE'', 0x517),
  (''ERROR_NETWORK_MODULE_SCHANNEL_INIT_FAIL'', 0x518),
  (''ERROR_NETWORK_MODULE_SCHANNEL_FUNCTION_CALL_FAIL'', 0x519),
  (''ERROR_NETWORK_MODULE_SCHANNEL_X509_UNABLE_TO_GET_ISSUER_CERT'', 0x546),
  (''ERROR_NETWORK_MODULE_SCHANNEL_X509_TIME_INVALID'', 0x547),
  (''ERROR_NETWORK_MODULE_SCHANNEL_X509_SIGNATURE_INVALID'', 0x548),
  (''ERROR_NETWORK_MODULE_SCHANNEL_X509_UNABLE_TO_VERIFY_LEAF_SIGNATURE'', 0x549),
  (''ERROR_NETWORK_MODULE_SCHANNEL_X509_SELF_SIGNED_LEAF_CERTIFICATE'', 0x54A),
  (''ERROR_NETWORK_MODULE_SCHANNEL_X509_UNHANDLED_ERROR'', 0x54B),
  (''ERROR_NETWORK_MODULE_SCHANNEL_X509_SELF_SIGNED_CERT_IN_CHAIN'', 0x54C),
  (''ERROR_WEBSOCKET_HANDSHAKE'', 0x578),
  (''ERROR_NETWORK_MODULE_DURANGO_UNKNOWN'', 0x5DC),
  (''ERROR_NETWORK_MODULE_DURANGO_MALFORMED_HOST_NAME'', 0x5DD),
  (''ERROR_NETWORK_MODULE_DURANGO_INVALID_CONNECTION_RESPONSE'', 0x5DE),
  (''ERROR_NETWORK_MODULE_DURANGO_INVALID_CA_CERT'', 0x5DF),
  (''ERROR_RPC_WRITE_FAILED'', 0xBB8),
  (''ERROR_RPC_SERVICE_NOT_BOUND'', 0xBB9),
  (''ERROR_RPC_TOO_MANY_REQUESTS'', 0xBBA),
  (''ERROR_RPC_PEER_UNKNOWN'', 0xBBB),
  (''ERROR_RPC_PEER_UNAVAILABLE'', 0xBBC),
  (''ERROR_RPC_PEER_DISCONNECTED'', 0xBBD),
  (''ERROR_RPC_REQUEST_TIMED_OUT'', 0xBBE),
  (''ERROR_RPC_CONNECTION_TIMED_OUT'', 0xBBF),
  (''ERROR_RPC_MALFORMED_RESPONSE'', 0xBC0),
  (''ERROR_RPC_ACCESS_DENIED'', 0xBC1),
  (''ERROR_RPC_INVALID_SERVICE'', 0xBC2),
  (''ERROR_RPC_INVALID_METHOD'', 0xBC3),
  (''ERROR_RPC_INVALID_OBJECT'', 0xBC4),
  (''ERROR_RPC_MALFORMED_REQUEST'', 0xBC5),
  (''ERROR_RPC_QUOTA_EXCEEDED'', 0xBC6),
  (''ERROR_RPC_NOT_IMPLEMENTED'', 0xBC7),
  (''ERROR_RPC_SERVER_ERROR'', 0xBC8),
  (''ERROR_RPC_SHUTDOWN'', 0xBC9),
  (''ERROR_RPC_DISCONNECT'', 0xBCA),
  (''ERROR_RPC_DISCONNECT_IDLE'', 0xBCB),
  (''ERROR_RPC_PROTOCOL_ERROR'', 0xBCC),
  (''ERROR_RPC_NOT_READY'', 0xBCD),
  (''ERROR_RPC_FORWARD_FAILED'', 0xBCE),
  (''ERROR_RPC_ENCRYPTION_FAILED'', 0xBCF),
  (''ERROR_RPC_INVALID_ADDRESS'', 0xBD0),
  (''ERROR_RPC_METHOD_DISABLED'', 0xBD1),
  (''ERROR_RPC_SHARD_NOT_FOUND'', 0xBD2),
  (''ERROR_RPC_INVALID_CONNECTION_ID'', 0xBD3),
  (''ERROR_RPC_NOT_CONNECTED'', 0xBD4),
  (''ERROR_RPC_INVALID_CONNECTION_STATE'', 0xBD5),
  (''ERROR_RPC_SERVICE_ALREADY_REGISTERED'', 0xBD6),
  (''ERROR_PRESENCE_INVALID_FIELD_ID'', 0xFA0),
  (''ERROR_PRESENCE_NO_VALID_SUBSCRIBERS'', 0xFA1),
  (''ERROR_PRESENCE_ALREADY_SUBSCRIBED'', 0xFA2),
  (''ERROR_PRESENCE_CONSUMER_NOT_FOUND'', 0xFA3),
  (''ERROR_PRESENCE_CONSUMER_IS_NULL'', 0xFA4),
  (''ERROR_PRESENCE_TEMPORARY_OUTAGE'', 0xFA5),
  (''ERROR_PRESENCE_TOO_MANY_SUBSCRIPTIONS'', 0xFA6),
  (''ERROR_PRESENCE_SUBSCRIPTION_CANCELLED'', 0xFA7),
  (''ERROR_PRESENCE_RICH_PRESENCE_PARSE_ERROR'', 0xFA8),
  (''ERROR_PRESENCE_RICH_PRESENCE_XML_ERROR'', 0xFA9),
  (''ERROR_PRESENCE_RICH_PRESENCE_LOAD_ERROR'', 0xFAA),
  (''ERROR_FRIENDS_TOO_MANY_SENT_INVITATIONS'', 0x1389),
  (''ERROR_FRIENDS_TOO_MANY_RECEIVED_INVITATIONS'', 0x138A),
  (''ERROR_FRIENDS_FRIENDSHIP_ALREADY_EXISTS'', 0x138B),
  (''ERROR_FRIENDS_FRIENDSHIP_DOES_NOT_EXIST'', 0x138C),
  (''ERROR_FRIENDS_INVITATION_ALREADY_EXISTS'', 0x138D),
  (''ERROR_FRIENDS_INVALID_INVITATION'', 0x138E),
  (''ERROR_FRIENDS_ALREADY_SUBSCRIBED'', 0x138F),
  (''ERROR_FRIENDS_ACCOUNT_BLOCKED'', 0x1391),
  (''ERROR_FRIENDS_NOT_SUBSCRIBED'', 0x1392),
  (''ERROR_FRIENDS_INVALID_ROLE_ID'', 0x1393),
  (''ERROR_FRIENDS_DISABLED_ROLE_ID'', 0x1394),
  (''ERROR_FRIENDS_NOTE_MAX_SIZE_EXCEEDED'', 0x1395),
  (''ERROR_FRIENDS_UPDATE_FRIEND_STATE_FAILED'', 0x1396),
  (''ERROR_FRIENDS_INVITEE_AT_MAX_FRIENDS'', 0x1397),
  (''ERROR_FRIENDS_INVITER_AT_MAX_FRIENDS'', 0x1398),
  (''ERROR_PLATFORM_STORAGE_FILE_WRITE_DENIED'', 0x1770),
  (''ERROR_WHISPER_UNDELIVERABLE'', 0x1B58),
  (''ERROR_WHISPER_MAX_SIZE_EXCEEDED'', 0x1B59),
  (''ERROR_USER_MANAGER_ALREADY_BLOCKED'', 0x1F40),
  (''ERROR_USER_MANAGER_NOT_BLOCKED'', 0x1F41),
  (''ERROR_USER_MANAGER_CANNOT_BLOCK_SELF'', 0x1F42),
  (''ERROR_USER_MANAGER_ALREADY_REGISTERED'', 0x1F43),
  (''ERROR_USER_MANAGER_NOT_REGISTERED'', 0x1F44),
  (''ERROR_USER_MANAGER_TOO_MANY_BLOCKED_ENTITIES'', 0x1F45),
  (''ERROR_USER_MANAGER_TOO_MANY_IDS'', 0x1F47),
  (''ERROR_USER_MANAGER_BLOCK_RECORD_UNAVAILABLE'', 0x1F4F),
  (''ERROR_USER_MANAGER_BLOCK_ENTITY_FAILED'', 0x1F50),
  (''ERROR_USER_MANAGER_UNBLOCK_ENTITY_FAILED'', 0x1F51),
  (''ERROR_USER_MANAGER_CANNOT_BLOCK_FRIEND'', 0x1F53)]"

definition rpc_codes_storage :: "(string \<times> int) list" where
 "rpc_codes_storage = [
  (''ERROR_SOCIAL_NETWORK_DB_EXCEPTION'', 0x2328),
  (''ERROR_SOCIAL_NETWORK_DENIAL_FROM_PROVIDER'', 0x2329),
  (''ERROR_SOCIAL_NETWORK_INVALID_SNS_ID'', 0x232A),
  (''ERROR_SOCIAL_NETWORK_CANT_SEND_TO_PROVIDER'', 0x232B),
  (''ERROR_SOCIAL_NETWORK_EX_COMM_FAILED'', 0x232C),
  (''ERROR_SOCIAL_NETWORK_DISABLED'', 0x232D),
  (''ERROR_SOCIAL_NETWORK_MISSING_REQUEST_PARAM'', 0x232E),
  (''ERROR_SOCIAL_NETWORK_UNSUPPORTED_OAUTH_VERSION'', 0x232F),
  (''ERROR_CHANNEL_FULL'', 0x2710),
  (''ERROR_CHANNEL_NO_CHANNEL'', 0x2711),
  (''ERROR_CHANNEL_NOT_MEMBER'', 0x2712),
  (''ERROR_CHANNEL_ALREADY_MEMBER'', 0x2713),
  (''ERROR_CHANNEL_NO_SUCH_MEMBER'', 0x2714),
  (''ERROR_CHANNEL_INVALID_CHANNEL_ID'', 0x2716),
  (''ERROR_CHANNEL_NO_SUCH_INVITATION'', 0x2718),
  (''ERROR_CHANNEL_TOO_MANY_INVITATIONS'', 0x2719),
  (''ERROR_CHANNEL_INVITATION_ALREADY_EXISTS'', 0x271A),
  (''ERROR_CHANNEL_INVALID_CHANNEL_SIZE'', 0x271B),
  (''ERROR_CHANNEL_INVALID_ROLE_ID'', 0x271C),
  (''ERROR_CHANNEL_ROLE_NOT_ASSIGNABLE'', 0x271D),
  (''ERROR_CHANNEL_INSUFFICIENT_PRIVILEGES'', 0x271E),
  (''ERROR_CHANNEL_INSUFFICIENT_PRIVACY_LEVEL'', 0x271F),
  (''ERROR_CHANNEL_INVALID_PRIVACY_LEVEL'', 0x2720),
  (''ERROR_CHANNEL_TOO_MANY_CHANNELS_JOINED'', 0x2721),
  (''ERROR_CHANNEL_INVITATION_ALREADY_SUBSCRIBED'', 0x2722),
  (''ERROR_CHANNEL_INVALID_CHANNEL_DELEGATE'', 0x2723),
  (''ERROR_CHANNEL_SLOT_ALREADY_RESERVED'', 0x2724),
  (''ERROR_CHANNEL_SLOT_NOT_RESERVED'', 0x2725),
  (''ERROR_CHANNEL_NO_RESERVED_SLOTS_AVAILABLE'', 0x2726),
  (''ERROR_CHANNEL_INVALID_ROLE_SET'', 0x2727),
  (''ERROR_CHANNEL_REQUIRE_FRIEND_VALIDATION'', 0x2728),
  (''ERROR_CHANNEL_MEMBER_OFFLINE'', 0x2729),
  (''ERROR_CHANNEL_RECEIVED_TOO_MANY_INVITATIONS'', 0x272A),
  (''ERROR_CHANNEL_INVITATION_INVALID_GAME_ACCOUNT_SELECTED'', 0x272B),
  (''ERROR_CHANNEL_UNREACHABLE'', 0x272C),
  (''ERROR_CHANNEL_INVITATION_NOT_SUBSCRIBED'', 0x272D),
  (''ERROR_CHANNEL_INVALID_MESSAGE_SIZE'', 0x272E),
  (''ERROR_CHANNEL_MAX_MESSAGE_SIZE_EXCEEDED'', 0x272F),
  (''ERROR_CHANNEL_CONFIG_NOT_FOUND'', 0x2730),
  (''ERROR_CHANNEL_INVALID_CHANNEL_TYPE'', 0x2731),
  (''ERROR_LOCAL_STORAGE_FILE_OPEN_ERROR'', 0x2AF8),
  (''ERROR_LOCAL_STORAGE_FILE_CREATE_ERROR'', 0x2AF9),
  (''ERROR_LOCAL_STORAGE_FILE_READ_ERROR'', 0x2AFA),
  (''ERROR_LOCAL_STORAGE_FILE_WRITE_ERROR'', 0x2AFB),
  (''ERROR_LOCAL_STORAGE_FILE_DELETE_ERROR'', 0x2AFC),
  (''ERROR_LOCAL_STORAGE_FILE_COPY_ERROR'', 0x2AFD),
  (''ERROR_LOCAL_STORAGE_FILE_DECOMPRESS_ERROR'', 0x2AFE),
  (''ERROR_LOCAL_STORAGE_FILE_HASH_MISMATCH'', 0x2AFF),
  (''ERROR_LOCAL_STORAGE_FILE_USAGE_MISMATCH'', 0x2B00),
  (''ERROR_LOCAL_STORAGE_DATABASE_INIT_ERROR'', 0x2B01),
  (''ERROR_LOCAL_STORAGE_DATABASE_NEEDS_REBUILD'', 0x2B02),
  (''ERROR_LOCAL_STORAGE_DATABASE_INSERT_ERROR'', 0x2B03),
  (''ERROR_LOCAL_STORAGE_DATABASE_LOOKUP_ERROR'', 0x2B04),
  (''ERROR_LOCAL_STORAGE_DATABASE_UPDATE_ERROR'', 0x2B05),
  (''ERROR_LOCAL_STORAGE_DATABASE_DELETE_ERROR'', 0x2B06),
  (''ERROR_LOCAL_STORAGE_DATABASE_SHRINK_ERROR'', 0x2B07),
  (''ERROR_LOCAL_STORAGE_CACHE_CRAWL_ERROR'', 0x2B08),
  (''ERROR_LOCAL_STORAGE_DATABASE_INDEX_TRIGGER_ERROR'', 0x2B09),
  (''ERROR_LOCAL_STORAGE_DATABASE_REBUILD_IN_PROGRESS'', 0x2B0A),
  (''ERROR_LOCAL_STORAGE_OK_BUT_NOT_IN_CACHE'', 0x2B0B),
  (''ERROR_LOCAL_STORAGE_DATABASE_REBUILD_INTERRUPTED'', 0x2B0D),
  (''ERROR_LOCAL_STORAGE_DATABASE_NOT_INITIALIZED'', 0x2B0E),
  (''ERROR_LOCAL_STORAGE_DIRECTORY_CREATE_ERROR'', 0x2B0F),
  (''ERROR_LOCAL_STORAGE_FILEKEY_NOT_FOUND'', 0x2B10),
  (''ERROR_LOCAL_STORAGE_NOT_AVAILABLE_ON_SERVER'', 0x2B11),
  (''ERROR_REGISTRY_CREATE_KEY_ERROR'', 0x2EE0),
  (''ERROR_REGISTRY_OPEN_KEY_ERROR'', 0x2EE1),
  (''ERROR_REGISTRY_READ_ERROR'', 0x2EE2),
  (''ERROR_REGISTRY_WRITE_ERROR'', 0x2EE3),
  (''ERROR_REGISTRY_TYPE_ERROR'', 0x2EE4),
  (''ERROR_REGISTRY_DELETE_ERROR'', 0x2EE5),
  (''ERROR_REGISTRY_ENCRYPT_ERROR'', 0x2EE6),
  (''ERROR_REGISTRY_DECRYPT_ERROR'', 0x2EE7),
  (''ERROR_REGISTRY_KEY_SIZE_ERROR'', 0x2EE8),
  (''ERROR_REGISTRY_VALUE_SIZE_ERROR'', 0x2EE9),
  (''ERROR_REGISTRY_NOT_FOUND'', 0x2EEB),
  (''ERROR_REGISTRY_MALFORMED_STRING'', 0x2EEC),
  (''ERROR_INTERFACE_ALREADY_CONNECTED'', 0x32C8),
  (''ERROR_INTERFACE_NOT_READY'', 0x32C9),
  (''ERROR_INTERFACE_OPTION_KEY_TOO_LARGE'', 0x32CA),
  (''ERROR_INTERFACE_OPTION_VALUE_TOO_LARGE'', 0x32CB),
  (''ERROR_INTERFACE_OPTION_KEY_INVALID_UTF8_STRING'', 0x32CC),
  (''ERROR_INTERFACE_OPTION_VALUE_INVALID_UTF8_STRING'', 0x32CD),
  (''ERROR_HTTP_COULDNT_RESOLVE'', 0x36B0),
  (''ERROR_HTTP_COULDNT_CONNECT'', 0x36B1),
  (''ERROR_HTTP_TIMEOUT'', 0x36B2),
  (''ERROR_HTTP_FAILED'', 0x36B3),
  (''ERROR_HTTP_MALFORMED_URL'', 0x36B4),
  (''ERROR_HTTP_DOWNLOAD_ABORTED'', 0x36B5),
  (''ERROR_HTTP_COULDNT_WRITE_FILE'', 0x36B6),
  (''ERROR_HTTP_TOO_MANY_REDIRECTS'', 0x36B7),
  (''ERROR_HTTP_COULDNT_OPEN_FILE'', 0x36B8),
  (''ERROR_HTTP_COULDNT_CREATE_FILE'', 0x36B9),
  (''ERROR_HTTP_COULDNT_READ_FILE'', 0x36BA),
  (''ERROR_HTTP_COULDNT_RENAME_FILE'', 0x36BB),
  (''ERROR_HTTP_COULDNT_CREATE_DIRECTORY'', 0x36BC),
  (''ERROR_HTTP_CURL_IS_NOT_READY'', 0x36BD),
  (''ERROR_HTTP_CANCELLED'', 0x36BE),
  (''ERROR_HTTP_FILE_NOT_FOUND'', 0x3844),
  (''ERROR_ACCOUNT_MISSING_CONFIG'', 0x4650),
  (''ERROR_ACCOUNT_DATA_NOT_FOUND'', 0x4651),
  (''ERROR_ACCOUNT_ALREADY_SUBSCRIBED'', 0x4652),
  (''ERROR_ACCOUNT_NOT_SUBSCRIBED'', 0x4653),
  (''ERROR_ACCOUNT_FAILED_TO_PARSE_TIMEZONE_DATA'', 0x4654),
  (''ERROR_ACCOUNT_LOAD_FAILED'', 0x4655),
  (''ERROR_ACCOUNT_LOAD_CANCELLED'', 0x4656),
  (''ERROR_ACCOUNT_DATABASE_INVALIDATE_FAILED'', 0x4657),
  (''ERROR_ACCOUNT_CACHE_INVALIDATE_FAILED'', 0x4658),
  (''ERROR_ACCOUNT_SUBSCRIPTION_PENDING'', 0x4659),
  (''ERROR_ACCOUNT_UNKNOWN_REGION'', 0x465A),
  (''ERROR_ACCOUNT_DATA_FAILED_TO_PARSE'', 0x465B),
  (''ERROR_ACCOUNT_UNDERAGE'', 0x465C),
  (''ERROR_ACCOUNT_IDENTITY_CHECK_PENDING'', 0x465D),
  (''ERROR_ACCOUNT_IDENTITY_UNVERIFIED'', 0x465E)]"

definition rpc_codes_games :: "(string \<times> int) list" where
 "rpc_codes_games = [
  (''ERROR_DATABASE_BINDING_COUNT_MISMATCH'', 0x4A38),
  (''ERROR_DATABASE_BINDING_PARSE_FAIL'', 0x4A39),
  (''ERROR_DATABASE_RESULTSET_COLUMNS_MISMATCH'', 0x4A3A),
  (''ERROR_DATABASE_DEADLOCK'', 0x4A3B),
  (''ERROR_DATABASE_DUPLICATE_KEY'', 0x4A3C),
  (''ERROR_DATABASE_CANNOT_CONNECT'', 0x4A3D),
  (''ERROR_DATABASE_STATEMENT_FAILED'', 0x4A3E),
  (''ERROR_DATABASE_TRANSACTION_NOT_STARTED'', 0x4A3F),
  (''ERROR_DATABASE_TRANSACTION_NOT_ENDED'', 0x4A40),
  (''ERROR_DATABASE_TRANSACTION_LEAK'', 0x4A41),
  (''ERROR_DATABASE_TRANSACTION_STATE_BAD'', 0x4A42),
  (''ERROR_DATABASE_SERVER_GONE'', 0x4A43),
  (''ERROR_DATABASE_QUERY_TIMEOUT'', 0x4A44),
  (''ERROR_DATABASE_BINDING_NOT_NULLABLE'', 0x4A9C),
  (''ERROR_DATABASE_BINDING_INVALID_INTEGER'', 0x4A9D),
  (''ERROR_DATABASE_BINDING_INVALID_FLOAT'', 0x4A9E),
  (''ERROR_DATABASE_BINDING_INVALID_TEMPORAL'', 0x4A9F),
  (''ERROR_DATABASE_BINDING_INVALID_PROTOBUF'', 0x4AA0),
  (''ERROR_PARTY_INVALID_PARTY_ID'', 0x4E20),
  (''ERROR_PARTY_ALREADY_IN_PARTY'', 0x4E21),
  (''ERROR_PARTY_NOT_IN_PARTY'', 0x4E22),
  (''ERROR_PARTY_INVITATION_UNDELIVERABLE'', 0x4E23),
  (''ERROR_PARTY_INVITATION_ALREADY_EXISTS'', 0x4E24),
  (''ERROR_PARTY_TOO_MANY_PARTY_INVITATIONS'', 0x4E25),
  (''ERROR_PARTY_TOO_MANY_RECEIVED_INVITATIONS'', 0x4E26),
  (''ERROR_PARTY_NO_SUCH_TYPE'', 0x4E27),
  (''ERROR_GAMES_NO_SUCH_FACTORY'', 0x55F0),
  (''ERROR_GAMES_NO_SUCH_GAME'', 0x55F1),
  (''ERROR_GAMES_NO_SUCH_REQUEST'', 0x55F2),
  (''ERROR_GAMES_NO_SUCH_PARTY_MEMBER'', 0x55F3),
  (''ERROR_RESOURCES_OFFLINE'', 0x59D8),
  (''ERROR_GAME_SERVER_CREATE_GAME_REFUSED'', 0x5DC0),
  (''ERROR_GAME_SERVER_ADD_PLAYERS_REFUSED'', 0x5DC1),
  (''ERROR_GAME_SERVER_REMOVE_PLAYERS_REFUSED'', 0x5DC2),
  (''ERROR_GAME_SERVER_FINISH_GAME_REFUSED'', 0x5DC3),
  (''ERROR_GAME_SERVER_NO_SUCH_GAME'', 0x5DC4),
  (''ERROR_GAME_SERVER_NO_SUCH_PLAYER'', 0x5DC5),
  (''ERROR_GAME_SERVER_CREATE_GAME_REFUSED_TRANSIENT'', 0x5DF2),
  (''ERROR_GAME_SERVER_ADD_PLAYERS_REFUSED_TRANSIENT'', 0x5DF3),
  (''ERROR_GAME_SERVER_REMOVE_PLAYERS_REFUSED_TRANSIENT'', 0x5DF4),
  (''ERROR_GAME_SERVER_FINISH_GAME_REFUSED_TRANSIENT'', 0x5DF5),
  (''ERROR_GAME_SERVER_CREATE_GAME_REFUSED_BUSY'', 0x5E24),
  (''ERROR_GAME_SERVER_ADD_PLAYERS_REFUSED_BUSY'', 0x5E25),
  (''ERROR_GAME_SERVER_REMOVE_PLAYERS_REFUSED_BUSY'', 0x5E26),
  (''ERROR_GAME_SERVER_FINISH_GAME_REFUSED_BUSY'', 0x5E27),
  (''ERROR_GAME_MASTER_INVALID_FACTORY'', 0x61A8),
  (''ERROR_GAME_MASTER_INVALID_GAME'', 0x61A9),
  (''ERROR_GAME_MASTER_GAME_FULL'', 0x61AA),
  (''ERROR_GAME_MASTER_REGISTER_FAILED'', 0x61AB),
  (''ERROR_GAME_MASTER_NO_GAME_SERVER'', 0x61AC),
  (''ERROR_GAME_MASTER_NO_UTILITY_SERVER'', 0x61AD),
  (''ERROR_GAME_MASTER_NO_GAME_VERSION'', 0x61AE),
  (''ERROR_GAME_MASTER_GAME_JOIN_FAILED'', 0x61AF),
  (''ERROR_GAME_MASTER_ALREADY_REGISTERED'', 0x61B0),
  (''ERROR_GAME_MASTER_NO_FACTORY'', 0x61B1),
  (''ERROR_GAME_MASTER_MULTIPLE_GAME_VERSIONS'', 0x61B2),
  (''ERROR_GAME_MASTER_INVALID_PLAYER'', 0x61B3),
  (''ERROR_GAME_MASTER_INVALID_GAME_REQUEST'', 0x61B4),
  (''ERROR_GAME_MASTER_INSUFFICIENT_PRIVILEGES'', 0x61B5),
  (''ERROR_GAME_MASTER_ALREADY_IN_GAME'', 0x61B6),
  (''ERROR_GAME_MASTER_INVALID_GAME_SERVER_RESPONSE'', 0x61B7),
  (''ERROR_GAME_MASTER_GAME_ACCOUNT_LOOKUP_FAILED'', 0x61B8),
  (''ERROR_GAME_MASTER_GAME_ENTRY_CANCELLED'', 0x61B9),
  (''ERROR_GAME_MASTER_GAME_ENTRY_ABORTED_CLIENT_DROPPED'', 0x61BA),
  (''ERROR_GAME_MASTER_GAME_ENTRY_ABORTED_BY_SERVICE'', 0x61BB),
  (''ERROR_GAME_MASTER_NO_AVAILABLE_CAPACITY'', 0x61BC),
  (''ERROR_GAME_MASTER_INVALID_TEAM_ID'', 0x61BD),
  (''ERROR_GAME_MASTER_CREATION_IN_PROGRESS'', 0x61BE),
  (''ERROR_NOTIFICATION_INVALID_CLIENT_ID'', 0x6590),
  (''ERROR_NOTIFICATION_DUPLICATE_NAME'', 0x6591),
  (''ERROR_NOTIFICATION_NAME_NOT_FOUND'', 0x6592),
  (''ERROR_NOTIFICATION_INVALID_SERVER'', 0x6593),
  (''ERROR_NOTIFICATION_QUOTA_EXCEEDED'', 0x6594),
  (''ERROR_NOTIFICATION_INVALID_NOTIFICATION_TYPE'', 0x6595),
  (''ERROR_NOTIFICATION_UNDELIVERABLE'', 0x6596),
  (''ERROR_NOTIFICATION_UNDELIVERABLE_TEMPORARY'', 0x6597),
  (''ERROR_ACHIEVEMENTS_NOTHING_TO_UPDATE'', 0x6D60),
  (''ERROR_ACHIEVEMENTS_INVALID_PARAMS'', 0x6D61),
  (''ERROR_ACHIEVEMENTS_NOT_REGISTERED'', 0x6D62),
  (''ERROR_ACHIEVEMENTS_NOT_READY'', 0x6D63),
  (''ERROR_ACHIEVEMENTS_FAILED_TO_PARSE_STATIC_DATA'', 0x6D64),
  (''ERROR_ACHIEVEMENTS_UNKNOWN_ID'', 0x6D65),
  (''ERROR_ACHIEVEMENTS_MISSING_SNAPSHOT'', 0x6D66),
  (''ERROR_ACHIEVEMENTS_ALREADY_REGISTERED'', 0x6D67),
  (''ERROR_ACHIEVEMENTS_TOO_MANY_REGISTRATIONS'', 0x6D68),
  (''ERROR_ACHIEVEMENTS_ALREADY_IN_PROGRESS'', 0x6D69),
  (''ERROR_ACHIEVEMENTS_TEMPORARY_OUTAGE'', 0x6D6A),
  (''ERROR_ACHIEVEMENTS_INVALID_PROGRAMID'', 0x6D6B),
  (''ERROR_ACHIEVEMENTS_MISSING_RECORD'', 0x6D6C),
  (''ERROR_ACHIEVEMENTS_REGISTRATION_PENDING'', 0x6D6D),
  (''ERROR_ACHIEVEMENTS_ENTITY_ID_NOT_FOUND'', 0x6D6E),
  (''ERROR_ACHIEVEMENTS_ACHIEVEMENT_ID_NOT_FOUND'', 0x6D6F),
  (''ERROR_ACHIEVEMENTS_CRITERIA_ID_NOT_FOUND'', 0x6D70),
  (''ERROR_ACHIEVEMENTS_STATIC_DATA_MISMATCH'', 0x6D71),
  (''ERROR_ACHIEVEMENTS_WRONG_THREAD'', 0x6D72),
  (''ERROR_ACHIEVEMENTS_CALLBACK_IS_NULL'', 0x6D73),
  (''ERROR_ACHIEVEMENTS_AUTO_REGISTER_PENDING'', 0x6D74),
  (''ERROR_ACHIEVEMENTS_NOT_INITIALIZED'', 0x6D75),
  (''ERROR_ACHIEVEMENTS_ACHIEVEMENT_ID_ALREADY_EXISTS'', 0x6D76),
  (''ERROR_ACHIEVEMENTS_FAILED_TO_DOWNLOAD_STATIC_DATA'', 0x6D77),
  (''ERROR_ACHIEVEMENTS_STATIC_DATA_NOT_FOUND'', 0x6D78),
  (''ERROR_GAME_UTILITY_SERVER_VARIABLE_REQUEST_REFUSED'', 0x84D1),
  (''ERROR_GAME_UTILITY_SERVER_WRONG_NUMBER_OF_VARIABLES_RETURNED'', 0x84D2),
  (''ERROR_GAME_UTILITY_SERVER_CLIENT_REQUEST_REFUSED'', 0x84D3),
  (''ERROR_GAME_UTILITY_SERVER_PRESENCE_CHANNEL_CREATED_REFUSED'', 0x84D4),
  (''ERROR_GAME_UTILITY_SERVER_VARIABLE_REQUEST_REFUSED_TRANSIENT'', 0x8502),
  (''ERROR_GAME_UTILITY_SERVER_CLIENT_REQUEST_REFUSED_TRANSIENT'', 0x8503),
  (''ERROR_GAME_UTILITY_SERVER_PRESENCE_CHANNEL_CREATED_REFUSED_TRANSIENT'', 0x8504),
  (''ERROR_GAME_UTILITY_SERVER_SERVER_REQUEST_REFUSED_TRANSIENT'', 0x8505),
  (''ERROR_GAME_UTILITY_SERVER_VARIABLE_REQUEST_REFUSED_BUSY'', 0x8534),
  (''ERROR_GAME_UTILITY_SERVER_CLIENT_REQUEST_REFUSED_BUSY'', 0x8535),
  (''ERROR_GAME_UTILITY_SERVER_PRESENCE_CHANNEL_CREATED_REFUSED_BUSY'', 0x8536),
  (''ERROR_GAME_UTILITY_SERVER_SERVER_REQUEST_REFUSED_BUSY'', 0x8537),
  (''ERROR_GAME_UTILITY_SERVER_NO_SERVER'', 0x8598),
  (''ERROR_IDENTITY_INSUFFICIENT_DATA'', 0xA028),
  (''ERROR_IDENTITY_TOO_MANY_RESULTS'', 0xA029),
  (''ERROR_IDENTITY_BAD_ID'', 0xA02A),
  (''ERROR_IDENTITY_NO_ACCOUNT_BLOB'', 0xA02B),
  (''ERROR_RISK_CHALLENGE_ACTION'', 0xA410),
  (''ERROR_RISK_DELAY_ACTION'', 0xA411),
  (''ERROR_RISK_THROTTLE_ACTION'', 0xA412),
  (''ERROR_RISK_ACCOUNT_LOCKED'', 0xA413),
  (''ERROR_RISK_CS_DENIED'', 0xA414),
  (''ERROR_RISK_DISCONNECT_ACCOUNT'', 0xA415),
  (''ERROR_RISK_CHECK_SKIPPED'', 0xA416),
  (''ERROR_REPORT_UNAVAILABLE'', 0xAFC8),
  (''ERROR_REPORT_TOO_LARGE'', 0xAFC9),
  (''ERROR_REPORT_UNKNOWN_TYPE'', 0xAFCA),
  (''ERROR_REPORT_ATTRIBUTE_INVALID'', 0xAFCB),
  (''ERROR_REPORT_ATTRIBUTE_QUOTA_EXCEEDED'', 0xAFCC),
  (''ERROR_REPORT_UNCONFIRMED'', 0xAFCD),
  (''ERROR_REPORT_NOT_CONNECTED'', 0xAFCE),
  (''ERROR_REPORT_REJECTED'', 0xAFCF),
  (''ERROR_REPORT_TOO_MANY_REQUESTS'', 0xAFD0),
  (''ERROR_ACCOUNT_ALREADY_REGISTERD'', 0xBB80),
  (''ERROR_ACCOUNT_NOT_REGISTERED'', 0xBB81),
  (''ERROR_ACCOUNT_REGISTRATION_PENDING'', 0xBB82)]"

definition rpc_codes_memcached :: "(string \<times> int) list" where
 "rpc_codes_memcached = [
  (''ERROR_MEMCACHED_CLIENT_NO_ERROR'', 0x10000),
  (''ERROR_MEMCACHED_CLIENT_KEY_NOT_FOUND'', 0x10001),
  (''ERROR_MEMCACHED_KEY_EXISTS'', 0x10002),
  (''ERROR_MEMCACHED_VALUE_TO_LARGE'', 0x10003),
  (''ERROR_MEMCACHED_INVALID_ARGS'', 0x10004),
  (''ERROR_MEMCACHED_ITEM_NOT_STORED'', 0x10005),
  (''ERROR_MEMCACHED_NON_NUMERIC_VALUE'', 0x10006),
  (''ERROR_MEMCACHED_WRONG_SERVER'', 0x10007),
  (''ERROR_MEMCACHED_AUTHENTICATION_ERROR'', 0x10008),
  (''ERROR_MEMCACHED_AUTHENTICATION_CONTINUE'', 0x10009),
  (''ERROR_MEMCACHED_UNKNOWN_COMMAND'', 0x1000A),
  (''ERROR_MEMCACHED_OUT_OF_MEMORY'', 0x1000B),
  (''ERROR_MEMCACHED_NOT_SUPPORTED'', 0x1000C),
  (''ERROR_MEMCACHED_INTERNAL_ERROR'', 0x1000D),
  (''ERROR_MEMCACHED_TEMPORARY_FAILURE'', 0x1000E),
  (''ERROR_MEMCACHED_CLIENT_ALREADY_CONNECTED'', 0x186A0),
  (''ERROR_MEMCACHED_CLIENT_BAD_CONFIG'', 0x186A1),
  (''ERROR_MEMCACHED_CLIENT_NOT_CONNECTED'', 0x186A2),
  (''ERROR_MEMCACHED_CLIENT_TIMEOUT'', 0x186A3),
  (''ERROR_MEMCACHED_CLIENT_ABORTED'', 0x186A4)]"

definition rpc_codes_application :: "(string \<times> int) list" where
 "rpc_codes_application = [
  (''ERROR_UTIL_SERVER_FAILED_TO_SERIALIZE'', 0x80000064),
  (''ERROR_UTIL_SERVER_DISCONNECTED_FROM_BATTLENET'', 0x80000065),
  (''ERROR_UTIL_SERVER_TIMED_OUT'', 0x80000066),
  (''ERROR_UTIL_SERVER_NO_METERING_DATA'', 0x80000067),
  (''ERROR_UTIL_SERVER_FAIL_PERMISSION_CHECK'', 0x80000068),
  (''ERROR_UTIL_SERVER_UNKNOWN_REALM'', 0x80000069),
  (''ERROR_UTIL_SERVER_MISSING_SESSION_KEY'', 0x8000006A),
  (''ERROR_UTIL_SERVER_MISSING_VIRTUAL_REALM'', 0x8000006B),
  (''ERROR_UTIL_SERVER_INVALID_SESSION_KEY'', 0x8000006C),
  (''ERROR_UTIL_SERVER_MISSING_REALM_LIST'', 0x8000006D),
  (''ERROR_UTIL_SERVER_INVALID_IDENTITY_ARGS'', 0x8000006E),
  (''ERROR_UTIL_SERVER_SESSION_OBJECT_MISSING'', 0x8000006F),
  (''ERROR_UTIL_SERVER_INVALID_BNET_SESSION'', 0x80000070),
  (''ERROR_UTIL_SERVER_INVALID_VIRTUAL_REALM'', 0x80000071),
  (''ERROR_UTIL_SERVER_INVALID_CLIENT_ADDRESS'', 0x80000072),
  (''ERROR_UTIL_SERVER_FAILED_TO_SERIALIZE_RESPONSE'', 0x80000073),
  (''ERROR_UTIL_SERVER_UNKNOWN_REQUEST'', 0x80000074),
  (''ERROR_UTIL_SERVER_UNABLE_TO_GENERATE_JOIN_TICKET'', 0x80000075),
  (''ERROR_UTIL_SERVER_UNABLE_TO_GENERATE_REALM_LIST_TICKET'', 0x80000076),
  (''ERROR_UTIL_SERVER_ACCOUNT_DENIED'', 0x80000077),
  (''ERROR_UTIL_SERVER_INVALID_WOW_ACCOUNT'', 0x80000078),
  (''ERROR_UTIL_SERVER_UNABLE_TO_STORE_SESSION'', 0x80000079),
  (''ERROR_UTIL_SERVER_SESSION_ALREADY_CREATED'', 0x8000007A),
  (''ERROR_USER_SERVER_FAILED_TO_SERIALIZE'', 0x800000C8),
  (''ERROR_USER_SERVER_DISCONNECTED_FROM_UTIL'', 0x800000C9),
  (''ERROR_USER_SERVER_SESSION_DUPLICATE'', 0x800000CA),
  (''ERROR_USER_SERVER_FAILED_TO_DISABLE_BILLING'', 0x800000CB),
  (''ERROR_USER_SERVER_PLAYER_DISCONNECTED'', 0x800000CC),
  (''ERROR_USER_SERVER_FAILED_TO_PARSE_ACCOUNT_STATE'', 0x800000CD),
  (''ERROR_USER_SERVER_ACCOUNT_LOAD_CANCELLED'', 0x800000CE),
  (''ERROR_USER_SERVER_BAD_PLATFORM'', 0x800000CF),
  (''ERROR_USER_SERVER_BAD_VIRTUAL_REALM'', 0x800000D0),
  (''ERROR_USER_SERVER_LOCALE_RESTRICTED'', 0x800000D1),
  (''ERROR_USER_SERVER_MISSING_PROPASS'', 0x800000D2),
  (''ERROR_USER_SERVER_BAD_WOW_ACCOUNT'', 0x800000D3),
  (''ERROR_USER_SERVER_BAD_BNET_ACCOUNT'', 0x800000D4),
  (''ERROR_USER_SERVER_FAILED_TO_PARSE_GAME_ACCOUNT_STATE'', 0x800000D5),
  (''ERROR_USER_SERVER_FAILED_TO_PARSE_GAME_TIME_REMAINING'', 0x800000D6),
  (''ERROR_USER_SERVER_FAILED_TO_PARSE_GAME_SESSION_INFO'', 0x800000D7),
  (''ERROR_USER_SERVER_ACCOUNT_STATE_POORLY_FORMED'', 0x800000D8),
  (''ERROR_USER_SERVER_GAME_ACCOUNT_STATE_POORLY_FORMED'', 0x800000D9),
  (''ERROR_USER_SERVER_GAME_TIME_REMAINING_POORLY_FORMED'', 0x800000DA),
  (''ERROR_USER_SERVER_GAME_SESSION_INFO_POORLY_FORMED'', 0x800000DB),
  (''ERROR_USER_SERVER_BAD_SESSION_TRACKER_STATE'', 0x800000DC),
  (''ERROR_USER_SERVER_FAILED_TO_PARSE_CAIS_INFO'', 0x800000DD),
  (''ERROR_USER_SERVER_GAME_SESSION_DISCONNECTED'', 0x800000DE),
  (''ERROR_USER_SERVER_VERSION_MISMATCH'', 0x800000DF),
  (''ERROR_USER_SERVER_ACCOUNT_SUSPENDED'', 0x800000E0),
  (''ERROR_USER_SERVER_NOT_PERMITTED_ON_REALM'', 0x800000E1),
  (''ERROR_USER_SERVER_LOGIN_FAILED_CONNECT'', 0x800000E2),
  (''ERROR_WOW_SERVICES_TIMED_OUT'', 0x8000012C),
  (''ERROR_WOW_SERVICES_INVALID_REALM_LIST_TICKET'', 0x8000012D),
  (''ERROR_WOW_SERVICES_INVALID_JOIN_TICKET'', 0x8000012E),
  (''ERROR_WOW_SERVICES_INVALID_SERVER_ADDRESSES'', 0x8000012F),
  (''ERROR_WOW_SERVICES_INVALID_SECRET_BLOB'', 0x80000130),
  (''ERROR_WOW_SERVICES_NO_REALM_JOIN_IP_FOUND'', 0x80000131),
  (''ERROR_WOW_SERVICES_DENIED_REALM_LIST_TICKET'', 0x80000132),
  (''ERROR_WOW_SERVICES_MISSING_GAME_ACCOUNT'', 0x80000133),
  (''ERROR_WOW_SERVICES_LOGON_INVALID_AUTH_TOKEN'', 0x80000134),
  (''ERROR_WOW_SERVICES_NO_AVAILABLE_REALMS'', 0x80000135),
  (''ERROR_WOW_SERVICES_FAILED_TO_PARSE_DISPATCH'', 0x80000136),
  (''ERROR_WOW_SERVICES_MISSING_METERING_FILE'', 0x80000137),
  (''ERROR_WOW_SERVICES_LOGIN_INVALID_CONTENT_TYPE'', 0x80000138),
  (''ERROR_WOW_SERVICES_LOGIN_UNABLE_TO_DECODE'', 0x80000139),
  (''ERROR_WOW_SERVICES_LOGIN_POST_ERROR'', 0x8000013A),
  (''ERROR_WOW_SERVICES_AUTHENTICATOR_PARSE_FAILED'', 0x8000013B),
  (''ERROR_WOW_SERVICES_LEGAL_PARSE_FAILED'', 0x8000013C),
  (''ERROR_WOW_SERVICES_LOGIN_AUTHENTICATION_PARSE_FAILED'', 0x8000013D),
  (''ERROR_WOW_SERIVCES_USER_MUST_ACCEPT_LEGAL'', 0x8000013E),
  (''ERROR_WOW_SERVICES_DISCONNECTED'', 0x8000013F),
  (''ERROR_WOW_SERVICES_NO_HANDLER_FOR_DISPATCH'', 0x80000140),
  (''ERROR_WOW_SERVICES_PRE_DISPATCH_HANDLER_FAILED'', 0x80000141),
  (''ERROR_WOW_SERVICES_CRITICAL_STREAMING_ERROR'', 0x80000142),
  (''ERROR_WOW_SERVICES_WORLD_LOAD_ERROR'', 0x80000143),
  (''ERROR_WOW_SERVICES_LOGIN_FAILED'', 0x80000144),
  (''ERROR_WOW_SERVICES_LOGIN_FAILED_ON_CHALLENGE'', 0x80000145),
  (''ERROR_WOW_SERVICES_NO_PREPAID_TIME'', 0x80000146),
  (''ERROR_WOW_SERVICES_SUBSCRIPTION_EXPIRED'', 0x80000147),
  (''ERROR_WOW_SERVICES_CANT_CONNECT'', 0x80000148)]"

section \<open>Codes on the wire\<close>

definition rpc_codes :: "(string \<times> int) list" where
  "rpc_codes = rpc_codes_general @ rpc_codes_transport @ rpc_codes_storage @ rpc_codes_games
     @ rpc_codes_memcached @ rpc_codes_application"

definition rpc_names :: "32 word \<Rightarrow> string list" where
  "rpc_names w = map fst (filter (\<lambda>(n, v). word_of_int v = w) rpc_codes)"

text \<open>The values ascend strictly, checked link by link.\<close>

fun ascending :: "int list \<Rightarrow> bool" where
  "ascending (x # y # zs) \<longleftrightarrow> x < y \<and> ascending (y # zs)"
| "ascending _ \<longleftrightarrow> True"

lemma ascending_sorted: "ascending xs \<longleftrightarrow> sorted_wrt (<) xs"
  by (induction xs rule: ascending.induct) (auto intro: less_trans)

lemmas rpc_tables = rpc_codes_general_def rpc_codes_transport_def rpc_codes_storage_def
  rpc_codes_games_def rpc_codes_memcached_def rpc_codes_application_def

lemma rpc_values_ascending: "ascending (map snd rpc_codes)"
  unfolding rpc_codes_def rpc_tables by simp

lemma rpc_values_bounds: "list_all (\<lambda>v. 0 \<le> v \<and> v < 2 ^ 32) (map snd rpc_codes)"
  unfolding rpc_codes_def rpc_tables by simp

lemma rpc_value_range: "(n, v) \<in> set rpc_codes \<Longrightarrow> 0 \<le> v \<and> v < 2 ^ 32"
  using rpc_values_bounds by (force simp: list_all_iff)

lemma rpc_values_distinct: "distinct (map snd rpc_codes)"
  using rpc_values_ascending by (simp add: ascending_sorted strict_sorted_iff)

lemma uint_rpc_value: "(n, v) \<in> set rpc_codes \<Longrightarrow> uint (word_of_int v :: 32 word) = v"
  using rpc_value_range [of n v] by (simp add: uint_word_of_int)

lemma filter_distinct_snd:
  "distinct (map snd xs) \<Longrightarrow> (n, v) \<in> set xs \<Longrightarrow> filter (\<lambda>p. snd p = v) xs = [(n, v)]"
proof (induction xs)
  case (Cons p xs)
  show ?case
  proof (cases "p = (n, v)")
    case True
    with Cons.prems(1) have "filter (\<lambda>p. snd p = v) xs = []" by (auto simp: filter_empty_conv)
    with True show ?thesis by simp
  next
    case False
    with Cons.prems have "(n, v) \<in> set xs" "snd p \<noteq> v" by (auto simp: rev_image_eqI)
    with Cons show ?thesis by simp
  qed
qed simp

lemma rpc_application_bounds:
  "list_all (\<lambda>v. 2 ^ 31 \<le> v) (map snd rpc_codes_application)"
  unfolding rpc_tables by simp

lemma rpc_other_bounds:
  "list_all (\<lambda>v. v < 2 ^ 31) (map snd (rpc_codes_general @ rpc_codes_transport @ rpc_codes_storage
     @ rpc_codes_games @ rpc_codes_memcached))"
  unfolding rpc_tables by simp

lemma rpc_application_top:
  assumes "(n, v) \<in> set rpc_codes"
  shows "2 ^ 31 \<le> v \<longleftrightarrow> (n, v) \<in> set rpc_codes_application"
proof -
  define others where "others = rpc_codes_general @ rpc_codes_transport @ rpc_codes_storage
    @ rpc_codes_games @ rpc_codes_memcached"
  define top :: int where "top = 2 ^ 31"
  have "(n, v) \<in> set others \<or> (n, v) \<in> set rpc_codes_application"
    using assms by (simp add: rpc_codes_def others_def)
  moreover have "(n, v) \<in> set others \<Longrightarrow> \<not> top \<le> v"
    using rpc_other_bounds unfolding others_def [symmetric] top_def [symmetric] list_all_iff by auto
  moreover have "(n, v) \<in> set rpc_codes_application \<Longrightarrow> top \<le> v"
    using rpc_application_bounds unfolding top_def [symmetric] list_all_iff by auto
  ultimately show ?thesis unfolding top_def by blast
qed

lemma rpc_names_value: "(n, v) \<in> set rpc_codes \<Longrightarrow> rpc_names (word_of_int v) = [n]"
proof -
  assume nv: "(n, v) \<in> set rpc_codes"
  have "filter (\<lambda>(m, u). (word_of_int u :: 32 word) = word_of_int v) rpc_codes
      = filter (\<lambda>p. snd p = v) rpc_codes"
    using uint_rpc_value nv by (intro filter_cong) (auto, metis)
  with filter_distinct_snd [OF rpc_values_distinct nv] show ?thesis
    by (simp add: rpc_names_def)
qed

text \<open>
  The status codes are a proper enumeration of 32-bit words: the values ascend strictly
  in the order of the source and fit a \<^verbatim>\<open>uint32\<close> unchanged, so the word of an
  enumerator stands for that enumerator alone, and the word 0 stands for \<^verbatim>\<open>ERROR_OK\<close>
  only; a word with the top bit set is a code of the game services, at the end of the table.
\<close>

theorem rpc_codes_unique:
  "sorted_wrt (<) (map snd rpc_codes) \<and> length rpc_codes = 601
   \<and> rpc_names 0 = [''ERROR_OK'']
   \<and> ((n, v) \<in> set rpc_codes \<longrightarrow> uint (word_of_int v :: 32 word) = v
        \<and> rpc_names (word_of_int v) = [n]
        \<and> (bit (word_of_int v :: 32 word) 31 \<longleftrightarrow> (n, v) \<in> set rpc_codes_application))"
proof -
  have len: "length rpc_codes = 601" unfolding rpc_codes_def rpc_tables by simp
  have ok: "(''ERROR_OK'', 0) \<in> set rpc_codes" unfolding rpc_codes_def rpc_tables by simp
  have top: "bit (word_of_int v :: 32 word) 31 \<longleftrightarrow> (n, v) \<in> set rpc_codes_application"
    if nv: "(n, v) \<in> set rpc_codes"
  proof -
    have "bit (word_of_int v :: 32 word) 31 \<longleftrightarrow> odd (v div 2 ^ 31)"
      by (simp only: bit_word_of_int_iff) (simp add: bit_iff_odd)
    also have "\<dots> \<longleftrightarrow> 2 ^ 31 \<le> v"
    proof (cases "2 ^ 31 \<le> v")
      case True
      with rpc_value_range [OF nv] have "v div 2 ^ 31 = 1"
        by (intro int_div_pos_eq [where r = "v - 2 ^ 31"]) simp_all
      then show ?thesis using True by simp
    next
      case False
      with rpc_value_range [OF nv] have "v div 2 ^ 31 = 0" by simp
      then show ?thesis using False by simp
    qed
    finally show ?thesis using rpc_application_top [OF nv] by simp
  qed
  show ?thesis
    using rpc_values_ascending len rpc_names_value [OF ok] uint_rpc_value rpc_names_value top
    by (simp add: ascending_sorted)
qed

theorem rpc_codes_unique_witness:
  "rpc_names 0x80000148 = [''ERROR_WOW_SERVICES_CANT_CONNECT'']"
proof -
  have "(''ERROR_WOW_SERVICES_CANT_CONNECT'', 0x80000148) \<in> set rpc_codes"
    unfolding rpc_codes_def rpc_tables by simp
  with rpc_codes_unique [of "''ERROR_WOW_SERVICES_CANT_CONNECT''" "0x80000148"] show ?thesis by simp
qed

end
