(* ===== verification/CQ_Util.thy ===== *)
theory CQ_Util
  imports Prelude
begin

text \<open>
  The arithmetic of the lock-free queue
  (\<^verbatim>\<open>Source/Core/Private/Core/Utilities/Containers/ConcurrentQueue.h\<close>, namespace
  \<^verbatim>\<open>moodycamel::details\<close> and the default traits): hashes of thread ids, the circular
  order of indices that wrap around, rounding to powers of two and to alignments.  Template
  parameters of unsigned integer types are word types; \<^verbatim>\<open>std::size_t\<close> has 64 bits.
\<close>

unbundle bit_operations_syntax

section \<open>Constants of the default traits\<close>

definition BLOCK_SIZE :: "64 word" where
  "BLOCK_SIZE = 32"

definition EXPLICIT_BLOCK_EMPTY_COUNTER_THRESHOLD :: "64 word" where
  "EXPLICIT_BLOCK_EMPTY_COUNTER_THRESHOLD = 32"

definition EXPLICIT_INITIAL_INDEX_SIZE :: "64 word" where
  "EXPLICIT_INITIAL_INDEX_SIZE = 32"

definition IMPLICIT_INITIAL_INDEX_SIZE :: "64 word" where
  "IMPLICIT_INITIAL_INDEX_SIZE = 32"

definition INITIAL_IMPLICIT_PRODUCER_HASH_SIZE :: "64 word" where
  "INITIAL_IMPLICIT_PRODUCER_HASH_SIZE = 32"

definition EXPLICIT_CONSUMER_CONSUMPTION_QUOTA_BEFORE_ROTATE :: "32 word" where
  "EXPLICIT_CONSUMER_CONSUMPTION_QUOTA_BEFORE_ROTATE = 256"

text \<open>\<^verbatim>\<open>const_numeric_max\<close>, for a signed or an unsigned type of the width.\<close>

definition const_numeric_max :: "bool \<Rightarrow> 'a::len word" where
  "const_numeric_max is_signed = (if is_signed then push_bit (LENGTH('a) - 1) 1 - 1 else - 1)"

text \<open>The limit of a sub-queue, rounded up to a whole number of blocks unless that overflows.\<close>

definition MAX_SUBQUEUE_SIZE :: "64 word \<Rightarrow> 64 word" where
  "MAX_SUBQUEUE_SIZE limit =
     (if const_numeric_max False - limit < BLOCK_SIZE then const_numeric_max False
      else (limit + (BLOCK_SIZE - 1)) div BLOCK_SIZE * BLOCK_SIZE)"

section \<open>Hashes of thread ids\<close>

definition hash_32 :: "32 word \<Rightarrow> 32 word" where
  "hash_32 h0 =
     (let h1 = h0 XOR drop_bit 16 h0;
          h2 = h1 * 0x85ebca6b;
          h3 = h2 XOR drop_bit 13 h2;
          h4 = h3 * 0xc2b2ae35
      in h4 XOR drop_bit 16 h4)"

definition hash_64 :: "64 word \<Rightarrow> 64 word" where
  "hash_64 h0 =
     (let h1 = h0 XOR drop_bit 33 h0;
          h2 = h1 * 0xff51afd7ed558ccd;
          h3 = h2 XOR drop_bit 33 h2;
          h4 = h3 * 0xc4ceb9fe1a85ec53
      in h4 XOR drop_bit 33 h4)"

text \<open>The hash of a thread id, by the size of its hash type in bytes.\<close>

definition hash_thread_id :: "nat \<Rightarrow> 64 word \<Rightarrow> 64 word" where
  "hash_thread_id size_of_hash_t tid =
     (if size_of_hash_t > 4 then hash_64 tid else ucast (hash_32 (ucast tid)))"

section \<open>Indices that wrap around\<close>

definition circular_less_than :: "'a::len word \<Rightarrow> 'a word \<Rightarrow> bool" where
  "circular_less_than a b \<longleftrightarrow> a - b > push_bit (LENGTH('a) - 1) 1"

section \<open>Rounding\<close>

definition align_for :: "64 word \<Rightarrow> 64 word \<Rightarrow> 64 word" where
  "align_for alignment ptr = ptr + (alignment - ptr mod alignment) mod alignment"

text \<open>The loop over \<^verbatim>\<open>i\<close> of \<^verbatim>\<open>ceil_to_pow_2\<close>, which doubles \<^verbatim>\<open>i\<close>.\<close>

function smear_loop :: "nat \<Rightarrow> nat \<Rightarrow> 'a::len word \<Rightarrow> 'a word" where
  "smear_loop size_of_T i x =
     (if 0 < i \<and> i < size_of_T then smear_loop size_of_T (2 * i) (x OR drop_bit (8 * i) x) else x)"
  by pat_completeness auto
termination
  by (relation "measure (\<lambda>(n, i, x). n - i)") auto

declare smear_loop.simps [simp del]

definition ceil_to_pow_2 :: "'a::len word \<Rightarrow> 'a word" where
  "ceil_to_pow_2 x0 =
     (let x1 = x0 - 1;
          x2 = x1 OR drop_bit 1 x1;
          x3 = x2 OR drop_bit 2 x2;
          x4 = x3 OR drop_bit 4 x3
      in smear_loop (LENGTH('a) div 8) 1 x4 + 1)"

section \<open>The hashes are injective\<close>

lemma xor_shift_bits:
  fixes x y :: "'a::len word"
  assumes eq: "x XOR drop_bit k x = y XOR drop_bit k y" and k: "0 < k"
  shows "bit x n = bit y n"
proof (induction "LENGTH('a) - n" arbitrary: n rule: less_induct)
  case less
  show ?case
  proof (cases "n < LENGTH('a)")
    case True
    have "bit x (n + k) = bit y (n + k)" using less [of "n + k"] k True by simp
    moreover have "bit (x XOR drop_bit k x) n = bit (y XOR drop_bit k y) n" by (simp add: eq)
    ultimately show ?thesis by (auto simp: bit_simps add.commute)
  qed (simp add: bit_word.rep_eq)
qed

lemma inj_xor_shift: "0 < k \<Longrightarrow> inj (\<lambda>x :: 'a::len word. x XOR drop_bit k x)"
  by (rule injI, rule bit_word_eqI, rule xor_shift_bits)

lemma inj_mult_unit: "c * d = (1 :: 'a::len word) \<Longrightarrow> inj (\<lambda>x. x * c)"
  by (rule injI) (metis mult.assoc mult.right_neutral)

lemma hash_32_comp:
  "hash_32 = (\<lambda>x. x XOR drop_bit 16 x) \<circ> (\<lambda>x. x * 0xc2b2ae35) \<circ> (\<lambda>x. x XOR drop_bit 13 x)
     \<circ> (\<lambda>x. x * 0x85ebca6b) \<circ> (\<lambda>x. x XOR drop_bit 16 x)"
  by (simp add: fun_eq_iff hash_32_def Let_def)

lemma hash_64_comp:
  "hash_64 = (\<lambda>x. x XOR drop_bit 33 x) \<circ> (\<lambda>x. x * 0xc4ceb9fe1a85ec53) \<circ> (\<lambda>x. x XOR drop_bit 33 x)
     \<circ> (\<lambda>x. x * 0xff51afd7ed558ccd) \<circ> (\<lambda>x. x XOR drop_bit 33 x)"
  by (simp add: fun_eq_iff hash_64_def Let_def)

lemma inj_hash_32: "inj hash_32"
proof -
  have "inj (\<lambda>x :: 32 word. x * 0xc2b2ae35)" by (rule inj_mult_unit [where d = "0x7ed1b41d"]) simp
  moreover have "inj (\<lambda>x :: 32 word. x * 0x85ebca6b)" by (rule inj_mult_unit [where d = "0xa5cb9243"]) simp
  ultimately show ?thesis unfolding hash_32_comp by (intro inj_compose inj_xor_shift) simp_all
qed

lemma inj_hash_64: "inj hash_64"
proof -
  have "inj (\<lambda>x :: 64 word. x * 0xc4ceb9fe1a85ec53)" by (rule inj_mult_unit [where d = "0x9cb4b2f8129337db"]) simp
  moreover have "inj (\<lambda>x :: 64 word. x * 0xff51afd7ed558ccd)" by (rule inj_mult_unit [where d = "0x4f74430c22a54005"]) simp
  ultimately show ?thesis unfolding hash_64_comp by (intro inj_compose inj_xor_shift) simp_all
qed

section \<open>The circular order\<close>

lemma circular_less_than_iff:
  "circular_less_than a (b :: 'a::len word) \<longleftrightarrow> 0 < unat (b - a) \<and> unat (b - a) < 2 ^ (LENGTH('a) - 1)"
proof -
  define d where "d = b - a"
  have ab: "a - b = - d" by (simp add: d_def)
  obtain n where n: "LENGTH('a) = Suc n" using gr0_implies_Suc by blast
  have top: "unat (2 ^ n :: 'a word) = 2 ^ n"
    using unat_two_power [where n = n and 'a = 'a] by (simp add: n)
  have "unat (- d) = (if d = 0 then 0 else 2 * 2 ^ n - unat d)"
    by (simp add: unat_uminus n)
  moreover have "unat d < 2 * 2 ^ n" using unat_bound [of d] by (simp add: n)
  ultimately show ?thesis
    by (auto simp: circular_less_than_def ab word_less_nat_alt top d_def [symmetric] n unat_eq_0 word_neq_0_conv)
qed

section \<open>Rounding up to a power of two\<close>

text \<open>\<open>y\<close> is \<open>x\<close> with every bit copied to the \<open>k - 1\<close> positions below it.\<close>

definition smeared :: "nat \<Rightarrow> 'a::len word \<Rightarrow> 'a word \<Rightarrow> bool" where
  "smeared k x y \<longleftrightarrow> (\<forall>n. bit y n \<longleftrightarrow> (\<exists>j<k. bit x (n + j)))"

lemma smeared_refl: "smeared 1 x x"
  by (simp add: smeared_def)

lemma smeared_step: "smeared k x y \<Longrightarrow> smeared (2 * k) x (y OR drop_bit k y)"
proof -
  assume y: "smeared k x y"
  have "(\<exists>j<2 * k. bit x (n + j)) \<longleftrightarrow> (\<exists>j<k. bit x (n + j)) \<or> (\<exists>j<k. bit x (k + n + j))" for n
  proof
    assume "\<exists>j<2 * k. bit x (n + j)"
    then obtain j where j: "j < 2 * k" "bit x (n + j)" by blast
    show "(\<exists>j<k. bit x (n + j)) \<or> (\<exists>j<k. bit x (k + n + j))"
    proof (cases "j < k")
      case False
      then have "j - k < k \<and> bit x (k + n + (j - k))" using j by (simp add: add.commute)
      then show ?thesis by blast
    qed (use j in blast)
  next
    assume "(\<exists>j<k. bit x (n + j)) \<or> (\<exists>j<k. bit x (k + n + j))"
    then show "\<exists>j<2 * k. bit x (n + j)"
    proof
      assume "\<exists>j<k. bit x (k + n + j)"
      then obtain j where "j < k" "bit x (n + (k + j))" by (auto simp: ac_simps)
      then show ?thesis by (intro exI [of _ "k + j"]) simp
    qed (metis mult_2 trans_less_add1)
  qed
  with y show ?thesis by (simp add: smeared_def bit_or_iff bit_drop_bit_eq)
qed

lemma length_64_div_8: "LENGTH(64) div 8 = 8"
  by simp

lemma smear_loop_64:
  "smear_loop 8 1 x = (let x5 = x OR drop_bit 8 x; x6 = x5 OR drop_bit 16 x5 in x6 OR drop_bit 32 x6)"
  by (simp add: smear_loop.simps Let_def)

lemma smeared_64:
  fixes x :: "64 word"
  shows "smeared 64 x (ceil_to_pow_2 (x + 1) - 1)"
proof -
  define x2 where "x2 = x OR drop_bit 1 x"
  define x3 where "x3 = x2 OR drop_bit 2 x2"
  define x4 where "x4 = x3 OR drop_bit 4 x3"
  define x5 where "x5 = x4 OR drop_bit 8 x4"
  define x6 where "x6 = x5 OR drop_bit 16 x5"
  have "smeared 2 x x2" using smeared_step [OF smeared_refl [of x]] by (simp add: x2_def)
  from smeared_step [OF this] have "smeared 4 x x3" by (simp add: x3_def)
  from smeared_step [OF this] have "smeared 8 x x4" by (simp add: x4_def)
  from smeared_step [OF this] have "smeared 16 x x5" by (simp add: x5_def)
  from smeared_step [OF this] have "smeared 32 x x6" by (simp add: x6_def)
  from smeared_step [OF this] have "smeared 64 x (x6 OR drop_bit 32 x6)" by simp
  moreover have "ceil_to_pow_2 (x + 1) - 1 = x6 OR drop_bit 32 x6"
    unfolding ceil_to_pow_2_def Let_def add_diff_cancel_right' smear_loop_64 length_64_div_8
      x2_def [symmetric] x3_def [symmetric] x4_def [symmetric] x5_def [symmetric] x6_def [symmetric] ..
  ultimately show ?thesis by simp
qed

text \<open>All bits below the highest one are set: the result is a mask.\<close>

lemma smeared_mask:
  fixes x :: "64 word"
  assumes sm: "smeared 64 x y" and lt: "unat x < 2 ^ k" and ge: "x \<noteq> 0 \<Longrightarrow> 2 ^ (k - 1) \<le> unat x"
    and k: "k \<le> 64" and zero: "x = 0 \<Longrightarrow> k = 0"
  shows "y = mask k"
proof (rule bit_word_eqI)
  fix n assume n: "n < LENGTH(64)"
  have high: "\<not> bit x m" if "k \<le> m" for m
  proof -
    have "x = take_bit k x" using lt by (metis unsigned_take_bit_eq take_bit_nat_eq_self word_unat_eq_iff)
    then have "bit x m = bit (take_bit k x) m" by simp
    then show ?thesis using that by (simp add: bit_take_bit_iff)
  qed
  have top: "bit x (k - 1)" if "0 < k"
  proof (rule ccontr)
    assume no: "\<not> bit x (k - 1)"
    have "x = take_bit (k - 1) x"
    proof (rule bit_word_eqI)
      fix m show "bit x m = bit (take_bit (k - 1) x) m"
        using no high [of m] by (cases "m = k - 1"; cases "k \<le> m") (auto simp: bit_take_bit_iff)
    qed
    then have "unat x < 2 ^ (k - 1)" by (metis unsigned_take_bit_eq take_bit_nat_less_exp)
    moreover have "x \<noteq> 0" using zero that by auto
    ultimately show False using ge by simp
  qed
  show "bit y n = bit (mask k :: 64 word) n"
  proof (cases "n < k")
    case True
    then have "k - 1 - n < 64 \<and> bit x (n + (k - 1 - n))" using top k by simp
    then have "bit y n" using sm by (auto simp: smeared_def)
    then show ?thesis using True n by (simp add: bit_mask_iff)
  next
    case False
    then have "\<not> bit y n" using sm high by (simp add: smeared_def)
    then show ?thesis using False by (simp add: bit_mask_iff)
  qed
qed

lemma power_above:
  fixes m :: nat
  assumes "m < 2 ^ 64"
  obtains k where "k \<le> 64" "m < 2 ^ k" "m \<noteq> 0 \<Longrightarrow> 2 ^ (k - 1) \<le> m" "m = 0 \<Longrightarrow> k = 0"
proof (cases "m = 0")
  case True
  then show ?thesis by (intro that [of 0]) simp_all
next
  case False
  define k where "k = (LEAST k. m < 2 ^ k)"
  have lt: "m < 2 ^ k" unfolding k_def using assms by (rule LeastI)
  have le: "k \<le> 64" unfolding k_def using assms by (rule Least_le)
  have "k \<noteq> 0" using lt False by (intro notI) simp
  then have "\<not> m < 2 ^ (k - 1)" using not_less_Least [of "k - 1" "\<lambda>k. m < 2 ^ k"] by (simp add: k_def)
  then show ?thesis using that [OF le lt] False by simp
qed

lemma ceil_to_pow_2_power:
  fixes x :: "64 word"
  assumes "0 < x" "unat x \<le> 2 ^ 63"
  obtains k where "k \<le> 63" "unat (ceil_to_pow_2 x) = 2 ^ k" "unat x \<le> 2 ^ k" "1 < unat x \<Longrightarrow> 2 ^ (k - 1) < unat x" "unat x = 1 \<Longrightarrow> k = 0"
proof -
  have ux: "unat (x - 1) = unat x - 1" "0 < unat x"
    using assms(1) by (auto simp: unat_minus_one word_neq_0_conv [symmetric] unat_gt_0)
  have b: "unat (x - 1) < 2 ^ 64" using unat_bound [of "x - 1"] by simp
  obtain k where k: "k \<le> 64" "unat (x - 1) < 2 ^ k" "unat (x - 1) \<noteq> 0 \<Longrightarrow> 2 ^ (k - 1) \<le> unat (x - 1)"
      "unat (x - 1) = 0 \<Longrightarrow> k = 0"
    using power_above [OF b] by metis
  have "ceil_to_pow_2 x - 1 = mask k"
    using smeared_mask [OF smeared_64 [of "x - 1"] k(2) _ k(1)] k(3, 4) by (simp add: unat_eq_0)
  then have "ceil_to_pow_2 x = mask k + 1" by (simp add: diff_eq_eq)
  then have c: "ceil_to_pow_2 x = 2 ^ k" by (simp add: mask_eq_decr_exp)
  have k63: "k \<le> 63"
  proof (rule ccontr)
    assume "\<not> k \<le> 63"
    then have "k = 64" using k(1) by simp
    then have "2 ^ 63 \<le> unat (x - 1)" using k(3, 4) by fastforce
    then show False using assms(2) ux by simp
  qed
  then have "unat (ceil_to_pow_2 x) = 2 ^ k" by (simp add: c unat_two_power)
  moreover have "unat x \<le> 2 ^ k" using k(2) ux by simp
  moreover have "2 ^ (k - 1) < unat x" if "1 < unat x" using k(3) ux that by simp
  moreover have "k = 0" if "unat x = 1" using k(4) ux that by simp
  ultimately show ?thesis using that k63 by blast
qed

section \<open>Alignment and the limit of a sub-queue\<close>

lemma align_for_spec:
  assumes al: "0 < alignment" and fits: "unat ptr + unat alignment \<le> 2 ^ 64"
  shows "unat alignment dvd unat (align_for alignment ptr)
         \<and> unat ptr \<le> unat (align_for alignment ptr)
         \<and> unat (align_for alignment ptr) < unat ptr + unat alignment"
proof -
  define a p where "a = unat alignment" and "p = unat ptr"
  have a: "0 < a" using al by (simp add: a_def word_less_nat_alt)
  have pm: "p mod a < a" using a by simp
  have "unat (ptr mod alignment) = p mod a" by (simp add: a_def p_def unat_mod)
  then have "unat (alignment - ptr mod alignment) = a - p mod a"
    using pm by (simp add: unat_sub_le a_def word_le_nat_alt)
  then have pad: "unat ((alignment - ptr mod alignment) mod alignment) = (a - p mod a) mod a"
    by (simp add: unat_mod a_def)
  have padlt: "(a - p mod a) mod a < a" using a by simp
  then have "p + (a - p mod a) mod a < 2 ^ 64" using fits by (simp add: a_def p_def)
  then have r: "unat (align_for alignment ptr) = p + (a - p mod a) mod a"
    using pad by (simp add: align_for_def unat_add_no_overflow p_def)
  have "(p + (a - p mod a)) mod a = 0"
    using pm by (metis add_diff_inverse_nat less_imp_le_nat mod_add_left_eq mod_self not_less)
  then have "a dvd p + (a - p mod a) mod a"
    by (simp add: dvd_eq_mod_eq_0 mod_add_right_eq)
  then show ?thesis using r padlt by (simp add: a_def p_def)
qed

lemma max_subqueue_size_spec:
  assumes "unat limit < 2 ^ 64 - 32"
  shows "32 dvd unat (MAX_SUBQUEUE_SIZE limit) \<and> unat limit \<le> unat (MAX_SUBQUEUE_SIZE limit)
         \<and> unat (MAX_SUBQUEUE_SIZE limit) < unat limit + 32"
proof -
  have "unat (- 1 - limit) = 2 ^ 64 - 1 - unat limit"
    using unat_sub_le [of limit "- 1"] assms unat_uminus [of "1 :: 64 word"] by simp
  then have big: "\<not> - 1 - limit < (32 :: 64 word)" using assms by (simp add: word_less_nat_alt)
  have s: "unat (limit + 31) = unat limit + 31"
    using assms unat_add_no_overflow [of limit 31] by simp
  have d: "unat ((limit + 31) div 32) = (unat limit + 31) div 32" by (simp add: unat_div s)
  have "unat ((limit + 31) div 32 * 32) = (unat limit + 31) div 32 * 32"
    using assms d by (simp add: unat_word_ariths)
  then show ?thesis
    using big by (simp add: MAX_SUBQUEUE_SIZE_def const_numeric_max_def BLOCK_SIZE_def) linarith
qed

text \<open>
  The identifiers and indices of the lock-free queue.  Hashing a thread id keeps ids
  apart (both hashes are injective, hence permutations), and the circular comparison is the order
  of the wrapping index: one index is below another exactly when the distance forward is positive
  and less than half the range, so no two indices are below each other.
\<close>

theorem cq_index_arithmetic:
  "inj hash_32 \<and> inj hash_64
   \<and> (circular_less_than a b \<longleftrightarrow> 0 < unat (b - a) \<and> unat (b - a) < 2 ^ 63)
   \<and> \<not> (circular_less_than a b \<and> circular_less_than b (a :: 64 word))"
proof -
  have "b - a = - (a - b)" by simp
  then have "unat (b - a) = (if a = b then 0 else 2 ^ 64 - unat (a - b))"
    using unat_uminus [of "a - b"] by simp
  then show ?thesis
    using inj_hash_32 inj_hash_64 circular_less_than_iff [of a b] circular_less_than_iff [of b a]
    by (auto split: if_splits)
qed

text \<open>
  Rounding in the lock-free queue.  \<^verbatim>\<open>ceil_to_pow_2\<close> gives the least power of two
  that is not below a positive argument up to $2^{63}$; \<^verbatim>\<open>align_for\<close> gives the first multiple of the
  alignment at or after the pointer; the limit of a sub-queue is the first multiple of the block
  size at or above the configured one.
\<close>

theorem cq_rounding:
  fixes x :: "64 word"
  assumes "0 < x" "unat x \<le> 2 ^ 63"
    and "0 < alignment" "unat ptr + unat alignment \<le> 2 ^ 64"
    and "unat limit < 2 ^ 64 - 32"
  shows "(\<exists>k. unat (ceil_to_pow_2 x) = 2 ^ k \<and> unat x \<le> 2 ^ k \<and> (\<forall>j. unat x \<le> 2 ^ j \<longrightarrow> k \<le> j))
    \<and> unat alignment dvd unat (align_for alignment ptr) \<and> unat ptr \<le> unat (align_for alignment ptr)
    \<and> unat (align_for alignment ptr) < unat ptr + unat alignment
    \<and> 32 dvd unat (MAX_SUBQUEUE_SIZE limit) \<and> unat limit \<le> unat (MAX_SUBQUEUE_SIZE limit)
    \<and> unat (MAX_SUBQUEUE_SIZE limit) < unat limit + 32"
proof -
  obtain k where k: "unat (ceil_to_pow_2 x) = 2 ^ k" "unat x \<le> 2 ^ k"
      "1 < unat x \<Longrightarrow> 2 ^ (k - 1) < unat x" "unat x = 1 \<Longrightarrow> k = 0"
    using ceil_to_pow_2_power [OF assms(1, 2)] by blast
  have pos: "0 < unat x" using assms(1) by (simp add: word_less_nat_alt)
  have least: "k \<le> j" if j: "unat x \<le> 2 ^ j" for j
  proof (cases "unat x = 1")
    case False
    then have "2 ^ (k - 1) < (2 :: nat) ^ j" using k(3) pos j by linarith
    then show ?thesis by simp
  qed (use k(4) in simp)
  show ?thesis
    using k(1, 2) least align_for_spec [OF assms(3, 4)] max_subqueue_size_spec [OF assms(5)] by blast
qed

theorem cq_rounding_witness:
  "unat (ceil_to_pow_2 (33 :: 64 word)) = 64 \<and> (33 :: nat) \<le> 64
   \<and> 8 dvd unat (align_for 8 13) \<and> 32 dvd unat (MAX_SUBQUEUE_SIZE 100)"
proof -
  have "ceil_to_pow_2 (33 :: 64 word) = 64" by (simp add: ceil_to_pow_2_def Let_def smear_loop.simps)
  then show ?thesis using cq_rounding [of 33 8 13 100] by simp
qed

end
