(* ===== verification/CQ_Free_List.thy ===== *)
theory CQ_Free_List
  imports CQ_Util
begin

text \<open>
  \<^verbatim>\<open>FreeList\<close> of the lock-free queue
  (\<^verbatim>\<open>Source/Core/Private/Core/Utilities/Containers/ConcurrentQueue.h\<close>): a stack of nodes with a
  reference count per node, shared by threads without a lock.  Every atomic load, store,
  \<^verbatim>\<open>fetch_add\<close> and \<^verbatim>\<open>compare_exchange\<close> is one step, and the steps of the threads interleave in any
  order (sequentially consistent memory).  A thread's program counter names the next atomic
  operation and carries the local variables that are live there.
\<close>

unbundle bit_operations_syntax

section \<open>The state\<close>

type_synonym node = nat

definition REFS_MASK :: "32 word" where
  "REFS_MASK = 0x7FFFFFFF"

definition SHOULD_BE_ON_FREELIST :: "32 word" where
  "SHOULD_BE_ON_FREELIST = 0x80000000"

text \<open>
  Where \<^verbatim>\<open>add_knowing_refcount_is_zero\<close> returns to: \<^verbatim>\<open>add\<close>, or the loop of \<^verbatim>\<open>try_get\<close> with
  its variable \<^verbatim>\<open>head\<close>.
\<close>

datatype fl_return = ToCaller | ToLoop "node option"

datatype fl_pc =
    Idle "node option" \<comment> \<open>no call; the result of the last one\<close>
  | AddRef node \<comment> \<open>\<^verbatim>\<open>add\<close>: the \<^verbatim>\<open>fetch_add\<close> of the flag\<close>
  | PushLoad node fl_return \<comment> \<open>\<^verbatim>\<open>add_knowing_refcount_is_zero\<close>: load the head\<close>
  | PushNext node "node option" fl_return \<comment> \<open>store \<^verbatim>\<open>freeListNext\<close>\<close>
  | PushRefs node "node option" fl_return \<comment> \<open>store 1 to \<^verbatim>\<open>freeListRefs\<close>\<close>
  | PushCas node "node option" fl_return
  | PushRetry node "node option" fl_return \<comment> \<open>the \<^verbatim>\<open>fetch_add\<close> after a failed exchange\<close>
  | GetHead \<comment> \<open>\<^verbatim>\<open>try_get\<close>: load the head\<close>
  | GetRefs node
  | GetCasRefs node "32 word"
  | GetNext node
  | GetCasHead node "node option"
  | GetDrop node \<comment> \<open>the node is ours: drop two references\<close>
  | GetUndo node "node option" \<comment> \<open>the head changed: drop our reference\<close>

record free_list =
  freeListHead :: "node option"
  freeListRefs :: "node \<Rightarrow> 32 word"
  freeListNext :: "node \<Rightarrow> node option"
  fl_pc :: "nat \<Rightarrow> fl_pc"
  fl_held :: "node set" \<comment> \<open>ghost: the nodes in the hands of the callers\<close>

definition FreeList :: free_list where
  "FreeList = \<lparr>freeListHead = None, freeListRefs = (\<lambda>_. 0), freeListNext = (\<lambda>_. None),
               fl_pc = (\<lambda>_. Idle None), fl_held = UNIV\<rparr>"

definition goto :: "nat \<Rightarrow> fl_pc \<Rightarrow> free_list \<Rightarrow> free_list" where
  "goto t c s = s\<lparr>fl_pc := (fl_pc s)(t := c)\<rparr>"

definition set_refs :: "node \<Rightarrow> 32 word \<Rightarrow> free_list \<Rightarrow> free_list" where
  "set_refs n r s = s\<lparr>freeListRefs := (freeListRefs s)(n := r)\<rparr>"

lemmas fl_sets = goto_def set_refs_def

section \<open>The operations\<close>

text \<open>The test at the top of the loop of \<^verbatim>\<open>try_get\<close>.\<close>

fun get_loop :: "node option \<Rightarrow> fl_pc" where
  "get_loop None = Idle None"
| "get_loop (Some h) = GetRefs h"

fun push_done :: "fl_return \<Rightarrow> fl_pc" where
  "push_done ToCaller = Idle None"
| "push_done (ToLoop h) = get_loop h"

definition fl_add :: "nat \<Rightarrow> node \<Rightarrow> free_list \<Rightarrow> free_list" where
  "fl_add t n s =
     (let old = freeListRefs s n; s1 = set_refs n (old + SHOULD_BE_ON_FREELIST) s
      in goto t (if old = 0 then PushLoad n ToCaller else Idle None) s1)"

fun add_knowing_refcount_is_zero :: "nat \<Rightarrow> fl_pc \<Rightarrow> free_list \<Rightarrow> free_list" where
  "add_knowing_refcount_is_zero t (PushLoad n c) s = goto t (PushNext n (freeListHead s) c) s"
| "add_knowing_refcount_is_zero t (PushNext n h c) s =
     goto t (PushRefs n h c) (s\<lparr>freeListNext := (freeListNext s)(n := h)\<rparr>)"
| "add_knowing_refcount_is_zero t (PushRefs n h c) s = goto t (PushCas n h c) (set_refs n 1 s)"
| "add_knowing_refcount_is_zero t (PushCas n h c) s =
     (if freeListHead s = h then goto t (push_done c) (s\<lparr>freeListHead := Some n\<rparr>)
      else goto t (PushRetry n (freeListHead s) c) s)"
| "add_knowing_refcount_is_zero t (PushRetry n h c) s =
     (let old = freeListRefs s n; s1 = set_refs n (old + (SHOULD_BE_ON_FREELIST - 1)) s
      in goto t (if old = 1 then PushNext n h c else push_done c) s1)"
| "add_knowing_refcount_is_zero t _ s = s"

fun try_get :: "nat \<Rightarrow> fl_pc \<Rightarrow> free_list \<Rightarrow> free_list" where
  "try_get t GetHead s = goto t (get_loop (freeListHead s)) s"
| "try_get t (GetRefs h) s =
     goto t (if freeListRefs s h AND REFS_MASK = 0 then GetHead else GetCasRefs h (freeListRefs s h)) s"
| "try_get t (GetCasRefs h r) s =
     (if freeListRefs s h = r then goto t (GetNext h) (set_refs h (r + 1) s) else goto t GetHead s)"
| "try_get t (GetNext h) s = goto t (GetCasHead h (freeListNext s h)) s"
| "try_get t (GetCasHead h nx) s =
     (if freeListHead s = Some h then goto t (GetDrop h) (s\<lparr>freeListHead := nx\<rparr>)
      else goto t (GetUndo h (freeListHead s)) s)"
| "try_get t (GetDrop h) s =
     goto t (Idle (Some h)) (set_refs h (freeListRefs s h + (- 2)) s\<lparr>fl_held := insert h (fl_held s)\<rparr>)"
| "try_get t (GetUndo p h) s =
     (let old = freeListRefs s p; s1 = set_refs p (old + (- 1)) s
      in goto t (if old = SHOULD_BE_ON_FREELIST + 1 then PushLoad p (ToLoop h) else get_loop h) s1)"
| "try_get t _ s = s"

text \<open>The next atomic operation of a thread that is inside a call.\<close>

fun fl_atomic :: "nat \<Rightarrow> fl_pc \<Rightarrow> free_list \<Rightarrow> free_list" where
  "fl_atomic t (Idle r) s = s"
| "fl_atomic t (AddRef n) s = fl_add t n s"
| "fl_atomic t (PushLoad n c) s = add_knowing_refcount_is_zero t (PushLoad n c) s"
| "fl_atomic t (PushNext n h c) s = add_knowing_refcount_is_zero t (PushNext n h c) s"
| "fl_atomic t (PushRefs n h c) s = add_knowing_refcount_is_zero t (PushRefs n h c) s"
| "fl_atomic t (PushCas n h c) s = add_knowing_refcount_is_zero t (PushCas n h c) s"
| "fl_atomic t (PushRetry n h c) s = add_knowing_refcount_is_zero t (PushRetry n h c) s"
| "fl_atomic t c s = try_get t c s"

text \<open>
  Threads 0 to \<open>N - 1\<close> call \<^verbatim>\<open>add\<close> on a node they hold, which then is no longer theirs, call
  \<^verbatim>\<open>try_get\<close>, and run.
\<close>

inductive fl_step :: "nat \<Rightarrow> free_list \<Rightarrow> free_list \<Rightarrow> bool" for N where
  call_add: "t < N \<Longrightarrow> fl_pc s t = Idle r \<Longrightarrow> n \<in> fl_held s
     \<Longrightarrow> fl_step N s (goto t (AddRef n) (s\<lparr>fl_held := fl_held s - {n}\<rparr>))"
| call_get: "t < N \<Longrightarrow> fl_pc s t = Idle r \<Longrightarrow> fl_step N s (goto t GetHead s)"
| run: "t < N \<Longrightarrow> fl_step N s (fl_atomic t (fl_pc s t) s)"

inductive fl_reach :: "nat \<Rightarrow> free_list \<Rightarrow> bool" for N where
  init: "fl_reach N FreeList"
| step: "fl_reach N s \<Longrightarrow> fl_step N s s' \<Longrightarrow> fl_reach N s'"

section \<open>The invariant\<close>

text \<open>
  Each node is in one phase; a phase that belongs to a thread names it.  \<open>Waiting\<close> is a node
  that was added while others still referred to it: whoever drops the last reference pushes it.
\<close>

datatype phase = Held | Adding nat | Waiting | Pushing nat | Pending nat | Listed | Popped nat

fun phase_thread :: "phase \<Rightarrow> nat option" where
  "phase_thread (Adding t) = Some t"
| "phase_thread (Pushing t) = Some t"
| "phase_thread (Pending t) = Some t"
| "phase_thread (Popped t) = Some t"
| "phase_thread _ = None"

text \<open>The references that are not temporary: the list's, and both of a node being taken.\<close>

fun weight :: "phase \<Rightarrow> nat" where
  "weight Held = 0"
| "weight (Adding t) = 0"
| "weight Waiting = 2 ^ 31"
| "weight (Pushing t) = 2 ^ 31"
| "weight (Pending t) = 1"
| "weight Listed = 1"
| "weight (Popped t) = 2"

fun owns :: "nat \<Rightarrow> fl_pc \<Rightarrow> (node \<times> phase) option" where
  "owns t (AddRef n) = Some (n, Adding t)"
| "owns t (PushLoad n c) = Some (n, Pushing t)"
| "owns t (PushNext n h c) = Some (n, Pushing t)"
| "owns t (PushRefs n h c) = Some (n, Pushing t)"
| "owns t (PushCas n h c) = Some (n, Pending t)"
| "owns t (PushRetry n h c) = Some (n, Pending t)"
| "owns t (GetDrop n) = Some (n, Popped t)"
| "owns t _ = None"

fun temp_ref :: "fl_pc \<Rightarrow> node \<Rightarrow> nat" where
  "temp_ref (GetNext h) n = (if n = h then 1 else 0)"
| "temp_ref (GetCasHead h nx) n = (if n = h then 1 else 0)"
| "temp_ref (GetUndo h nx) n = (if n = h then 1 else 0)"
| "temp_ref _ n = 0"

text \<open>What a thread relies on about a \<^verbatim>\<open>next\<close> pointer it stored or read.\<close>

fun knows :: "fl_pc \<Rightarrow> (node \<times> node option) option" where
  "knows (PushRefs n h c) = Some (n, h)"
| "knows (PushCas n h c) = Some (n, h)"
| "knows (GetCasHead h nx) = Some (h, nx)"
| "knows _ = None"

definition temps :: "nat \<Rightarrow> (nat \<Rightarrow> fl_pc) \<Rightarrow> node \<Rightarrow> nat" where
  "temps N pc n = (\<Sum>t<N. temp_ref (pc t) n)"

primrec chain :: "(node \<Rightarrow> node option) \<Rightarrow> node option \<Rightarrow> node list \<Rightarrow> bool" where
  "chain nx h [] \<longleftrightarrow> h = None"
| "chain nx h (n # ns) \<longleftrightarrow> h = Some n \<and> chain nx (nx n) ns"

definition listed :: "(node \<Rightarrow> phase) \<Rightarrow> free_list \<Rightarrow> bool" where
  "listed ph s \<longleftrightarrow> (\<exists>L. chain (freeListNext s) (freeListHead s) L \<and> distinct L \<and> set L = {n. ph n = Listed})"

definition owned :: "(node \<Rightarrow> phase) \<Rightarrow> (nat \<Rightarrow> fl_pc) \<Rightarrow> bool" where
  "owned ph pc \<longleftrightarrow> (\<forall>t n p. owns t (pc t) = Some (n, p) \<longrightarrow> ph n = p)
     \<and> (\<forall>n t. phase_thread (ph n) = Some t \<longrightarrow> owns t (pc t) = Some (n, ph n))"

definition counted :: "nat \<Rightarrow> (node \<Rightarrow> phase) \<Rightarrow> free_list \<Rightarrow> bool" where
  "counted N ph s \<longleftrightarrow> (\<forall>n. unat (freeListRefs s n) = weight (ph n) + temps N (fl_pc s) n
     \<and> (ph n = Waiting \<longrightarrow> 0 < temps N (fl_pc s) n) \<and> (\<forall>t. ph n = Pushing t \<longrightarrow> temps N (fl_pc s) n = 0))
     \<and> (\<forall>t\<ge>N. fl_pc s t = Idle None)"

definition informed :: "free_list \<Rightarrow> bool" where
  "informed s \<longleftrightarrow> (\<forall>t n h. knows (fl_pc s t) = Some (n, h) \<longrightarrow> freeListNext s n = h)
     \<and> (\<forall>t h r. fl_pc s t = GetCasRefs h r \<longrightarrow> r AND REFS_MASK \<noteq> 0)"

definition fl_inv :: "nat \<Rightarrow> (node \<Rightarrow> phase) \<Rightarrow> free_list \<Rightarrow> bool" where
  "fl_inv N ph s \<longleftrightarrow> owned ph (fl_pc s) \<and> counted N ph s \<and> informed s \<and> listed ph s
     \<and> (\<forall>n. n \<in> fl_held s \<longleftrightarrow> ph n = Held)"

lemmas fl_inv_defs = fl_inv_def owned_def counted_def informed_def listed_def

lemma temps_upd: "t < N \<Longrightarrow> temps N (pc(t := c)) n + temp_ref (pc t) n = temps N pc n + temp_ref c n"
proof -
  assume t: "t < N"
  have "temps N pc n = temp_ref (pc t) n + (\<Sum>u\<in>{..<N} - {t}. temp_ref (pc u) n)" for pc
    unfolding temps_def using t by (intro sum.remove) auto
  moreover have "(\<Sum>u\<in>{..<N} - {t}. temp_ref ((pc(t := c)) u) n) = (\<Sum>u\<in>{..<N} - {t}. temp_ref (pc u) n)"
    by (intro sum.cong) auto
  ultimately show ?thesis by simp
qed

lemma temp_ref_le: "temp_ref c n \<le> 1"
  by (cases c) auto

lemma temps_le: "temps N pc n \<le> N"
  unfolding temps_def using sum_bounded_above [of "{..<N}" "\<lambda>t. temp_ref (pc t) n" 1] temp_ref_le by auto

lemma temp_ref_temps: "t < N \<Longrightarrow> temp_ref (pc t) n \<le> temps N pc n"
  unfolding temps_def by (rule member_le_sum) auto

lemma chain_upd: "m \<notin> set L \<Longrightarrow> chain (nx(m := h)) x L = chain nx x L"
  by (induction L arbitrary: x) auto

lemma owns_thread: "owns t c = Some (n, p) \<Longrightarrow> phase_thread p = Some t"
  by (cases c) auto

lemma owned_update:
  assumes "owned ph pc"
    and old: "owns t (pc t) = None \<and> phase_thread (ph m) = None \<or> owns t (pc t) = Some (m, ph m)"
    and new: "owns t c = None \<and> phase_thread q = None \<or> owns t c = Some (m, q)"
  shows "owned (ph(m := q)) (pc(t := c))"
proof -
  have A: "owns u (pc u) = Some (n, p) \<Longrightarrow> ph n = p" for u n p using assms(1) by (simp add: owned_def)
  have B: "phase_thread (ph n) = Some u \<Longrightarrow> owns u (pc u) = Some (n, ph n)" for u n
    using assms(1) by (simp add: owned_def)
  have other: "n \<noteq> m" if "u \<noteq> t" "owns u (pc u) = Some (n, p)" for u n p
    using A [OF that(2)] owns_thread [OF that(2)] owns_thread [of t "pc t" m "ph m"] old that(1) by auto
  show ?thesis unfolding owned_def
  proof (intro conjI allI impI)
    fix u n p assume o: "owns u ((pc(t := c)) u) = Some (n, p)"
    show "(ph(m := q)) n = p"
    proof (cases "u = t")
      case True then show ?thesis using o new by auto
    next
      case False then show ?thesis using o A other by auto
    qed
  next
    fix n u assume p: "phase_thread ((ph(m := q)) n) = Some u"
    show "owns u ((pc(t := c)) u) = Some (n, (ph(m := q)) n)"
    proof (cases "n = m")
      case True then show ?thesis using p new owns_thread [of t c m q] by auto
    next
      case False
      then have "owns u (pc u) = Some (n, ph n)" using p B by auto
      moreover have "u \<noteq> t" using old calculation False by auto
      ultimately show ?thesis using False by simp
    qed
  qed
qed

lemma counted_update:
  assumes "counted N ph s" and t: "t < N"
    and elsewhere: "\<And>n. n \<noteq> m \<Longrightarrow> temp_ref (fl_pc s t) n = temp_ref c n"
    and r: "unat r = weight q + k" and k: "k + temp_ref (fl_pc s t) m = temps N (fl_pc s) m + temp_ref c m"
    and q: "q = Waiting \<Longrightarrow> 0 < k" "\<And>u. q = Pushing u \<Longrightarrow> k = 0"
    and s': "freeListRefs s' = (freeListRefs s)(m := r)" "fl_pc s' = (fl_pc s)(t := c)"
  shows "counted N (ph(m := q)) s'"
proof -
  have m: "temps N (fl_pc s') m = k" using temps_upd [OF t, of "fl_pc s" c m] k by (simp add: s'(2))
  have "temps N (fl_pc s') n = temps N (fl_pc s) n" if "n \<noteq> m" for n
    using temps_upd [OF t, of "fl_pc s" c n] elsewhere [OF that] by (simp add: s'(2))
  then show ?thesis using assms(1) m r q t by (auto simp: counted_def s')
qed

text \<open>A step that only moves a thread on.\<close>

lemma fl_inv_goto:
  assumes inv: "fl_inv N ph s" and t: "t < N"
    and same: "owns t c = owns t (fl_pc s t)" "\<And>n. temp_ref c n = temp_ref (fl_pc s t) n"
    and known: "\<And>n h. knows c = Some (n, h) \<Longrightarrow> freeListNext s n = h"
      "\<And>h r. c = GetCasRefs h r \<Longrightarrow> r AND REFS_MASK \<noteq> 0"
  shows "fl_inv N ph (goto t c s)"
proof -
  have "temps N ((fl_pc s)(t := c)) n = temps N (fl_pc s) n" for n
    using temps_upd [OF t, of "fl_pc s" c n] same(2) by simp
  moreover have "owned ph ((fl_pc s)(t := c))"
    using inv same(1) by (auto simp: fl_inv_def owned_def)
  moreover have "informed (goto t c s)"
    using inv known by (auto simp: fl_inv_def informed_def goto_def)
  ultimately show ?thesis using inv t by (auto simp: fl_inv_def counted_def listed_def goto_def)
qed

text \<open>A step that changes the phase or the count of one node.\<close>

lemma fl_inv_update:
  assumes inv: "fl_inv N ph s" and t: "t < N"
    and old: "owns t (fl_pc s t) = None \<and> phase_thread (ph m) = None \<or> owns t (fl_pc s t) = Some (m, ph m)"
    and new: "owns t c = None \<and> phase_thread q = None \<or> owns t c = Some (m, q)"
    and elsewhere: "\<And>n. n \<noteq> m \<Longrightarrow> temp_ref (fl_pc s t) n = temp_ref c n"
    and count: "unat (freeListRefs s' m) = weight q + k"
      "k + temp_ref (fl_pc s t) m = temps N (fl_pc s) m + temp_ref c m"
      "q = Waiting \<Longrightarrow> 0 < k" "\<And>u. q = Pushing u \<Longrightarrow> k = 0"
    and s': "\<And>n. n \<noteq> m \<Longrightarrow> freeListRefs s' n = freeListRefs s n" "fl_pc s' = (fl_pc s)(t := c)"
    and known: "informed s'" and list: "listed (ph(m := q)) s'"
    and held: "\<And>n. n \<in> fl_held s' \<longleftrightarrow> (ph(m := q)) n = Held"
  shows "fl_inv N (ph(m := q)) s'"
proof -
  have "freeListRefs s' = (freeListRefs s)(m := freeListRefs s' m)" using s'(1) by auto
  then have "counted N (ph(m := q)) s'"
    using counted_update [OF _ t elsewhere count] inv s'(2) by (simp add: fl_inv_def)
  moreover have "owned (ph(m := q)) (fl_pc s')"
    using owned_update [where ph = ph and pc = "fl_pc s", OF _ old new] inv s'(2) by (simp add: fl_inv_def)
  ultimately show ?thesis using known list held by (simp add: fl_inv_def)
qed

text \<open>A step that changes the count of a node of which another thread may own the phase.\<close>

lemma fl_inv_count:
  assumes inv: "fl_inv N ph s" and t: "t < N" and same: "owns t c = owns t (fl_pc s t)"
    and elsewhere: "\<And>n. n \<noteq> m \<Longrightarrow> temp_ref (fl_pc s t) n = temp_ref c n"
    and count: "unat r = weight (ph m) + k"
      "k + temp_ref (fl_pc s t) m = temps N (fl_pc s) m + temp_ref c m"
      "ph m = Waiting \<Longrightarrow> 0 < k" "\<And>u. ph m = Pushing u \<Longrightarrow> k = 0"
    and known: "knows c = None" "\<And>h r. c \<noteq> GetCasRefs h r"
  shows "fl_inv N ph (goto t c (set_refs m r s))"
proof -
  have "counted N (ph(m := ph m)) (goto t c (set_refs m r s))"
    by (rule counted_update [OF _ t elsewhere count(1, 2)])
      (use inv count(3, 4) in \<open>auto simp: fl_inv_def fl_sets\<close>)
  moreover have "owned ph ((fl_pc s)(t := c))"
    using inv same by (auto simp: fl_inv_def owned_def)
  moreover have "informed (goto t c (set_refs m r s))"
    using inv known by (auto simp: fl_inv_def informed_def fl_sets)
  ultimately show ?thesis using inv by (auto simp: fl_inv_def listed_def fl_sets)
qed

lemma informed_goto:
  assumes "informed s" and "freeListNext s' = freeListNext s" "fl_pc s' = (fl_pc s)(t := c)"
    and "\<And>n h. knows c = Some (n, h) \<Longrightarrow> freeListNext s n = h"
    and "\<And>h r. c = GetCasRefs h r \<Longrightarrow> r AND REFS_MASK \<noteq> 0"
  shows "informed s'"
  using assms by (auto simp: informed_def)

lemma listed_same:
  assumes "listed ph s" "freeListNext s' = freeListNext s" "freeListHead s' = freeListHead s"
    and "ph m = Listed \<longleftrightarrow> q = Listed"
  shows "listed (ph(m := q)) s'"
proof -
  have "{n. (ph(m := q)) n = Listed} = {n. ph n = Listed}" using assms(4) by auto
  then show ?thesis using assms by (simp add: listed_def)
qed

lemma get_loop_neutral [simp]:
  "owns t (get_loop h) = None" "temp_ref (get_loop h) n = 0" "knows (get_loop h) = None"
  "get_loop h \<noteq> GetCasRefs m r"
  by (cases h; simp)+

lemma push_done_neutral [simp]:
  "owns t (push_done c) = None" "temp_ref (push_done c) n = 0" "knows (push_done c) = None"
  "push_done c \<noteq> GetCasRefs m r"
  by (cases c; simp)+

text \<open>What the invariant says about the node a thread owns or refers to.\<close>

lemma fl_invD:
  assumes "fl_inv N ph s"
  shows "owned ph (fl_pc s)" "counted N ph s" "informed s" "listed ph s" "n \<in> fl_held s \<longleftrightarrow> ph n = Held"
    and "unat (freeListRefs s n) = weight (ph n) + temps N (fl_pc s) n"
  using assms by (auto simp: fl_inv_def counted_def)

lemma ownedD: "fl_inv N ph s \<Longrightarrow> owns t (fl_pc s t) = Some (n, p) \<Longrightarrow> ph n = p"
  by (auto simp: fl_inv_def owned_def)

lemma informedD: "informed s \<Longrightarrow> knows (fl_pc s t) = Some (n, h) \<Longrightarrow> freeListNext s n = h"
  by (auto simp: informed_def)

lemma unat_add32: "unat a + k < 2 ^ 32 \<Longrightarrow> unat b = k \<Longrightarrow> unat (a + b) = unat a + k" for a b :: "32 word"
  using unat_add_no_overflow [of a b] by simp

lemma should_bit: "unat SHOULD_BE_ON_FREELIST = 2 ^ 31"
  by (simp add: SHOULD_BE_ON_FREELIST_def)

lemma should_bit_iff: "bit SHOULD_BE_ON_FREELIST n \<longleftrightarrow> n = 31"
proof -
  have e: "SHOULD_BE_ON_FREELIST = push_bit 31 1" by (simp add: SHOULD_BE_ON_FREELIST_def)
  have "bit (push_bit 31 1 :: 32 word) n \<longleftrightarrow> n = 31"
    unfolding bit_push_bit_iff bit_1_iff by (auto simp: bit_1_iff)
  then show ?thesis unfolding e .
qed

lemma fl_add_inv:
  assumes inv: "fl_inv N ph s" and t: "t < N" and N: "N < 2 ^ 31" and pc: "fl_pc s t = AddRef n"
  shows "\<exists>ph'. fl_inv N ph' (fl_add t n s)"
proof -
  note d = fl_invD [OF inv]
  have ph: "ph n = Adding t" using ownedD [OF inv, of t] pc by simp
  define k where "k = temps N (fl_pc s) n"
  have r: "unat (freeListRefs s n) = k" using d(6) [of n] ph by (simp add: k_def)
  have kN: "k \<le> N" by (simp add: k_def temps_le)
  define q c where "q = (if k = 0 then Pushing t else Waiting)"
    and "c = (if k = 0 then PushLoad n ToCaller else Idle None)"
  have c: "(if freeListRefs s n = 0 then PushLoad n ToCaller else Idle None) = c"
    using r by (simp add: c_def unat_eq_zero_iff [symmetric] del: unat_eq_zero_iff)
  have r': "unat (freeListRefs s n + SHOULD_BE_ON_FREELIST) = weight q + k"
    using r kN N by (subst unat_add32 [OF _ should_bit]) (auto simp: q_def)
  have s': "fl_add t n s = goto t c (set_refs n (freeListRefs s n + SHOULD_BE_ON_FREELIST) s)"
    by (simp add: fl_add_def Let_def c)
  have "fl_inv N (ph(n := q)) (fl_add t n s)" unfolding s'
  proof (rule fl_inv_update [OF inv t, where c = c and k = k], goal_cases)
    case 10 then show ?case
      by (rule informed_goto [OF d(3), where t = t and c = c]) (auto simp: fl_sets c_def split: if_splits)
  next
    case 11 then show ?case
      by (rule listed_same [OF d(4)]) (auto simp: fl_sets ph q_def)
  qed (use pc ph d(5) r' in \<open>auto simp: fl_sets k_def c_def q_def split: if_splits\<close>)
  then show ?thesis by blast
qed

lemma push_next_inv:
  assumes inv: "fl_inv N ph s" and t: "t < N" and pc: "fl_pc s t = PushNext n h c"
  shows "fl_inv N ph (goto t (PushRefs n h c) (s\<lparr>freeListNext := (freeListNext s)(n := h)\<rparr>))"
proof -
  note d = fl_invD [OF inv]
  have ph: "ph n = Pushing t" using ownedD [OF inv, of t] pc by simp
  then have none: "temps N (fl_pc s) n = 0" using d(2) by (simp add: counted_def)
  have others: "knows (fl_pc s u) \<noteq> Some (n, x)" if "u \<noteq> t" for u x
  proof
    assume k: "knows (fl_pc s u) = Some (n, x)"
    have "u < N" using k d(2) by (cases "u < N") (auto simp: counted_def)
    then have "temp_ref (fl_pc s u) n = 0" using temp_ref_temps [of u N "fl_pc s" n] none by simp
    then show False using k ownedD [OF inv, of u] ph that(1) by (cases "fl_pc s u") auto
  qed
  obtain L where L: "chain (freeListNext s) (freeListHead s) L" "distinct L" "set L = {n. ph n = Listed}"
    using d(4) by (auto simp: listed_def)
  let ?s = "goto t (PushRefs n h c) (s\<lparr>freeListNext := (freeListNext s)(n := h)\<rparr>)"
  have "chain (freeListNext ?s) (freeListHead ?s) L"
    using L ph by (simp add: goto_def chain_upd)
  then have "listed (ph(n := ph n)) ?s" using L by (auto simp: listed_def)
  moreover have "informed ?s" using d(3) others by (auto simp: informed_def goto_def)
  ultimately have "fl_inv N (ph(n := ph n)) ?s"
    by (intro fl_inv_update [OF inv t, where c = "PushRefs n h c" and k = 0])
      (use pc ph d(5, 6) none in \<open>auto simp: goto_def\<close>)
  then show ?thesis by simp
qed

lemma push_refs_inv:
  assumes inv: "fl_inv N ph s" and t: "t < N" and pc: "fl_pc s t = PushRefs n h c"
  shows "fl_inv N (ph(n := Pending t)) (goto t (PushCas n h c) (set_refs n 1 s))"
proof -
  note d = fl_invD [OF inv]
  have ph: "ph n = Pushing t" using ownedD [OF inv, of t] pc by simp
  then have none: "temps N (fl_pc s) n = 0" using d(2) by (simp add: counted_def)
  have kn: "freeListNext s n = h" using informedD [OF d(3), of t] pc by simp
  show ?thesis
  proof (rule fl_inv_update [OF inv t, where c = "PushCas n h c" and k = 0], goal_cases)
    case 10 show ?case
      by (rule informed_goto [OF d(3), where t = t and c = "PushCas n h c"]) (auto simp: fl_sets kn)
  next
    case 11 show ?case by (rule listed_same [OF d(4)]) (auto simp: fl_sets ph)
  qed (use pc ph d(5) none in \<open>auto simp: fl_sets\<close>)
qed

lemma push_cas_inv:
  assumes inv: "fl_inv N ph s" and t: "t < N" and pc: "fl_pc s t = PushCas n h c"
    and hd: "freeListHead s = h"
  shows "fl_inv N (ph(n := Listed)) (goto t (push_done c) (s\<lparr>freeListHead := Some n\<rparr>))"
proof -
  note d = fl_invD [OF inv]
  have ph: "ph n = Pending t" using ownedD [OF inv, of t] pc by simp
  have kn: "freeListNext s n = h" using informedD [OF d(3), of t] pc by simp
  obtain L where L: "chain (freeListNext s) (freeListHead s) L" "distinct L" "set L = {n. ph n = Listed}"
    using d(4) by (auto simp: listed_def)
  let ?s = "goto t (push_done c) (s\<lparr>freeListHead := Some n\<rparr>)"
  have "chain (freeListNext ?s) (freeListHead ?s) (n # L)" using L kn hd by (simp add: goto_def)
  moreover have "distinct (n # L)" "set (n # L) = {m. (ph(n := Listed)) m = Listed}" using L ph by auto
  ultimately have lst: "listed (ph(n := Listed)) ?s" unfolding listed_def by blast
  show ?thesis
  proof (rule fl_inv_update [OF inv t, where c = "push_done c" and k = "temps N (fl_pc s) n"], goal_cases)
    case 10 show ?case
      by (rule informed_goto [OF d(3), where t = t and c = "push_done c"]) (auto simp: fl_sets)
  next
    case 11 show ?case by (rule lst)
  qed (use pc ph d(5, 6) in \<open>auto simp: fl_sets\<close>)
qed

lemma push_retry_inv:
  assumes inv: "fl_inv N ph s" and t: "t < N" and N: "N < 2 ^ 31 - 2" and pc: "fl_pc s t = PushRetry n h c"
  shows "\<exists>ph'. fl_inv N ph' (add_knowing_refcount_is_zero t (PushRetry n h c) s)"
proof -
  note d = fl_invD [OF inv]
  have ph: "ph n = Pending t" using ownedD [OF inv, of t] pc by simp
  define k where "k = temps N (fl_pc s) n"
  have r: "unat (freeListRefs s n) = 1 + k" using d(6) [of n] ph by (simp add: k_def)
  have kN: "k \<le> N" by (simp add: k_def temps_le)
  define q p where "q = (if k = 0 then Pushing t else Waiting)"
    and "p = (if k = 0 then PushNext n h c else push_done c)"
  have r': "unat (freeListRefs s n + (SHOULD_BE_ON_FREELIST - 1)) = weight q + k"
    using r kN N by (subst unat_add32 [where k = "2 ^ 31 - 1"]) (auto simp: q_def SHOULD_BE_ON_FREELIST_def)
  have one: "freeListRefs s n = 1 \<longleftrightarrow> k = 0"
    using r by (metis add_cancel_left_right unat_1 word_unat_eq_iff)
  have s': "add_knowing_refcount_is_zero t (PushRetry n h c) s
      = goto t p (set_refs n (freeListRefs s n + (SHOULD_BE_ON_FREELIST - 1)) s)"
    by (simp add: Let_def p_def one)
  have "fl_inv N (ph(n := q)) (add_knowing_refcount_is_zero t (PushRetry n h c) s)" unfolding s'
  proof (rule fl_inv_update [OF inv t, where c = p and k = k], goal_cases)
    case 10 show ?case
      by (rule informed_goto [OF d(3), where t = t and c = p]) (auto simp: fl_sets p_def split: if_splits)
  next
    case 11 show ?case by (rule listed_same [OF d(4)]) (auto simp: fl_sets ph q_def)
  qed (use pc ph d(5) r' in \<open>auto simp: fl_sets k_def p_def q_def split: if_splits\<close>)
  then show ?thesis by blast
qed

lemma get_cas_refs_inv:
  assumes inv: "fl_inv N ph s" and t: "t < N" and N: "N < 2 ^ 31 - 2" and pc: "fl_pc s t = GetCasRefs h r"
    and same: "freeListRefs s h = r"
  shows "fl_inv N ph (goto t (GetNext h) (set_refs h (r + 1) s))"
proof -
  note d = fl_invD [OF inv]
  have k: "unat r = weight (ph h) + temps N (fl_pc s) h" using d(6) [of h] same by simp
  have "r AND REFS_MASK \<noteq> 0" using d(3) pc by (auto simp: informed_def)
  moreover have "r AND REFS_MASK = take_bit 31 r"
    by (simp add: REFS_MASK_def take_bit_eq_mask mask_eq_exp_minus_1)
  ultimately have "take_bit 31 (unat r) \<noteq> 0"
    by (metis unsigned_take_bit_eq unat_eq_zero_iff)
  then have nz: "unat r mod 2 ^ 31 \<noteq> 0" by (simp add: take_bit_eq_mod)
  have no_push: "ph h \<noteq> Pushing u" for u
    using nz k d(2) by (auto simp: counted_def)
  have "weight (ph h) \<le> 2 ^ 31" by (cases "ph h") auto
  moreover have "temps N (fl_pc s) h \<le> N" by (rule temps_le)
  ultimately have "unat (r + 1) = weight (ph h) + (temps N (fl_pc s) h + 1)"
    using k N by (subst unat_add32 [where k = 1]) auto
  then show ?thesis
    by (intro fl_inv_count [OF inv t]) (use pc no_push in auto)
qed

lemma get_cas_head_inv:
  assumes inv: "fl_inv N ph s" and t: "t < N" and pc: "fl_pc s t = GetCasHead h nx"
    and hd: "freeListHead s = Some h"
  shows "fl_inv N (ph(h := Popped t)) (goto t (GetDrop h) (s\<lparr>freeListHead := nx\<rparr>))"
proof -
  note d = fl_invD [OF inv]
  have kn: "freeListNext s h = nx" using informedD [OF d(3), of t] pc by simp
  obtain L where L: "chain (freeListNext s) (freeListHead s) L" "distinct L" "set L = {n. ph n = Listed}"
    using d(4) by (auto simp: listed_def)
  then obtain L' where L': "L = h # L'" "chain (freeListNext s) nx L'" using hd kn by (cases L) auto
  have ph: "ph h = Listed" using L(3) L'(1) by auto
  have "set L' = {n. (ph(h := Popped t)) n = Listed}" using L(2, 3) L'(1) by auto
  then have lst: "listed (ph(h := Popped t)) (goto t (GetDrop h) (s\<lparr>freeListHead := nx\<rparr>))"
    using L(2) L' by (auto simp: listed_def goto_def)
  have pos: "1 \<le> temps N (fl_pc s) h" using temp_ref_temps [OF t, of "fl_pc s" h] pc by simp
  show ?thesis
  proof (rule fl_inv_update [OF inv t, where c = "GetDrop h" and k = "temps N (fl_pc s) h - 1"], goal_cases)
    case 10 show ?case
      by (rule informed_goto [OF d(3), where t = t and c = "GetDrop h"]) (auto simp: fl_sets)
  next
    case 11 show ?case by (rule lst)
  qed (use pc ph d(5, 6) pos in \<open>auto simp: fl_sets\<close>)
qed

lemma get_drop_inv:
  assumes inv: "fl_inv N ph s" and t: "t < N" and pc: "fl_pc s t = GetDrop h"
  shows "fl_inv N (ph(h := Held)) (try_get t (GetDrop h) s)"
proof -
  note d = fl_invD [OF inv]
  have ph: "ph h = Popped t" using ownedD [OF inv, of t] pc by simp
  have r: "unat (freeListRefs s h) = 2 + temps N (fl_pc s) h" using d(6) [of h] ph by simp
  have "unat (freeListRefs s h + (- 2)) = unat (freeListRefs s h) - 2"
    using unat_sub_le [of 2 "freeListRefs s h"] r by simp
  then have r': "unat (freeListRefs s h - 2) = temps N (fl_pc s) h" using r by simp
  show ?thesis
  proof (rule fl_inv_update [OF inv t, where c = "Idle (Some h)" and k = "temps N (fl_pc s) h"], goal_cases)
    case 10 show ?case
      by (rule informed_goto [OF d(3), where t = t and c = "Idle (Some h)"]) (auto simp: fl_sets)
  next
    case 11 show ?case by (rule listed_same [OF d(4)]) (auto simp: fl_sets ph)
  qed (use pc ph d(5) r' in \<open>auto simp: fl_sets\<close>)
qed

lemma get_undo_inv:
  assumes inv: "fl_inv N ph s" and t: "t < N" and N: "N < 2 ^ 31 - 2" and pc: "fl_pc s t = GetUndo p h"
  shows "\<exists>ph'. fl_inv N ph' (try_get t (GetUndo p h) s)"
proof -
  note d = fl_invD [OF inv]
  define k where "k = temps N (fl_pc s) p - 1"
  have pos: "1 \<le> temps N (fl_pc s) p" using temp_ref_temps [OF t, of "fl_pc s" p] pc by simp
  have kN: "k < N" using temps_le [of N "fl_pc s" p] pos t by (simp add: k_def)
  have r: "unat (freeListRefs s p) = weight (ph p) + k + 1" using d(6) [of p] pos by (simp add: k_def)
  have r': "unat (freeListRefs s p + (- 1)) = weight (ph p) + k"
    using unat_sub_le [of 1 "freeListRefs s p"] r by simp
  have no_push: "ph p \<noteq> Pushing u" for u using pos d(2) by (auto simp: counted_def)
  have "unat (SHOULD_BE_ON_FREELIST + 1) = 2 ^ 31 + 1" by (simp add: SHOULD_BE_ON_FREELIST_def)
  then have last: "freeListRefs s p = SHOULD_BE_ON_FREELIST + 1 \<longleftrightarrow> ph p = Waiting \<and> k = 0"
    using r kN N no_push by (cases "ph p") (auto simp: word_unat_eq_iff)
  show ?thesis
  proof (cases "ph p = Waiting \<and> k = 0")
    case True
    have "fl_inv N (ph(p := Pushing t)) (goto t (PushLoad p (ToLoop h)) (set_refs p (freeListRefs s p + (- 1)) s))"
    proof (rule fl_inv_update [OF inv t, where c = "PushLoad p (ToLoop h)" and k = 0], goal_cases)
      case 10 show ?case
        by (rule informed_goto [OF d(3), where t = t and c = "PushLoad p (ToLoop h)"]) (auto simp: fl_sets)
    next
      case 11 show ?case by (rule listed_same [OF d(4)]) (use True in \<open>auto simp: fl_sets\<close>)
    qed (use pc True d(5) r' pos in \<open>auto simp: fl_sets k_def\<close>)
    then show ?thesis using True last by (auto simp: Let_def)
  next
    case False
    have "fl_inv N ph (goto t (get_loop h) (set_refs p (freeListRefs s p + (- 1)) s))"
      by (rule fl_inv_count [OF inv t, where k = k]) (use pc False no_push r' pos in \<open>auto simp: k_def\<close>)
    then show ?thesis using False last by (auto simp: Let_def)
  qed
qed

text \<open>Every step keeps the invariant, for some change of the phases.\<close>

lemma push_inv:
  assumes inv: "fl_inv N ph s" and t: "t < N" and N: "N < 2 ^ 31 - 2"
  shows "\<exists>ph'. fl_inv N ph' (add_knowing_refcount_is_zero t (fl_pc s t) s)"
proof (cases "fl_pc s t")
  case (PushLoad n c)
  then have "fl_inv N ph (add_knowing_refcount_is_zero t (fl_pc s t) s)"
    using inv t by (auto intro!: fl_inv_goto)
  then show ?thesis by blast
next
  case (PushNext n h c)
  from push_next_inv [OF inv t this] show ?thesis unfolding PushNext by auto
next
  case (PushRefs n h c)
  from push_refs_inv [OF inv t this] show ?thesis unfolding PushRefs by auto
next
  case (PushCas n h c)
  show ?thesis
  proof (cases "freeListHead s = h")
    case True
    from push_cas_inv [OF inv t PushCas True] True show ?thesis unfolding PushCas by auto
  next
    case False
    have "fl_inv N ph (goto t (PushRetry n (freeListHead s) c) s)"
      using inv t PushCas by (intro fl_inv_goto) auto
    then show ?thesis unfolding PushCas using False by auto
  qed
next
  case (PushRetry n h c)
  from push_retry_inv [OF inv t N this] show ?thesis unfolding PushRetry .
qed (use inv in auto)

lemma get_inv:
  assumes inv: "fl_inv N ph s" and t: "t < N" and N: "N < 2 ^ 31 - 2"
  shows "\<exists>ph'. fl_inv N ph' (try_get t (fl_pc s t) s)"
proof (cases "fl_pc s t")
  case GetHead
  have "fl_inv N ph (goto t (get_loop (freeListHead s)) s)"
    using inv t GetHead by (intro fl_inv_goto) auto
  then show ?thesis unfolding GetHead by auto
next
  case (GetRefs h)
  have "fl_inv N ph (try_get t (GetRefs h) s)"
    using inv t GetRefs by (auto intro!: fl_inv_goto)
  then show ?thesis unfolding GetRefs by blast
next
  case (GetCasRefs h r)
  show ?thesis
  proof (cases "freeListRefs s h = r")
    case True
    from get_cas_refs_inv [OF inv t N GetCasRefs True] True show ?thesis unfolding GetCasRefs by auto
  next
    case False
    have "fl_inv N ph (goto t GetHead s)" using inv t GetCasRefs by (intro fl_inv_goto) auto
    then show ?thesis unfolding GetCasRefs using False by auto
  qed
next
  case (GetNext h)
  have "fl_inv N ph (goto t (GetCasHead h (freeListNext s h)) s)"
    using inv t GetNext by (intro fl_inv_goto) auto
  then show ?thesis unfolding GetNext by auto
next
  case (GetCasHead h nx)
  show ?thesis
  proof (cases "freeListHead s = Some h")
    case True
    from get_cas_head_inv [OF inv t GetCasHead True] True show ?thesis unfolding GetCasHead by auto
  next
    case False
    have "fl_inv N ph (goto t (GetUndo h (freeListHead s)) s)"
      using inv t GetCasHead by (intro fl_inv_goto) auto
    then show ?thesis unfolding GetCasHead using False by auto
  qed
next
  case (GetDrop h)
  from get_drop_inv [OF inv t this] show ?thesis unfolding GetDrop by blast
next
  case (GetUndo p h)
  from get_undo_inv [OF inv t N this] show ?thesis unfolding GetUndo .
qed (use inv in auto)

lemma fl_step_inv:
  assumes "fl_step N s s'" and inv: "fl_inv N ph s" and N: "N < 2 ^ 31 - 2"
  shows "\<exists>ph'. fl_inv N ph' s'"
  using assms(1)
proof cases
  case (call_add t r n)
  note d = fl_invD [OF inv]
  have ph: "ph n = Held" using call_add d(5) by simp
  have "fl_inv N (ph(n := Adding t)) s'" unfolding call_add(1)
  proof (rule fl_inv_update [OF inv, where t = t and c = "AddRef n" and k = "temps N (fl_pc s) n"], goal_cases)
    case 11 show ?case
      by (rule informed_goto [OF d(3), where t = t and c = "AddRef n"]) (auto simp: fl_sets)
  next
    case 12 show ?case by (rule listed_same [OF d(4)]) (auto simp: fl_sets ph)
  qed (use call_add ph d(5, 6) in \<open>auto simp: fl_sets\<close>)
  then show ?thesis by blast
next
  case (call_get t r)
  then have "fl_inv N ph s'" using inv by (auto intro!: fl_inv_goto)
  then show ?thesis by blast
next
  case (run t)
  have "N < 2 ^ 31" using N by simp
  then show ?thesis
    using run push_inv [OF inv run(2) N] get_inv [OF inv run(2) N] fl_add_inv [OF inv run(2)] inv
    by (cases "fl_pc s t") auto
qed

lemma fl_init_inv: "fl_inv N (\<lambda>_. Held) FreeList"
  by (auto simp: fl_inv_defs FreeList_def temps_def intro: exI [of _ "[]"])

lemma fl_reach_inv: "fl_reach N s \<Longrightarrow> N < 2 ^ 31 - 2 \<Longrightarrow> \<exists>ph. fl_inv N ph s"
  by (induction rule: fl_reach.induct) (use fl_init_inv fl_step_inv in blast)+

section \<open>What the callers can rely on\<close>

definition quiet :: "free_list \<Rightarrow> bool" where
  "quiet s \<longleftrightarrow> (\<forall>t. \<exists>r. fl_pc s t = Idle r)"

lemma quiet_phase:
  assumes inv: "fl_inv N ph s" and q: "quiet s"
  shows "ph n = Held \<or> ph n = Listed" "temps N (fl_pc s) n = 0"
proof -
  have "temp_ref (fl_pc s t) n = 0" for t using q by (metis quiet_def temp_ref.simps(4))
  then show z: "temps N (fl_pc s) n = 0" by (simp add: temps_def)
  have "owns t (fl_pc s t) = None" for t using q by (metis quiet_def owns.simps(8))
  then have "phase_thread (ph n) = None"
    using inv by (cases "phase_thread (ph n)") (auto simp: fl_inv_def owned_def)
  moreover have "ph n \<noteq> Waiting" using inv z by (auto simp: fl_inv_def counted_def)
  ultimately show "ph n = Held \<or> ph n = Listed" by (cases "ph n") auto
qed

text \<open>
  Claim C3.  The lock-free free list, under every interleaving of the atomic operations of up to
  $2^{31} - 3$ threads.  A node that \<^verbatim>\<open>try_get\<close> is about to return is in nobody's hands, no other
  thread is about to return it, and the assertion on its flag holds; the nodes reachable from the
  head form a finite list without repetition and none of them is in a caller's hands; and whenever
  no call is under way, every node that was given back is on the list, so none is lost.
\<close>

theorem free_list_safe:
  assumes "N < 2 ^ 31 - 2" "fl_reach N s"
  shows "(\<forall>t h. fl_pc s t = GetDrop h \<longrightarrow>
            freeListRefs s h AND SHOULD_BE_ON_FREELIST = 0 \<and> h \<notin> fl_held s
            \<and> (\<forall>u. fl_pc s u = GetDrop h \<longrightarrow> u = t))
    \<and> (\<exists>L. chain (freeListNext s) (freeListHead s) L \<and> distinct L \<and> set L \<inter> fl_held s = {}
         \<and> (quiet s \<longrightarrow> set L = - fl_held s))"
proof (intro conjI allI impI)
  obtain ph where inv: "fl_inv N ph s" using fl_reach_inv assms by blast
  note d = fl_invD [OF inv]
  {
    fix t h assume pc: "fl_pc s t = GetDrop h"
    have ph: "ph h = Popped t" using ownedD [OF inv, of t] pc by simp
    show "h \<notin> fl_held s" using ph d(5) by simp
    have "unat (freeListRefs s h) < 2 ^ 31"
      using d(6) [of h] ph temps_le [of N "fl_pc s" h] assms(1) by simp
    then have "take_bit 31 (freeListRefs s h) = freeListRefs s h"
      by (metis unsigned_take_bit_eq take_bit_nat_eq_self word_unat_eq_iff)
    then have "\<not> bit (freeListRefs s h) 31" by (metis bit_take_bit_iff less_irrefl)
    then show "freeListRefs s h AND SHOULD_BE_ON_FREELIST = 0"
      by (intro bit_word_eqI) (auto simp: bit_and_iff should_bit_iff)
    fix u assume "fl_pc s u = GetDrop h"
    then have "ph h = Popped u" using ownedD [OF inv, of u] by simp
    then show "u = t" using ph by simp
  }
  obtain L where L: "chain (freeListNext s) (freeListHead s) L" "distinct L" "set L = {n. ph n = Listed}"
    using d(4) by (auto simp: listed_def)
  moreover have "quiet s \<longrightarrow> set L = - fl_held s"
    using quiet_phase(1) [OF inv] L(3) d(5) by auto
  ultimately show "\<exists>L. chain (freeListNext s) (freeListHead s) L \<and> distinct L \<and> set L \<inter> fl_held s = {}
         \<and> (quiet s \<longrightarrow> set L = - fl_held s)" using d(5) by fastforce
qed

text \<open>A thread that runs alone.\<close>

primrec run_alone :: "nat \<Rightarrow> nat \<Rightarrow> free_list \<Rightarrow> free_list" where
  "run_alone t 0 s = s"
| "run_alone t (Suc k) s = run_alone t k (fl_atomic t (fl_pc s t) s)"

lemma quiet_refs:
  assumes inv: "fl_inv N ph s" and q: "quiet s"
  shows "n \<in> fl_held s \<Longrightarrow> freeListRefs s n = 0" "freeListHead s = Some n \<Longrightarrow> freeListRefs s n = 1"
proof -
  note d = fl_invD [OF inv]
  have r: "unat (freeListRefs s n) = weight (ph n)" using d(6) [of n] quiet_phase(2) [OF inv q] by simp
  show "freeListRefs s n = 0" if "n \<in> fl_held s" using r d(5) that by (simp add: unat_eq_zero_iff)
  show "freeListRefs s n = 1" if h: "freeListHead s = Some n"
  proof -
    obtain L where L: "chain (freeListNext s) (freeListHead s) L" "set L = {n. ph n = Listed}"
      using d(4) by (auto simp: listed_def)
    then have "ph n = Listed" using h by (cases L) auto
    then show ?thesis using r by (metis unat_1 weight.simps(6) word_unat_eq_iff)
  qed
qed

text \<open>
  Undisturbed calls of the free list.  In every reachable state without other calls,
  \<^verbatim>\<open>add\<close> finishes after five atomic operations with the node in front of the list, and
  \<^verbatim>\<open>try_get\<close> finishes after six with the front node, or after one with nothing when the list is
  empty: the free list is a stack.
\<close>

theorem free_list_alone:
  assumes "N < 2 ^ 31 - 2" "fl_reach N s" "quiet s" "n \<in> fl_held s"
  shows "(let s' = run_alone t 5 (goto t (AddRef n) (s\<lparr>fl_held := fl_held s - {n}\<rparr>))
          in fl_pc s' t = Idle None \<and> freeListHead s' = Some n \<and> freeListNext s' n = freeListHead s)
    \<and> (case freeListHead s of
         None \<Rightarrow> fl_pc (run_alone t 1 (goto t GetHead s)) t = Idle None
       | Some h \<Rightarrow> (let s' = run_alone t 6 (goto t GetHead s)
                   in fl_pc s' t = Idle (Some h) \<and> freeListHead s' = freeListNext s h))"
proof -
  obtain ph where inv: "fl_inv N ph s" using fl_reach_inv assms by blast
  note r = quiet_refs [OF inv assms(3)]
  have n: "freeListRefs s n = 0" using r(1) assms(4) by blast
  have "let s' = run_alone t 5 (goto t (AddRef n) (s\<lparr>fl_held := fl_held s - {n}\<rparr>))
          in fl_pc s' t = Idle None \<and> freeListHead s' = Some n \<and> freeListNext s' n = freeListHead s"
    by (simp add: numeral_eq_Suc fl_add_def fl_sets n)
  moreover have "fl_pc (run_alone t 1 (goto t GetHead s)) t = Idle None" if "freeListHead s = None"
    using that by (simp add: fl_sets)
  moreover have "let s' = run_alone t 6 (goto t GetHead s)
      in fl_pc s' t = Idle (Some h) \<and> freeListHead s' = freeListNext s h" if h: "freeListHead s = Some h" for h
    by (simp add: numeral_eq_Suc fl_sets h r(2) [OF h] REFS_MASK_def)
  ultimately show ?thesis by (simp split: option.split)
qed

text \<open>Node 3 is given back by thread 0; then thread 1 calls \<^verbatim>\<open>try_get\<close> up to its last operation.\<close>

definition fl_returned :: free_list where
  "fl_returned = run_alone 0 5 (goto 0 (AddRef 3) (FreeList\<lparr>fl_held := fl_held FreeList - {3}\<rparr>))"

definition fl_taking :: free_list where
  "fl_taking = run_alone 1 5 (goto 1 GetHead fl_returned)"

lemma run_alone_reach: "t < N \<Longrightarrow> fl_reach N s \<Longrightarrow> fl_reach N (run_alone t k s)"
  by (induction k arbitrary: s) (auto intro: fl_reach.step fl_step.run)

lemma fl_returned_eq:
  "fl_returned = \<lparr>freeListHead = Some 3, freeListRefs = (\<lambda>_. 0)(3 := 1), freeListNext = (\<lambda>_. None),
     fl_pc = (\<lambda>_. Idle None), fl_held = - {3}\<rparr>"
  by (auto simp: fl_returned_def numeral_eq_Suc FreeList_def fl_add_def fl_sets)

lemma fl_returned_reach: "fl_reach 2 fl_returned"
  unfolding fl_returned_def
  by (intro run_alone_reach fl_reach.step [OF fl_reach.init] fl_step.call_add [where r = None])
    (auto simp: FreeList_def)

lemma fl_taking_reach: "fl_reach 2 fl_taking"
  unfolding fl_taking_def
  by (intro run_alone_reach fl_reach.step [OF fl_returned_reach] fl_step.call_get [where r = None])
    (auto simp: fl_returned_eq)

theorem free_list_safe_witness:
  "fl_pc fl_taking 1 = GetDrop 3 \<and> 3 \<notin> fl_held fl_taking
   \<and> freeListRefs fl_taking 3 AND SHOULD_BE_ON_FREELIST = 0"
proof -
  have "fl_pc fl_taking 1 = GetDrop 3"
    by (simp add: fl_taking_def numeral_eq_Suc fl_returned_eq fl_sets REFS_MASK_def)
  then show ?thesis using free_list_safe [OF _ fl_taking_reach] by simp
qed

theorem free_list_alone_witness:
  "fl_pc (run_alone 1 6 (goto 1 GetHead fl_returned)) 1 = Idle (Some 3)"
proof -
  have "quiet fl_returned" by (simp add: quiet_def fl_returned_eq)
  then show ?thesis
    using free_list_alone [OF _ fl_returned_reach, of 4 1] by (simp add: fl_returned_eq Let_def)
qed

end
