(* ===== verification/CQ_Block.thy ===== *)
theory CQ_Block
  imports CQ_Util
begin

text \<open>
  \<^verbatim>\<open>Block\<close> of the lock-free queue
  (\<^verbatim>\<open>Source/Core/Private/Core/Utilities/Containers/ConcurrentQueue.h\<close>): the elements of a
  producer live in blocks of \<^verbatim>\<open>BLOCK_SIZE\<close> slots, and a block knows which of its slots have been
  emptied, by one flag per slot (explicit producers) or by a counter (implicit producers).
\<close>

unbundle bit_operations_syntax

section \<open>Data\<close>

datatype InnerQueueContext = implicit_context | explicit_context

text \<open>A slot holds no element before its construction and after its destruction.\<close>

record 'a block =
  elements :: "'a option list"
  block_next :: "nat option"
  elementsCompletelyDequeued :: "64 word"
  emptyFlags :: "bool list"
  dynamicallyAllocated :: bool

definition Block :: "'a block" where
  "Block = \<lparr>elements = replicate 32 None, block_next = None, elementsCompletelyDequeued = 0,
            emptyFlags = replicate 32 False, dynamicallyAllocated = True\<rparr>"

section \<open>Operations\<close>

definition uses_flags :: "InnerQueueContext \<Rightarrow> bool" where
  "uses_flags ctx \<longleftrightarrow> ctx = explicit_context \<and> BLOCK_SIZE \<le> EXPLICIT_BLOCK_EMPTY_COUNTER_THRESHOLD"

definition is_empty :: "InnerQueueContext \<Rightarrow> 'a block \<Rightarrow> bool" where
  "is_empty ctx b = (if uses_flags ctx then list_all id (emptyFlags b)
                     else elementsCompletelyDequeued b = BLOCK_SIZE)"

text \<open>The slot of an index; flags are stored from the back.\<close>

definition slot :: "64 word \<Rightarrow> nat" where
  "slot i = unat (i AND (BLOCK_SIZE - 1))"

definition set_empty :: "InnerQueueContext \<Rightarrow> 64 word \<Rightarrow> 'a block \<Rightarrow> bool \<times> 'a block" where
  "set_empty ctx i b =
     (if uses_flags ctx
      then (False, b\<lparr>emptyFlags := (emptyFlags b)[unat (BLOCK_SIZE - 1 - of_nat (slot i)) := True]\<rparr>)
      else (elementsCompletelyDequeued b = BLOCK_SIZE - 1,
            b\<lparr>elementsCompletelyDequeued := elementsCompletelyDequeued b + 1\<rparr>))"

text \<open>The loop that sets \<open>count\<close> flags from position \<open>i\<close> on.\<close>

primrec set_flags :: "nat \<Rightarrow> 64 word \<Rightarrow> bool list \<Rightarrow> bool list" where
  "set_flags 0 i fs = fs"
| "set_flags (Suc n) i fs = set_flags n (i + 1) (fs[unat i := True])"

definition set_many_empty :: "InnerQueueContext \<Rightarrow> 64 word \<Rightarrow> 64 word \<Rightarrow> 'a block \<Rightarrow> bool \<times> 'a block" where
  "set_many_empty ctx i count b =
     (if uses_flags ctx
      then (let i' = BLOCK_SIZE - 1 - of_nat (slot i) - count + 1
            in (False, b\<lparr>emptyFlags := set_flags (unat count) i' (emptyFlags b)\<rparr>))
      else (elementsCompletelyDequeued b + count = BLOCK_SIZE,
            b\<lparr>elementsCompletelyDequeued := elementsCompletelyDequeued b + count\<rparr>))"

definition set_all_empty :: "InnerQueueContext \<Rightarrow> 'a block \<Rightarrow> 'a block" where
  "set_all_empty ctx b =
     (if uses_flags ctx then b\<lparr>emptyFlags := replicate (unat BLOCK_SIZE) True\<rparr>
      else b\<lparr>elementsCompletelyDequeued := BLOCK_SIZE\<rparr>)"

definition reset_empty :: "InnerQueueContext \<Rightarrow> 'a block \<Rightarrow> 'a block" where
  "reset_empty ctx b =
     (if uses_flags ctx then b\<lparr>emptyFlags := replicate (unat BLOCK_SIZE) False\<rparr>
      else b\<lparr>elementsCompletelyDequeued := 0\<rparr>)"

text \<open>\<^verbatim>\<open>operator[]\<close>: reading a slot that holds no element, constructing and destroying an element.\<close>

definition block_get :: "64 word \<Rightarrow> 'a block \<Rightarrow> 'a option" where
  "block_get i b = elements b ! slot i"

definition block_put :: "64 word \<Rightarrow> 'a option \<Rightarrow> 'a block \<Rightarrow> 'a block" where
  "block_put i x b = b\<lparr>elements := (elements b)[slot i := x]\<rparr>"

section \<open>Slots and block bases\<close>

lemma slot_mod: "slot i = unat i mod 32"
proof -
  have "i AND (BLOCK_SIZE - 1) = take_bit 5 i"
    by (simp add: BLOCK_SIZE_def take_bit_eq_mask mask_eq_exp_minus_1)
  then show ?thesis by (simp add: slot_def take_bit_eq_mod unat_mod)
qed

lemma slot_less [simp]: "slot i < 32"
  by (simp add: slot_mod)

lemma slot_le: "slot i \<le> 31"
  using slot_less [of i] by linarith

lemma unat_add_mod32: "unat (a + b :: 64 word) mod 32 = (unat a + unat b) mod 32"
proof -
  have "(32 :: nat) dvd 2 ^ 64" by simp
  then show ?thesis by (simp add: unat_word_ariths mod_mod_cancel del: power_numeral)
qed

lemma slot_add: "slot (i + of_nat k) = (slot i + k) mod 32"
proof -
  have "unat (of_nat k :: 64 word) mod 32 = k mod 32"
    by (simp add: unat_of_nat mod_mod_cancel del: power_numeral) (simp add: mod_mod_cancel)
  then show ?thesis by (simp add: slot_mod unat_add_mod32 mod_add_left_eq) (metis mod_add_eq mod_add_left_eq)
qed

lemma base_diff: "i AND NOT (BLOCK_SIZE - 1) = i - of_nat (slot i)"
proof -
  have "(i AND NOT (BLOCK_SIZE - 1)) + (i AND (BLOCK_SIZE - 1)) = i"
    by (simp add: disjunctive_add bit_simps flip: bit.conj_disj_distrib)
  moreover have "of_nat (slot i) = i AND (BLOCK_SIZE - 1)" by (simp add: slot_def)
  ultimately show ?thesis by (metis add_diff_cancel_right')
qed

section \<open>Emptying slot by slot\<close>

lemma uses_flags_iff [simp]: "uses_flags ctx \<longleftrightarrow> ctx = explicit_context"
  by (simp add: uses_flags_def BLOCK_SIZE_def EXPLICIT_BLOCK_EMPTY_COUNTER_THRESHOLD_def)

lemma flag_position: "unat (BLOCK_SIZE - 1 - of_nat (slot i)) = 31 - slot i"
proof -
  have s: "unat (of_nat (slot i) :: 64 word) = slot i"
    using slot_less [of i] by (intro unat_of_nat_small) (rule less_trans, assumption, simp)
  then have "unat (31 - of_nat (slot i) :: 64 word) = unat (31 :: 64 word) - slot i"
    using slot_le [of i] by (subst unat_sub_le) simp_all
  then show ?thesis by (simp add: BLOCK_SIZE_def)
qed

lemma set_flags_nth:
  assumes "unat i + n \<le> length fs" "length fs \<le> 32"
  shows "length (set_flags n i fs) = length fs
    \<and> (\<forall>k<length fs. set_flags n i fs ! k = (fs ! k \<or> unat i \<le> k \<and> k < unat i + n))"
  using assms
proof (induction n arbitrary: i fs)
  case (Suc n)
  have "unat (i + 1) = unat i + 1" using Suc.prems by (subst unat_add_no_overflow) simp_all
  then show ?case using Suc.IH [of "i + 1" "fs[unat i := True]"] Suc.prems
    by (auto simp: nth_list_update)
qed auto

text \<open>The flags of the slots from \<open>i\<close> on that \<open>set_empty\<close> has visited.\<close>

primrec set_each_empty :: "InnerQueueContext \<Rightarrow> nat \<Rightarrow> 64 word \<Rightarrow> 'a block \<Rightarrow> 'a block" where
  "set_each_empty ctx 0 i b = b"
| "set_each_empty ctx (Suc n) i b = set_each_empty ctx n (i + 1) (snd (set_empty ctx i b))"

lemma set_each_empty_flags:
  assumes "slot i + n \<le> 32" "length (emptyFlags b) = 32"
  shows "\<exists>fs. set_each_empty explicit_context n i b = b\<lparr>emptyFlags := fs\<rparr> \<and> length fs = 32
     \<and> (\<forall>k<32. fs ! k = (emptyFlags b ! k \<or> 32 - slot i - n \<le> k \<and> k < 32 - slot i))"
  using assms
proof (induction n arbitrary: i b)
  case 0
  then show ?case by (intro exI [of _ "emptyFlags b"]) auto
next
  case (Suc n)
  let ?b = "b\<lparr>emptyFlags := (emptyFlags b)[31 - slot i := True]\<rparr>"
  show ?case
  proof (cases n)
    case 0
    then show ?thesis using Suc.prems
      by (intro exI [of _ "(emptyFlags b)[31 - slot i := True]"])
        (auto simp: set_empty_def flag_position nth_list_update)
  next
    case (Suc n')
    have s: "slot (i + 1) = slot i + 1" using slot_add [of i 1] Suc.prems Suc by simp
    obtain fs where fs: "set_each_empty explicit_context n (i + 1) ?b = ?b\<lparr>emptyFlags := fs\<rparr>" "length fs = 32"
      "\<forall>k<32. fs ! k = (emptyFlags ?b ! k \<or> 32 - slot (i + 1) - n \<le> k \<and> k < 32 - slot (i + 1))"
      using Suc.IH [of "i + 1" ?b] Suc.prems s by auto
    then show ?thesis using Suc.prems s
      by (intro exI [of _ fs]) (auto simp: set_empty_def flag_position nth_list_update)
  qed
qed

lemma set_each_empty_counter:
  "set_each_empty implicit_context n i b
     = b\<lparr>elementsCompletelyDequeued := elementsCompletelyDequeued b + of_nat n\<rparr>"
  by (induction n arbitrary: i b) (simp_all add: set_empty_def ac_simps)

lemma set_many_flags:
  assumes "slot i + unat count \<le> 32" "length (emptyFlags b) = 32" "0 < count"
  shows "\<exists>fs. set_many_empty explicit_context i count b = (False, b\<lparr>emptyFlags := fs\<rparr>) \<and> length fs = 32
     \<and> (\<forall>k<32. fs ! k = (emptyFlags b ! k \<or> 32 - slot i - unat count \<le> k \<and> k < 32 - slot i))"
proof -
  let ?i = "BLOCK_SIZE - 1 - of_nat (slot i) - count + 1"
  have c: "1 \<le> unat count" using assms(3) by (simp add: word_less_nat_alt)
  have e: "?i = (BLOCK_SIZE - 1 - of_nat (slot i)) - (count - 1)" by simp
  have "unat (count - 1) = unat count - 1" using c by (subst unat_sub_le) simp_all
  then have i: "unat ?i = 32 - slot i - unat count"
    unfolding e using c assms(1) flag_position [of i] by (subst unat_sub_le) simp_all
  show ?thesis
    using set_flags_nth [of ?i "unat count" "emptyFlags b"] assms i
    by (intro exI [of _ "set_flags (unat count) ?i (emptyFlags b)"])
      (auto simp: set_many_empty_def Let_def)
qed

lemma set_many_is_each:
  assumes "slot i + unat count \<le> 32" "length (emptyFlags b) = 32" "0 < count"
  shows "snd (set_many_empty ctx i count b) = set_each_empty ctx (unat count) i b"
proof (cases ctx)
  case implicit_context
  then show ?thesis by (simp add: set_many_empty_def set_each_empty_counter)
next
  case explicit_context
  obtain fs gs where "set_many_empty explicit_context i count b = (False, b\<lparr>emptyFlags := fs\<rparr>)"
    "set_each_empty explicit_context (unat count) i b = b\<lparr>emptyFlags := gs\<rparr>"
    "length fs = 32" "length gs = 32" "\<forall>k<32. fs ! k = gs ! k"
    using set_many_flags [OF assms] set_each_empty_flags [OF assms(1, 2)] by metis
  then show ?thesis by (simp add: explicit_context nth_equalityI)
qed

lemma each_empty_from_reset:
  assumes "slot i = 0" "n \<le> 32"
  shows "is_empty ctx (set_each_empty ctx n i (reset_empty ctx b)) \<longleftrightarrow> n = 32"
proof (cases ctx)
  case implicit_context
  have u: "unat (of_nat n :: 64 word) = n"
    using assms(2) by (intro unat_of_nat_small) (rule le_less_trans, assumption, simp)
  have "of_nat n = (32 :: 64 word) \<longleftrightarrow> n = 32"
    using u by (auto dest: arg_cong [where f = unat])
  then show ?thesis
    by (simp add: implicit_context set_each_empty_counter reset_empty_def is_empty_def BLOCK_SIZE_def)
next
  case explicit_context
  let ?b = "reset_empty explicit_context b"
  have l: "length (emptyFlags ?b) = 32" "\<forall>k<32. \<not> emptyFlags ?b ! k"
    by (simp_all add: reset_empty_def BLOCK_SIZE_def)
  obtain fs where fs: "set_each_empty explicit_context n i ?b = ?b\<lparr>emptyFlags := fs\<rparr>" "length fs = 32"
    "\<forall>k<32. fs ! k = (32 - n \<le> k)"
    using set_each_empty_flags [of i n ?b] assms l by auto
  have "list_all id fs \<longleftrightarrow> n = 32"
  proof
    assume "list_all id fs"
    then have "fs ! 0" using fs(2) by (simp add: list_all_length)
    then have "32 - n \<le> 0" using fs(3) by (metis zero_less_numeral)
    then show "n = 32" using assms(2) by simp
  qed (use fs in \<open>simp add: list_all_length\<close>)
  then show ?thesis using fs by (simp add: explicit_context is_empty_def)
qed

text \<open>
  The emptiness of a block.  Marking several slots at once is the same as marking them
  one after the other, for flags and for the counter; a block that was reset is found empty after
  its slots were marked from the first on exactly when all 32 were, whichever way it keeps track;
  and marking all slots at once makes it empty.
\<close>

theorem block_emptiness:
  assumes "slot i = 0" "n \<le> 32"
    and "slot j + unat count \<le> 32" "length (emptyFlags b) = 32" "0 < count"
  shows "snd (set_many_empty ctx j count b) = set_each_empty ctx (unat count) j b
    \<and> (is_empty ctx (set_each_empty ctx n i (reset_empty ctx b)) \<longleftrightarrow> n = 32)
    \<and> is_empty ctx (set_all_empty ctx b)"
proof -
  have "is_empty ctx (set_all_empty ctx b)" by (simp add: is_empty_def set_all_empty_def list_all_length)
  then show ?thesis using set_many_is_each [OF assms(3-5)] each_empty_from_reset [OF assms(1, 2)] by blast
qed

theorem block_emptiness_witness:
  "snd (set_many_empty explicit_context 35 4 (Block :: nat block))
     = set_each_empty explicit_context 4 35 Block
   \<and> is_empty implicit_context (set_each_empty implicit_context 32 64 (reset_empty implicit_context (Block :: nat block)))"
  using block_emptiness [of 64 32 35 4 "Block :: nat block" explicit_context]
    block_emptiness [of 64 32 35 4 "Block :: nat block" implicit_context]
  by (simp add: slot_mod Block_def)

section \<open>A queue laid out in blocks\<close>

text \<open>
  The queue \<open>q\<close> starts at slot \<open>hs\<close> of the first of the blocks \<open>bs\<close> and fills them in order.
\<close>

definition contents_ok :: "'a list \<Rightarrow> nat \<Rightarrow> nat list \<Rightarrow> (nat \<Rightarrow> 'a block) \<Rightarrow> bool" where
  "contents_ok q hs bs B \<longleftrightarrow> (\<forall>b. length (elements (B b)) = 32)
     \<and> (\<forall>i<length q. elements (B (bs ! ((hs + i) div 32))) ! ((hs + i) mod 32) = Some (q ! i))"

lemma contents_length: "contents_ok q hs bs B \<Longrightarrow> length (elements (B b)) = 32"
  by (simp add: contents_ok_def)

lemma contents_first: "contents_ok (x # q) hs bs B \<Longrightarrow> hs < 32 \<Longrightarrow> elements (B (bs ! 0)) ! hs = Some x"
  unfolding contents_ok_def by (elim conjE allE [where x = 0]) simp

lemma contents_more:
  assumes "contents_ok q hs bs B" "hs + length q \<le> 32 * length bs"
    and B': "\<And>b. b \<in> set bs \<Longrightarrow> elements (B' b) = elements (B b)" "\<And>b. length (elements (B' b)) = 32"
  shows "contents_ok q hs (bs @ cs) B'"
  unfolding contents_ok_def
proof (intro conjI allI impI)
  fix i assume i: "i < length q"
  then have lt: "(hs + i) div 32 < length bs" using assms(2) by (simp add: div_less_iff_less_mult)
  then show "elements (B' ((bs @ cs) ! ((hs + i) div 32))) ! ((hs + i) mod 32) = Some (q ! i)"
    using assms(1) i B'(1) [OF nth_mem [OF lt]] by (simp add: contents_ok_def nth_append)
qed (rule B'(2))

lemma contents_put:
  assumes ok: "contents_ok q hs bs B" and len: "length bs = Suc ((hs + length q) div 32)" and dist: "distinct bs"
    and B': "\<And>c. elements (B' c)
        = (if c = last bs then (elements (B c))[(hs + length q) mod 32 := Some x] else elements (B c))"
  shows "contents_ok (q @ [x]) hs bs B'"
  unfolding contents_ok_def
proof (intro conjI allI impI)
  let ?n = "length q"
  have l32: "length (elements (B c)) = 32" for c using ok by (rule contents_length)
  then show "length (elements (B' c)) = 32" for c by (simp add: B')
  have b: "last bs = bs ! ((hs + ?n) div 32)" using len by (simp add: last_conv_nth flip: length_0_conv)
  fix k assume "k < length (q @ [x])"
  then consider (new) "k = ?n" | (old) "k < ?n" by fastforce
  then show "elements (B' (bs ! ((hs + k) div 32))) ! ((hs + k) mod 32) = Some ((q @ [x]) ! k)"
  proof cases
    case new
    then show ?thesis using l32 by (simp add: B' b)
  next
    case old
    have "(hs + k) mod 32 \<noteq> (hs + ?n) mod 32" if "bs ! ((hs + k) div 32) = last bs"
    proof -
      have "(hs + k) div 32 = (hs + ?n) div 32"
        using that dist len old by (simp add: b nth_eq_iff_index_eq div_le_mono less_Suc_eq_le)
      then show ?thesis using old by (metis add_left_cancel div_mod_decomp less_irrefl)
    qed
    then show ?thesis using ok old by (auto simp: contents_ok_def B' nth_append)
  qed
qed

lemma contents_take:
  assumes ok: "contents_ok (x # q) hs bs B" and dist: "distinct bs" and fits: "hs + length (x # q) \<le> 32 * length bs"
    and B': "\<And>c. elements (B' c) = (if c = bs ! 0 then (elements (B c))[hs := None] else elements (B c))"
  shows "contents_ok q (Suc hs) bs B'" "hs = 31 \<Longrightarrow> contents_ok q 0 (tl bs) B'"
proof -
  have l32: "length (elements (B' c)) = 32" for c using contents_length [OF ok] by (simp add: B')
  have m: "0 < length bs" using fits by (cases bs) auto
  have get: "elements (B' (bs ! ((hs + Suc k) div 32))) ! ((hs + Suc k) mod 32) = Some (q ! k)"
    if k: "k < length q" for k
  proof -
    have old: "elements (B (bs ! ((hs + Suc k) div 32))) ! ((hs + Suc k) mod 32) = Some (q ! k)"
      using ok k unfolding contents_ok_def by fastforce
    have lt: "(hs + Suc k) div 32 < length bs" using fits k by (simp add: div_less_iff_less_mult)
    show ?thesis
    proof (cases "(hs + Suc k) div 32 = 0")
      case True
      then have "(hs + Suc k) mod 32 = hs + Suc k" by (simp add: div_eq_0_iff)
      then show ?thesis using old True by (simp add: B')
    next
      case False
      then have "bs ! ((hs + Suc k) div 32) \<noteq> bs ! 0" using dist m lt by (simp add: nth_eq_iff_index_eq)
      then show ?thesis using old by (simp add: B')
    qed
  qed
  then show "contents_ok q (Suc hs) bs B'" using l32 by (simp add: contents_ok_def)
  show "contents_ok q 0 (tl bs) B'" if h: "hs = 31" unfolding contents_ok_def
  proof (intro conjI allI impI)
    fix k assume k: "k < length q"
    have "31 + Suc k = k + 32" by simp
    then have d: "(hs + Suc k) div 32 = Suc (k div 32)" "(hs + Suc k) mod 32 = k mod 32"
      using h by (simp_all add: div_add_self2 mod_add_self2)
    have "Suc (k div 32) < length bs" using fits k h by (simp add: div_less_iff_less_mult flip: d(1))
    then show "elements (B' (tl bs ! ((0 + k) div 32))) ! ((0 + k) mod 32) = Some (q ! k)"
      using get [OF k] unfolding d by (simp add: nth_tl)
  qed (use l32 in blast)
qed

end
