(* ===== verification/CQ_Pool.thy ===== *)
theory CQ_Pool
  imports CQ_Block
begin

text \<open>
  What implicit and explicit producers of the lock-free queue share
  (\<^verbatim>\<open>Source/Core/Private/Core/Utilities/Containers/ConcurrentQueue.h\<close>): the fields of
  \<^verbatim>\<open>ProducerBase\<close>, and the block pool of the queue they belong to.  Blocks come from the initial
  pool, from the free list or from \<^verbatim>\<open>malloc\<close>.  The free list is the stack that
  \<^verbatim>\<open>FreeList\<close> is to undisturbed callers.
\<close>

unbundle bit_operations_syntax

section \<open>Data\<close>

datatype AllocationMode = CanAlloc | CannotAlloc

text \<open>A producer together with the parts of its parent it uses.\<close>

record 'a producer_base =
  tailIndex :: "64 word"
  headIndex :: "64 word"
  dequeueOptimisticCount :: "64 word"
  dequeueOvercommit :: "64 word"
  tailBlock :: "nat option"
  blocks :: "nat \<Rightarrow> 'a block"
  initialBlockPoolIndex :: "64 word"
  initialBlockPoolSize :: "64 word"
  freeList :: "nat list"
  blocks_used :: nat \<comment> \<open>addresses of blocks handed out by \<^verbatim>\<open>create<Block>\<close> so far\<close>

section \<open>The block pool\<close>

definition try_get_block_from_initial_pool :: "('a, 'z) producer_base_scheme \<Rightarrow> nat option \<times> ('a, 'z) producer_base_scheme" where
  "try_get_block_from_initial_pool p =
     (if initialBlockPoolIndex p \<ge> initialBlockPoolSize p then (None, p)
      else (let index = initialBlockPoolIndex p;
                p1 = p\<lparr>initialBlockPoolIndex := index + 1\<rparr>
            in (if index < initialBlockPoolSize p then Some (unat index) else None, p1)))"

definition add_block_to_free_list :: "nat \<Rightarrow> ('a, 'z) producer_base_scheme \<Rightarrow> ('a, 'z) producer_base_scheme" where
  "add_block_to_free_list b p = p\<lparr>freeList := b # freeList p\<rparr>"

definition try_get_block_from_free_list :: "('a, 'z) producer_base_scheme \<Rightarrow> nat option \<times> ('a, 'z) producer_base_scheme" where
  "try_get_block_from_free_list p =
     (case freeList p of [] \<Rightarrow> (None, p) | b # bs \<Rightarrow> (Some b, p\<lparr>freeList := bs\<rparr>))"

text \<open>\<^verbatim>\<open>create<Block>\<close>: \<open>malloc_ok\<close> is whether \<^verbatim>\<open>malloc\<close> returns memory.\<close>

definition create_block :: "bool \<Rightarrow> ('a, 'z) producer_base_scheme \<Rightarrow> nat option \<times> ('a, 'z) producer_base_scheme" where
  "create_block malloc_ok p =
     (if malloc_ok
      then (Some (blocks_used p),
            p\<lparr>blocks := (blocks p)(blocks_used p := Block), blocks_used := blocks_used p + 1\<rparr>)
      else (None, p))"

definition requisition_block :: "AllocationMode \<Rightarrow> bool \<Rightarrow> ('a, 'z) producer_base_scheme \<Rightarrow> nat option \<times> ('a, 'z) producer_base_scheme" where
  "requisition_block canAlloc malloc_ok p =
     (case try_get_block_from_initial_pool p of
        (Some b, p1) \<Rightarrow> (Some b, p1)
      | (None, p1) \<Rightarrow>
          (case try_get_block_from_free_list p1 of
             (Some b, p2) \<Rightarrow> (Some b, p2)
           | (None, p2) \<Rightarrow> if canAlloc = CanAlloc then create_block malloc_ok p2 else (None, p2)))"

definition upd_block :: "nat \<Rightarrow> ('a block \<Rightarrow> 'a block) \<Rightarrow> ('a, 'z) producer_base_scheme \<Rightarrow> ('a, 'z) producer_base_scheme" where
  "upd_block b f p = p\<lparr>blocks := (blocks p)(b := f (blocks p b))\<rparr>"

section \<open>Indices\<close>

definition size_approx :: "('a, 'z) producer_base_scheme \<Rightarrow> 64 word" where
  "size_approx p =
     (if circular_less_than (headIndex p) (tailIndex p) then tailIndex p - headIndex p else 0)"

text \<open>
  How the constructor of the element behaves: it is declared not to throw, or it may throw and
  does or does not this time.
\<close>

datatype ctor = Noexcept | MayThrow bool

datatype enqueue_result = Enqueued | Refused | Threw

definition is_full :: "64 word \<Rightarrow> 64 word \<Rightarrow> 64 word \<Rightarrow> bool" where
  "is_full max_size currentTailIndex head \<longleftrightarrow>
     \<not> circular_less_than head (currentTailIndex + BLOCK_SIZE)
     \<or> max_size \<noteq> const_numeric_max False
       \<and> (max_size = 0 \<or> max_size - BLOCK_SIZE < currentTailIndex - head)"

text \<open>
  An element leaves its slot even if assigning it to the result throws.
\<close>

datatype 'a dequeue_result = NothingThere | Got 'a | LostByThrow 'a

text \<open>The last part: construct the element in the tail block and publish the new tail.\<close>

definition enqueue_in_tail :: "ctor \<Rightarrow> 'a \<Rightarrow> ('a, 'z) producer_base_scheme \<Rightarrow> (enqueue_result \<times> ('a, 'z) producer_base_scheme) option" where
  "enqueue_in_tail c x p =
     (case tailBlock p of
        None \<Rightarrow> None
      | Some b \<Rightarrow>
          if c = MayThrow True then Some (Threw, p)
          else Some (Enqueued, (upd_block b (block_put (tailIndex p) (Some x)) p)\<lparr>tailIndex := 1 + tailIndex p\<rparr>))"

definition head_base :: "('a, 'z) producer_base_scheme \<Rightarrow> 64 word" where
  "head_base p = headIndex p - of_nat (slot (headIndex p))"

definition used_blocks :: "'a list \<Rightarrow> ('a, 'z) producer_base_scheme \<Rightarrow> nat" where
  "used_blocks q p = (slot (headIndex p) + length q + 31) div 32"

section \<open>Which blocks are free\<close>

definition unused_blocks :: "('a, 'z) producer_base_scheme \<Rightarrow> nat set" where
  "unused_blocks p = {unat (initialBlockPoolIndex p) ..< unat (initialBlockPoolSize p)} \<union> {blocks_used p ..}"

definition pool_ok :: "nat list \<Rightarrow> ('a, 'z) producer_base_scheme \<Rightarrow> bool" where
  "pool_ok bs p \<longleftrightarrow> distinct (bs @ freeList p) \<and> set (bs @ freeList p) \<inter> unused_blocks p = {}
     \<and> unat (initialBlockPoolSize p) \<le> blocks_used p"

lemma pool_ok_cong:
  "initialBlockPoolIndex p' = initialBlockPoolIndex p \<Longrightarrow> initialBlockPoolSize p' = initialBlockPoolSize p
   \<Longrightarrow> freeList p' = freeList p \<Longrightarrow> blocks_used p' = blocks_used p \<Longrightarrow> pool_ok bs p' = pool_ok bs p"
  by (simp add: pool_ok_def unused_blocks_def)

lemma unat_add_small: "unat a + k < 2 ^ 64 \<Longrightarrow> unat (a + of_nat k :: 64 word) = unat a + k"
  using unat_add_no_overflow [of a "of_nat k"] unat_of_nat_small [of k, where 'a = 64] by simp

text \<open>What a step on the pool may change.\<close>

definition pool_changed :: "('a, 'z) producer_base_scheme \<Rightarrow> ('a, 'z) producer_base_scheme \<Rightarrow> bool" where
  "pool_changed p p' \<longleftrightarrow> tailIndex p' = tailIndex p \<and> headIndex p' = headIndex p
     \<and> dequeueOptimisticCount p' = dequeueOptimisticCount p \<and> dequeueOvercommit p' = dequeueOvercommit p
     \<and> tailBlock p' = tailBlock p \<and> producer_base.more p' = producer_base.more p"

lemma requisition_spec:
  assumes "requisition_block mode ok p = (r, p')" "pool_ok bs p" "\<forall>b. length (elements (blocks p b)) = 32"
  shows "pool_changed p p' \<and> (r = None \<longrightarrow> pool_ok bs p' \<and> blocks p' = blocks p)
    \<and> (\<forall>b. r = Some b \<longrightarrow> pool_ok (bs @ [b]) p' \<and> (\<forall>c. c \<noteq> b \<longrightarrow> blocks p' c = blocks p c)
         \<and> (\<forall>c. length (elements (blocks p' c)) = 32)
         \<and> (blocks p' b = blocks p b \<or> blocks p' b = Block))"
proof -
  let ?i = "initialBlockPoolIndex p" and ?n = "initialBlockPoolSize p"
  consider (pool) "?i < ?n" "\<not> ?n \<le> ?i" | (free) b bs' where "?n \<le> ?i" "freeList p = b # bs'"
    | (new) "?n \<le> ?i" "freeList p = []" "mode = CanAlloc" "ok"
    | (fail) "?n \<le> ?i" "freeList p = []" "\<not> (mode = CanAlloc \<and> ok)"
    by (cases "freeList p"; cases "?n \<le> ?i") auto
  then show ?thesis
  proof cases
    case pool
    then have r: "r = Some (unat ?i)" "p' = p\<lparr>initialBlockPoolIndex := ?i + 1\<rparr>"
      using assms(1) pool by (auto simp: requisition_block_def try_get_block_from_initial_pool_def Let_def)
    have lt: "unat ?i < unat ?n" using pool by (simp add: word_less_nat_alt)
    have "unat (?i + of_nat 1) = unat ?i + 1"
      using lt unat_bound [of ?n] by (intro unat_add_small) simp
    then have "unused_blocks p' = unused_blocks p - {unat ?i}" "unat ?i \<in> unused_blocks p"
      using lt assms(2) by (auto simp: unused_blocks_def r(2) pool_ok_def)
    then have "pool_ok (bs @ [unat ?i]) p'" using assms(2) by (auto simp: pool_ok_def r(2))
    then show ?thesis using r assms(3) by (auto simp: pool_changed_def Block_def)
  next
    case free
    then have r: "r = Some b" "p' = p\<lparr>freeList := bs'\<rparr>"
      using assms(1) by (auto simp: requisition_block_def try_get_block_from_initial_pool_def
          try_get_block_from_free_list_def)
    have "pool_ok (bs @ [b]) p'" using assms(2) free by (auto simp: pool_ok_def r unused_blocks_def)
    then show ?thesis using r assms(3) by (auto simp: pool_changed_def Block_def)
  next
    case new
    let ?b = "blocks_used p"
    have r: "r = Some ?b" "p' = p\<lparr>blocks := (blocks p)(?b := Block), blocks_used := ?b + 1\<rparr>"
      using assms(1) new by (auto simp: requisition_block_def try_get_block_from_initial_pool_def
          try_get_block_from_free_list_def create_block_def)
    have "pool_ok (bs @ [?b]) p'"
      using assms(2) new by (auto simp: pool_ok_def r unused_blocks_def word_less_nat_alt)
    then show ?thesis using r assms(3) by (auto simp: pool_changed_def Block_def)
  next
    case fail
    then have "r = None" "p' = p"
      using assms(1) by (auto simp: requisition_block_def try_get_block_from_initial_pool_def
          try_get_block_from_free_list_def create_block_def split: if_splits)
    then show ?thesis using assms(2) by (auto simp: pool_changed_def)
  qed
qed

section \<open>Block bases\<close>

lemma head_base_slot: "slot (head_base p) = 0"
proof -
  define a o' where "a = slot (head_base p)" and "o' = slot (headIndex p)"
  have lt: "a < 32" "o' < 32" by (simp_all add: a_def o'_def)
  have "o' = (a + o') mod 32"
    using slot_add [of "head_base p" "slot (headIndex p)"] by (simp add: head_base_def a_def o'_def)
  moreover have "(a + o') mod 32 = (if a + o' < 32 then a + o' else a + o' - 32)"
    using lt by (simp add: le_mod_geq)
  ultimately have "a = 0" using lt by (simp split: if_splits)
  then show ?thesis by (simp add: a_def)
qed

lemma tail_slot: "tailIndex p = headIndex p + of_nat n \<Longrightarrow> slot (tailIndex p) = (slot (headIndex p) + n) mod 32"
  by (simp add: slot_add)

lemma round_up_32:
  fixes k :: nat
  assumes "k mod 32 \<noteq> 0"
  shows "(k + 31) div 32 = Suc (k div 32)"
proof -
  define a r where "a = k div 32" and "r = k mod 32"
  have "k = 32 * a + r" "0 < r" "r < 32" using assms by (simp_all add: a_def r_def)
  then have "k + 31 = (r - 1) + 32 * Suc a" "r - 1 < 32" by simp_all
  then have "(k + 31) div 32 = Suc a" by (simp only: div_mult_self2 div_less)
  then show ?thesis by (simp add: a_def)
qed

section \<open>Positions in a ring\<close>

text \<open>The sizes of rings are powers of two that memory can hold.\<close>

definition ring_size :: "64 word \<Rightarrow> bool" where
  "ring_size c \<longleftrightarrow> (\<exists>j. 5 \<le> j \<and> j \<le> 57 \<and> unat c = 2 ^ j)"

lemma ring_sizeD:
  assumes "ring_size c"
  shows "32 \<le> unat c" "unat c \<le> 2 ^ 57" "unat c dvd 2 ^ 59"
proof -
  obtain j where j: "5 \<le> j" "j \<le> 57" "unat c = 2 ^ j" using assms by (auto simp: ring_size_def)
  show "32 \<le> unat c" using power_increasing [OF j(1), of "2 :: nat"] j(3) by simp
  show "unat c \<le> 2 ^ 57" using power_increasing [OF j(2), of "2 :: nat"] j(3) by simp
  show "unat c dvd 2 ^ 59" unfolding j(3) by (rule le_imp_power_dvd) (use j(2) in simp)
qed

lemma ring_size_double:
  assumes "ring_size c" "unat (push_bit 1 c) \<le> 2 ^ 57"
  shows "ring_size (push_bit 1 c)" "unat (push_bit 1 c) = 2 * unat c"
proof -
  obtain j where j: "5 \<le> j" "unat c = 2 ^ j" using assms by (auto simp: ring_size_def)
  show c2: "unat (push_bit 1 c) = 2 * unat c"
    using ring_sizeD(2) [OF assms(1)] by (simp add: push_bit_eq_mult unat_word_ariths mult.commute)
  then have "unat (push_bit 1 c) = 2 ^ Suc j" using j by simp
  moreover from this have "Suc j \<le> 57" using assms(2) by (metis power_le_imp_le_exp one_less_numeral_iff semiring_norm(76))
  ultimately show "ring_size (push_bit 1 c)" using j unfolding ring_size_def by (intro exI [of _ "Suc j"]) simp
qed

lemma ring_size_and:
  assumes "ring_size c"
  shows "unat (x AND (c - 1)) = unat x mod unat c"
proof -
  obtain j where j: "5 \<le> j" "j \<le> 57" "unat c = 2 ^ j" using assms by (auto simp: ring_size_def)
  have "c = 2 ^ j" using j unat_two_power [where n = j and 'a = 64] by (simp add: word_unat_eq_iff)
  then have "x AND (c - 1) = take_bit j x" by (simp add: take_bit_eq_mask mask_eq_exp_minus_1)
  also have "\<dots> = x mod 2 ^ j" by (rule take_bit_eq_mod)
  finally show ?thesis using j by (simp add: unat_mod unat_two_power)
qed

lemma ring_next:
  assumes "ring_size c" "unat t < unat c"
  shows "unat ((t + 1) AND (c - 1)) = Suc (unat t) mod unat c"
proof -
  have "unat (t + of_nat 1) = unat t + 1"
    using ring_sizeD [OF assms(1)] assms(2) by (intro unat_add_small) simp
  then show ?thesis using ring_size_and [OF assms(1)] by simp
qed

lemma ring_prev:
  assumes "ring_size c" "unat t < unat c"
  shows "Suc (unat ((t - 1) AND (c - 1))) mod unat c = unat t"
proof (cases "t = 0")
  case True
  have "unat (c - 1) = unat c - 1" using ring_sizeD(1) [OF assms(1)] by (subst unat_sub_le) simp_all
  then show ?thesis using True ring_sizeD(1) [OF assms(1)] by simp
next
  case False
  then have "unat (t - 1) = unat t - 1" "0 < unat t" by (simp_all add: unat_minus_one unat_gt_0)
  then show ?thesis using assms ring_size_and [OF assms(1)] by simp
qed

text \<open>
  The position \<open>d\<close> blocks before the newest one.  The code casts the difference of the base indices
  to a signed type, but \<^verbatim>\<open>BLOCK_SIZE\<close> is unsigned of the same width, so the division is unsigned: the
  quotient is off by $2^{59}$, which every ring size divides.
\<close>

lemma ring_position:
  assumes c: "ring_size c" and t: "unat t < unat c" and d: "d < unat c"
  shows "unat ((t + (- of_nat (32 * d)) div BLOCK_SIZE) AND (c - 1)) = (unat t + (unat c - d)) mod unat c"
proof -
  note o = ring_sizeD [OF c]
  define k where "k = unat ((- of_nat (32 * d) :: 64 word) div BLOCK_SIZE)"
  have d32: "32 * d < 2 ^ 64" using d o(2) by simp
  have k: "k = (if d = 0 then 0 else 2 ^ 59 - d)"
  proof (cases "d = 0")
    case False
    have "unat (of_nat (32 * d) :: 64 word) = 32 * d" using d32 by (intro unat_of_nat_small) simp
    then have "unat (- of_nat (32 * d) :: 64 word) = 2 ^ 64 - 32 * d"
      using unat_uminus [of "of_nat (32 * d) :: 64 word"] False d32 by (auto simp del: of_nat_mult)
    then have "k = (2 ^ 64 - 32 * d) div 32" by (simp add: k_def unat_div BLOCK_SIZE_def del: of_nat_mult)
    also have "2 ^ 64 - 32 * d = 32 * (2 ^ 59 - d)" by (simp add: diff_mult_distrib2)
    finally show ?thesis using False by simp
  qed (simp add: k_def)
  have "(unat t + k) mod unat c = (unat t + (unat c - d)) mod unat c"
  proof (cases "d = 0")
    case False
    obtain a where a: "2 ^ 59 = unat c * a" using o(3) unfolding dvd_def by blast
    have "1 \<le> a" using a by (cases a) auto
    then have "unat t + k = (unat t + (unat c - d)) + unat c * (a - 1)"
      using k False d a o(2) by (simp add: algebra_simps diff_mult_distrib2)
    then show ?thesis by (simp only: mod_mult_self2)
  qed (use k in simp)
  moreover have "unat (t + (- of_nat (32 * d)) div BLOCK_SIZE) = unat t + k"
  proof -
    have "unat t + k < 2 ^ 64" using k o t by (simp split: if_splits)
    then show ?thesis unfolding k_def by (intro unat_add_no_overflow) simp
  qed
  ultimately show ?thesis by (simp only: ring_size_and [OF c])
qed

end
