(* ===== verification/CQ_Implicit.thy ===== *)
theory CQ_Implicit
  imports CQ_Pool
begin

text \<open>
  \<^verbatim>\<open>ImplicitProducer\<close> and the block pool of the lock-free queue
  (\<^verbatim>\<open>Source/Core/Private/Core/Utilities/Containers/ConcurrentQueue.h\<close>), call by call.  Elements
  are constructed in blocks that come from the initial pool, from the free list or from
  \<^verbatim>\<open>malloc\<close>; a ring of index entries maps the base index of a block to the block, and grows when
  it is full.  Indices are 64-bit and wrap around.  Each call is one step here; that calls of
  different threads may overlap is the subject of the free list and of the dequeue protocol.  The
  free list is the stack that \<^verbatim>\<open>FreeList\<close> is to undisturbed callers.
\<close>

unbundle bit_operations_syntax

section \<open>Data\<close>

record BlockIndexHeader =
  capacity :: "64 word"
  bi_tail :: "64 word"
  bi_index :: "nat list" \<comment> \<open>pointers to entries, which a larger index shares\<close>

text \<open>An implicit producer, with the entries it points to.\<close>

record 'a producer = "'a producer_base" +
  nextBlockIndexCapacity :: "64 word"
  blockIndex :: "BlockIndexHeader option"
  entry_key :: "nat \<Rightarrow> 64 word"
  entry_value :: "nat \<Rightarrow> nat option"
  entries_used :: nat \<comment> \<open>addresses of entries handed out so far\<close>

definition INVALID_BLOCK_BASE :: "64 word" where
  "INVALID_BLOCK_BASE = 1"

section \<open>The block index\<close>

text \<open>
  A larger index: the entries of the old one from the oldest on, then as many new ones.  A new
  entry has an invalid key; its value is not initialised and not read before it is stored.
\<close>

definition new_block_index :: "bool \<Rightarrow> 'a producer \<Rightarrow> bool \<times> 'a producer" where
  "new_block_index malloc_ok p =
     (let prevCapacity = (case blockIndex p of None \<Rightarrow> 0 | Some h \<Rightarrow> capacity h);
          entryCount = (case blockIndex p of None \<Rightarrow> nextBlockIndexCapacity p | Some h \<Rightarrow> prevCapacity);
          fresh = [entries_used p ..< entries_used p + unat entryCount];
          old = (case blockIndex p of
                   None \<Rightarrow> []
                 | Some h \<Rightarrow> map (\<lambda>k. bi_index h ! unat ((bi_tail h + 1 + of_nat k) AND (capacity h - 1)))
                               [0 ..< unat prevCapacity])
      in if \<not> malloc_ok then (False, p)
         else (True,
           p\<lparr>blockIndex := Some \<lparr>capacity = nextBlockIndexCapacity p,
                                 bi_tail = (prevCapacity - 1) AND (nextBlockIndexCapacity p - 1),
                                 bi_index = old @ fresh\<rparr>,
             entry_key := (\<lambda>e. if e \<in> set fresh then INVALID_BLOCK_BASE else entry_key p e),
             entries_used := entries_used p + unat entryCount,
             nextBlockIndexCapacity := push_bit 1 (nextBlockIndexCapacity p)\<rparr>))"

text \<open>The next slot of the ring, when there is an index; without one the code follows a null pointer.\<close>

definition next_slot :: "'a producer \<Rightarrow> (64 word \<times> nat) option" where
  "next_slot p =
     (case blockIndex p of
        None \<Rightarrow> None
      | Some h \<Rightarrow> (let newTail = (bi_tail h + 1) AND (capacity h - 1)
                  in Some (newTail, bi_index h ! unat newTail)))"

definition set_bi_tail :: "64 word \<Rightarrow> 'a producer \<Rightarrow> 'a producer" where
  "set_bi_tail t p = p\<lparr>blockIndex := map_option (\<lambda>h. h\<lparr>bi_tail := t\<rparr>) (blockIndex p)\<rparr>"

definition set_entry_key :: "nat \<Rightarrow> 64 word \<Rightarrow> 'a producer \<Rightarrow> 'a producer" where
  "set_entry_key e k p = p\<lparr>entry_key := (entry_key p)(e := k)\<rparr>"

definition set_entry_value :: "nat \<Rightarrow> nat option \<Rightarrow> 'a producer \<Rightarrow> 'a producer" where
  "set_entry_value e v p = p\<lparr>entry_value := (entry_value p)(e := v)\<rparr>"

text \<open>The result is undefined (\<^term>\<open>None\<close>), or the entry if there was room.\<close>

definition insert_block_index_entry ::
  "AllocationMode \<Rightarrow> bool \<Rightarrow> 64 word \<Rightarrow> 'a producer \<Rightarrow> (nat option \<times> 'a producer) option" where
  "insert_block_index_entry allocMode malloc_ok blockStartIndex p =
     (case next_slot p of
        None \<Rightarrow> None
      | Some (newTail, e) \<Rightarrow>
          if entry_key p e = INVALID_BLOCK_BASE \<or> entry_value p e = None
          then Some (Some e, set_bi_tail newTail (set_entry_key e blockStartIndex p))
          else if allocMode = CannotAlloc then Some (None, p)
          else (case new_block_index malloc_ok p of
                  (False, p1) \<Rightarrow> Some (None, p1)
                | (True, p1) \<Rightarrow>
                    (case next_slot p1 of
                       None \<Rightarrow> None
                     | Some (newTail1, e1) \<Rightarrow>
                         Some (Some e1, set_bi_tail newTail1 (set_entry_key e1 blockStartIndex p1)))))"

definition rewind_block_index_tail :: "'a producer \<Rightarrow> 'a producer" where
  "rewind_block_index_tail p =
     p\<lparr>blockIndex := map_option (\<lambda>h. h\<lparr>bi_tail := (bi_tail h - 1) AND (capacity h - 1)\<rparr>) (blockIndex p)\<rparr>"

text \<open>
  The distance to the newest base, in blocks.  The code casts the difference to a signed type, but
  \<^verbatim>\<open>BLOCK_SIZE\<close> is unsigned of the same width, so the division is unsigned.
\<close>

definition get_block_index_index_for_index :: "64 word \<Rightarrow> BlockIndexHeader \<Rightarrow> 'a producer \<Rightarrow> 64 word" where
  "get_block_index_index_for_index index h p =
     (let base = index AND NOT (BLOCK_SIZE - 1);
          tailBase = entry_key p (bi_index h ! unat (bi_tail h));
          offset = (base - tailBase) div BLOCK_SIZE
      in (bi_tail h + offset) AND (capacity h - 1))"

definition get_block_index_entry_for_index :: "64 word \<Rightarrow> 'a producer \<Rightarrow> nat option" where
  "get_block_index_entry_for_index index p =
     map_option (\<lambda>h. bi_index h ! unat (get_block_index_index_for_index index h p)) (blockIndex p)"

section \<open>The producer\<close>

definition ImplicitProducer :: "bool \<Rightarrow> 64 word \<Rightarrow> 'a producer" where
  "ImplicitProducer malloc_ok poolSize =
     snd (new_block_index malloc_ok
       \<lparr>tailIndex = 0, headIndex = 0, dequeueOptimisticCount = 0, dequeueOvercommit = 0, tailBlock = None,
        blocks = (\<lambda>_. Block\<lparr>dynamicallyAllocated := False\<rparr>),
        initialBlockPoolIndex = 0, initialBlockPoolSize = poolSize, freeList = [],
        blocks_used = unat poolSize,
        nextBlockIndexCapacity = IMPLICIT_INITIAL_INDEX_SIZE, blockIndex = None,
        entry_key = (\<lambda>_. 0), entry_value = (\<lambda>_. None), entries_used = 0\<rparr>)"

text \<open>
  A new block for the index at a block boundary.  \<open>index_ok\<close> and \<open>block_ok\<close> are whether the
  allocations of an index and of a block succeed, if they are made.
\<close>

definition enqueue ::
  "64 word \<Rightarrow> AllocationMode \<Rightarrow> bool \<Rightarrow> bool \<Rightarrow> ctor \<Rightarrow> 'a \<Rightarrow> 'a producer
     \<Rightarrow> (enqueue_result \<times> 'a producer) option" where
  "enqueue max_size allocMode index_ok block_ok c x p =
     (let currentTailIndex = tailIndex p
      in if currentTailIndex AND (BLOCK_SIZE - 1) = 0 then
           if is_full max_size currentTailIndex (headIndex p) then Some (Refused, p)
           else (case insert_block_index_entry allocMode index_ok currentTailIndex p of
             None \<Rightarrow> None
           | Some (None, p1) \<Rightarrow> Some (Refused, p1)
           | Some (Some idxEntry, p1) \<Rightarrow>
               (case requisition_block allocMode block_ok p1 of
                  (None, p2) \<Rightarrow> Some (Refused, set_entry_value idxEntry None (rewind_block_index_tail p2))
                | (Some newBlock, p2) \<Rightarrow>
                    (let p3 = upd_block newBlock (reset_empty implicit_context) p2
                     in if c = MayThrow True
                        then Some (Threw, add_block_to_free_list newBlock
                                            (set_entry_value idxEntry None (rewind_block_index_tail p3)))
                        else enqueue_in_tail c x
                               ((set_entry_value idxEntry (Some newBlock) p3)\<lparr>tailBlock := Some newBlock\<rparr>))))
         else enqueue_in_tail c x p)"

definition dequeue :: "bool \<Rightarrow> 'a producer \<Rightarrow> ('a dequeue_result \<times> 'a producer) option" where
  "dequeue assign_throws p =
     (let tail = tailIndex p; overcommit = dequeueOvercommit p
      in if circular_less_than (dequeueOptimisticCount p - overcommit) tail then
           (let myDequeueCount = dequeueOptimisticCount p;
                p1 = p\<lparr>dequeueOptimisticCount := myDequeueCount + 1\<rparr>
            in if circular_less_than (myDequeueCount - overcommit) (tailIndex p1) then
                 (let index = headIndex p1; p2 = p1\<lparr>headIndex := index + 1\<rparr>
                  in case get_block_index_entry_for_index index p2 of
                       None \<Rightarrow> None
                     | Some entry \<Rightarrow>
                         (case entry_value p2 entry of
                            None \<Rightarrow> None
                          | Some b \<Rightarrow>
                              (case block_get index (blocks p2 b) of
                                 None \<Rightarrow> None
                               | Some el \<Rightarrow>
                                   (let p3 = upd_block b (block_put index None) p2;
                                        (now_empty, blk) = set_empty implicit_context index (blocks p3 b);
                                        p4 = upd_block b (\<lambda>_. blk) p3;
                                        p5 = (if now_empty
                                              then add_block_to_free_list b (set_entry_value entry None p4) else p4)
                                    in Some (if assign_throws then LostByThrow el else Got el, p5)))))
               else Some (NothingThere, p1\<lparr>dequeueOvercommit := dequeueOvercommit p1 + 1\<rparr>))
         else Some (NothingThere, p))"

section \<open>The index as a ring\<close>

text \<open>The entries from the oldest slot of the ring to the newest.\<close>

definition ring :: "BlockIndexHeader \<Rightarrow> nat list" where
  "ring h = rotate (Suc (unat (bi_tail h))) (bi_index h)"

definition header_ok :: "BlockIndexHeader \<Rightarrow> bool" where
  "header_ok h \<longleftrightarrow> ring_size (capacity h)
     \<and> length (bi_index h) = unat (capacity h) \<and> unat (bi_tail h) < unat (capacity h)"

lemma header_okD:
  assumes "header_ok h"
  shows "length (bi_index h) = unat (capacity h)" "unat (bi_tail h) < unat (capacity h)"
    "32 \<le> unat (capacity h)" "unat (capacity h) \<le> 2 ^ 57" "ring_size (capacity h)"
  using assms ring_sizeD [of "capacity h"] by (auto simp: header_ok_def)

lemma and_capacity: "header_ok h \<Longrightarrow> unat (x AND (capacity h - 1)) = unat x mod unat (capacity h)"
  by (simp add: header_ok_def ring_size_and)

lemma length_ring: "header_ok h \<Longrightarrow> length (ring h) = unat (capacity h)"
  by (simp add: ring_def header_ok_def)

lemma advance_tail:
  "header_ok h \<Longrightarrow> unat ((bi_tail h + 1) AND (capacity h - 1)) = Suc (unat (bi_tail h)) mod unat (capacity h)"
  by (simp add: header_ok_def ring_next)

lemma next_slot_ring:
  assumes "header_ok h"
  shows "bi_index h ! unat ((bi_tail h + 1) AND (capacity h - 1)) = ring h ! 0"
  using assms header_okD [OF assms] nth_rotate [of 0 "bi_index h" "Suc (unat (bi_tail h))"]
  by (simp add: ring_def advance_tail)

lemma ring_advance:
  assumes "header_ok h"
  shows "ring (h\<lparr>bi_tail := (bi_tail h + 1) AND (capacity h - 1)\<rparr>) = rotate1 (ring h)"
    and "header_ok (h\<lparr>bi_tail := (bi_tail h + 1) AND (capacity h - 1)\<rparr>)"
proof -
  show "ring (h\<lparr>bi_tail := (bi_tail h + 1) AND (capacity h - 1)\<rparr>) = rotate1 (ring h)"
    using header_okD(1) [OF assms] rotate_conv_mod [of "Suc (unat (bi_tail h))" "bi_index h"]
    by (simp add: ring_def advance_tail [OF assms])
  show "header_ok (h\<lparr>bi_tail := (bi_tail h + 1) AND (capacity h - 1)\<rparr>)"
    using assms header_okD(3) [OF assms] by (simp add: header_ok_def advance_tail [OF assms])
qed

lemma ring_rewind:
  assumes "header_ok h"
  defines "h' \<equiv> h\<lparr>bi_tail := (bi_tail h - 1) AND (capacity h - 1)\<rparr>"
  shows "rotate1 (ring h') = ring h" "header_ok h'"
proof -
  let ?c = "unat (capacity h)" and ?t = "unat (bi_tail h)"
  note d = header_okD [OF assms(1)]
  have t: "Suc (unat (bi_tail h')) mod ?c = ?t" using ring_prev [OF d(5, 2)] by (simp add: h'_def)
  show "header_ok h'" using assms(1) and_capacity [OF assms(1)] d by (simp add: h'_def header_ok_def)
  have "ring h' = rotate ?t (bi_index h)"
    using rotate_conv_mod [of "Suc (unat (bi_tail h'))" "bi_index h"] t d(1) by (simp add: ring_def h'_def)
  then show "rotate1 (ring h') = ring h" by (simp add: ring_def)
qed

lemma new_index_ring:
  assumes h: "blockIndex p = Some h" "header_ok h" and n: "nextBlockIndexCapacity p = push_bit 1 (capacity h)"
    and small: "unat (capacity h) < 2 ^ 57"
  obtains h' where "new_block_index True p = (True,
      p\<lparr>blockIndex := Some h',
        entry_key := (\<lambda>e. if e \<in> set [entries_used p ..< entries_used p + unat (capacity h)]
                          then INVALID_BLOCK_BASE else entry_key p e),
        entries_used := entries_used p + unat (capacity h),
        nextBlockIndexCapacity := push_bit 1 (capacity h')\<rparr>)"
    and "header_ok h'" "ring h' = [entries_used p ..< entries_used p + unat (capacity h)] @ ring h"
proof -
  let ?c = "unat (capacity h)"
  note d = header_okD [OF h(2)]
  have c2: "unat (push_bit 1 (capacity h)) = 2 * ?c"
    using small by (simp add: push_bit_eq_mult unat_word_ariths mult.commute)
  define old where "old = map (\<lambda>k. bi_index h ! unat ((bi_tail h + 1 + of_nat k) AND (capacity h - 1))) [0 ..< ?c]"
  have old: "old = ring h"
  proof (rule nth_equalityI)
    show "length old = length (ring h)" using length_ring [OF h(2)] by (simp add: old_def)
    fix k assume "k < length old"
    then have k: "k < ?c" by (simp add: old_def)
    have e: "bi_tail h + 1 + of_nat k = bi_tail h + of_nat (Suc k)" by simp
    have "unat (bi_tail h + 1 + of_nat k) = unat (bi_tail h) + Suc k"
      unfolding e using k d by (intro unat_add_small) simp
    then show "old ! k = ring h ! k"
      using k d nth_rotate [of k "bi_index h" "Suc (unat (bi_tail h))"]
      by (simp add: old_def ring_def and_capacity [OF h(2)])
  qed
  define h' where "h' = \<lparr>capacity = nextBlockIndexCapacity p,
       bi_tail = (capacity h - 1) AND (nextBlockIndexCapacity p - 1),
       bi_index = old @ [entries_used p ..< entries_used p + ?c]\<rparr>"
  have len: "length (bi_index h') = 2 * ?c" using length_ring [OF h(2)] by (simp add: h'_def old)
  obtain j where j: "5 \<le> j" "j \<le> 57" "?c = 2 ^ j" using d(5) by (auto simp: ring_size_def)
  have "j < 57" using small j(2, 3) by (cases "j = 57") auto
  have cap: "unat (capacity h') = 2 ^ Suc j" "capacity h' = push_bit 1 (capacity h)"
    using c2 j(3) n by (simp_all add: h'_def)
  have pre: "header_ok (h'\<lparr>bi_tail := 0\<rparr>)"
    using cap(1) j \<open>j < 57\<close> len by (auto simp: header_ok_def ring_size_def intro!: exI [of _ "Suc j"])
  have tl: "unat (bi_tail h') = ?c - 1"
  proof -
    have "unat (bi_tail h') = unat (capacity h - 1) mod (2 * ?c)"
      using and_capacity [OF pre, of "capacity h - 1"] cap(1) j(3) by (simp add: h'_def)
    moreover have "unat (capacity h - 1) = ?c - 1" using d(3) by (subst unat_sub_le) simp_all
    ultimately show ?thesis using d(3) by simp
  qed
  have ok: "header_ok h'" using pre tl d(3) cap(1) j(3) by (auto simp: header_ok_def)
  have "Suc (unat (bi_tail h')) = length (ring h)" using tl d(3) length_ring [OF h(2)] by simp
  then have ring': "ring h' = [entries_used p ..< entries_used p + ?c] @ ring h"
    unfolding ring_def [of h'] by (simp add: h'_def old rotate_append)
  have "new_block_index True p = (True,
      p\<lparr>blockIndex := Some h',
        entry_key := (\<lambda>e. if e \<in> set [entries_used p ..< entries_used p + unat (capacity h)]
                          then INVALID_BLOCK_BASE else entry_key p e),
        entries_used := entries_used p + unat (capacity h),
        nextBlockIndexCapacity := push_bit 1 (capacity h')\<rparr>)"
    using h(1) by (simp add: new_block_index_def Let_def h'_def old_def)
  from that [OF this ok ring'] show ?thesis .
qed

text \<open>The entry of the block that lies \<open>d\<close> blocks before the newest one.\<close>

lemma lookup_ring:
  assumes h: "header_ok h" and d: "d < unat (capacity h)"
    and base: "index AND NOT (BLOCK_SIZE - 1) = entry_key p (last (ring h)) - of_nat (32 * d)"
  shows "bi_index h ! unat (get_block_index_index_for_index index h p) = ring h ! (unat (capacity h) - 1 - d)"
proof -
  let ?c = "unat (capacity h)" and ?t = "unat (bi_tail h)"
  note o = header_okD [OF h]
  have "last (ring h) = ring h ! (?c - 1)"
    using o length_ring [OF h] by (metis last_conv_nth list.size(3) not_numeral_le_zero)
  also have "\<dots> = bi_index h ! ?t"
    using nth_rotate [of "?c - 1" "bi_index h" "Suc ?t"] o by (simp add: ring_def)
  finally have diff: "(index AND NOT (BLOCK_SIZE - 1)) - entry_key p (bi_index h ! ?t) = - of_nat (32 * d)"
    using base by simp
  have "unat (get_block_index_index_for_index index h p) = (?t + (?c - d)) mod ?c"
    unfolding get_block_index_index_for_index_def Let_def diff by (rule ring_position [OF o(5, 2) d])
  moreover have "?t + (?c - d) = Suc ?t + (?c - 1 - d)" using d by simp
  ultimately show ?thesis using nth_rotate [of "?c - 1 - d" "bi_index h" "Suc ?t"] o d by (simp add: ring_def)
qed

section \<open>The invariant\<close>

text \<open>
  For the queue \<open>q\<close>: \<open>bs\<close> are the blocks in use from the oldest on, and the ring of the index
  consists of unused entries \<open>F\<close> and of the entries \<open>E\<close> of those blocks.
\<close>

definition index_ok :: "nat \<Rightarrow> 64 word \<Rightarrow> nat list \<Rightarrow> nat list \<Rightarrow> nat list \<Rightarrow> 'a producer \<Rightarrow> bool" where
  "index_ok m hb bs F E p \<longleftrightarrow>
     (\<exists>h. blockIndex p = Some h \<and> header_ok h \<and> ring h = F @ E
        \<and> nextBlockIndexCapacity p = push_bit 1 (capacity h))
     \<and> distinct (F @ E) \<and> (\<forall>e\<in>set (F @ E). e < entries_used p)
     \<and> (\<forall>e\<in>set F. entry_key p e = INVALID_BLOCK_BASE \<or> entry_value p e = None)
     \<and> length E = m \<and> length bs = m
     \<and> (\<forall>j<m. entry_key p (E ! j) = hb + of_nat (32 * j) \<and> entry_value p (E ! j) = Some (bs ! j))"

definition elements_ok :: "'a list \<Rightarrow> nat \<Rightarrow> nat list \<Rightarrow> 'a producer \<Rightarrow> bool" where
  "elements_ok q hs bs p \<longleftrightarrow> contents_ok q hs bs (blocks p)
     \<and> (\<forall>j<length bs. elementsCompletelyDequeued (blocks p (bs ! j)) = (if j = 0 then of_nat hs else 0))"

definition producer_ok :: "'a list \<Rightarrow> 'a producer \<Rightarrow> bool" where
  "producer_ok q p \<longleftrightarrow> (\<exists>bs F E.
     index_ok (used_blocks q p) (head_base p) bs F E p \<and> pool_ok bs p
     \<and> elements_ok q (slot (headIndex p)) bs p
     \<and> tailIndex p = headIndex p + of_nat (length q)
     \<and> dequeueOptimisticCount p - dequeueOvercommit p = headIndex p
     \<and> (slot (tailIndex p) \<noteq> 0 \<longrightarrow> tailBlock p = Some (last bs)))"

section \<open>Allocating a block and an index entry\<close>

text \<open>What a step on the index and a step on the pool may change.\<close>

definition index_changed :: "'a producer \<Rightarrow> 'a producer \<Rightarrow> bool" where
  "index_changed p p' \<longleftrightarrow> tailIndex p' = tailIndex p \<and> headIndex p' = headIndex p
     \<and> dequeueOptimisticCount p' = dequeueOptimisticCount p \<and> dequeueOvercommit p' = dequeueOvercommit p
     \<and> tailBlock p' = tailBlock p \<and> entry_value p' = entry_value p
     \<and> blocks p' = blocks p \<and> initialBlockPoolIndex p' = initialBlockPoolIndex p
     \<and> initialBlockPoolSize p' = initialBlockPoolSize p \<and> freeList p' = freeList p
     \<and> blocks_used p' = blocks_used p"

text \<open>The index with one entry inserted whose block is not there yet.\<close>

definition index_pending ::
  "nat \<Rightarrow> 64 word \<Rightarrow> nat list \<Rightarrow> nat list \<Rightarrow> nat list \<Rightarrow> nat \<Rightarrow> 'a producer \<Rightarrow> bool" where
  "index_pending m hb bs F E e p \<longleftrightarrow>
     (\<exists>h. blockIndex p = Some h \<and> header_ok h \<and> ring h = F @ E @ [e]
        \<and> nextBlockIndexCapacity p = push_bit 1 (capacity h))
     \<and> distinct (F @ E @ [e]) \<and> (\<forall>x\<in>set (F @ E @ [e]). x < entries_used p)
     \<and> (\<forall>x\<in>set F. entry_key p x = INVALID_BLOCK_BASE \<or> entry_value p x = None)
     \<and> length E = m \<and> length bs = m \<and> entry_key p e = hb + of_nat (32 * m)
     \<and> (\<forall>j<m. entry_key p (E ! j) = hb + of_nat (32 * j) \<and> entry_value p (E ! j) = Some (bs ! j))"

lemma pending_commit:
  assumes "index_pending m hb bs F E e p"
  shows "index_ok (Suc m) hb (bs @ [b]) F (E @ [e]) (set_entry_value e (Some b) p)"
  using assms
  by (auto simp: index_pending_def index_ok_def set_entry_value_def nth_append less_Suc_eq)

lemma pending_rewind:
  assumes "index_pending m hb bs F E e p"
  shows "index_ok m hb bs (e # F) E (set_entry_value e None (rewind_block_index_tail p))"
proof -
  obtain h where h: "blockIndex p = Some h" "header_ok h" "ring h = F @ E @ [e]"
    "nextBlockIndexCapacity p = push_bit 1 (capacity h)" using assms by (auto simp: index_pending_def)
  let ?h = "h\<lparr>bi_tail := (bi_tail h - 1) AND (capacity h - 1)\<rparr>"
  note r = ring_rewind [OF h(2)]
  have "ring ?h \<noteq> []" using length_ring [OF r(2)] header_okD(3) [OF r(2)] by auto
  then have "tl (ring ?h) @ [hd (ring ?h)] = (F @ E) @ [e]"
    using r(1) h(3) by (simp add: rotate1_hd_tl)
  then have "ring ?h = e # F @ E" using \<open>ring ?h \<noteq> []\<close> by (metis append1_eq_conv list.collapse)
  then show ?thesis using assms h r(2)
    by (auto simp: index_pending_def index_ok_def set_entry_value_def rewind_block_index_tail_def)
qed

lemma multiple_not_invalid: "slot hb = 0 \<Longrightarrow> hb \<noteq> INVALID_BLOCK_BASE"
  by (auto simp: INVALID_BLOCK_BASE_def slot_mod)

text \<open>Inserting into a ring with room: the oldest entry is free and becomes the newest.\<close>

lemma take_slot_pending:
  assumes ix: "index_ok m hb bs (f # F) E p" and slot: "next_slot p = Some (nt, e)"
  shows "e = f" "index_pending m hb bs F E e (set_bi_tail nt (set_entry_key e (hb + of_nat (32 * m)) p))"
    "entry_key p e = INVALID_BLOCK_BASE \<or> entry_value p e = None"
proof -
  obtain h where h: "blockIndex p = Some h" "header_ok h" "ring h = f # F @ E"
    "nextBlockIndexCapacity p = push_bit 1 (capacity h)" using ix by (auto simp: index_ok_def)
  have nt: "nt = (bi_tail h + 1) AND (capacity h - 1)" and e: "e = ring h ! 0"
    using slot h(1) next_slot_ring [OF h(2)] by (auto simp: next_slot_def Let_def)
  then show ef: "e = f" using h(3) by simp
  show "entry_key p e = INVALID_BLOCK_BASE \<or> entry_value p e = None"
    using ix ef by (auto simp: index_ok_def)
  have "E ! j \<noteq> f" if "j < m" for j using ix that nth_mem [of j E] by (auto simp: index_ok_def)
  then show "index_pending m hb bs F E e (set_bi_tail nt (set_entry_key e (hb + of_nat (32 * m)) p))"
    using ix h ef ring_advance [OF h(2)]
    by (auto simp: index_pending_def index_ok_def set_bi_tail_def set_entry_key_def nt)
qed

text \<open>A larger index has as many free entries in front.\<close>

lemma grow_index:
  assumes ix: "index_ok m hb bs F E p" and small: "unat (nextBlockIndexCapacity p) \<le> 2 ^ 57"
  obtains f F' p1 where "new_block_index True p = (True, p1)" "index_ok m hb bs (f # F') E p1"
    "index_changed p p1"
proof -
  obtain h where h: "blockIndex p = Some h" "header_ok h" "ring h = F @ E"
    "nextBlockIndexCapacity p = push_bit 1 (capacity h)" using ix by (auto simp: index_ok_def)
  let ?c = "unat (capacity h)"
  have c: "?c \<le> 2 ^ 57" "32 \<le> ?c" using header_okD [OF h(2)] by auto
  then have "unat (nextBlockIndexCapacity p) = 2 * ?c"
    by (simp add: h(4) push_bit_eq_mult unat_word_ariths mult.commute)
  then have c57: "?c < 2 ^ 57" using small c(2) by simp
  define new where "new = [entries_used p ..< entries_used p + ?c]"
  obtain h' where p1: "new_block_index True p = (True, p\<lparr>blockIndex := Some h',
        entry_key := (\<lambda>e. if e \<in> set new then INVALID_BLOCK_BASE else entry_key p e),
        entries_used := entries_used p + ?c, nextBlockIndexCapacity := push_bit 1 (capacity h')\<rparr>)"
      "header_ok h'" "ring h' = new @ ring h"
    unfolding new_def by (rule new_index_ring [OF h(1, 2, 4) c57])
  obtain f N where n: "new = f # N" using c(2) by (cases new) (auto simp: new_def)
  have "\<forall>e\<in>set (F @ E). e < entries_used p" using ix unfolding index_ok_def by blast
  then have old: "e \<notin> set new" if "e \<in> set (F @ E)" for e
    using that unfolding new_def set_upt atLeastLessThan_iff by (meson not_less)
  define p1 where "p1 = snd (new_block_index True p)"
  have f: "blockIndex p1 = Some h'" "nextBlockIndexCapacity p1 = push_bit 1 (capacity h')"
    "entries_used p1 = entries_used p + ?c" "entry_value p1 = entry_value p"
    "entry_key p1 = (\<lambda>e. if e \<in> set new then INVALID_BLOCK_BASE else entry_key p e)"
    using p1(1) by (simp_all add: p1_def)
  have key: "entry_key p1 e = entry_key p e" if "e \<in> set (F @ E)" for e using old [OF that] by (simp add: f)
  have new_lt: "\<forall>e\<in>set new. e < entries_used p1" by (simp add: f new_def)
  note ix' = ix [unfolded index_ok_def]
  have "index_ok m hb bs (new @ F) E p1" unfolding index_ok_def
  proof (intro conjI)
    show "\<exists>h. blockIndex p1 = Some h \<and> header_ok h \<and> ring h = (new @ F) @ E
        \<and> nextBlockIndexCapacity p1 = push_bit 1 (capacity h)" using f p1(2, 3) h(3) by simp
    show "distinct ((new @ F) @ E)" using ix' old by (auto simp: new_def)
    show "\<forall>e\<in>set ((new @ F) @ E). e < entries_used p1"
      using ix' new_lt f(3) by (auto simp: trans_less_add1)
    show "\<forall>e\<in>set (new @ F). entry_key p1 e = INVALID_BLOCK_BASE \<or> entry_value p1 e = None"
      using ix' by (auto simp: f)
    show "\<forall>j<m. entry_key p1 (E ! j) = hb + of_nat (32 * j) \<and> entry_value p1 (E ! j) = Some (bs ! j)"
      using ix' key by (auto simp: f(4))
  qed (use ix' in blast)+
  moreover have "index_changed p p1" using p1(1) by (simp add: index_changed_def p1_def)
  moreover have "new_block_index True p = (True, p1)" using p1(1) by (simp add: p1_def)
  ultimately show ?thesis using that [of p1 f "N @ F"] n by simp
qed

lemma insert_spec:
  assumes ix: "index_ok m hb bs F E p" and hb: "slot hb = 0"
    and small: "ok \<Longrightarrow> unat (nextBlockIndexCapacity p) \<le> 2 ^ 57"
  shows "\<exists>r p'. insert_block_index_entry mode ok (hb + of_nat (32 * m)) p = Some (r, p')
    \<and> index_changed p p'
    \<and> (r = None \<longrightarrow> p' = p) \<and> (\<forall>e. r = Some e \<longrightarrow> (\<exists>F'. index_pending m hb bs F' E e p'))"
proof -
  let ?k = "hb + of_nat (32 * m)"
  have nx: "\<exists>nt e. next_slot q = Some (nt, e)" if "index_ok m hb bs F E q" for F and q :: "'a producer"
    using that by (auto simp: index_ok_def next_slot_def Let_def)
  have upd: "index_changed q (set_bi_tail nt (set_entry_key e x q))" for nt e x and q :: "'a producer"
    by (simp add: index_changed_def set_bi_tail_def set_entry_key_def)
  show ?thesis
  proof (cases F)
    case (Cons f F')
    obtain nt e where s: "next_slot p = Some (nt, e)" using nx [OF ix] by blast
    note t = take_slot_pending [OF ix [unfolded Cons] s]
    have "insert_block_index_entry mode ok ?k p = Some (Some e, set_bi_tail nt (set_entry_key e ?k p))"
      using s t(3) by (simp add: insert_block_index_entry_def)
    then show ?thesis using t(2) upd
      by (intro exI [of _ "Some e"] exI [of _ "set_bi_tail nt (set_entry_key e ?k p)"] conjI) auto
  next
    case Nil
    obtain h where h: "blockIndex p = Some h" "header_ok h" "ring h = E" using ix Nil by (auto simp: index_ok_def)
    have m: "0 < m" using ix h length_ring [OF h(2)] header_okD(3) [OF h(2)] by (auto simp: index_ok_def)
    obtain nt e where s: "next_slot p = Some (nt, e)" "e = E ! 0"
      using h next_slot_ring [OF h(2)] by (auto simp: next_slot_def Let_def)
    have full: "entry_key p e \<noteq> INVALID_BLOCK_BASE" "entry_value p e \<noteq> None"
      using ix m s(2) multiple_not_invalid [OF hb] by (auto simp: index_ok_def)
    show ?thesis
    proof (cases "mode = CanAlloc \<and> ok")
      case True
      obtain f F' p1 where g: "new_block_index True p = (True, p1)" "index_ok m hb bs (f # F') E p1"
          "index_changed p p1"
        using grow_index [OF ix small] True by blast
      obtain nt1 e1 where s1: "next_slot p1 = Some (nt1, e1)" using nx [OF g(2)] by blast
      note t = take_slot_pending [OF g(2) s1]
      have "insert_block_index_entry mode ok ?k p = Some (Some e1, set_bi_tail nt1 (set_entry_key e1 ?k p1))"
        using s full g(1) s1 True by (auto simp: insert_block_index_entry_def)
      moreover have "index_changed p (set_bi_tail nt1 (set_entry_key e1 ?k p1))"
        using g(3) by (simp add: index_changed_def set_bi_tail_def set_entry_key_def) 
      ultimately show ?thesis using t(2)
        by (intro exI [of _ "Some e1"] exI [of _ "set_bi_tail nt1 (set_entry_key e1 ?k p1)"] conjI) auto
    next
      case False
      then have "insert_block_index_entry mode ok ?k p = Some (None, p)"
        using s full by (cases mode) (auto simp: insert_block_index_entry_def new_block_index_def Let_def)
      moreover have "index_changed p p" by (simp add: index_changed_def)
      ultimately show ?thesis by (intro exI [of _ None] exI [of _ p] conjI) auto
    qed
  qed
qed

section \<open>Enqueueing\<close>

text \<open>A producer whose tail block has room for the next element.\<close>

definition producer_room :: "'a list \<Rightarrow> 'a producer \<Rightarrow> bool" where
  "producer_room q p \<longleftrightarrow> (\<exists>bs F E.
     index_ok (Suc ((slot (headIndex p) + length q) div 32)) (head_base p) bs F E p \<and> pool_ok bs p
     \<and> elements_ok q (slot (headIndex p)) bs p
     \<and> tailIndex p = headIndex p + of_nat (length q)
     \<and> dequeueOptimisticCount p - dequeueOvercommit p = headIndex p
     \<and> tailBlock p = Some (last bs))"

lemma room_enqueue:
  assumes "producer_room q p" and c: "c \<noteq> MayThrow True"
  shows "\<exists>p'. enqueue_in_tail c x p = Some (Enqueued, p') \<and> producer_ok (q @ [x]) p'"
proof -
  let ?o = "slot (headIndex p)" and ?n = "length q"
  obtain bs F E where i: "index_ok (Suc ((?o + ?n) div 32)) (head_base p) bs F E p" and pl: "pool_ok bs p"
    and el: "elements_ok q ?o bs p" and t: "tailIndex p = headIndex p + of_nat ?n"
    and dq: "dequeueOptimisticCount p - dequeueOvercommit p = headIndex p" and tb: "tailBlock p = Some (last bs)"
    using assms(1) unfolding producer_room_def by blast
  define b p' where "b = last bs"
    and "p' = (upd_block b (block_put (tailIndex p) (Some x)) p)\<lparr>tailIndex := 1 + tailIndex p\<rparr>"
  have len: "length bs = Suc ((?o + ?n) div 32)" using i by (simp add: index_ok_def)
  have sl: "slot (tailIndex p) = (?o + ?n) mod 32" using t by (rule tail_slot)
  have dist: "distinct bs" using pl by (simp add: pool_ok_def)
  have same: "blocks p' c = (if c = b then block_put (tailIndex p) (Some x) (blocks p b) else blocks p c)" for c
    by (simp add: p'_def upd_block_def)
  have "contents_ok (q @ [x]) ?o bs (blocks p')"
    by (rule contents_put [where B = "blocks p"]) (use el len dist sl in \<open>auto simp: elements_ok_def same block_put_def b_def\<close>)
  then have "elements_ok (q @ [x]) ?o bs p'"
    using el by (auto simp: elements_ok_def same block_put_def)
  moreover have "used_blocks (q @ [x]) p' = Suc ((?o + ?n) div 32)"
    by (simp add: used_blocks_def p'_def upd_block_def)
  moreover have "index_ok m hb bs F E p' = index_ok m hb bs F E p" for m hb
    by (simp add: index_ok_def p'_def upd_block_def)
  ultimately have "producer_ok (q @ [x]) p'"
    unfolding producer_ok_def using i pl t dq tb
    by (intro exI [of _ bs] exI [of _ F] exI [of _ E])
      (auto simp: p'_def upd_block_def head_base_def pool_ok_def unused_blocks_def b_def)
  moreover have "enqueue_in_tail c x p = Some (Enqueued, p')"
    using c tb by (simp add: enqueue_in_tail_def p'_def b_def)
  ultimately show ?thesis by blast
qed

lemma index_ok_cong:
  "blockIndex p' = blockIndex p \<Longrightarrow> nextBlockIndexCapacity p' = nextBlockIndexCapacity p
   \<Longrightarrow> entry_key p' = entry_key p \<Longrightarrow> entry_value p' = entry_value p \<Longrightarrow> entries_used p' = entries_used p
   \<Longrightarrow> index_ok m hb bs F E p' = index_ok m hb bs F E p
     \<and> index_pending m hb bs F E e p' = index_pending m hb bs F E e p"
  by (simp add: index_ok_def index_pending_def)

text \<open>The outcome of a call that needs a new block.\<close>

definition enqueue_outcome :: "ctor \<Rightarrow> 'a \<Rightarrow> 'a list \<Rightarrow> (enqueue_result \<times> 'a producer) option \<Rightarrow> bool" where
  "enqueue_outcome c x q out \<longleftrightarrow>
     (\<exists>r p'. out = Some (r, p') \<and> producer_ok (if r = Enqueued then q @ [x] else q) p'
        \<and> (r = Threw \<longleftrightarrow> r \<noteq> Refused \<and> c = MayThrow True))"

lemma pool_changed_index:
  assumes "pool_changed p (p' :: 'a producer)"
  shows "blockIndex p' = blockIndex p \<and> nextBlockIndexCapacity p' = nextBlockIndexCapacity p
     \<and> entry_key p' = entry_key p \<and> entry_value p' = entry_value p \<and> entries_used p' = entries_used p"
  using assms by (cases p; cases p') (simp add: pool_changed_def)

lemma boundary_enqueue:
  assumes ok: "producer_ok q p" and z: "slot (tailIndex p) = 0"
    and small: "iok \<Longrightarrow> unat (nextBlockIndexCapacity p) \<le> 2 ^ 57"
  shows "enqueue_outcome c x q (enqueue mx mode iok bok c x p)"
proof -
  let ?o = "slot (headIndex p)" and ?n = "length q"
  obtain bs F E where i: "index_ok (used_blocks q p) (head_base p) bs F E p" and pl: "pool_ok bs p"
    and el: "elements_ok q ?o bs p" and t: "tailIndex p = headIndex p + of_nat ?n"
    and dq: "dequeueOptimisticCount p - dequeueOvercommit p = headIndex p"
    using ok unfolding producer_ok_def by blast
  define m where "m = (?o + ?n) div 32"
  have "(?o + ?n) mod 32 = 0" using tail_slot [OF t] z by simp
  then have on: "?o + ?n = 32 * m" unfolding m_def by (metis dvd_mult_div_cancel mod_0_imp_dvd)
  have um: "used_blocks q p = m" by (simp add: used_blocks_def on)
  have hb: "tailIndex p = head_base p + of_nat (32 * m)"
    unfolding on [symmetric] by (simp add: t head_base_def)
  obtain r1 p1 where ins: "insert_block_index_entry mode iok (tailIndex p) p = Some (r1, p1)"
      "index_changed p p1" "r1 = None \<longrightarrow> p1 = p"
      "\<And>e. r1 = Some e \<Longrightarrow> \<exists>F'. index_pending m (head_base p) bs F' E e p1"
    using insert_spec [OF i [unfolded um] head_base_slot small] unfolding hb by blast
  have en: "enqueue mx mode iok bok c x p = (if is_full mx (tailIndex p) (headIndex p) then Some (Refused, p)
      else case r1 of None \<Rightarrow> Some (Refused, p1)
      | Some e \<Rightarrow> (case requisition_block mode bok p1 of
          (None, p2) \<Rightarrow> Some (Refused, set_entry_value e None (rewind_block_index_tail p2))
        | (Some b, p2) \<Rightarrow> (let p3 = upd_block b (reset_empty implicit_context) p2
             in if c = MayThrow True
                then Some (Threw, add_block_to_free_list b (set_entry_value e None (rewind_block_index_tail p3)))
                else enqueue_in_tail c x ((set_entry_value e (Some b) p3)\<lparr>tailBlock := Some b\<rparr>))))"
    using z ins(1) by (simp add: enqueue_def slot_def unat_eq_zero_iff split: option.split)
  show ?thesis
  proof (cases "is_full mx (tailIndex p) (headIndex p) \<or> r1 = None")
    case True
    then show ?thesis using ok ins(3) by (auto simp: en enqueue_outcome_def)
  next
    case False
    then obtain e where e: "r1 = Some e" by auto
    obtain F' where pend: "index_pending m (head_base p) bs F' E e p1" using ins(4) [OF e] by blast
    obtain rb p2 where rq: "requisition_block mode bok p1 = (rb, p2)" by (cases "requisition_block mode bok p1")
    have pl1: "pool_ok bs p1" using pl ins(2) pool_ok_cong [of p1 p bs] by (simp add: index_changed_def)
    have bl1: "blocks p1 = blocks p" using ins(2) by (simp add: index_changed_def)
    have "\<forall>b. length (elements (blocks p1 b)) = 32" using el by (simp add: elements_ok_def bl1 contents_ok_def)
    note rs = requisition_spec [OF rq pl1 this]
    have same: "tailIndex p2 = tailIndex p" "headIndex p2 = headIndex p"
      "dequeueOptimisticCount p2 = dequeueOptimisticCount p" "dequeueOvercommit p2 = dequeueOvercommit p"
      "tailBlock p2 = tailBlock p"
      using rs ins(2) by (simp_all add: index_changed_def pool_changed_def)
    have pend2: "index_pending m (head_base p) bs F' E e p2"
      using pend rs index_ok_cong [of p2 p1] pool_changed_index [of p1 p2] by simp
    show ?thesis
    proof (cases rb)
      case None
      let ?p = "set_entry_value e None (rewind_block_index_tail p2)"
      have f: "tailIndex ?p = tailIndex p" "headIndex ?p = headIndex p" "blocks ?p = blocks p"
        "dequeueOptimisticCount ?p = dequeueOptimisticCount p" "dequeueOvercommit ?p = dequeueOvercommit p"
        using same rs None bl1 by (simp_all add: set_entry_value_def rewind_block_index_tail_def)
      have "pool_ok bs ?p"
        using rs None pool_ok_cong [of ?p p2 bs] by (simp add: set_entry_value_def rewind_block_index_tail_def)
      then have "producer_ok q ?p" unfolding producer_ok_def
        using pending_rewind [OF pend2] el t dq z um
        by (intro exI [of _ bs] exI [of _ "e # F'"] exI [of _ E])
          (auto simp: f used_blocks_def head_base_def elements_ok_def)
      then show ?thesis using False e rq None by (auto simp: en enqueue_outcome_def)
    next
      case (Some b)
      define p3 where "p3 = upd_block b (reset_empty implicit_context) p2"
      have pl2: "pool_ok (bs @ [b]) p2" and bl2: "\<And>c. c \<noteq> b \<Longrightarrow> blocks p2 c = blocks p c"
        and l2: "\<And>c. length (elements (blocks p2 c)) = 32" using rs Some bl1 by auto
      have nb: "b \<notin> set bs" using pl2 by (auto simp: pool_ok_def)
      have lbs: "length bs = m" using i um by (simp add: index_ok_def)
      have blk: "blocks p3 c = (if c = b then reset_empty implicit_context (blocks p2 b) else blocks p c)" for c
        using bl2 by (simp add: p3_def upd_block_def)
      have old: "bs ! j \<noteq> b" if "j < m" for j using nb lbs nth_mem [of j bs] that by auto
      have cont: "contents_ok q ?o (bs @ cs) (blocks p3)" for cs
        by (rule contents_more [where B = "blocks p"]) (use el on lbs nb l2 in \<open>auto simp: elements_ok_def blk reset_empty_def contents_length\<close>)
      have el3: "elements_ok q ?o bs p3"
        using el cont [of "[]"] old lbs by (auto simp: elements_ok_def blk)
      have pend3: "index_pending m (head_base p) bs F' E e p3"
        using pend2 index_ok_cong [of p3 p2] by (simp add: p3_def upd_block_def)
      show ?thesis
      proof (cases "c = MayThrow True")
        case True
        let ?p = "add_block_to_free_list b (set_entry_value e None (rewind_block_index_tail p3))"
        have f: "tailIndex ?p = tailIndex p" "headIndex ?p = headIndex p" "blocks ?p = blocks p3"
          "dequeueOptimisticCount ?p = dequeueOptimisticCount p" "dequeueOvercommit ?p = dequeueOvercommit p"
          using same by (simp_all add: set_entry_value_def rewind_block_index_tail_def
              add_block_to_free_list_def p3_def upd_block_def)
        have "pool_ok bs ?p" using pl2
          by (auto simp: pool_ok_def unused_blocks_def set_entry_value_def rewind_block_index_tail_def
              add_block_to_free_list_def p3_def upd_block_def)
        moreover have "index_ok m (head_base p) bs (e # F') E ?p"
          using pending_rewind [OF pend3] index_ok_cong [of ?p "set_entry_value e None (rewind_block_index_tail p3)"]
          by (simp add: add_block_to_free_list_def)
        ultimately have "producer_ok q ?p" unfolding producer_ok_def
          using el3 t dq z um
          by (intro exI [of _ bs] exI [of _ "e # F'"] exI [of _ E])
            (auto simp: f used_blocks_def head_base_def elements_ok_def)
        moreover have "enqueue mx mode iok bok c x p = Some (Threw, ?p)"
          unfolding en using False e rq Some True by (simp add: Let_def p3_def)
        ultimately show ?thesis using True unfolding enqueue_outcome_def by auto
      next
        case False2: False
        define p4 where "p4 = (set_entry_value e (Some b) p3)\<lparr>tailBlock := Some b\<rparr>"
        have f: "tailIndex p4 = tailIndex p" "headIndex p4 = headIndex p" "blocks p4 = blocks p3"
          "dequeueOptimisticCount p4 = dequeueOptimisticCount p" "dequeueOvercommit p4 = dequeueOvercommit p"
          "tailBlock p4 = Some b"
          using same by (simp_all add: set_entry_value_def p4_def p3_def upd_block_def)
        have "index_ok (Suc m) (head_base p) (bs @ [b]) F' (E @ [e]) p4"
          using pending_commit [OF pend3, of b] index_ok_cong [of p4 "set_entry_value e (Some b) p3"]
          by (simp add: p4_def)
        moreover have "pool_ok (bs @ [b]) p4"
          using pl2 pool_ok_cong [of p4 p2] by (simp add: p4_def p3_def set_entry_value_def upd_block_def)
        moreover have "m = 0 \<Longrightarrow> ?o = 0" using on by simp
        then have "elements_ok q ?o (bs @ [b]) p4"
          using cont [of "[b]"] el3 lbs by (auto simp: elements_ok_def f(3) nth_append less_Suc_eq blk reset_empty_def)
        ultimately have "producer_room q p4" unfolding producer_room_def
          using t dq by (intro exI [of _ "bs @ [b]"] exI [of _ F'] exI [of _ "E @ [e]"])
            (auto simp: f head_base_def m_def)
        from room_enqueue [OF this False2] show ?thesis using False e rq Some False2
          by (auto simp: en enqueue_outcome_def Let_def p3_def p4_def)
      qed
    qed
  qed
qed

lemma enqueue_ok:
  assumes ok: "producer_ok q p" and small: "iok \<Longrightarrow> unat (nextBlockIndexCapacity p) \<le> 2 ^ 57"
  shows "enqueue_outcome c x q (enqueue mx mode iok bok c x p)"
proof (cases "slot (tailIndex p) = 0")
  case True
  then show ?thesis using boundary_enqueue [OF ok _ small] by blast
next
  case False
  then have en: "enqueue mx mode iok bok c x p = enqueue_in_tail c x p"
    by (simp add: enqueue_def slot_def unat_eq_zero_iff Let_def)
  let ?o = "slot (headIndex p)" and ?n = "length q"
  have "producer_room q p"
  proof -
    obtain bs F E where i: "index_ok (used_blocks q p) (head_base p) bs F E p" "pool_ok bs p"
        "elements_ok q ?o bs p" "tailIndex p = headIndex p + of_nat ?n"
        "dequeueOptimisticCount p - dequeueOvercommit p = headIndex p" "tailBlock p = Some (last bs)"
      using ok False unfolding producer_ok_def by blast
    have "(?o + ?n) mod 32 \<noteq> 0" using tail_slot [OF i(4)] False by simp
    then have "used_blocks q p = Suc ((?o + ?n) div 32)" unfolding used_blocks_def by (rule round_up_32)
    then show ?thesis using i unfolding producer_room_def by metis
  qed
  note room = this
  show ?thesis
  proof (cases "c = MayThrow True")
    case True
    have "tailBlock p \<noteq> None" using room by (auto simp: producer_room_def)
    then have "enqueue mx mode iok bok c x p = Some (Threw, p)"
      unfolding en using True by (auto simp: enqueue_in_tail_def)
    then show ?thesis using True ok unfolding enqueue_outcome_def by auto
  next
    case False
    from room_enqueue [OF room this] show ?thesis using False by (auto simp: en enqueue_outcome_def)
  qed
qed

section \<open>Dequeueing\<close>

lemma producer_length:
  assumes "producer_ok q p"
  shows "slot (headIndex p) + length q \<le> 2 ^ 62" "unat (tailIndex p - headIndex p) = length q"
proof -
  obtain bs F E h where i: "length E = used_blocks q p" "header_ok h" "ring h = F @ E"
      and t: "tailIndex p = headIndex p + of_nat (length q)"
    using assms unfolding producer_ok_def index_ok_def by blast
  have "used_blocks q p \<le> 2 ^ 57"
    using i length_ring [OF i(2)] header_okD(4) [OF i(2)] by simp
  then have "(slot (headIndex p) + length q + 31) div 32 < 2 ^ 57 + 1" by (simp add: used_blocks_def)
  then have "slot (headIndex p) + length q + 31 < (2 ^ 57 + 1) * 32" by (simp only: div_less_iff_less_mult)
  then show le: "slot (headIndex p) + length q \<le> 2 ^ 62" by simp
  then show "unat (tailIndex p - headIndex p) = length q"
    by (simp add: t unat_of_nat_small)
qed

lemma head_entry:
  assumes i: "index_ok m hb bs F E p" and m: "0 < m" and hd: "index AND NOT (BLOCK_SIZE - 1) = hb"
  shows "get_block_index_entry_for_index index p = Some (E ! 0)"
proof -
  obtain h where h: "blockIndex p = Some h" "header_ok h" "ring h = F @ E" using i by (auto simp: index_ok_def)
  have E: "length E = m" "\<And>j. j < m \<Longrightarrow> entry_key p (E ! j) = hb + of_nat (32 * j)"
    using i by (auto simp: index_ok_def)
  have c: "length F + m = unat (capacity h)" using h(3) E(1) length_ring [OF h(2)] by simp
  have "last (ring h) = E ! (m - 1)" using h(3) E(1) m by (cases E) (auto simp: last_conv_nth)
  then have "index AND NOT (BLOCK_SIZE - 1) = entry_key p (last (ring h)) - of_nat (32 * (m - 1))"
    using E(2) [of "m - 1"] m hd by simp
  then have "bi_index h ! unat (get_block_index_index_for_index index h p) = ring h ! (unat (capacity h) - 1 - (m - 1))"
    using c m by (intro lookup_ring [OF h(2)]) simp_all
  moreover have "unat (capacity h) - 1 - (m - 1) = length F" using c m by simp
  ultimately show ?thesis using h(1, 3) E(1) m by (simp add: get_block_index_entry_for_index_def nth_append)
qed

text \<open>The state after the first element of the oldest block has left.\<close>

definition taken :: "nat \<Rightarrow> nat \<Rightarrow> 'a producer \<Rightarrow> 'a producer" where
  "taken entry b p =
     (let index = headIndex p;
          p2 = p\<lparr>dequeueOptimisticCount := dequeueOptimisticCount p + 1, headIndex := index + 1\<rparr>;
          p3 = upd_block b (block_put index None) p2;
          (now_empty, blk) = set_empty implicit_context index (blocks p3 b);
          p4 = upd_block b (\<lambda>_. blk) p3
      in if now_empty then add_block_to_free_list b (set_entry_value entry None p4) else p4)"

lemma dequeue_head:
  assumes i: "index_ok m (head_base p) bs F E p" and m: "0 < m"
    and dq: "dequeueOptimisticCount p - dequeueOvercommit p = headIndex p"
    and lt: "circular_less_than (headIndex p) (tailIndex p)"
    and x: "block_get (headIndex p) (blocks p (bs ! 0)) = Some x"
  shows "dequeue thr p = Some (if thr then LostByThrow x else Got x, taken (E ! 0) (bs ! 0) p)"
proof -
  let ?p = "p\<lparr>dequeueOptimisticCount := dequeueOptimisticCount p + 1, headIndex := headIndex p + 1\<rparr>"
  have "index_ok m (head_base p) bs F E ?p" using i index_ok_cong [of ?p p] by simp
  then have e: "get_block_index_entry_for_index (headIndex p) ?p = Some (E ! 0)"
    using m by (rule head_entry) (simp add: base_diff head_base_def)
  have v: "entry_value p (E ! 0) = Some (bs ! 0)" using i m by (auto simp: index_ok_def)
  show ?thesis using lt dq e v x by (simp add: dequeue_def taken_def Let_def case_prod_beta)
qed

lemma taken_fields:
  "headIndex (taken e b p) = headIndex p + 1" "tailIndex (taken e b p) = tailIndex p"
  "dequeueOptimisticCount (taken e b p) = dequeueOptimisticCount p + 1"
  "dequeueOvercommit (taken e b p) = dequeueOvercommit p" "tailBlock (taken e b p) = tailBlock p"
  "blockIndex (taken e b p) = blockIndex p" "nextBlockIndexCapacity (taken e b p) = nextBlockIndexCapacity p"
  "entry_key (taken e b p) = entry_key p" "entries_used (taken e b p) = entries_used p"
  "initialBlockPoolIndex (taken e b p) = initialBlockPoolIndex p"
  "initialBlockPoolSize (taken e b p) = initialBlockPoolSize p" "blocks_used (taken e b p) = blocks_used p"
  "blocks (taken e b p) c = (if c = b then snd (set_empty implicit_context (headIndex p)
     (block_put (headIndex p) None (blocks p b))) else blocks p c)"
  by (simp_all add: taken_def Let_def case_prod_beta upd_block_def add_block_to_free_list_def set_entry_value_def)

lemma taken_released:
  assumes "elementsCompletelyDequeued (blocks p b) = of_nat k" "k < 32"
  shows "entry_value (taken e b p) = (if k = 31 then (entry_value p)(e := None) else entry_value p)"
    "freeList (taken e b p) = (if k = 31 then b # freeList p else freeList p)"
proof -
  have u: "unat (of_nat k :: 64 word) = k" using assms(2) by (simp add: unat_of_nat_small)
  have "of_nat k = (31 :: 64 word) \<longleftrightarrow> k = 31" using u by (auto dest: arg_cong [where f = unat])
  then show "entry_value (taken e b p) = (if k = 31 then (entry_value p)(e := None) else entry_value p)"
    "freeList (taken e b p) = (if k = 31 then b # freeList p else freeList p)"
    using assms by (simp_all add: taken_def Let_def case_prod_beta upd_block_def add_block_to_free_list_def
        set_entry_value_def set_empty_def block_put_def BLOCK_SIZE_def)
qed

lemma taken_elements:
  fixes e :: nat
  assumes el: "elements_ok (x # q) hs bs p" and hs: "slot (headIndex p) = hs" and dist: "distinct bs"
    and m: "0 < length bs" and fits: "hs + length (x # q) \<le> 32 * length bs"
  defines "p' \<equiv> taken e (bs ! 0) p"
  shows "hs < 31 \<Longrightarrow> elements_ok q (Suc hs) bs p'" "hs = 31 \<Longrightarrow> elements_ok q 0 (tl bs) p'"
proof -
  have cnt: "elementsCompletelyDequeued (blocks p (bs ! j)) = (if j = 0 then of_nat hs else 0)"
    if "j < length bs" for j using el that by (simp add: elements_ok_def)
  have blk: "blocks p' c = (if c = bs ! 0 then (blocks p c)\<lparr>elements := (elements (blocks p c))[hs := None],
      elementsCompletelyDequeued := elementsCompletelyDequeued (blocks p c) + 1\<rparr> else blocks p c)" for c
    using hs by (simp add: p'_def taken_fields set_empty_def block_put_def)
  have first: "bs ! j = bs ! 0 \<longleftrightarrow> j = 0" if "j < length bs" for j
    using dist m that by (simp add: nth_eq_iff_index_eq)
  have c: "contents_ok (x # q) hs bs (blocks p)" using el by (simp add: elements_ok_def)
  note take = contents_take [OF c dist fits, of "blocks p'"]
  show "elements_ok q (Suc hs) bs p'" if "hs < 31"
    using take(1) cnt first m by (auto simp: blk elements_ok_def)
  show "elements_ok q 0 (tl bs) p'" if "hs = 31"
    using take(2) that cnt first by (auto simp: blk elements_ok_def nth_tl)
qed

lemma index_release:
  assumes i: "index_ok (Suc m) hb bs F E p"
    and p': "blockIndex p' = blockIndex p" "nextBlockIndexCapacity p' = nextBlockIndexCapacity p"
      "entry_key p' = entry_key p" "entries_used p' = entries_used p"
      "entry_value p' = (entry_value p)(E ! 0 := None)"
  shows "index_ok m (hb + 32) (tl bs) (F @ [E ! 0]) (tl E) p'"
proof -
  obtain e E' where E: "E = e # E'" using i by (cases E) (auto simp: index_ok_def)
  obtain b bs' where bs: "bs = b # bs'" using i by (cases bs) (auto simp: index_ok_def)
  have "entry_key p (E' ! j) = hb + 32 + of_nat (32 * j) \<and> entry_value p (E' ! j) = Some (bs' ! j)"
    if "j < m" for j
  proof -
    have "entry_key p (E ! Suc j) = hb + of_nat (32 * Suc j) \<and> entry_value p (E ! Suc j) = Some (bs ! Suc j)"
      using i that unfolding index_ok_def by blast
    then show ?thesis by (simp add: E bs)
  qed
  moreover have "E' ! j \<noteq> e" if "j < m" for j
    using i that nth_mem [of j E'] by (auto simp: index_ok_def E)
  ultimately show ?thesis using i by (auto simp: index_ok_def E bs p')
qed

lemma dequeue_ok:
  assumes ok: "producer_ok (x # q) p"
  shows "\<exists>p'. dequeue thr p = Some (if thr then LostByThrow x else Got x, p') \<and> producer_ok q p'
    \<and> nextBlockIndexCapacity p' = nextBlockIndexCapacity p"
proof -
  let ?o = "slot (headIndex p)" and ?m = "used_blocks (x # q) p" and ?n = "Suc (length q)"
  obtain bs F E where i: "index_ok ?m (head_base p) bs F E p" and pl: "pool_ok bs p"
    and el: "elements_ok (x # q) ?o bs p" and t: "tailIndex p = headIndex p + of_nat (length (x # q))"
    and dq: "dequeueOptimisticCount p - dequeueOvercommit p = headIndex p"
    and tb: "slot (tailIndex p) \<noteq> 0 \<Longrightarrow> tailBlock p = Some (last bs)"
    using ok unfolding producer_ok_def by blast
  have m: "0 < ?m" "length bs = ?m" "length E = ?m" using i by (simp_all add: used_blocks_def index_ok_def div_greater_zero_iff)
  define p' where "p' = taken (E ! 0) (bs ! 0) p"
  have dist: "distinct bs" using pl by (simp add: pool_ok_def)
  have "?o + ?n + 31 < Suc ?m * 32"
    using div_less_iff_less_mult [of 32 "?o + ?n + 31" "Suc ?m"] by (simp add: used_blocks_def)
  then have fits: "?o + length (x # q) \<le> 32 * length bs" using m by simp
  have x: "block_get (headIndex p) (blocks p (bs ! 0)) = Some x"
    using el contents_first [of x q ?o bs "blocks p"] by (simp add: elements_ok_def block_get_def)
  have lt: "circular_less_than (headIndex p) (tailIndex p)"
    using producer_length [OF ok] by (simp add: circular_less_than_iff)
  note d = dequeue_head [OF i m(1) dq lt x]
  note els = taken_elements [OF el refl dist _ fits, of "E ! 0", folded p'_def]
  have "elementsCompletelyDequeued (blocks p (bs ! 0)) = of_nat ?o"
    using el m unfolding elements_ok_def by (metis (mono_tags))
  note rel = taken_released [OF this slot_less, of "E ! 0", folded p'_def]
  have sl: "slot (headIndex p') = (?o + 1) mod 32"
    using slot_add [of "headIndex p" 1] by (simp add: p'_def taken_fields)
  have common: "tailIndex p' = headIndex p' + of_nat (length q)"
    "dequeueOptimisticCount p' - dequeueOvercommit p' = headIndex p'"
    using t dq by (simp_all add: p'_def taken_fields algebra_simps)
  have "producer_ok q p'"
  proof (cases "?o = 31")
    case False
    then have o: "?o < 31" using slot_le [of "headIndex p"] by simp
    then have s: "slot (headIndex p') = Suc ?o" using sl by simp
    have "head_base p' = head_base p" using s by (simp add: head_base_def) (simp add: p'_def taken_fields)
    moreover have "used_blocks q p' = ?m" using s by (simp add: used_blocks_def)
    moreover have "index_ok ?m (head_base p) bs F E p'"
      using i index_ok_cong [of p' p] rel False by (simp add: p'_def taken_fields)
    moreover have "pool_ok bs p'" using pl pool_ok_cong [of p' p] rel False by (simp add: p'_def taken_fields)
    ultimately show ?thesis unfolding producer_ok_def
      using els(1) o m s common tb by (intro exI [of _ bs] exI [of _ F] exI [of _ E])
        (auto simp: p'_def taken_fields)
  next
    case True
    then have s: "slot (headIndex p') = 0" using sl by simp
    have hb: "head_base p' = head_base p + 32"
      using True s by (simp add: head_base_def) (simp add: p'_def taken_fields)
    have um: "used_blocks q p' = ?m - 1" using s True by (simp add: used_blocks_def)
    have "index_ok (?m - 1) (head_base p') (tl bs) (F @ [E ! 0]) (tl E) p'" unfolding hb
      by (rule index_release [where p = p]) (use i m rel True in \<open>simp_all add: p'_def taken_fields\<close>)
    moreover have "pool_ok (tl bs) p'"
      using pl rel True m by (cases bs) (auto simp: pool_ok_def unused_blocks_def p'_def taken_fields)
    moreover have "tailBlock p' = Some (last (tl bs))" if "slot (tailIndex p') \<noteq> 0"
    proof -
      have "slot (tailIndex p) \<noteq> 0" using that by (simp add: p'_def taken_fields)
      moreover from this have "q \<noteq> []" using tail_slot [OF t] True by auto
      then have "1 < length bs" using fits True by (cases q) auto
      then have "tl bs \<noteq> []" by (cases bs) auto
      ultimately show ?thesis using tb by (simp add: p'_def taken_fields last_tl)
    qed
    ultimately show ?thesis unfolding producer_ok_def
      using els(2) True m s common um by (intro exI [of _ "tl bs"] exI [of _ "F @ [E ! 0]"] exI [of _ "tl E"]) auto
  qed
  moreover have "nextBlockIndexCapacity p' = nextBlockIndexCapacity p" by (simp add: p'_def taken_fields)
  ultimately show ?thesis using d unfolding p'_def by blast
qed

lemma dequeue_empty: "producer_ok [] p \<Longrightarrow> dequeue thr p = Some (NothingThere, p)"
  by (auto simp: producer_ok_def dequeue_def Let_def circular_less_than_iff)

lemma ImplicitProducer_ok: "producer_ok [] (ImplicitProducer True poolSize)"
proof -
  let ?p = "ImplicitProducer True poolSize :: 'a producer"
  let ?h = "\<lparr>capacity = 32, bi_tail = 31, bi_index = [0..<32]\<rparr>"
  have f: "blockIndex ?p = Some ?h" "nextBlockIndexCapacity ?p = 64" "entries_used ?p = 32"
    "\<And>e. e < 32 \<Longrightarrow> entry_key ?p e = INVALID_BLOCK_BASE" "headIndex ?p = 0" "tailIndex ?p = 0"
    "dequeueOptimisticCount ?p = 0" "dequeueOvercommit ?p = 0" "freeList ?p = []"
    "initialBlockPoolIndex ?p = 0" "initialBlockPoolSize ?p = poolSize" "blocks_used ?p = unat poolSize"
    "\<And>b. length (elements (blocks ?p b)) = 32"
    by (simp_all add: ImplicitProducer_def new_block_index_def IMPLICIT_INITIAL_INDEX_SIZE_def Let_def Block_def)
  have h: "header_ok ?h" unfolding header_ok_def ring_size_def by (auto intro!: exI [of _ 5])
  have r: "ring ?h = [0..<32]" by (simp add: ring_def rotate_conv_mod [of 32])
  have "index_ok 0 (head_base ?p) [] [0..<32] [] ?p"
    unfolding index_ok_def using f h r by simp
  then show ?thesis unfolding producer_ok_def
    by (intro exI [of _ "[]"] exI [of _ "[0..<32]"] exI [of _ "[]"])
      (auto simp: used_blocks_def f slot_mod pool_ok_def elements_ok_def contents_ok_def)
qed

section \<open>Any sequence of calls\<close>

text \<open>
  The elements accepted and the elements handed out after a sequence of calls.  An index is never
  larger than memory can hold: \<^verbatim>\<open>malloc\<close> does not return room for more than $2^{57}$ entries.
\<close>

inductive producer_reach :: "64 word \<Rightarrow> 64 word \<Rightarrow> 'a list \<Rightarrow> 'a list \<Rightarrow> 'a producer \<Rightarrow> bool"
  for max_size poolSize where
  init: "producer_reach max_size poolSize [] [] (ImplicitProducer True poolSize)"
| enq: "producer_reach max_size poolSize ins outs p
    \<Longrightarrow> (iok \<longrightarrow> unat (nextBlockIndexCapacity p) \<le> 2 ^ 57)
    \<Longrightarrow> enqueue max_size mode iok bok c x p = Some (r, p')
    \<Longrightarrow> producer_reach max_size poolSize (if r = Enqueued then ins @ [x] else ins) outs p'"
| deq: "producer_reach max_size poolSize ins outs p \<Longrightarrow> dequeue thr p = Some (r, p')
    \<Longrightarrow> producer_reach max_size poolSize ins
          (case r of NothingThere \<Rightarrow> outs | Got y \<Rightarrow> outs @ [y] | LostByThrow y \<Rightarrow> outs @ [y]) p'"

lemma producer_reach_ok:
  "producer_reach max_size poolSize ins outs p \<Longrightarrow> \<exists>q. ins = outs @ q \<and> producer_ok q p"
proof (induction rule: producer_reach.induct)
  case init
  then show ?case using ImplicitProducer_ok by blast
next
  case (enq ins outs p iok mode bok c x r p')
  then obtain q where "ins = outs @ q" "producer_ok q p" by blast
  then show ?case
    using enqueue_ok [of q p iok c x max_size mode bok] enq.hyps by (auto simp: enqueue_outcome_def)
next
  case (deq ins outs p thr r p')
  then obtain q where q: "ins = outs @ q" "producer_ok q p" by blast
  show ?case
  proof (cases q)
    case Nil
    then show ?thesis using q dequeue_empty [of p thr] deq.hyps by auto
  next
    case (Cons x q')
    then show ?thesis using q dequeue_ok [of x q' p thr] deq.hyps by (cases thr) auto
  qed
qed

lemma refused_reason:
  assumes "enqueue max_size mode iok bok c x p = Some (Refused, p')"
  shows "is_full max_size (tailIndex p) (headIndex p) \<or> mode = CannotAlloc \<or> \<not> iok \<or> \<not> bok"
proof -
  have no_entry: "mode = CannotAlloc \<or> \<not> iok" if "insert_block_index_entry mode iok k p = Some (None, p1)" for k p1
    using that by (auto simp: insert_block_index_entry_def new_block_index_def Let_def
        split: option.splits prod.splits if_splits bool.splits)
  have no_block: "mode = CannotAlloc \<or> \<not> bok" if "requisition_block mode bok p1 = (None, p2)" for p1 p2
    using that by (cases mode) (auto simp: requisition_block_def create_block_def split: prod.splits option.splits if_splits)
  have "enqueue_in_tail c x p1 \<noteq> Some (Refused, p')" for p1
    by (auto simp: enqueue_in_tail_def split: option.splits)
  then show ?thesis using assms no_entry no_block
    by (auto simp: enqueue_def Let_def split: if_splits option.splits prod.splits)
qed


text \<open>A call on a fresh producer, evaluated.\<close>

lemma first_enqueue:
  "\<exists>p'. enqueue (- 1) CannotAlloc False False Noexcept (7 :: nat) (ImplicitProducer True 2) = Some (Enqueued, p')"
proof -
  have full: "\<not> is_full (- 1) 0 0"
    by (simp add: is_full_def const_numeric_max_def BLOCK_SIZE_def circular_less_than_iff)
  have "slot 0 = 0" by (simp add: slot_mod)
  have f: "tailIndex (ImplicitProducer True 2 :: nat producer) = 0" "headIndex (ImplicitProducer True 2 :: nat producer) = 0"
    by (simp_all add: ImplicitProducer_def new_block_index_def Let_def)
  have out: "enqueue_outcome Noexcept 7 []
      (enqueue (- 1) CannotAlloc False False Noexcept (7 :: nat) (ImplicitProducer True 2))"
    by (rule enqueue_ok [OF ImplicitProducer_ok]) simp
  then obtain r p' where e: "enqueue (- 1) CannotAlloc False False Noexcept (7 :: nat) (ImplicitProducer True 2) = Some (r, p')"
    "r \<noteq> Threw" by (auto simp: enqueue_outcome_def)
  have "r \<noteq> Refused"
    using e f full
    by (auto simp: enqueue_def insert_block_index_entry_def next_slot_def ImplicitProducer_def new_block_index_def
        Let_def IMPLICIT_INITIAL_INDEX_SIZE_def set_bi_tail_def set_entry_key_def requisition_block_def
        try_get_block_from_initial_pool_def enqueue_in_tail_def set_entry_value_def upd_block_def)
  then show ?thesis using e by (cases r) auto
qed


text \<open>
  A producer whose first index could not be allocated.  The constructor ignores that
  failure, and the first call of \<^verbatim>\<open>enqueue\<close> then follows the null pointer to the index instead of
  refusing the element.
\<close>

theorem implicit_producer_without_index:
  "blockIndex (ImplicitProducer False poolSize :: 'a producer) = None
   \<and> enqueue (const_numeric_max False) mode iok bok c (x :: 'a) (ImplicitProducer False poolSize) = None"
proof -
  have "\<not> is_full (const_numeric_max False) 0 0"
    by (simp add: is_full_def BLOCK_SIZE_def circular_less_than_iff)
  then show ?thesis
    by (simp add: ImplicitProducer_def new_block_index_def Let_def enqueue_def insert_block_index_entry_def next_slot_def)
qed

end
