(* ===== verification/CQ_Explicit.thy ===== *)
theory CQ_Explicit
  imports CQ_Pool
begin

text \<open>
  \<^verbatim>\<open>ExplicitProducer\<close> of the lock-free queue
  (\<^verbatim>\<open>Source/Core/Private/Core/Utilities/Containers/ConcurrentQueue.h\<close>), the sub-queue behind a
  producer token, call by call.  Its blocks form a circular list, in which emptied blocks wait to be
  used again; a ring of entries maps base indices to blocks and grows when it is full.
\<close>

unbundle bit_operations_syntax

section \<open>Data\<close>

text \<open>
  \<^verbatim>\<open>BlockIndexHeader\<close>; an entry is the base index and the block, and is \<^term>\<open>None\<close> before it is
  stored.
\<close>

record ExplicitIndex =
  ix_size :: "64 word"
  ix_front :: "64 word"
  ix_entries :: "(64 word \<times> nat) option list"

text \<open>
  The producer's own pointers to the current index (\<^verbatim>\<open>pr_blockIndexEntries\<close> and
  \<^verbatim>\<open>pr_blockIndexRaw\<close>) are the index itself here, or none.
\<close>

record 'a explicit_producer = "'a producer_base" +
  x_blockIndex :: "ExplicitIndex option"
  pr_blockIndexSlotsUsed :: "64 word"
  pr_blockIndexSize :: "64 word"
  pr_blockIndexFront :: "64 word"

section \<open>The block index\<close>

text \<open>The copying loop, from position \<open>i\<close> until the front is reached; a ring has as many positions as entries.\<close>

fun copy_ring :: "nat \<Rightarrow> 'e list \<Rightarrow> 64 word \<Rightarrow> 64 word \<Rightarrow> 64 word \<Rightarrow> 'e list" where
  "copy_ring 0 es msk front i = []"
| "copy_ring (Suc n) es msk front i =
     (let i' = (i + 1) AND msk in es ! unat i # (if i' = front then [] else copy_ring n es msk front i'))"

definition x_new_block_index :: "bool \<Rightarrow> 64 word \<Rightarrow> 'a explicit_producer \<Rightarrow> bool \<times> 'a explicit_producer" where
  "x_new_block_index malloc_ok numberOfFilledSlotsToExpose p =
     (let prevBlockSizeMask = pr_blockIndexSize p - 1;
          newSize = push_bit 1 (pr_blockIndexSize p);
          copied = (if pr_blockIndexSlotsUsed p \<noteq> 0
                    then (let es = (case x_blockIndex p of None \<Rightarrow> [] | Some h \<Rightarrow> ix_entries h)
                          in copy_ring (length es) es prevBlockSizeMask (pr_blockIndexFront p)
                               ((pr_blockIndexFront p - pr_blockIndexSlotsUsed p) AND prevBlockSizeMask))
                    else [])
      in if \<not> malloc_ok then (False, p)
         else (True, p\<lparr>x_blockIndex := Some \<lparr>ix_size = newSize, ix_front = numberOfFilledSlotsToExpose - 1,
                         ix_entries = copied @ replicate (unat newSize - length copied) None\<rparr>,
                       pr_blockIndexSize := newSize, pr_blockIndexFront := of_nat (length copied)\<rparr>))"

text \<open>\<^verbatim>\<open>Add block to block index\<close>: store the entry, publish it, advance the front.\<close>

definition publish_entry :: "64 word \<Rightarrow> nat \<Rightarrow> 'a explicit_producer \<Rightarrow> 'a explicit_producer option" where
  "publish_entry base b p =
     map_option (\<lambda>h. p\<lparr>x_blockIndex := Some (h\<lparr>ix_entries := (ix_entries h)[unat (pr_blockIndexFront p) := Some (base, b)],
                                             ix_front := pr_blockIndexFront p\<rparr>),
                      pr_blockIndexFront := (pr_blockIndexFront p + 1) AND (pr_blockIndexSize p - 1)\<rparr>)
       (x_blockIndex p)"

definition x_lookup :: "64 word \<Rightarrow> 'a explicit_producer \<Rightarrow> nat option" where
  "x_lookup index p =
     (case x_blockIndex p of
        None \<Rightarrow> None
      | Some h \<Rightarrow>
          (case ix_entries h ! unat (ix_front h) of
             None \<Rightarrow> None
           | Some (headBase, _) \<Rightarrow>
               (let blockBaseIndex = index AND NOT (BLOCK_SIZE - 1);
                    offset = (blockBaseIndex - headBase) div BLOCK_SIZE
                in map_option snd (ix_entries h ! unat ((ix_front h + offset) AND (ix_size h - 1))))))"

section \<open>The producer\<close>

definition ExplicitProducer :: "bool \<Rightarrow> 64 word \<Rightarrow> 'a explicit_producer" where
  "ExplicitProducer malloc_ok poolSize =
     (let half = drop_bit 1 EXPLICIT_INITIAL_INDEX_SIZE;
          poolBasedIndexSize = drop_bit 1 (ceil_to_pow_2 poolSize)
      in snd (x_new_block_index malloc_ok 0
           \<lparr>tailIndex = 0, headIndex = 0, dequeueOptimisticCount = 0, dequeueOvercommit = 0, tailBlock = None,
            blocks = (\<lambda>_. Block\<lparr>dynamicallyAllocated := False\<rparr>),
            initialBlockPoolIndex = 0, initialBlockPoolSize = poolSize, freeList = [],
            blocks_used = unat poolSize,
            x_blockIndex = None, pr_blockIndexSlotsUsed = 0,
            pr_blockIndexSize = (if poolBasedIndexSize > half then poolBasedIndexSize else half),
            pr_blockIndexFront = 0\<rparr>))"

text \<open>Insert a new block into the circular list after the tail block, and make it the tail block.\<close>

definition link_block :: "nat \<Rightarrow> 'a explicit_producer \<Rightarrow> 'a explicit_producer" where
  "link_block nb p =
     (case tailBlock p of
        None \<Rightarrow> (upd_block nb (\<lambda>b. b\<lparr>block_next := Some nb\<rparr>) p)\<lparr>tailBlock := Some nb\<rparr>
      | Some tb \<Rightarrow>
          (upd_block tb (\<lambda>b. b\<lparr>block_next := Some nb\<rparr>)
            (upd_block nb (\<lambda>b. b\<lparr>block_next := block_next (blocks p tb)\<rparr>) p))\<lparr>tailBlock := Some nb\<rparr>)"

text \<open>A block from the pool: the result is whether there was one.\<close>

definition add_block :: "AllocationMode \<Rightarrow> bool \<Rightarrow> 'a explicit_producer \<Rightarrow> bool \<times> 'a explicit_producer" where
  "add_block mode block_ok p =
     (case requisition_block mode block_ok p of
        (None, p1) \<Rightarrow> (False, p1)
      | (Some nb, p1) \<Rightarrow>
          (let p2 = link_block nb (upd_block nb (reset_empty explicit_context) p1)
           in (True, p2\<lparr>pr_blockIndexSlotsUsed := pr_blockIndexSlotsUsed p2 + 1\<rparr>)))"

definition alloc_tail ::
  "64 word \<Rightarrow> AllocationMode \<Rightarrow> bool \<Rightarrow> bool \<Rightarrow> 'a explicit_producer \<Rightarrow> bool \<times> 'a explicit_producer" where
  "alloc_tail max_size mode index_ok block_ok p =
     (if is_full max_size (tailIndex p) (headIndex p) then (False, p)
      else if x_blockIndex p = None \<or> pr_blockIndexSlotsUsed p = pr_blockIndexSize p then
        (if mode = CannotAlloc then (False, p)
         else (case x_new_block_index index_ok (pr_blockIndexSlotsUsed p) p of
                 (False, p1) \<Rightarrow> (False, p1)
               | (True, p1) \<Rightarrow> add_block mode block_ok p1))
      else add_block mode block_ok p)"

text \<open>At the end of a block: use the block ahead again if it is empty, else take another one.\<close>

definition new_tail_block ::
  "64 word \<Rightarrow> AllocationMode \<Rightarrow> bool \<Rightarrow> bool \<Rightarrow> 'a explicit_producer \<Rightarrow> (bool \<times> 'a explicit_producer) option" where
  "new_tail_block max_size mode index_ok block_ok p =
     (case tailBlock p of
        None \<Rightarrow> Some (alloc_tail max_size mode index_ok block_ok p)
      | Some tb \<Rightarrow>
          (case block_next (blocks p tb) of
             None \<Rightarrow> None
           | Some nb \<Rightarrow>
               if is_empty explicit_context (blocks p nb)
               then Some (True, (upd_block nb (reset_empty explicit_context) p)\<lparr>tailBlock := Some nb\<rparr>)
               else Some (alloc_tail max_size mode index_ok block_ok p)))"

definition x_enqueue ::
  "64 word \<Rightarrow> AllocationMode \<Rightarrow> bool \<Rightarrow> bool \<Rightarrow> ctor \<Rightarrow> 'a \<Rightarrow> 'a explicit_producer
     \<Rightarrow> (enqueue_result \<times> 'a explicit_producer) option" where
  "x_enqueue max_size mode index_ok block_ok c x p =
     (if tailIndex p AND (BLOCK_SIZE - 1) = 0 then
        (case new_tail_block max_size mode index_ok block_ok p of
           None \<Rightarrow> None
         | Some (False, p1) \<Rightarrow> Some (Refused, p1)
         | Some (True, p1) \<Rightarrow>
             if c = MayThrow True
             then Some (Threw, p1\<lparr>pr_blockIndexSlotsUsed := pr_blockIndexSlotsUsed p,
                                 tailBlock := (case tailBlock p of None \<Rightarrow> tailBlock p1 | Some b \<Rightarrow> Some b)\<rparr>)
             else (case tailBlock p1 of
                     None \<Rightarrow> None
                   | Some tb \<Rightarrow> Option.bind (publish_entry (tailIndex p) tb p1) (enqueue_in_tail c x)))
      else enqueue_in_tail c x p)"

definition x_dequeue :: "bool \<Rightarrow> 'a explicit_producer \<Rightarrow> ('a dequeue_result \<times> 'a explicit_producer) option" where
  "x_dequeue assign_throws p =
     (let tail = tailIndex p; overcommit = dequeueOvercommit p
      in if circular_less_than (dequeueOptimisticCount p - overcommit) tail then
           (let myDequeueCount = dequeueOptimisticCount p;
                p1 = p\<lparr>dequeueOptimisticCount := myDequeueCount + 1\<rparr>
            in if circular_less_than (myDequeueCount - overcommit) (tailIndex p1) then
                 (let index = headIndex p1; p2 = p1\<lparr>headIndex := index + 1\<rparr>
                  in case x_lookup index p2 of
                       None \<Rightarrow> None
                     | Some b \<Rightarrow>
                         (case block_get index (blocks p2 b) of
                            None \<Rightarrow> None
                          | Some el \<Rightarrow>
                              (let p3 = upd_block b (block_put index None) p2;
                                   p4 = upd_block b (\<lambda>blk. snd (set_empty explicit_context index blk)) p3
                               in Some (if assign_throws then LostByThrow el else Got el, p4))))
               else Some (NothingThere, p1\<lparr>dequeueOvercommit := dequeueOvercommit p1 + 1\<rparr>))
         else Some (NothingThere, p))"

section \<open>The circular list\<close>

fun linked :: "(nat \<Rightarrow> 'a block) \<Rightarrow> nat list \<Rightarrow> bool" where
  "linked B (a # b # xs) \<longleftrightarrow> block_next (B a) = Some b \<and> linked B (b # xs)"
| "linked B _ \<longleftrightarrow> True"

definition circular :: "(nat \<Rightarrow> 'a block) \<Rightarrow> nat list \<Rightarrow> bool" where
  "circular B xs \<longleftrightarrow> linked B xs \<and> (xs \<noteq> [] \<longrightarrow> block_next (B (last xs)) = Some (hd xs))"

lemma linked_Cons: "linked B (a # xs) \<longleftrightarrow> linked B xs \<and> (xs \<noteq> [] \<longrightarrow> block_next (B a) = Some (hd xs))"
  by (cases xs) auto

lemma linked_append:
  "linked B (xs @ ys) \<longleftrightarrow> linked B xs \<and> linked B ys
     \<and> (xs \<noteq> [] \<and> ys \<noteq> [] \<longrightarrow> block_next (B (last xs)) = Some (hd ys))"
  by (induction xs) (auto simp: linked_Cons simp del: linked.simps(1))

lemma linked_cong:
  "(\<And>b. b \<in> set (butlast xs) \<Longrightarrow> block_next (B' b) = block_next (B b)) \<Longrightarrow> linked B' xs = linked B xs"
  by (induction B xs rule: linked.induct) auto

lemma circular_cong:
  "(\<And>b. b \<in> set xs \<Longrightarrow> block_next (B' b) = block_next (B b)) \<Longrightarrow> circular B' xs = circular B xs"
  using linked_cong [of xs B' B] by (auto simp: circular_def dest: in_set_butlastD)

lemma circular_rotate: "circular B (a # xs) = circular B (xs @ [a])"
  using linked_append [of B xs "[a]"] by (cases xs) (auto simp: circular_def)

lemma not_last_butlast: "distinct xs \<Longrightarrow> c \<in> set (butlast xs) \<Longrightarrow> c \<noteq> last xs"
  by (cases xs rule: rev_cases) auto

text \<open>Inserting after the last block.\<close>

lemma circular_insert:
  assumes "circular B xs" "b \<notin> set xs" "distinct xs"
    and B': "block_next (B' b) = Some (hd (xs @ [b]))" "xs \<noteq> [] \<Longrightarrow> block_next (B' (last xs)) = Some b"
      "\<And>c. c \<in> set (butlast xs) \<Longrightarrow> block_next (B' c) = block_next (B c)"
  shows "circular B' (xs @ [b])"
  using assms linked_cong [of xs B' B] by (auto simp: circular_def linked_append)


section \<open>The ring of entries\<close>

text \<open>The entries of the blocks \<open>U\<close> in use, the first of which has the base \<open>hb\<close>.\<close>

definition entries_for :: "64 word \<Rightarrow> nat list \<Rightarrow> (64 word \<times> nat) option list" where
  "entries_for hb U = map (\<lambda>j. Some (hb + of_nat (32 * j), U ! j)) [0 ..< length U]"

lemma entries_for_simps:
  "length (entries_for hb U) = length U"
  "j < length U \<Longrightarrow> entries_for hb U ! j = Some (hb + of_nat (32 * j), U ! j)"
  "entries_for hb (U @ [b]) = entries_for hb U @ [Some (hb + of_nat (32 * length U), b)]"
  "entries_for hb [] = []"
  by (simp_all add: entries_for_def nth_append)

lemma entries_for_tl: "U \<noteq> [] \<Longrightarrow> entries_for hb U = Some (hb, U ! 0) # entries_for (hb + 32) (tl U)"
  unfolding entries_for_def
  by (cases U) (simp_all add: upt_conv_Cons map_Suc_upt [symmetric] add.assoc del: upt_Suc map_Suc_upt)

text \<open>The entries from the next slot to be written to the newest one.\<close>

definition x_index_ok :: "64 word \<Rightarrow> nat list \<Rightarrow> 'a explicit_producer \<Rightarrow> bool" where
  "x_index_ok hb U p \<longleftrightarrow>
     (case x_blockIndex p of
        None \<Rightarrow> U = [] \<and> pr_blockIndexSlotsUsed p = 0 \<and> ring_size (push_bit 1 (pr_blockIndexSize p))
      | Some h \<Rightarrow> ring_size (pr_blockIndexSize p) \<and> ix_size h = pr_blockIndexSize p
          \<and> length (ix_entries h) = unat (pr_blockIndexSize p)
          \<and> unat (pr_blockIndexFront p) < unat (pr_blockIndexSize p)
          \<and> unat (pr_blockIndexSlotsUsed p) \<le> unat (pr_blockIndexSize p)
          \<and> (\<exists>F. rotate (unat (pr_blockIndexFront p)) (ix_entries h) = F @ entries_for hb U)
          \<and> (U \<noteq> [] \<longrightarrow> unat (ix_front h) < unat (pr_blockIndexSize p)
                \<and> Suc (unat (ix_front h)) mod unat (pr_blockIndexSize p) = unat (pr_blockIndexFront p)))"

lemma x_index_ok_cong:
  "x_blockIndex p' = x_blockIndex p \<Longrightarrow> pr_blockIndexSlotsUsed p' = pr_blockIndexSlotsUsed p
   \<Longrightarrow> pr_blockIndexSize p' = pr_blockIndexSize p \<Longrightarrow> pr_blockIndexFront p' = pr_blockIndexFront p
   \<Longrightarrow> x_index_ok hb U p' = x_index_ok hb U p"
  by (simp only: x_index_ok_def)

text \<open>What a step on the index may change.\<close>

definition x_index_changed :: "'a explicit_producer \<Rightarrow> 'a explicit_producer \<Rightarrow> bool" where
  "x_index_changed p p' \<longleftrightarrow> producer_base.truncate p' = producer_base.truncate p
     \<and> pr_blockIndexSlotsUsed p' = pr_blockIndexSlotsUsed p"

lemma rotate_update_front:
  assumes "n < length xs"
  shows "rotate n (xs[n := v]) = v # tl (rotate n xs)"
proof -
  obtain y ys where "drop n xs = y # ys" using assms by (cases "drop n xs") auto
  then show ?thesis using assms by (simp add: rotate_drop_take drop_update_swap)
qed

lemma publish_spec:
  assumes ok: "x_index_ok hb U p" and room: "length U < unat (pr_blockIndexSize p)" and some: "x_blockIndex p \<noteq> None"
  obtains p' where "publish_entry (hb + of_nat (32 * length U)) b p = Some p'" "x_index_ok hb (U @ [b]) p'"
    "x_index_changed p p'" "x_blockIndex p' \<noteq> None"
proof -
  let ?c = "unat (pr_blockIndexSize p)" and ?f = "unat (pr_blockIndexFront p)"
    and ?v = "Some (hb + of_nat (32 * length U), b)"
  obtain h F where h: "x_blockIndex p = Some h" "ring_size (pr_blockIndexSize p)" "ix_size h = pr_blockIndexSize p"
    "length (ix_entries h) = ?c" "?f < ?c" "unat (pr_blockIndexSlotsUsed p) \<le> ?c"
    "rotate ?f (ix_entries h) = F @ entries_for hb U"
    using ok some by (auto simp: x_index_ok_def split: option.splits)
  have "length (rotate ?f (ix_entries h)) = length F + length U" by (simp only: h(7) length_append entries_for_simps)
  then have "F \<noteq> []" using room h(4) by auto
  then have t: "tl (rotate ?f (ix_entries h)) = tl F @ entries_for hb U" by (simp add: h(7))
  let ?es = "(ix_entries h)[?f := ?v]"
  have "rotate (Suc ?f mod ?c) ?es = rotate1 (rotate ?f ?es)"
    using rotate_conv_mod [of "Suc ?f" ?es] h(4) by simp
  then have "rotate (Suc ?f mod ?c) ?es = tl F @ entries_for hb (U @ [b])"
    using h(4, 5) t by (simp add: rotate_update_front entries_for_simps)
  moreover have "unat ((pr_blockIndexFront p + 1) AND (pr_blockIndexSize p - 1)) = Suc ?f mod ?c"
    by (rule ring_next [OF h(2, 5)])
  moreover have "Suc ?f mod ?c < ?c" using h(5) by simp
  ultimately show ?thesis using h
    by (intro that [of "the (publish_entry (hb + of_nat (32 * length U)) b p)"])
      (auto simp: publish_entry_def x_index_ok_def x_index_changed_def producer_base.truncate_def)
qed

lemma copy_ring_map:
  assumes c: "ring_size c" and f: "unat front < unat c" and "1 \<le> d" "d \<le> n" "d \<le> unat c"
    and i: "unat i = (unat front + (unat c - d)) mod unat c"
  shows "copy_ring n es (c - 1) front i = map (\<lambda>t. es ! ((unat i + t) mod unat c)) [0 ..< d]"
  using assms(3-6)
proof (induction n arbitrary: d i)
  case (Suc n)
  let ?i = "(i + 1) AND (c - 1)" and ?c = "unat c"
  have lt: "unat i < ?c" using Suc.prems(4) f by simp
  have n: "unat ?i = Suc (unat i) mod ?c" by (rule ring_next [OF c lt])
  have "Suc (unat front + (?c - d)) = unat front + (?c - (d - 1))" using Suc.prems by simp
  then have i': "unat ?i = (unat front + (?c - (d - 1))) mod ?c"
    unfolding n Suc.prems(4) mod_Suc_eq by (simp only:)
  have map: "map g [0 ..< d] = g 0 # map (\<lambda>t. g (Suc t)) [0 ..< d - 1]" for g :: "nat \<Rightarrow> 'a"
    using Suc.prems(1) by (cases d) (simp_all add: upt_conv_Cons map_Suc_upt [symmetric] del: upt_Suc)
  show ?case
  proof (cases "d = 1")
    case True
    then have "?i = front" using i' f by (simp add: word_unat_eq_iff)
    then show ?thesis using True lt by simp
  next
    case False
    have "?i \<noteq> front"
    proof
      assume "?i = front"
      define k where "k = ?c - (d - 1)"
      have "(unat front + k) mod ?c = unat front" "0 < k" "k < ?c"
        using i' \<open>?i = front\<close> Suc.prems False by (simp_all add: k_def)
      then show False using f by (simp add: mod_if [of "unat front + k"] split: if_splits)
    qed
    then show ?thesis using Suc.IH [of "d - 1" ?i] Suc.prems i' lt False
      by (simp add: map Let_def n mod_add_left_eq)
  qed
qed simp


lemma full_ring_start:
  assumes c: "ring_size c" and f: "unat front < unat c"
  shows "(front - c) AND (c - 1) = front"
proof -
  note o = ring_sizeD [OF c]
  obtain a where a: "2 ^ 59 = unat c * a" using o(3) unfolding dvd_def by blast
  have "(2 :: nat) ^ 64 = 2 ^ 59 * 32" by simp
  then have w: "2 ^ 64 = unat c * (32 * a)" by (simp only: a ac_simps)
  have "1 \<le> a" using a by (cases a) auto
  have "unat (- c) = 2 ^ 64 - unat c" using unat_uminus [of c] o(1) by auto
  then have "unat (front - c) = unat front + (2 ^ 64 - unat c)"
    using unat_add_no_overflow [of front "- c"] f o(2) by simp
  also have "\<dots> = unat front + unat c * (32 * a - 1)" unfolding w by (simp add: diff_mult_distrib2)
  finally have "unat (front - c) mod unat c = unat front" using f by simp
  then show ?thesis using ring_size_and [OF c, of "front - c"] by (simp add: word_unat_eq_iff)
qed

lemma copy_full_ring:
  assumes c: "ring_size c" and f: "unat front < unat c" and l: "length es = unat c"
  shows "copy_ring (length es) es (c - 1) front ((front - c) AND (c - 1)) = rotate (unat front) es"
proof -
  have "copy_ring (length es) es (c - 1) front front = map (\<lambda>t. es ! ((unat front + t) mod unat c)) [0 ..< unat c]"
    using ring_sizeD(1) [OF c] f l by (intro copy_ring_map [OF c f]) simp_all
  also have "\<dots> = rotate (unat front) es"
    using l by (intro nth_equalityI) (simp_all add: nth_rotate add.commute)
  finally show ?thesis by (simp only: full_ring_start [OF c f])
qed

lemma grow_spec:
  assumes ok: "x_index_ok hb U p" and small: "unat (push_bit 1 (pr_blockIndexSize p)) \<le> 2 ^ 57"
    and full: "x_blockIndex p = None \<or> pr_blockIndexSlotsUsed p = pr_blockIndexSize p"
  obtains p' where "x_new_block_index True (pr_blockIndexSlotsUsed p) p = (True, p')" "x_index_ok hb U p'"
    "x_index_changed p p'" "x_blockIndex p' \<noteq> None"
    "unat (pr_blockIndexSlotsUsed p') < unat (pr_blockIndexSize p')"
proof (cases "x_blockIndex p")
  case None
  let ?p = "snd (x_new_block_index True (pr_blockIndexSlotsUsed p) p)"
  have n: "U = []" "pr_blockIndexSlotsUsed p = 0" "ring_size (push_bit 1 (pr_blockIndexSize p))"
    using ok None by (simp_all add: x_index_ok_def)
  note o = ring_sizeD(1) [OF n(3)]
  show ?thesis
    by (rule that [of ?p])
      (use n o in \<open>auto simp: x_new_block_index_def Let_def x_index_ok_def x_index_changed_def entries_for_simps
          producer_base.truncate_def\<close>)
next
  case (Some h)
  let ?c = "pr_blockIndexSize p" and ?f = "pr_blockIndexFront p"
  have s: "pr_blockIndexSlotsUsed p = ?c" using full Some by simp
  have h: "ring_size ?c" "length (ix_entries h) = unat ?c" "unat ?f < unat ?c"
    using ok Some by (simp_all add: x_index_ok_def)
  obtain F where F: "rotate (unat ?f) (ix_entries h) = F @ entries_for hb U"
    using ok Some by (auto simp: x_index_ok_def)
  note d = ring_size_double [OF h(1) small]
  note o = ring_sizeD [OF h(1)]
  have c0: "?c \<noteq> 0" using o(1) by auto
  define es where "es = rotate (unat ?f) (ix_entries h) @ replicate (unat ?c) None"
  define p' where "p' = p\<lparr>x_blockIndex := Some \<lparr>ix_size = push_bit 1 ?c, ix_front = ?c - 1, ix_entries = es\<rparr>,
      pr_blockIndexSize := push_bit 1 ?c, pr_blockIndexFront := ?c\<rparr>"
  have new: "x_new_block_index True (pr_blockIndexSlotsUsed p) p = (True, p')"
    using copy_full_ring [OF h(1, 3, 2)] c0 h(2) d(2)
    by (simp add: x_new_block_index_def Some s Let_def p'_def es_def)
  have "rotate (unat ?c) es = replicate (unat ?c) None @ F @ entries_for hb U"
    using h(2) by (simp add: es_def F rotate_append flip: F) (metis F length_rotate rotate_append)
  moreover have "unat (?c - 1) = unat ?c - 1" using o(1) by (subst unat_sub_le) simp_all
  moreover have "length es = 2 * unat ?c" using h(2) by (simp add: es_def)
  ultimately have "x_index_ok hb U p'"
    using d o(1) s by (auto simp: x_index_ok_def p'_def)
  then show ?thesis using new d o(1) s
    by (intro that [of p']) (simp_all add: p'_def x_index_changed_def producer_base.truncate_def)
qed

lemma lookup_spec:
  assumes ok: "x_index_ok hb U p" and U: "U \<noteq> []" and base: "index AND NOT (BLOCK_SIZE - 1) = hb"
  shows "x_lookup index p = Some (U ! 0)"
proof -
  let ?c = "unat (pr_blockIndexSize p)" and ?f = "unat (pr_blockIndexFront p)" and ?m = "length U"
  obtain h where h: "x_blockIndex p = Some h" using ok U by (auto simp: x_index_ok_def split: option.splits)
  let ?t = "unat (ix_front h)" and ?es = "ix_entries h"
  have o: "ring_size (pr_blockIndexSize p)" "ix_size h = pr_blockIndexSize p" "length ?es = ?c"
    "?t < ?c" "Suc ?t mod ?c = ?f"
    using ok U h by (simp_all add: x_index_ok_def)
  obtain F where F: "rotate ?f ?es = F @ entries_for hb U" using ok h by (auto simp: x_index_ok_def)
  have "length (rotate ?f ?es) = length F + ?m" by (simp only: F length_append entries_for_simps)
  then have l: "length F = ?c - ?m" "?m \<le> ?c" using o(3) by auto
  have at: "?es ! ((?t + (?c - d)) mod ?c) = Some (hb + of_nat (32 * (?m - 1 - d)), U ! (?m - 1 - d))" if d: "d < ?m" for d
  proof -
    have "?t + (?c - d) = Suc ?t + (?c - 1 - d)" using d l by simp
    then have "(?t + (?c - d)) mod ?c = (Suc ?t + (?c - 1 - d)) mod ?c" by (simp only:)
    also have "\<dots> = (?f + (?c - 1 - d)) mod ?c" unfolding o(5) [symmetric] by (simp add: mod_add_left_eq)
    finally have "?es ! ((?t + (?c - d)) mod ?c) = rotate ?f ?es ! (?c - 1 - d)"
      using d l o(3) by (simp add: nth_rotate)
    also have "?c - 1 - d = length F + (?m - 1 - d)" using d l by simp
    also have "rotate ?f ?es ! (length F + (?m - 1 - d)) = entries_for hb U ! (?m - 1 - d)"
      by (simp only: F nth_append_length_plus)
    finally show ?thesis using d by (simp add: entries_for_simps)
  qed
  have m0: "0 < ?m" using U by simp
  then have m1: "?m - 1 < ?c" using l(2) by linarith
  have "?es ! ?t = Some (hb + of_nat (32 * (?m - 1)), U ! (?m - 1))" using at [OF m0] o(4) by simp
  moreover have "unat ((ix_front h + (- of_nat (32 * (?m - 1))) div BLOCK_SIZE) AND (ix_size h - 1))
      = (?t + (?c - (?m - 1))) mod ?c"
    unfolding o(2) by (rule ring_position [OF o(1, 4) m1])
  moreover have "?es ! ((?t + (?c - (?m - 1))) mod ?c) = Some (hb, U ! 0)"
  proof -
    define d where "d = ?m - 1"
    have "d < ?m" "?m - 1 - d = 0" using m0 by (simp_all add: d_def)
    then show ?thesis using at [of d] unfolding d_def [symmetric] by simp
  qed
  ultimately show ?thesis by (simp add: x_lookup_def h base Let_def del: of_nat_mult)
qed


section \<open>The invariant\<close>

text \<open>Slot \<open>31 - k\<close> of a block has flag \<open>k\<close>; of the blocks in use only slots of the first are emptied.\<close>

definition flags_ok :: "nat \<Rightarrow> nat list \<Rightarrow> (nat \<Rightarrow> 'a block) \<Rightarrow> bool" where
  "flags_ok hs U B \<longleftrightarrow> (\<forall>b. length (emptyFlags (B b)) = 32)
     \<and> (\<forall>j<length U. \<forall>k<32. emptyFlags (B (U ! j)) ! k = (j = 0 \<and> 31 - k < hs))"

abbreviation empty_blocks :: "(nat \<Rightarrow> 'a block) \<Rightarrow> nat list \<Rightarrow> nat" where
  "empty_blocks B G \<equiv> length (filter (\<lambda>b. is_empty explicit_context (B b)) G)"

text \<open>
  The queue \<open>q\<close> is in the blocks \<open>U\<close>; the circular list holds the blocks \<open>G\<close> and \<open>U\<close> and the tail
  block is its last one.  A block of \<open>G\<close> is emptied, or was left behind by a constructor that threw.
  The index has room for the blocks in use and for those that can be used again.
\<close>

definition indices_ok :: "'a list \<Rightarrow> 'a explicit_producer \<Rightarrow> bool" where
  "indices_ok q p \<longleftrightarrow> tailIndex p = headIndex p + of_nat (length q)
     \<and> dequeueOptimisticCount p - dequeueOvercommit p = headIndex p"

definition in_use :: "'a list \<Rightarrow> nat list \<Rightarrow> 'a explicit_producer \<Rightarrow> bool" where
  "in_use q U p \<longleftrightarrow> length U = used_blocks q p \<and> x_index_ok (head_base p) U p
     \<and> contents_ok q (slot (headIndex p)) U (blocks p) \<and> flags_ok (slot (headIndex p)) U (blocks p)
     \<and> indices_ok q p"

definition x_state :: "'a list \<Rightarrow> nat list \<Rightarrow> nat list \<Rightarrow> 'a explicit_producer \<Rightarrow> bool" where
  "x_state q G U p \<longleftrightarrow> in_use q U p \<and> pool_ok (G @ U) p \<and> circular (blocks p) (G @ U)
     \<and> tailBlock p = (if G @ U = [] then None else Some (last (G @ U)))
     \<and> length U + empty_blocks (blocks p) G \<le> unat (pr_blockIndexSlotsUsed p)
     \<and> (x_blockIndex p = None \<longrightarrow> G @ U = [])"

definition x_ok :: "'a list \<Rightarrow> 'a explicit_producer \<Rightarrow> bool" where
  "x_ok q p \<longleftrightarrow> (\<exists>G U. x_state q G U p)"

text \<open>A new tail block \<open>nb\<close> that is not in the index yet.\<close>

definition x_pending :: "'a list \<Rightarrow> nat list \<Rightarrow> nat list \<Rightarrow> nat \<Rightarrow> 'a explicit_producer \<Rightarrow> bool" where
  "x_pending q G U nb p \<longleftrightarrow> in_use q U p \<and> pool_ok (G @ U @ [nb]) p \<and> circular (blocks p) (G @ U @ [nb])
     \<and> tailBlock p = Some nb \<and> Suc (length U + empty_blocks (blocks p) G) \<le> unat (pr_blockIndexSlotsUsed p)
     \<and> x_blockIndex p \<noteq> None \<and> emptyFlags (blocks p nb) = replicate 32 False"

lemma not_empty_in_use:
  assumes "flags_ok hs U B" "b \<in> set U" "hs < 32"
  shows "\<not> is_empty explicit_context (B b)"
proof -
  obtain j where "j < length U" "b = U ! j" using assms(2) by (auto simp: in_set_conv_nth)
  then have "\<not> emptyFlags (B b) ! 0" "length (emptyFlags (B b)) = 32"
    using assms(1, 3) by (auto simp: flags_ok_def)
  then show ?thesis by (auto simp: is_empty_def list_all_length intro!: exI [of _ 0])
qed

lemma in_use_length:
  assumes "in_use q U p" "unat (pr_blockIndexSlotsUsed p) \<ge> length U"
  shows "length q < 2 ^ 63" "unat (tailIndex p - headIndex p) = length q" "slot (headIndex p) + length q \<le> 32 * length U"
proof -
  let ?k = "slot (headIndex p) + length q"
  have u: "length U = (?k + 31) div 32" using assms(1) by (simp add: in_use_def used_blocks_def)
  have "?k + 31 < Suc (length U) * 32" unfolding u using div_less_iff_less_mult [of 32 "?k + 31"] by simp
  then show k: "?k \<le> 32 * length U" by simp
  have "length U \<le> 2 ^ 57"
  proof (cases "x_blockIndex p")
    case (Some h)
    then have "ring_size (pr_blockIndexSize p)" "unat (pr_blockIndexSlotsUsed p) \<le> unat (pr_blockIndexSize p)"
      using assms(1) by (simp_all add: in_use_def x_index_ok_def)
    then show ?thesis using assms(2) ring_sizeD(2) by (meson order_trans)
  qed (use assms in \<open>simp add: in_use_def x_index_ok_def\<close>)
  then show l: "length q < 2 ^ 63" using k by simp
  have "tailIndex p - headIndex p = of_nat (length q)" using assms(1) by (simp add: in_use_def indices_ok_def)
  moreover have "length q < 2 ^ 64" using l by simp
  ultimately show "unat (tailIndex p - headIndex p) = length q" using unat_of_nat_small [of "length q", where 'a = 64] by simp
qed

text \<open>At a block boundary, the next block begins at the tail index.\<close>

lemma boundary:
  assumes u: "in_use q U p" and s: "slot (tailIndex p) = 0"
  shows "slot (headIndex p) + length q = 32 * length U" "tailIndex p = head_base p + of_nat (32 * length U)"
    "used_blocks (q @ [x]) p = Suc (length U)"
proof -
  let ?k = "slot (headIndex p) + length q"
  have t: "tailIndex p = headIndex p + of_nat (length q)" using u by (simp add: in_use_def indices_ok_def)
  have "?k mod 32 = 0" using tail_slot [OF t] s by simp
  then obtain a where a: "?k = 32 * a" by (auto simp flip: dvd_eq_mod_eq_0)
  then have "length U = a" "used_blocks (q @ [x]) p = Suc a" using u by (simp_all add: in_use_def used_blocks_def)
  then show k: "?k = 32 * length U" "used_blocks (q @ [x]) p = Suc (length U)" using a by simp_all
  show "tailIndex p = head_base p + of_nat (32 * length U)"
    unfolding k(1) [symmetric] t by (simp add: head_base_def)
qed


section \<open>Enqueueing\<close>

lemma base_fields:
  assumes "x_index_changed p p'"
  shows "tailIndex p' = tailIndex p" "headIndex p' = headIndex p" "blocks p' = blocks p" "tailBlock p' = tailBlock p"
    "dequeueOptimisticCount p' = dequeueOptimisticCount p" "dequeueOvercommit p' = dequeueOvercommit p"
    "pr_blockIndexSlotsUsed p' = pr_blockIndexSlotsUsed p" "pool_ok bs p' = pool_ok bs p" "head_base p' = head_base p"
    "used_blocks q p' = used_blocks q p"
  using assms
  by (simp_all add: x_index_changed_def producer_base.truncate_def pool_ok_def unused_blocks_def head_base_def used_blocks_def)

text \<open>Storing an element in the last block in use, which has a slot left.\<close>

lemma put_in_tail:
  assumes ok: "contents_ok q hs U (blocks p)" "flags_ok hs U (blocks p)" and hs: "hs = slot (headIndex p)"
    and len: "length U = Suc ((hs + length q) div 32)" and d: "distinct (G @ U)"
    and t: "tailBlock p = Some (last U)" and i: "indices_ok q p" "x_index_ok (head_base p) U p"
    and c: "c \<noteq> MayThrow True" "circular (blocks p) (G @ U)"
  obtains p' where "enqueue_in_tail c x p = Some (Enqueued, p')" "in_use (q @ [x]) U p'"
    "circular (blocks p') (G @ U)" "tailBlock p' = tailBlock p" "x_blockIndex p' = x_blockIndex p"
    "pr_blockIndexSlotsUsed p' = pr_blockIndexSlotsUsed p" "pr_blockIndexSize p' = pr_blockIndexSize p"
    "\<And>bs. pool_ok bs p' = pool_ok bs p" "empty_blocks (blocks p') G = empty_blocks (blocks p) G"
proof -
  let ?b = "last U"
  let ?p = "(upd_block ?b (block_put (tailIndex p) (Some x)) p)\<lparr>tailIndex := 1 + tailIndex p\<rparr>"
  have ti: "tailIndex p = headIndex p + of_nat (length q)" using i by (simp add: indices_ok_def)
  have sl: "slot (tailIndex p) = (hs + length q) mod 32" using tail_slot [OF ti] hs by simp
  have fl: "emptyFlags (blocks ?p b) = emptyFlags (blocks p b)" "block_next (blocks ?p b) = block_next (blocks p b)" for b
    by (simp_all add: upd_block_def block_put_def)
  have "contents_ok (q @ [x]) hs U (blocks ?p)"
    by (rule contents_put [OF ok(1) len]) (use d in \<open>simp_all add: upd_block_def block_put_def sl\<close>)
  moreover have "flags_ok hs U (blocks ?p)" using ok(2) unfolding flags_ok_def fl .
  moreover have "used_blocks (q @ [x]) ?p = length U"
  proof -
    have "hs + length (q @ [x]) + 31 = hs + length q + 32" by simp
    then show ?thesis using len hs by (simp only: used_blocks_def) (simp add: upd_block_def)
  qed
  moreover have "head_base ?p = head_base p" by (simp add: head_base_def upd_block_def)
  moreover have "x_index_ok hb U ?p = x_index_ok hb U p" for hb by (rule x_index_ok_cong) (simp_all add: upd_block_def)
  moreover have "indices_ok (q @ [x]) ?p" using i by (simp add: indices_ok_def upd_block_def)
  ultimately have "in_use (q @ [x]) U ?p" using hs i(2) by (simp add: in_use_def upd_block_def)
  moreover have "circular (blocks ?p) (G @ U)" using c circular_cong [of "G @ U"] fl(2) by blast
  moreover have "enqueue_in_tail c x p = Some (Enqueued, ?p)" using t c by (simp add: enqueue_in_tail_def)
  moreover have "empty_blocks (blocks ?p) G = empty_blocks (blocks p) G"
    by (simp only: is_empty_def fl uses_flags_iff if_True simp_thms)
  ultimately show ?thesis
    by (intro that [of ?p]) (simp_all add: upd_block_def pool_ok_def unused_blocks_def)
qed

lemma x_pending_commit:
  assumes ok: "x_pending q G U nb p" and s: "slot (tailIndex p) = 0" and c: "c \<noteq> MayThrow True"
  shows "\<exists>p'. Option.bind (publish_entry (tailIndex p) nb p) (enqueue_in_tail c x) = Some (Enqueued, p')
    \<and> x_state (q @ [x]) G (U @ [nb]) p'"
proof -
  let ?hs = "slot (headIndex p)"
  have u: "in_use q U p" and some: "x_blockIndex p \<noteq> None" and pl: "pool_ok (G @ U @ [nb]) p"
    and room: "Suc (length U + empty_blocks (blocks p) G) \<le> unat (pr_blockIndexSlotsUsed p)"
    and tb: "tailBlock p = Some nb" and ci: "circular (blocks p) (G @ U @ [nb])"
    and nf: "emptyFlags (blocks p nb) = replicate 32 False"
    using ok by (simp_all add: x_pending_def)
  have "unat (pr_blockIndexSlotsUsed p) \<le> unat (pr_blockIndexSize p)"
    using u some by (auto simp: in_use_def x_index_ok_def)
  then have "length U < unat (pr_blockIndexSize p)" using room by simp
  then obtain p1 where p1: "publish_entry (tailIndex p) nb p = Some p1" "x_index_ok (head_base p) (U @ [nb]) p1"
    "x_index_changed p p1" "x_blockIndex p1 \<noteq> None"
    using publish_spec [OF _ _ some, of "head_base p" U nb] u boundary(2) [OF u s] unfolding in_use_def by metis
  note f = base_fields [OF p1(3)]
  note b = boundary [OF u s]
  have hs0: "?hs = 0" if "U = []" using b(1) that by simp
  have "contents_ok q ?hs (U @ [nb]) (blocks p1)"
    unfolding f by (rule contents_more [of _ _ _ "blocks p"])
      (use u b in \<open>auto simp: in_use_def dest: contents_length\<close>)
  moreover have "flags_ok ?hs (U @ [nb]) (blocks p1)"
    unfolding f using u nf hs0 by (auto simp: in_use_def flags_ok_def nth_append less_Suc_eq)
  moreover have "length (U @ [nb]) = Suc ((?hs + length q) div 32)" using b(1) by simp
  moreover have "distinct (G @ U @ [nb])" using pl by (auto simp: pool_ok_def)
  moreover have "tailBlock p1 = Some (last (U @ [nb]))" "indices_ok q p1" "x_index_ok (head_base p1) (U @ [nb]) p1"
    "circular (blocks p1) (G @ U @ [nb])" "?hs = slot (headIndex p1)"
    using tb u p1(2) ci by (simp_all add: f in_use_def indices_ok_def)
  ultimately obtain p' where p': "enqueue_in_tail c x p1 = Some (Enqueued, p')" "in_use (q @ [x]) (U @ [nb]) p'"
    "circular (blocks p') (G @ U @ [nb])" "tailBlock p' = tailBlock p1" "x_blockIndex p' = x_blockIndex p1"
    "pr_blockIndexSlotsUsed p' = pr_blockIndexSlotsUsed p1" "\<And>bs. pool_ok bs p' = pool_ok bs p1"
    "empty_blocks (blocks p') G = empty_blocks (blocks p1) G"
    using c put_in_tail [of q ?hs "U @ [nb]" p1 G c x] by metis
  then show ?thesis using p1 pl tb room
    by (intro exI [of _ p']) (simp add: x_state_def f)
qed


text \<open>After a throw the new block is left behind, in front of the oldest one.\<close>

lemma x_pending_throw:
  assumes ok: "x_pending q G U nb p1"
    and p': "p' = p1\<lparr>pr_blockIndexSlotsUsed := s, tailBlock := Some (last (nb # G @ U))\<rparr>"
    and s: "unat (pr_blockIndexSlotsUsed p1) \<le> Suc (unat s)" "unat s \<le> unat (pr_blockIndexSlotsUsed p1)"
  shows "x_state q (nb # G) U p'" "\<not> is_empty explicit_context (blocks p' nb)"
proof -
  have ne: "\<not> is_empty explicit_context (blocks p1 nb)" using ok by (auto simp: x_pending_def is_empty_def list_all_length intro!: exI [of _ 0])
  then show "\<not> is_empty explicit_context (blocks p' nb)" by (simp add: p')
  have "x_index_ok hb U p'" if "x_index_ok hb U p1" for hb
    using that ok s by (auto simp: x_pending_def p' x_index_ok_def)
  then have "in_use q U p'" using ok
    by (simp add: x_pending_def in_use_def indices_ok_def p' used_blocks_def head_base_def)
  moreover have "pool_ok (nb # G @ U) p'" using ok by (auto simp: x_pending_def pool_ok_def unused_blocks_def p')
  moreover have "circular (blocks p') (nb # G @ U)"
    using ok circular_rotate [of "blocks p1" nb "G @ U"] by (simp add: x_pending_def p')
  ultimately show "x_state q (nb # G) U p'" using ok s ne by (simp add: x_state_def x_pending_def p')
qed

text \<open>Using the block ahead again.\<close>

lemma reuse_pending:
  assumes ok: "x_state q (nb # G) U p" and e: "is_empty explicit_context (blocks p nb)"
  shows "x_pending q G U nb ((upd_block nb (reset_empty explicit_context) p)\<lparr>tailBlock := Some nb\<rparr>)" (is "x_pending _ _ _ _ ?p")
proof -
  let ?hs = "slot (headIndex p)"
  have d: "nb \<notin> set (G @ U)" using ok by (simp add: x_state_def pool_ok_def)
  have B: "blocks ?p = (blocks p)(nb := (blocks p nb)\<lparr>emptyFlags := replicate 32 False\<rparr>)"
    by (simp add: upd_block_def reset_empty_def BLOCK_SIZE_def)
  have u: "in_use q U p" using ok by (simp add: x_state_def)
  have "contents_ok q ?hs U (blocks ?p)"
    using u contents_more [of q ?hs U "blocks p" "blocks ?p" "[]"] in_use_length(3) [OF u] ok contents_length [of q ?hs U "blocks p"]
    by (auto simp: in_use_def B x_state_def)
  moreover have "flags_ok ?hs U (blocks ?p)"
    using u d by (auto simp: in_use_def flags_ok_def B)
  moreover have "x_index_ok hb U ?p = x_index_ok hb U p" for hb by (rule x_index_ok_cong) (simp_all add: upd_block_def)
  ultimately have "in_use q U ?p" using u
    by (simp add: in_use_def indices_ok_def used_blocks_def head_base_def upd_block_def)
  moreover have "pool_ok (G @ U @ [nb]) ?p" using ok
    by (auto simp: x_state_def pool_ok_def unused_blocks_def upd_block_def)
  moreover have "circular (blocks ?p) (G @ U @ [nb])"
    using ok circular_rotate [of "blocks p" nb "G @ U"] circular_cong [of "G @ U @ [nb]" "blocks ?p" "blocks p"]
    by (auto simp: x_state_def B)
  moreover have "filter (\<lambda>b. is_empty explicit_context (blocks ?p b)) G = filter (\<lambda>b. is_empty explicit_context (blocks p b)) G"
    using d by (intro filter_cong) (auto simp: B)
  ultimately show ?thesis using ok e unfolding x_pending_def
    by (simp add: x_state_def upd_block_def reset_empty_def BLOCK_SIZE_def)
qed

text \<open>A block from the pool.\<close>

lemma add_block_pending:
  assumes ok: "x_state q G U p" and r: "add_block mode bok p = (r, p')" and some: "x_blockIndex p \<noteq> None"
    and room: "unat (pr_blockIndexSlotsUsed p) < unat (pr_blockIndexSize p)"
  shows "\<not> r \<Longrightarrow> x_state q G U p' \<and> tailIndex p' = tailIndex p"
    and "r \<Longrightarrow> \<exists>nb. x_pending q G U nb p' \<and> unat (pr_blockIndexSlotsUsed p') = Suc (unat (pr_blockIndexSlotsUsed p))
          \<and> tailIndex p' = tailIndex p"
proof -
  let ?hs = "slot (headIndex p)"
  have u: "in_use q U p" and pl: "pool_ok (G @ U) p" using ok by (simp_all add: x_state_def)
  have l32: "\<forall>b. length (elements (blocks p b)) = 32" using u by (auto simp: in_use_def dest: contents_length)
  obtain nb p1 where q: "requisition_block mode bok p = (nb, p1)" by fastforce
  note sp = requisition_spec [OF q pl l32]
  have f: "pool_changed p p1" using sp by blast
  have same: "tailIndex p1 = tailIndex p" "headIndex p1 = headIndex p" "tailBlock p1 = tailBlock p"
    "dequeueOptimisticCount p1 = dequeueOptimisticCount p" "dequeueOvercommit p1 = dequeueOvercommit p"
    "x_blockIndex p1 = x_blockIndex p" "pr_blockIndexSlotsUsed p1 = pr_blockIndexSlotsUsed p"
    "pr_blockIndexSize p1 = pr_blockIndexSize p" "pr_blockIndexFront p1 = pr_blockIndexFront p"
    using f by (cases p; cases p1; simp add: pool_changed_def)+
  have ixs: "x_index_ok hb U p1 = x_index_ok hb U p" for hb by (rule x_index_ok_cong) (rule same)+
  show "x_state q G U p' \<and> tailIndex p' = tailIndex p" if "\<not> r"
  proof -
    have "nb = None" "p' = p1" using r q that by (auto simp: add_block_def Let_def split: option.splits)
    then have "pool_ok (G @ U) p'" "blocks p' = blocks p" "p' = p1" using sp by simp_all
    then show ?thesis using ok ixs same
      by (simp add: x_state_def in_use_def indices_ok_def used_blocks_def head_base_def)
  qed
  show "\<exists>nb. x_pending q G U nb p' \<and> unat (pr_blockIndexSlotsUsed p') = Suc (unat (pr_blockIndexSlotsUsed p))
      \<and> tailIndex p' = tailIndex p" if r': r
  proof -
    obtain b where b: "nb = Some b" using r q r' by (cases nb) (auto simp: add_block_def)
    let ?p2 = "link_block b (upd_block b (reset_empty explicit_context) p1)"
    have p'e: "p' = ?p2\<lparr>pr_blockIndexSlotsUsed := pr_blockIndexSlotsUsed ?p2 + 1\<rparr>"
      using r q b by (simp add: add_block_def Let_def)
    have pl': "pool_ok (G @ U @ [b]) p1" and other: "\<And>c. c \<noteq> b \<Longrightarrow> blocks p1 c = blocks p c"
      and l': "\<And>c. length (elements (blocks p1 c)) = 32" using sp b by simp_all
    have d: "b \<notin> set (G @ U)" "distinct (G @ U)" using pl' by (auto simp: pool_ok_def)
    have bl: "emptyFlags (blocks p' c) = (if c = b then replicate 32 False else emptyFlags (blocks p c))"
      "elements (blocks p' c) = elements (blocks p1 c)" for c
      using other [of c] by (auto simp: p'e link_block_def upd_block_def reset_empty_def BLOCK_SIZE_def split: option.splits)
    have tb: "tailBlock p = (if G @ U = [] then None else Some (last (G @ U)))" using ok by (simp add: x_state_def)
    have nx: "block_next (blocks p' b) = Some (hd ((G @ U) @ [b]))"
      "G @ U \<noteq> [] \<Longrightarrow> block_next (blocks p' (last (G @ U))) = Some b"
      "\<And>c. c \<in> set (butlast (G @ U)) \<Longrightarrow> block_next (blocks p' c) = block_next (blocks p c)"
    proof -
      show "block_next (blocks p' b) = Some (hd ((G @ U) @ [b]))"
      proof (cases "G @ U = []")
        case True
        then show ?thesis using ok by (simp add: p'e link_block_def upd_block_def same x_state_def)
      next
        case False
        then have "last (G @ U) \<noteq> b" "block_next (blocks p (last (G @ U))) = Some (hd (G @ U))"
          using d ok last_in_set [OF False] by (auto simp: x_state_def circular_def simp del: last_append)
        then show ?thesis unfolding hd_append2 [OF False] using False other
          by (simp add: p'e link_block_def upd_block_def same tb del: last_append append_is_Nil_conv)
      qed
      show "block_next (blocks p' (last (G @ U))) = Some b" if "G @ U \<noteq> []"
        using that tb by (simp add: p'e link_block_def upd_block_def same del: last_append append_is_Nil_conv)
      fix c assume c: "c \<in> set (butlast (G @ U))"
      then have "c \<noteq> b" "c \<noteq> last (G @ U)" "G @ U \<noteq> []"
        using d not_last_butlast [of "G @ U"] by (auto dest: in_set_butlastD simp del: last_append)
      then show "block_next (blocks p' c) = block_next (blocks p c)"
        using tb other [of c] by (simp add: p'e link_block_def upd_block_def reset_empty_def same del: last_append append_is_Nil_conv)
    qed
    have rest: "tailIndex p' = tailIndex p" "headIndex p' = headIndex p" "tailBlock p' = Some b"
      "dequeueOptimisticCount p' = dequeueOptimisticCount p" "dequeueOvercommit p' = dequeueOvercommit p"
      "x_blockIndex p' = x_blockIndex p" "pr_blockIndexSlotsUsed p' = pr_blockIndexSlotsUsed p + 1"
      "pr_blockIndexSize p' = pr_blockIndexSize p" "pr_blockIndexFront p' = pr_blockIndexFront p"
      "pool_ok bs p' = pool_ok bs p1" for bs
      by (auto simp: p'e link_block_def upd_block_def same pool_ok_def unused_blocks_def split: option.splits)
    have slots: "unat (pr_blockIndexSlotsUsed p + 1) = Suc (unat (pr_blockIndexSlotsUsed p))"
      using room unat_bound [of "pr_blockIndexSize p"] by (subst unat_add_no_overflow) simp_all
    have ci: "circular (blocks p') ((G @ U) @ [b])"
      by (rule circular_insert [of "blocks p"]) (use ok d nx in \<open>auto simp: x_state_def\<close>)
    have "elements (blocks p' c) = elements (blocks p c)" if "c \<in> set U" for c
      using that d other [of c] by (cases "c = b") (simp_all add: bl)
    then have "contents_ok q ?hs (U @ []) (blocks p')"
      using u in_use_length(3) [OF u] ok l' by (intro contents_more [of _ _ _ "blocks p"]) (simp_all add: in_use_def x_state_def bl)
    moreover have "flags_ok ?hs U (blocks p')" using u d by (auto simp: in_use_def flags_ok_def bl)
    moreover have "x_index_ok hb U p'" if "x_index_ok hb U p" for hb
      using that some slots room by (auto simp: x_index_ok_def rest split: option.splits)
    ultimately have "in_use q U p'"
      using u by (simp add: in_use_def indices_ok_def used_blocks_def head_base_def rest)
    moreover have "filter (\<lambda>c. is_empty explicit_context (blocks p' c)) G = filter (\<lambda>c. is_empty explicit_context (blocks p c)) G"
      using d by (intro filter_cong) (auto simp: is_empty_def bl)
    ultimately have "x_pending q G U b p'"
      using ok pl' ci some slots by (simp add: x_pending_def x_state_def rest bl)
    then show ?thesis using slots by (auto simp: rest)
  qed
qed


lemma x_state_cong:
  assumes "x_index_changed p p'" "x_index_ok (head_base p) U p'" "x_state q G U p" "x_blockIndex p' \<noteq> None"
  shows "x_state q G U p'"
  using assms base_fields [OF assms(1)] by (auto simp: x_state_def in_use_def indices_ok_def)

text \<open>At a block boundary: refused, or a new tail block.\<close>

definition new_tail_outcome :: "'a list \<Rightarrow> 'a explicit_producer \<Rightarrow> bool \<Rightarrow> 'a explicit_producer \<Rightarrow> bool" where
  "new_tail_outcome q p r p' \<longleftrightarrow> tailIndex p' = tailIndex p \<and> (\<not> r \<longrightarrow> x_ok q p')
     \<and> (r \<longrightarrow> (\<exists>G U nb. x_pending q G U nb p' \<and> (tailBlock p = None \<longrightarrow> G @ U = [])
            \<and> (\<forall>tb. tailBlock p = Some tb \<longrightarrow> tb = last (nb # G @ U))
            \<and> unat (pr_blockIndexSlotsUsed p') \<le> Suc (unat (pr_blockIndexSlotsUsed p))
            \<and> unat (pr_blockIndexSlotsUsed p) \<le> unat (pr_blockIndexSlotsUsed p')))"

lemma new_tail_pendingI:
  "x_pending q G U nb p' \<Longrightarrow> tailIndex p' = tailIndex p \<Longrightarrow> (tailBlock p = None \<Longrightarrow> G @ U = [])
   \<Longrightarrow> (\<And>tb. tailBlock p = Some tb \<Longrightarrow> tb = last (nb # G @ U))
   \<Longrightarrow> unat (pr_blockIndexSlotsUsed p') \<le> Suc (unat (pr_blockIndexSlotsUsed p))
   \<Longrightarrow> unat (pr_blockIndexSlotsUsed p) \<le> unat (pr_blockIndexSlotsUsed p') \<Longrightarrow> new_tail_outcome q p True p'"
  unfolding new_tail_outcome_def
  by (intro conjI impI exI [of _ G] exI [of _ U] exI [of _ nb] allI) simp_all

lemma add_block_outcome:
  assumes ok: "x_state q G U p" and some: "x_blockIndex p \<noteq> None"
    and room: "unat (pr_blockIndexSlotsUsed p) < unat (pr_blockIndexSize p)"
    and r: "add_block mode bok p = (r, p')"
  shows "new_tail_outcome q p r p'"
proof (cases r)
  case True
  obtain nb where nb: "x_pending q G U nb p'" "unat (pr_blockIndexSlotsUsed p') = Suc (unat (pr_blockIndexSlotsUsed p))"
    "tailIndex p' = tailIndex p" using add_block_pending(2) [OF ok r some room True] by blast
  show ?thesis unfolding eqTrueI [OF True]
    by (rule new_tail_pendingI [OF nb(1, 3)]) (use ok nb(2) in \<open>auto simp: x_state_def split: if_splits\<close>)
next
  case False
  then have "x_state q G U p' \<and> tailIndex p' = tailIndex p" by (rule add_block_pending(1) [OF ok r some room])
  then show ?thesis using False by (auto simp: new_tail_outcome_def x_ok_def)
qed


lemma alloc_tail_outcome:
  assumes ok: "x_state q G U p" and small: "iok \<Longrightarrow> unat (push_bit 1 (pr_blockIndexSize p)) \<le> 2 ^ 57"
    and r: "alloc_tail max_size mode iok bok p = (r, p')"
  shows "new_tail_outcome q p r p'"
proof -
  have same: "new_tail_outcome q p False p" using ok by (auto simp: new_tail_outcome_def x_ok_def)
  have no_index: "iok = ok \<and> (\<not> ok \<longrightarrow> p1 = p)" if "x_new_block_index iok (pr_blockIndexSlotsUsed p) p = (ok, p1)" for ok p1
    using that by (auto simp: x_new_block_index_def Let_def split: if_splits)
  consider (no) "r = False" "p' = p"
    | (grow) p1 where "x_blockIndex p = None \<or> pr_blockIndexSlotsUsed p = pr_blockIndexSize p" "iok"
        "x_new_block_index iok (pr_blockIndexSlotsUsed p) p = (True, p1)" "add_block mode bok p1 = (r, p')"
    | (room) "x_blockIndex p \<noteq> None" "pr_blockIndexSlotsUsed p \<noteq> pr_blockIndexSize p" "add_block mode bok p = (r, p')"
    using r no_index
    by (cases "x_new_block_index iok (pr_blockIndexSlotsUsed p) p") (auto simp: alloc_tail_def split: if_splits bool.splits)
  then show ?thesis
  proof cases
    case grow
    have ix: "x_index_ok (head_base p) U p" using ok by (simp add: x_state_def in_use_def)
    obtain p2 where p2: "x_new_block_index True (pr_blockIndexSlotsUsed p) p = (True, p2)" "x_index_ok (head_base p) U p2"
      "x_index_changed p p2" "x_blockIndex p2 \<noteq> None" "unat (pr_blockIndexSlotsUsed p2) < unat (pr_blockIndexSize p2)"
      by (rule grow_spec [OF ix small [OF grow(2)] grow(1)])
    then have "p1 = p2" using grow(2, 3) by simp
    then have "new_tail_outcome q p2 r p'"
      using grow(4) p2 ok by (intro add_block_outcome [of q G U p2]) (simp_all add: x_state_cong [of p])
    then show ?thesis using base_fields [OF p2(3)] by (simp add: new_tail_outcome_def)
  next
    case room
    have "unat (pr_blockIndexSlotsUsed p) \<le> unat (pr_blockIndexSize p)"
      using ok room(1) by (auto simp: x_state_def in_use_def x_index_ok_def)
    then have "unat (pr_blockIndexSlotsUsed p) < unat (pr_blockIndexSize p)"
      using room(2) by (simp add: word_unat_eq_iff)
    then show ?thesis using room(3) by (intro add_block_outcome [OF ok room(1)])
  qed (use same in simp)
qed

lemma new_tail_block_outcome:
  assumes ok: "x_ok q p" and small: "iok \<Longrightarrow> unat (push_bit 1 (pr_blockIndexSize p)) \<le> 2 ^ 57"
  obtains r p' where "new_tail_block max_size mode iok bok p = Some (r, p')" "new_tail_outcome q p r p'"
proof -
  obtain G U where st: "x_state q G U p" using ok by (auto simp: x_ok_def)
  obtain r p' where a: "alloc_tail max_size mode iok bok p = (r, p')" by fastforce
  note alloc = alloc_tail_outcome [OF st small a]
  show ?thesis
  proof (cases "G @ U = []")
    case True
    then have "tailBlock p = None" using st by (simp add: x_state_def)
    then show ?thesis using alloc a by (intro that [of r p']) (simp_all add: new_tail_block_def)
  next
    case False
    let ?nb = "hd (G @ U)"
    have tb: "tailBlock p = Some (last (G @ U))" "block_next (blocks p (last (G @ U))) = Some ?nb"
      using st False by (auto simp: x_state_def circular_def simp del: last_append hd_append)
    show ?thesis
    proof (cases "is_empty explicit_context (blocks p ?nb)")
      case True
      have "?nb \<notin> set U" using True st not_empty_in_use [of "slot (headIndex p)" U "blocks p" ?nb]
        by (auto simp: x_state_def in_use_def)
      then obtain G' where G: "G = ?nb # G'" using False by (cases G) auto
      let ?p = "(upd_block ?nb (reset_empty explicit_context) p)\<lparr>tailBlock := Some ?nb\<rparr>"
      have "x_pending q G' U ?nb ?p" using reuse_pending [of q ?nb G' U p] st G True by simp
      moreover have "last (G @ U) = last (?nb # G' @ U)" using G by (metis append_Cons)
      ultimately have "new_tail_outcome q p True ?p"
        using tb(1) by (intro new_tail_pendingI [of q G' U ?nb]) (simp_all only:, simp_all add: upd_block_def)
      then show ?thesis using tb True by (intro that [of True ?p]) (simp_all add: new_tail_block_def)
    next
      case False
      then show ?thesis using alloc a tb by (intro that [of r p']) (simp_all add: new_tail_block_def)
    qed
  qed
qed


text \<open>The block left behind by a throw is not used again: the next call takes another block.\<close>

definition throw_leaves_block :: "'a explicit_producer \<Rightarrow> bool" where
  "throw_leaves_block p \<longleftrightarrow> (\<forall>max_size mode iok bok.
     new_tail_block max_size mode iok bok p = Some (alloc_tail max_size mode iok bok p))"

definition x_enqueue_outcome ::
  "ctor \<Rightarrow> 'a \<Rightarrow> 'a list \<Rightarrow> bool \<Rightarrow> (enqueue_result \<times> 'a explicit_producer) option \<Rightarrow> bool" where
  "x_enqueue_outcome c x q bd res \<longleftrightarrow> (\<exists>r p'. res = Some (r, p') \<and> x_ok (if r = Enqueued then q @ [x] else q) p'
     \<and> (r = Threw \<longrightarrow> c = MayThrow True \<and> (bd \<longrightarrow> throw_leaves_block p'))
     \<and> (r = Enqueued \<longrightarrow> c \<noteq> MayThrow True))"

lemma left_block:
  assumes "x_state q (nb # G) U p" "\<not> is_empty explicit_context (blocks p nb)"
  shows "throw_leaves_block p"
proof -
  have "block_next (blocks p (last (nb # G @ U))) = Some nb" "tailBlock p = Some (last (nb # G @ U))"
    using assms(1) by (auto simp: x_state_def circular_def)
  then show ?thesis using assms(2) by (simp add: throw_leaves_block_def new_tail_block_def)
qed

lemma x_enqueue_inside:
  assumes ok: "x_ok q p" and s: "slot (tailIndex p) \<noteq> 0"
  shows "x_enqueue_outcome c x q False (enqueue_in_tail c x p)"
proof -
  obtain G U where st: "x_state q G U p" using ok by (auto simp: x_ok_def)
  let ?hs = "slot (headIndex p)"
  have u: "in_use q U p" and pl: "pool_ok (G @ U) p" using st by (simp_all add: x_state_def)
  have t: "tailIndex p = headIndex p + of_nat (length q)" using u by (simp add: in_use_def indices_ok_def)
  have "(?hs + length q) mod 32 \<noteq> 0" using tail_slot [OF t] s by simp
  then have len: "length U = Suc ((?hs + length q) div 32)"
    using u round_up_32 by (simp add: in_use_def used_blocks_def)
  then have U: "U \<noteq> []" by auto
  then have tb: "tailBlock p = Some (last U)" using st by (simp add: x_state_def)
  show ?thesis
  proof (cases "c = MayThrow True")
    case True
    then show ?thesis using tb ok by (simp add: enqueue_in_tail_def x_enqueue_outcome_def)
  next
    case False
    have "distinct (G @ U)" using pl by (auto simp: pool_ok_def)
    moreover have "contents_ok q ?hs U (blocks p)" "flags_ok ?hs U (blocks p)" "indices_ok q p"
      "x_index_ok (head_base p) U p" using u by (simp_all add: in_use_def)
    moreover have "circular (blocks p) (G @ U)" using st by (simp add: x_state_def)
    ultimately obtain p' where p': "enqueue_in_tail c x p = Some (Enqueued, p')" "in_use (q @ [x]) U p'"
      "circular (blocks p') (G @ U)" "tailBlock p' = tailBlock p" "x_blockIndex p' = x_blockIndex p"
      "pr_blockIndexSlotsUsed p' = pr_blockIndexSlotsUsed p" "\<And>bs. pool_ok bs p' = pool_ok bs p"
      "empty_blocks (blocks p') G = empty_blocks (blocks p) G"
      using False tb len put_in_tail [of q ?hs U p G c x] by metis
    then have "x_state (q @ [x]) G U p'" using st by (simp add: x_state_def)
    then show ?thesis using p'(1) False by (auto simp: x_enqueue_outcome_def x_ok_def)
  qed
qed

lemma x_enqueue_ok:
  assumes ok: "x_ok q p" and small: "iok \<Longrightarrow> unat (push_bit 1 (pr_blockIndexSize p)) \<le> 2 ^ 57"
  shows "x_enqueue_outcome c x q (slot (tailIndex p) = 0) (x_enqueue max_size mode iok bok c x p)"
proof (cases "slot (tailIndex p) = 0")
  case False
  then show ?thesis using x_enqueue_inside [OF ok False] by (auto simp: x_enqueue_def slot_def)
next
  case True
  have bd: "tailIndex p AND (BLOCK_SIZE - 1) = 0" using True by (simp add: slot_def unat_eq_0)
  obtain r p1 where n: "new_tail_block max_size mode iok bok p = Some (r, p1)" "new_tail_outcome q p r p1"
    by (rule new_tail_block_outcome [OF ok small])
  show ?thesis
  proof (cases r)
    case False
    then show ?thesis using n bd by (auto simp: x_enqueue_def x_enqueue_outcome_def new_tail_outcome_def)
  next
    case r: True
    obtain G U nb where g: "x_pending q G U nb p1" "tailBlock p = None \<longrightarrow> G @ U = []"
      "\<forall>tb. tailBlock p = Some tb \<longrightarrow> tb = last (nb # G @ U)" "tailIndex p1 = tailIndex p"
      "unat (pr_blockIndexSlotsUsed p1) \<le> Suc (unat (pr_blockIndexSlotsUsed p))"
      "unat (pr_blockIndexSlotsUsed p) \<le> unat (pr_blockIndexSlotsUsed p1)"
      using n(2) unfolding new_tail_outcome_def eqTrueI [OF r] simp_thms by (elim conjE exE)
    have tb: "tailBlock p1 = Some nb" using g(1) by (simp add: x_pending_def)
    show ?thesis
    proof (cases "c = MayThrow True")
      case True
      let ?p = "p1\<lparr>pr_blockIndexSlotsUsed := pr_blockIndexSlotsUsed p, tailBlock := Some (last (nb # G @ U))\<rparr>"
      have "(case tailBlock p of None \<Rightarrow> tailBlock p1 | Some b \<Rightarrow> Some b) = Some (last (nb # G @ U))"
        using g(2, 3) tb by (auto split: option.splits)
      then have "x_enqueue max_size mode iok bok c x p = Some (Threw, ?p)"
        using n(1) r bd True by (simp add: x_enqueue_def)
      moreover note t = x_pending_throw [OF g(1) refl g(5, 6)]
      moreover have "x_ok q ?p" unfolding x_ok_def by (intro exI) (rule t(1))
      moreover note left_block [OF t]
      ultimately show ?thesis using True unfolding x_enqueue_outcome_def
        by (intro exI [of _ Threw] exI [of _ ?p]) (simp del: last.simps)
    next
      case False
      obtain p' where p': "Option.bind (publish_entry (tailIndex p1) nb p1) (enqueue_in_tail c x) = Some (Enqueued, p')"
        "x_state (q @ [x]) G (U @ [nb]) p'"
        using x_pending_commit [OF g(1) _ False, of x] True g(4) by auto
      then have "x_enqueue max_size mode iok bok c x p = Some (Enqueued, p')"
        using n(1) r bd False tb g(4) by (simp add: x_enqueue_def)
      then show ?thesis using p'(2) False by (auto simp: x_enqueue_outcome_def x_ok_def)
    qed
  qed
qed

section \<open>Dequeueing\<close>

text \<open>The producer after the oldest element was taken out of block \<open>b\<close>.\<close>

definition x_taken :: "nat \<Rightarrow> 'a explicit_producer \<Rightarrow> 'a explicit_producer" where
  "x_taken b p = upd_block b (\<lambda>blk. snd (set_empty explicit_context (headIndex p) blk))
     (upd_block b (block_put (headIndex p) None)
       (p\<lparr>dequeueOptimisticCount := dequeueOptimisticCount p + 1, headIndex := headIndex p + 1\<rparr>))"

lemma x_taken_fields:
  "tailIndex (x_taken b p) = tailIndex p" "headIndex (x_taken b p) = headIndex p + 1"
  "dequeueOptimisticCount (x_taken b p) = dequeueOptimisticCount p + 1"
  "dequeueOvercommit (x_taken b p) = dequeueOvercommit p" "tailBlock (x_taken b p) = tailBlock p"
  "x_blockIndex (x_taken b p) = x_blockIndex p" "pr_blockIndexSlotsUsed (x_taken b p) = pr_blockIndexSlotsUsed p"
  "pr_blockIndexSize (x_taken b p) = pr_blockIndexSize p" "pr_blockIndexFront (x_taken b p) = pr_blockIndexFront p"
  "pool_ok bs (x_taken b p) = pool_ok bs p" "x_index_ok hb U (x_taken b p) = x_index_ok hb U p"
  "elements (blocks (x_taken b p) c)
     = (if c = b then (elements (blocks p c))[slot (headIndex p) := None] else elements (blocks p c))"
  "emptyFlags (blocks (x_taken b p) c)
     = (if c = b then (emptyFlags (blocks p c))[31 - slot (headIndex p) := True] else emptyFlags (blocks p c))"
  "block_next (blocks (x_taken b p) c) = block_next (blocks p c)"
proof -
  show "x_index_ok hb U (x_taken b p) = x_index_ok hb U p"
    by (rule x_index_ok_cong) (simp_all add: x_taken_def upd_block_def)
  show "pool_ok bs (x_taken b p) = pool_ok bs p"
    by (rule pool_ok_cong) (simp_all add: x_taken_def upd_block_def)
qed (simp_all add: x_taken_def upd_block_def block_put_def set_empty_def flag_position)


lemma x_dequeue_head:
  assumes u: "in_use (x # q) U p" and U: "U \<noteq> []" and lt: "circular_less_than (headIndex p) (tailIndex p)"
  shows "x_dequeue thr p = Some (if thr then LostByThrow x else Got x, x_taken (U ! 0) p)"
proof -
  let ?p = "p\<lparr>dequeueOptimisticCount := dequeueOptimisticCount p + 1, headIndex := headIndex p + 1\<rparr>"
  have dq: "dequeueOptimisticCount p - dequeueOvercommit p = headIndex p" using u by (simp add: in_use_def indices_ok_def)
  have "x_index_ok (head_base p) U ?p = x_index_ok (head_base p) U p" by (rule x_index_ok_cong) simp_all
  then have "x_lookup (headIndex p) ?p = Some (U ! 0)"
    using u U by (intro lookup_spec [where hb = "head_base p"]) (simp_all add: in_use_def base_diff head_base_def)
  moreover have "block_get (headIndex p) (blocks p (U ! 0)) = Some x"
    using u contents_first [of x q "slot (headIndex p)" U "blocks p"] by (simp add: in_use_def block_get_def)
  ultimately show ?thesis using lt dq by (simp add: x_dequeue_def x_taken_def Let_def)
qed

lemma x_taken_flags:
  assumes ok: "flags_ok hs U (blocks p)" and hs: "hs = slot (headIndex p)" and d: "distinct U" and U: "U \<noteq> []"
  defines "p' \<equiv> x_taken (U ! 0) p"
  shows "flags_ok (Suc hs) U (blocks p')" "hs = 31 \<Longrightarrow> flags_ok 0 (tl U) (blocks p')"
    "hs = 31 \<Longrightarrow> is_empty explicit_context (blocks p' (U ! 0))"
proof -
  have l: "length (emptyFlags (blocks p' b)) = 32" for b
    using ok by (simp add: p'_def x_taken_fields flags_ok_def)
  have lt: "hs < 32" using hs by simp
  have fl: "emptyFlags (blocks p' (U ! j)) ! k = (j = 0 \<and> 31 - k < Suc hs)" if jk: "j < length U" "k < 32" for j k
  proof -
    have "U ! j = U ! 0 \<longleftrightarrow> j = 0" using d jk(1) U by (simp add: nth_eq_iff_index_eq)
    moreover have "emptyFlags (blocks p (U ! j)) ! k = (j = 0 \<and> 31 - k < hs)" using ok jk by (simp add: flags_ok_def)
    moreover have "length (emptyFlags (blocks p (U ! j))) = 32" using ok by (simp add: flags_ok_def)
    ultimately show ?thesis using jk lt by (auto simp: p'_def x_taken_fields nth_list_update simp flip: hs split: if_splits)
  qed
  then show "flags_ok (Suc hs) U (blocks p')" using l by (simp add: flags_ok_def)
  show "flags_ok 0 (tl U) (blocks p')" if "hs = 31"
    using fl [of "Suc _"] l by (auto simp: flags_ok_def nth_tl)
  show "is_empty explicit_context (blocks p' (U ! 0))" if "hs = 31"
    using fl [of 0] l U that by (auto simp: is_empty_def list_all_length)
qed


lemma x_index_tl:
  assumes "x_index_ok hb U p" "U \<noteq> []"
  shows "x_index_ok (hb + 32) (tl U) p"
proof -
  obtain h where h: "x_blockIndex p = Some h" using assms by (auto simp: x_index_ok_def split: option.splits)
  moreover obtain F where "rotate (unat (pr_blockIndexFront p)) (ix_entries h) = F @ entries_for hb U"
    using assms h by (auto simp: x_index_ok_def)
  then have "rotate (unat (pr_blockIndexFront p)) (ix_entries h) = (F @ [Some (hb, U ! 0)]) @ entries_for (hb + 32) (tl U)"
    using entries_for_tl [OF assms(2)] by simp
  ultimately show ?thesis using assms by (auto simp: x_index_ok_def)
qed

lemma x_dequeue_ok:
  assumes ok: "x_ok (x # q) p"
  shows "\<exists>p'. x_dequeue thr p = Some (if thr then LostByThrow x else Got x, p') \<and> x_ok q p'
    \<and> pr_blockIndexSize p' = pr_blockIndexSize p"
proof -
  obtain G U where st: "x_state (x # q) G U p" using ok by (auto simp: x_ok_def)
  let ?o = "slot (headIndex p)"
  define p' where "p' = x_taken (U ! 0) p"
  have u: "in_use (x # q) U p" and pl: "pool_ok (G @ U) p" and ci: "circular (blocks p) (G @ U)"
    and slots: "length U \<le> unat (pr_blockIndexSlotsUsed p)" using st by (simp_all add: x_state_def)
  note l = in_use_length [OF u slots]
  have U: "U \<noteq> []" using l(3) by (cases U) auto
  have "circular_less_than (headIndex p) (tailIndex p)" using l by (simp add: circular_less_than_iff)
  note d = x_dequeue_head [OF u U this, of thr, folded p'_def]
  have dist: "distinct (G @ U)" using pl by (auto simp: pool_ok_def)
  have dU: "distinct U" and nG: "U ! 0 \<notin> set G" using dist U by (auto simp: hd_conv_nth [symmetric])
  have cont: "contents_ok (x # q) ?o U (blocks p)" and fl: "flags_ok ?o U (blocks p)" and io: "indices_ok (x # q) p"
    and ix: "x_index_ok (head_base p) U p" and lu: "length U = used_blocks (x # q) p" using u by (simp_all add: in_use_def)
  have B: "elements (blocks p' c) = (if c = U ! 0 then (elements (blocks p c))[?o := None] else elements (blocks p c))" for c
    by (simp add: p'_def x_taken_fields)
  note ct = contents_take [OF cont dU l(3) B]
  note ft = x_taken_flags [OF fl refl dU U, folded p'_def]
  have sl: "slot (headIndex p') = (?o + 1) mod 32"
    using slot_add [of "headIndex p" 1] by (simp add: p'_def x_taken_fields)
  have io': "indices_ok q p'" using io by (simp add: indices_ok_def p'_def x_taken_fields algebra_simps)
  have ci': "circular (blocks p') (G @ U)"
    using ci circular_cong [of "G @ U" "blocks p'" "blocks p"] by (simp add: p'_def x_taken_fields)
  have em: "filter (\<lambda>c. is_empty explicit_context (blocks p' c)) G = filter (\<lambda>c. is_empty explicit_context (blocks p c)) G"
    using nG by (intro filter_cong) (auto simp: is_empty_def p'_def x_taken_fields)
  have "x_ok q p'"
  proof (cases "?o = 31")
    case False
    then have o: "?o < 31" using slot_le [of "headIndex p"] by simp
    then have s: "slot (headIndex p') = Suc ?o" using sl by simp
    have hb: "head_base p' = head_base p" using s by (simp add: head_base_def) (simp add: p'_def x_taken_fields)
    have "used_blocks q p' = length U" using s lu by (simp add: used_blocks_def)
    then have "in_use q U p'" using ix ct(1) ft(1) io' s hb by (simp add: in_use_def) (simp add: p'_def x_taken_fields)
    then have "x_state q G U p'" using st ci' em U by (simp add: x_state_def) (simp add: p'_def x_taken_fields)
    then show ?thesis by (auto simp: x_ok_def)
  next
    case True
    then have s: "slot (headIndex p') = 0" using sl by simp
    have hb: "head_base p' = head_base p + 32"
      using True s by (simp add: head_base_def) (simp add: p'_def x_taken_fields)
    have um: "used_blocks q p' = length (tl U)" using s True lu by (simp add: used_blocks_def)
    have U1: "G @ U = (G @ [U ! 0]) @ tl U" using U by (cases U) auto
    have "x_index_ok (head_base p + 32) (tl U) p'" using x_index_tl [OF ix U] by (simp add: p'_def x_taken_fields)
    then have "in_use q (tl U) p'" using ct(2) ft(2) io' s hb um True by (simp add: in_use_def)
    then have "x_state q (G @ [U ! 0]) (tl U) p'" using st ci' em ft(3) True U1 U unfolding x_state_def U1 [symmetric]
      by (cases U) (simp_all, auto simp: p'_def x_taken_fields)
    then show ?thesis by (auto simp: x_ok_def)
  qed
  then show ?thesis using d by (simp add: p'_def x_taken_fields)
qed

lemma x_dequeue_empty: "x_ok [] p \<Longrightarrow> x_dequeue thr p = Some (NothingThere, p)"
  by (auto simp: x_ok_def x_state_def in_use_def indices_ok_def x_dequeue_def Let_def circular_less_than_iff)


section \<open>The constructor\<close>

lemma initial_ring_size:
  assumes "unat poolSize \<le> 2 ^ 56"
  defines "half \<equiv> drop_bit 1 EXPLICIT_INITIAL_INDEX_SIZE" and "pool \<equiv> drop_bit 1 (ceil_to_pow_2 poolSize)"
  shows "ring_size (push_bit 1 (if pool > half then pool else half))"
proof (cases "pool > half")
  case False
  then show ?thesis by (auto simp: half_def EXPLICIT_INITIAL_INDEX_SIZE_def ring_size_def drop_bit_eq_div push_bit_eq_mult intro!: exI [of _ 5])
next
  case True
  have h: "unat half = 16" by (simp add: half_def EXPLICIT_INITIAL_INDEX_SIZE_def drop_bit_eq_div)
  have pos: "0 < poolSize"
  proof (rule ccontr)
    assume "\<not> 0 < poolSize"
    then have "poolSize = 0" using word_gt_0 by blast
    then have "pool = 0" by (simp add: pool_def ceil_to_pow_2_def Let_def smear_loop.simps)
    then show False using True by simp
  qed
  have "unat poolSize \<le> 2 ^ 63" using assms(1) by simp
  then obtain k where k: "k \<le> 63" "unat (ceil_to_pow_2 poolSize) = 2 ^ k" "unat poolSize \<le> 2 ^ k"
    "1 < unat poolSize \<Longrightarrow> 2 ^ (k - 1) < unat poolSize" "unat poolSize = 1 \<Longrightarrow> k = 0"
    using pos ceil_to_pow_2_power [of poolSize] by (auto simp: word_less_nat_alt word_le_nat_alt)
  have p: "unat pool = 2 ^ k div 2" by (simp add: pool_def drop_bit_eq_div unat_div k(2))
  have "16 < (2 :: nat) ^ k div 2" using True p h by (simp add: word_less_nat_alt)
  then have "5 \<le> k" by (cases "k \<le> 5") (use power_increasing [of k 5 "2 :: nat"] in auto)
  then obtain j where j: "k = Suc j" by (cases k) auto
  have "1 < unat poolSize"
  proof (rule ccontr)
    assume "\<not> 1 < unat poolSize"
    then have "unat poolSize = 1" using pos by (simp add: word_less_nat_alt)
    then show False using k(5) \<open>5 \<le> k\<close> by simp
  qed
  then have "(2 :: nat) ^ j < 2 ^ 56" using k(4) assms(1) j by simp
  then have j57: "j < 56" by (rule power_less_imp_less_exp [rotated]) simp
  have "(2 :: nat) ^ j \<le> 2 ^ 56" by (rule power_increasing) (use j57 in simp_all)
  then have "unat (push_bit 1 pool) = 2 ^ k"
    using p j by (simp add: push_bit_eq_mult unat_word_ariths mult.commute)
  then show ?thesis using True \<open>5 \<le> k\<close> j j57 unfolding ring_size_def by (intro exI [of _ k]) simp
qed


lemma ExplicitProducer_fields:
  fixes iok poolSize
  defines "p \<equiv> ExplicitProducer iok poolSize :: 'a explicit_producer"
  shows "headIndex p = 0" "tailIndex p = 0" "dequeueOptimisticCount p = 0" "dequeueOvercommit p = 0"
    "tailBlock p = None" "freeList p = []" "initialBlockPoolIndex p = 0" "initialBlockPoolSize p = poolSize"
    "blocks_used p = unat poolSize" "blocks p b = Block\<lparr>dynamicallyAllocated := False\<rparr>" "pr_blockIndexSlotsUsed p = 0"
  by (simp_all add: p_def ExplicitProducer_def x_new_block_index_def Let_def)

lemma ExplicitProducer_ok:
  assumes "unat poolSize \<le> 2 ^ 56"
  shows "x_ok [] (ExplicitProducer iok poolSize)"
proof -
  let ?p = "ExplicitProducer iok poolSize :: 'a explicit_producer"
  note f = ExplicitProducer_fields [of iok poolSize, where 'a = 'a]
  note r = initial_ring_size [OF assms]
  have "x_index_ok hb [] ?p" for hb
  proof (cases iok)
    case True
    show ?thesis using r ring_sizeD(1) [OF r] unfolding ExplicitProducer_def x_new_block_index_def Let_def
      by (simp add: x_index_ok_def entries_for_simps True)
  next
    case False
    then show ?thesis using r unfolding ExplicitProducer_def x_new_block_index_def Let_def by (simp add: x_index_ok_def)
  qed
  then have "x_state [] [] [] ?p"
    by (simp add: x_state_def in_use_def used_blocks_def contents_ok_def flags_ok_def indices_ok_def f slot_mod
        circular_def pool_ok_def Block_def)
  then show ?thesis by (auto simp: x_ok_def)
qed

section \<open>Any sequence of calls\<close>

inductive x_reach :: "64 word \<Rightarrow> 64 word \<Rightarrow> 'a list \<Rightarrow> 'a list \<Rightarrow> 'a explicit_producer \<Rightarrow> bool"
  for max_size poolSize where
  init: "x_reach max_size poolSize [] [] (ExplicitProducer iok poolSize)"
| enq: "x_reach max_size poolSize ins outs p
    \<Longrightarrow> (iok \<longrightarrow> unat (push_bit 1 (pr_blockIndexSize p)) \<le> 2 ^ 57)
    \<Longrightarrow> x_enqueue max_size mode iok bok c x p = Some (r, p')
    \<Longrightarrow> x_reach max_size poolSize (if r = Enqueued then ins @ [x] else ins) outs p'"
| deq: "x_reach max_size poolSize ins outs p \<Longrightarrow> x_dequeue thr p = Some (r, p')
    \<Longrightarrow> x_reach max_size poolSize ins
          (case r of NothingThere \<Rightarrow> outs | Got y \<Rightarrow> outs @ [y] | LostByThrow y \<Rightarrow> outs @ [y]) p'"

lemma x_reach_ok:
  "x_reach max_size poolSize ins outs p \<Longrightarrow> unat poolSize \<le> 2 ^ 56 \<Longrightarrow> \<exists>q. ins = outs @ q \<and> x_ok q p"
proof (induction rule: x_reach.induct)
  case (init iok)
  then show ?case using ExplicitProducer_ok by blast
next
  case (enq ins outs p iok mode bok c x r p')
  then obtain q where "ins = outs @ q" "x_ok q p" by blast
  then show ?case
    using x_enqueue_ok [of q p iok c x max_size mode bok] enq.hyps by (auto simp: x_enqueue_outcome_def)
next
  case (deq ins outs p thr r p')
  then obtain q where q: "ins = outs @ q" "x_ok q p" by blast
  show ?case
  proof (cases q)
    case Nil
    then show ?thesis using q x_dequeue_empty [of p thr] deq.hyps by auto
  next
    case (Cons x q')
    then show ?thesis using q x_dequeue_ok [of x q' p thr] deq.hyps by (cases thr) auto
  qed
qed

lemma x_refused_reason:
  assumes "x_enqueue max_size mode iok bok c x p = Some (Refused, p')"
  shows "is_full max_size (tailIndex p) (headIndex p) \<or> mode = CannotAlloc \<or> \<not> iok \<or> \<not> bok"
proof (rule ccontr)
  assume no: "\<not> (is_full max_size (tailIndex p) (headIndex p) \<or> mode = CannotAlloc \<or> \<not> iok \<or> \<not> bok)"
  then have mode: "mode = CanAlloc" by (cases mode) auto
  have "fst (add_block mode bok p1)" for p1 :: "'a explicit_producer"
    using no mode by (auto simp: add_block_def requisition_block_def create_block_def Let_def split: prod.splits option.splits)
  then have "fst (alloc_tail max_size mode iok bok p)"
    using no mode by (auto simp: alloc_tail_def x_new_block_index_def Let_def)
  then have "\<not> (new_tail_block max_size mode iok bok p = Some (False, p1))" for p1
    by (auto simp: new_tail_block_def split: option.splits if_splits)
  moreover have "enqueue_in_tail c x p1 \<noteq> Some (Refused, p')" for p1 :: "'a explicit_producer"
    by (auto simp: enqueue_in_tail_def split: option.splits)
  ultimately show False using assms
    by (auto simp: x_enqueue_def Option.bind_eq_Some_conv split: if_splits option.splits prod.splits bool.splits)
qed


lemma x_ok_size:
  assumes "x_ok q p"
  shows "unat (size_approx p) = length q"
proof -
  obtain G U where st: "x_state q G U p" using assms by (auto simp: x_ok_def)
  have "unat (tailIndex p - headIndex p) = length q" "length q < 2 ^ 63"
    using in_use_length [of q U p] st by (simp_all add: x_state_def)
  then show ?thesis by (cases "length q") (auto simp: size_approx_def circular_less_than_iff)
qed

text \<open>A call on a fresh producer.\<close>

lemma first_x_enqueue:
  fixes c x
  defines "p \<equiv> ExplicitProducer True 2 :: nat explicit_producer"
  shows "pr_blockIndexSize p = 32"
    "\<exists>p'. x_enqueue (- 1) CanAlloc True True c x p = Some (if c = MayThrow True then Threw else Enqueued, p')"
proof -
  show size: "pr_blockIndexSize p = 32"
    by (simp add: p_def ExplicitProducer_def x_new_block_index_def Let_def EXPLICIT_INITIAL_INDEX_SIZE_def drop_bit_eq_div
        ceil_to_pow_2_def smear_loop.simps push_bit_eq_mult)
  have "x_enqueue_outcome c x [] (slot (tailIndex p) = 0) (x_enqueue (- 1) CanAlloc True True c x p)"
    using size unfolding p_def by (intro x_enqueue_ok ExplicitProducer_ok) (simp_all add: push_bit_eq_mult)
  then obtain r p' where e: "x_enqueue (- 1) CanAlloc True True c x p = Some (r, p')"
    "r = Threw \<longrightarrow> c = MayThrow True" "r = Enqueued \<longrightarrow> c \<noteq> MayThrow True"
    unfolding x_enqueue_outcome_def by blast
  have "\<not> is_full (- 1) 0 0"
    by (simp add: is_full_def const_numeric_max_def BLOCK_SIZE_def circular_less_than_iff)
  then have "r \<noteq> Refused" using e(1) x_refused_reason [of "- 1" CanAlloc True True c x p p']
    by (auto simp: p_def ExplicitProducer_fields)
  then show "\<exists>p'. x_enqueue (- 1) CanAlloc True True c x p = Some (if c = MayThrow True then Threw else Enqueued, p')"
    using e by (cases r) auto
qed

text \<open>
  Claim C6.  An explicit producer is a FIFO queue, for every sequence of calls of \<^verbatim>\<open>enqueue\<close> and
  \<^verbatim>\<open>dequeue\<close>, with failing allocations (that of the constructor too), throwing constructors and
  assignments, blocks that are used again, growth of the index and wrap-around of the 64-bit
  indices: what was accepted is what came out followed by what is inside, the reported size is its
  length, no call is undefined, a call of \<^verbatim>\<open>dequeue\<close> yields the oldest element or nothing exactly when
  the queue is empty, and an element is refused only at the size limit or when an allocation is not
  allowed or fails.
\<close>

theorem explicit_producer_fifo:
  assumes "x_reach max_size poolSize ins outs p" "unat poolSize \<le> 2 ^ 56"
  shows "\<exists>q. ins = outs @ q \<and> unat (size_approx p) = length q
    \<and> (case q of
         [] \<Rightarrow> x_dequeue thr p = Some (NothingThere, p)
       | x # q' \<Rightarrow> (\<exists>p'. x_dequeue thr p = Some (if thr then LostByThrow x else Got x, p')))
    \<and> ((iok \<longrightarrow> unat (push_bit 1 (pr_blockIndexSize p)) \<le> 2 ^ 57) \<longrightarrow>
         (\<exists>r p'. x_enqueue max_size mode iok bok c y p = Some (r, p')
            \<and> (r = Refused \<longrightarrow> is_full max_size (tailIndex p) (headIndex p)
                 \<or> mode = CannotAlloc \<or> \<not> iok \<or> \<not> bok)))"
proof -
  obtain q where q: "ins = outs @ q" "x_ok q p" using x_reach_ok [OF assms] by blast
  have "case q of [] \<Rightarrow> x_dequeue thr p = Some (NothingThere, p)
      | x # q' \<Rightarrow> (\<exists>p'. x_dequeue thr p = Some (if thr then LostByThrow x else Got x, p'))"
    using q(2) x_dequeue_empty [of p thr] x_dequeue_ok [of _ _ p thr] by (cases q) fastforce+
  moreover have "\<exists>r p'. x_enqueue max_size mode iok bok c y p = Some (r, p')
      \<and> (r = Refused \<longrightarrow> is_full max_size (tailIndex p) (headIndex p)
           \<or> mode = CannotAlloc \<or> \<not> iok \<or> \<not> bok)"
    if small: "iok \<longrightarrow> unat (push_bit 1 (pr_blockIndexSize p)) \<le> 2 ^ 57"
  proof -
    obtain r p' where e: "x_enqueue max_size mode iok bok c y p = Some (r, p')"
      using x_enqueue_ok [OF q(2), of iok c y max_size mode bok] small unfolding x_enqueue_outcome_def by blast
    then show ?thesis using x_refused_reason [of max_size mode iok bok c y p p'] by auto
  qed
  ultimately show ?thesis using q(1) x_ok_size [OF q(2)] by blast
qed

theorem explicit_producer_fifo_witness:
  "\<exists>p. x_reach (- 1) 2 [] ([] :: nat list) p \<and> unat (size_approx p) = 0 \<and> x_dequeue False p = Some (NothingThere, p)
     \<and> (\<exists>p'. x_enqueue (- 1) CanAlloc True True Noexcept 7 p = Some (Enqueued, p'))"
proof -
  let ?p = "ExplicitProducer True 2 :: nat explicit_producer"
  have r: "x_reach (- 1) 2 [] [] ?p" by (rule x_reach.init)
  show ?thesis
    using r explicit_producer_fifo [OF r, of False True CanAlloc True Noexcept 7] first_x_enqueue(2) [of Noexcept 7] by auto
qed

text \<open>
  A constructor that throws at a block boundary.  The comment in the code says that the
  new block is left available for the next time; but its flags were reset, so it is not found empty,
  and the next call takes yet another block.
\<close>

theorem explicit_throw_leaves_block:
  assumes "x_reach max_size poolSize ins outs p" "unat poolSize \<le> 2 ^ 56" "slot (tailIndex p) = 0"
    and "iok \<longrightarrow> unat (push_bit 1 (pr_blockIndexSize p)) \<le> 2 ^ 57"
    and "x_enqueue max_size mode iok bok c x p = Some (Threw, p')"
  shows "new_tail_block max_size' mode' iok' bok' p' = Some (alloc_tail max_size' mode' iok' bok' p')"
proof -
  obtain q where q: "x_ok q p" using x_reach_ok [OF assms(1, 2)] by blast
  then have "x_enqueue_outcome c x q True (x_enqueue max_size mode iok bok c x p)"
    using x_enqueue_ok [OF q, of iok c x max_size mode bok] assms(3, 4) by simp
  then have "throw_leaves_block p'" using assms(5) by (simp add: x_enqueue_outcome_def)
  then show ?thesis by (simp add: throw_leaves_block_def)
qed


theorem explicit_throw_leaves_block_witness:
  "\<exists>p' :: nat explicit_producer. x_enqueue (- 1) CanAlloc True True (MayThrow True) 7 (ExplicitProducer True 2) = Some (Threw, p')
     \<and> new_tail_block (- 1) CanAlloc True True p' = Some (alloc_tail (- 1) CanAlloc True True p')"
proof -
  let ?p = "ExplicitProducer True 2 :: nat explicit_producer"
  have r: "x_reach (- 1) 2 [] [] ?p" by (rule x_reach.init)
  obtain p' where e: "x_enqueue (- 1) CanAlloc True True (MayThrow True) 7 ?p = Some (Threw, p')"
    using first_x_enqueue(2) [of "MayThrow True" 7] by auto
  show ?thesis using e explicit_throw_leaves_block [OF r _ _ _ e] first_x_enqueue(1)
    by (simp add: ExplicitProducer_fields slot_mod push_bit_eq_mult)
qed

end
