(* ===== verification/CQ_Dequeue.thy ===== *)
theory CQ_Dequeue
  imports CQ_Util
begin

text \<open>
  How the consumers of a producer's sub-queue share it without a lock
  (\<^verbatim>\<open>dequeue\<close> and \<^verbatim>\<open>dequeue_bulk\<close> of both kinds of producer in
  \<^verbatim>\<open>Source/Core/Private/Core/Utilities/Containers/ConcurrentQueue.h\<close>).  A consumer first takes
  tickets by adding to \<^verbatim>\<open>dequeueOptimisticCount\<close>, and then looks whether there are elements for
  them; tickets for which there are none are given back by adding to \<^verbatim>\<open>dequeueOvercommit\<close>, and for
  the others it adds to \<^verbatim>\<open>headIndex\<close>.  Every atomic operation is one step and the steps of
  the threads interleave in any order (sequentially consistent memory).
\<close>

section \<open>The operations\<close>

datatype deq_call = Single | Bulk "64 word"

text \<open>The program counter: the next atomic operation, with the local variables that are live there.\<close>

datatype deq_pc =
    DIdle
  | LoadTail deq_call
  | LoadOver deq_call "64 word" \<comment> \<open>\<^verbatim>\<open>tail\<close>\<close>
  | LoadOpt deq_call "64 word" "64 word" \<comment> \<open>\<^verbatim>\<open>tail\<close>, \<^verbatim>\<open>overcommit\<close>\<close>
  | FetchOpt deq_call "64 word" "64 word" \<comment> \<open>\<^verbatim>\<open>overcommit\<close>, \<^verbatim>\<open>desiredCount\<close>\<close>
  | ReloadTail deq_call "64 word" "64 word" "64 word" \<comment> \<open>\<^verbatim>\<open>overcommit\<close>, \<^verbatim>\<open>desiredCount\<close>, \<^verbatim>\<open>myDequeueCount\<close>\<close>
  | FetchOver "64 word" "64 word" \<comment> \<open>how much to add to \<^verbatim>\<open>dequeueOvercommit\<close>, and then to \<^verbatim>\<open>headIndex\<close>\<close>
  | FetchHead "64 word"

text \<open>The first test: how many tickets to take.\<close>

definition desired_count :: "deq_call \<Rightarrow> 64 word \<Rightarrow> 64 word \<Rightarrow> 64 word \<Rightarrow> 64 word option" where
  "desired_count k tail over optim =
     (case k of
        Single \<Rightarrow> if circular_less_than (optim - over) tail then Some 1 else None
      | Bulk mx \<Rightarrow>
          (let desiredCount = tail - (optim - over)
           in if circular_less_than 0 desiredCount
              then Some (if desiredCount < mx then desiredCount else mx) else None))"

text \<open>The second test: for how many of the tickets there are elements.\<close>

definition actual_count :: "deq_call \<Rightarrow> 64 word \<Rightarrow> 64 word \<Rightarrow> 64 word \<Rightarrow> 64 word \<Rightarrow> 64 word option" where
  "actual_count k tail over desired mine =
     (case k of
        Single \<Rightarrow> if circular_less_than (mine - over) tail then Some 1 else None
      | Bulk _ \<Rightarrow>
          (let actualCount = tail - (mine - over)
           in if circular_less_than 0 actualCount
              then Some (if desired < actualCount then desired else actualCount) else None))"

text \<open>
  The shared variables; the other fields are ghosts: how many elements were published and tickets
  handed out, what was added to the two counters, which tickets were found good or bad, and which
  thread got which index.
\<close>

record deq_state =
  tailIdx :: "64 word"
  headIdx :: "64 word"
  optimistic :: "64 word"
  overcommitted :: "64 word"
  deq_pc :: "nat \<Rightarrow> deq_pc"
  published :: nat
  tickets :: nat
  heads :: nat
  overs :: nat
  good :: "nat set"
  bad :: "nat set"
  got :: "(nat \<times> nat) list"

definition deq_init :: deq_state where
  "deq_init = \<lparr>tailIdx = 0, headIdx = 0, optimistic = 0, overcommitted = 0, deq_pc = (\<lambda>_. DIdle),
     published = 0, tickets = 0, heads = 0, overs = 0, good = {}, bad = {}, got = []\<rparr>"

abbreviation dgoto :: "nat \<Rightarrow> deq_pc \<Rightarrow> deq_state \<Rightarrow> deq_state" where
  "dgoto t c s \<equiv> s\<lparr>deq_pc := (deq_pc s)(t := c)\<rparr>"

text \<open>What follows the second test when \<open>a\<close> of \<open>d\<close> tickets are good.\<close>

definition after_test :: "64 word \<Rightarrow> 64 word option \<Rightarrow> deq_pc" where
  "after_test d a =
     (case a of
        None \<Rightarrow> FetchOver d 0
      | Some n \<Rightarrow> if n < d then FetchOver (d - n) n else FetchHead n)"

fun deq_advance :: "nat \<Rightarrow> deq_pc \<Rightarrow> deq_state \<Rightarrow> deq_state" where
  "deq_advance t DIdle s = s"
| "deq_advance t (LoadTail k) s = dgoto t (LoadOver k (tailIdx s)) s"
| "deq_advance t (LoadOver k tail) s = dgoto t (LoadOpt k tail (overcommitted s)) s"
| "deq_advance t (LoadOpt k tail v) s =
     dgoto t (case desired_count k tail v (optimistic s) of None \<Rightarrow> DIdle | Some d \<Rightarrow> FetchOpt k v d) s"
| "deq_advance t (FetchOpt k v d) s =
     (dgoto t (ReloadTail k v d (optimistic s)) s)
       \<lparr>optimistic := optimistic s + d, tickets := tickets s + unat d\<rparr>"
| "deq_advance t (ReloadTail k v d m) s =
     (let a = actual_count k (tailIdx s) v d m; n = (case a of None \<Rightarrow> 0 | Some n \<Rightarrow> unat n)
      in (dgoto t (after_test d a) s)
           \<lparr>good := good s \<union> {unat m ..< unat m + n}, bad := bad s \<union> {unat m + n ..< unat m + unat d}\<rparr>)"
| "deq_advance t (FetchOver d a) s =
     (dgoto t (if a = 0 then DIdle else FetchHead a) s)
       \<lparr>overcommitted := overcommitted s + d, overs := overs s + unat d\<rparr>"
| "deq_advance t (FetchHead a) s =
     (dgoto t DIdle s)
       \<lparr>headIdx := headIdx s + a, heads := heads s + unat a,
        got := got s @ map (\<lambda>i. (t, i)) [heads s ..< heads s + unat a]\<rparr>"

text \<open>The producer publishes \<open>n\<close> elements; a thread starts a call or performs its next operation.\<close>

inductive deq_step :: "nat \<Rightarrow> deq_state \<Rightarrow> deq_state \<Rightarrow> bool" for N where
  publish: "deq_step N s (s\<lparr>tailIdx := tailIdx s + of_nat n, published := published s + n\<rparr>)"
| call: "t < N \<Longrightarrow> deq_pc s t = DIdle \<Longrightarrow> deq_step N s (dgoto t (LoadTail k) s)"
| operation: "t < N \<Longrightarrow> deq_step N s (deq_advance t (deq_pc s t) s)"

inductive deq_reach :: "nat \<Rightarrow> deq_state \<Rightarrow> bool" for N where
  init: "deq_reach N deq_init"
| step: "deq_reach N s \<Longrightarrow> deq_step N s s' \<Longrightarrow> deq_reach N s'"

section \<open>The tests\<close>

text \<open>Taking one element is taking at most one.\<close>

lemma circular_zero: "circular_less_than a b \<longleftrightarrow> circular_less_than 0 (b - a :: 64 word)"
  by (simp add: circular_less_than_iff)

lemma single_is_bulk:
  "desired_count Single tail v opt = desired_count (Bulk 1) tail v opt"
  "actual_count Single tail v 1 m = actual_count (Bulk mx) tail v 1 m"
proof -
  have one: "(if x < 1 then x else 1) = 1" "(if 1 < x then 1 else x) = 1" if "circular_less_than 0 x" for x :: "64 word"
    using that by (auto simp: circular_less_than_iff word_less_nat_alt word_unat_eq_iff)
  show "desired_count Single tail v opt = desired_count (Bulk 1) tail v opt"
    using one(1) circular_zero [of "opt - v" tail]
    by (auto simp: desired_count_def Let_def circular_less_than_iff [of 0 0])
  show "actual_count Single tail v 1 m = actual_count (Bulk mx) tail v 1 m"
    using one(2) circular_zero [of "m - v" tail]
    by (auto simp: actual_count_def Let_def circular_less_than_iff [of 0 0])
qed

lemma word_diff_small:
  assumes "T < 2 ^ 63" "m < 2 ^ 63" "v \<le> m"
  shows "circular_less_than 0 (of_nat T - (of_nat m - of_nat v) :: 64 word) \<longleftrightarrow> m - v < T"
    "m - v < T \<Longrightarrow> unat (of_nat T - (of_nat m - of_nat v) :: 64 word) = T - (m - v)"
proof -
  define d where "d = m - v"
  have d: "d < 2 ^ 63" using assms by (simp add: d_def)
  have e: "of_nat m - of_nat v = (of_nat d :: 64 word)" using assms(3) by (simp add: d_def)
  have u: "unat (of_nat T :: 64 word) = T" "unat (of_nat d :: 64 word) = d"
    using assms(1) d by (intro unat_of_nat_small, simp)+
  have pos: "unat (of_nat T - of_nat d :: 64 word) = T - d" if "d \<le> T"
    using that u unat_sub_le [of "of_nat d :: 64 word" "of_nat T"] by simp
  have neg: "unat (of_nat T - of_nat d :: 64 word) = 2 ^ 64 - (d - T)" if lt: "T < d"
  proof -
    have "unat (of_nat (d - T) :: 64 word) = d - T" using d by (intro unat_of_nat_small) simp
    moreover have "of_nat T - of_nat d = - (of_nat (d - T) :: 64 word)" using lt by simp
    ultimately show ?thesis using unat_uminus [of "of_nat (d - T) :: 64 word"] lt by auto
  qed
  show "circular_less_than 0 (of_nat T - (of_nat m - of_nat v) :: 64 word) \<longleftrightarrow> m - v < T"
    unfolding e d_def [symmetric] circular_less_than_iff using pos neg d assms(1)
    by (cases "d \<le> T") (simp_all, linarith+)
  show "unat (of_nat T - (of_nat m - of_nat v) :: 64 word) = T - (m - v)" if "m - v < T"
    unfolding e d_def [symmetric] using pos that by (simp add: d_def)
qed


lemma actual_count_bulk: "(k = Single \<Longrightarrow> d = 1) \<Longrightarrow> actual_count k tail v d m = actual_count (Bulk 0) tail v d m"
  using single_is_bulk(2) [of tail v m 0] by (cases k) (auto simp: actual_count_def)

section \<open>The invariant\<close>

fun pending :: "deq_pc \<Rightarrow> nat set" where
  "pending (ReloadTail k v d m) = {unat m ..< unat m + unat d}"
| "pending _ = {}"

fun owes :: "deq_pc \<Rightarrow> nat" where
  "owes (FetchOver d a) = unat d"
| "owes _ = 0"

fun takes :: "deq_pc \<Rightarrow> nat" where
  "takes (FetchOver d a) = unat a"
| "takes (FetchHead a) = unat a"
| "takes _ = 0"

text \<open>
  What a thread knows: the overcommit it read counts bad tickets, and after the \<^verbatim>\<open>fetch_add\<close> those below
  its own.
\<close>

fun pc_ok :: "deq_state \<Rightarrow> deq_pc \<Rightarrow> bool" where
  "pc_ok s (LoadOpt k tail v) \<longleftrightarrow> unat v \<le> card (bad s)"
| "pc_ok s (FetchOpt k v d) \<longleftrightarrow> unat v \<le> card (bad s) \<and> (k = Single \<longrightarrow> d = 1)"
| "pc_ok s (ReloadTail k v d m) \<longleftrightarrow> unat v \<le> card (bad s \<inter> {..<unat m}) \<and> unat m + unat d \<le> tickets s
     \<and> (k = Single \<longrightarrow> d = 1)"
| "pc_ok s _ \<longleftrightarrow> True"

definition counters_ok :: "deq_state \<Rightarrow> bool" where
  "counters_ok s \<longleftrightarrow> tailIdx s = of_nat (published s) \<and> optimistic s = of_nat (tickets s)
     \<and> overcommitted s = of_nat (overs s) \<and> headIdx s = of_nat (heads s) \<and> map snd (got s) = [0 ..< heads s]"

definition tickets_ok :: "nat \<Rightarrow> deq_state \<Rightarrow> bool" where
  "tickets_ok N s \<longleftrightarrow> {..<tickets s} = good s \<union> bad s \<union> (\<Union>t<N. pending (deq_pc s t)) \<and> good s \<inter> bad s = {}
     \<and> (\<forall>t<N. pending (deq_pc s t) \<inter> (good s \<union> bad s) = {})
     \<and> (\<forall>t<N. \<forall>u<N. t \<noteq> u \<longrightarrow> pending (deq_pc s t) \<inter> pending (deq_pc s u) = {})"

definition counts_ok :: "nat \<Rightarrow> deq_state \<Rightarrow> bool" where
  "counts_ok N s \<longleftrightarrow> overs s + (\<Sum>t<N. owes (deq_pc s t)) = card (bad s)
     \<and> heads s + (\<Sum>t<N. takes (deq_pc s t)) = card (good s)"

definition good_ok :: "deq_state \<Rightarrow> bool" where
  "good_ok s \<longleftrightarrow> (\<forall>m\<in>good s. m < published s + card (bad s \<inter> {..<m}))"

definition deq_inv :: "nat \<Rightarrow> deq_state \<Rightarrow> bool" where
  "deq_inv N s \<longleftrightarrow> counters_ok s \<and> tickets_ok N s \<and> counts_ok N s \<and> good_ok s
     \<and> (\<forall>t<N. pc_ok s (deq_pc s t))"

lemmas deq_inv_defs = deq_inv_def counters_ok_def tickets_ok_def counts_ok_def good_ok_def

text \<open>Never more good tickets than elements: consider the largest one.\<close>

lemma good_le_published:
  assumes "good_ok s" "finite (good s)" "good s \<inter> bad s = {}"
  shows "card (good s) \<le> published s"
proof (cases "good s = {}")
  case False
  define m where "m = Max (good s)"
  let ?B = "bad s \<inter> {..<m}"
  have m: "m \<in> good s" "\<And>x. x \<in> good s \<Longrightarrow> x \<le> m" using assms(2) False by (simp_all add: m_def)
  have "good s \<union> ?B \<subseteq> {..m}" using m(2) by auto
  then have "card (good s \<union> ?B) \<le> Suc m" using card_mono [of "{..m}" "good s \<union> ?B"] by simp
  moreover have "card (good s \<union> ?B) = card (good s) + card ?B"
    using assms(2, 3) by (intro card_Un_disjoint) auto
  moreover have "m < published s + card ?B" using assms(1) m(1) by (simp add: good_ok_def)
  ultimately show ?thesis by linarith
qed simp

lemma sum_upd:
  fixes f :: "deq_pc \<Rightarrow> nat" and t :: nat
  assumes "t < N"
  shows "(\<Sum>u<N. f ((pc(t := c)) u)) + f (pc t) = (\<Sum>u<N. f (pc u)) + f c"
proof -
  have s: "(\<Sum>u<N. g u) = g t + (\<Sum>u\<in>{..<N} - {t}. g u)" for g :: "nat \<Rightarrow> nat"
    using assms by (intro sum.remove) simp_all
  have "(\<Sum>u\<in>{..<N} - {t}. f ((pc(t := c)) u)) = (\<Sum>u\<in>{..<N} - {t}. f (pc u))" by (intro sum.cong) auto
  then show ?thesis using s [of "\<lambda>u. f ((pc(t := c)) u)"] s [of "\<lambda>u. f (pc u)"] by simp
qed

lemma union_upd:
  fixes f :: "deq_pc \<Rightarrow> nat set" and t :: nat
  assumes "t < N"
  shows "(\<Union>u<N. f ((pc(t := c)) u)) = f c \<union> (\<Union>u\<in>{..<N} - {t}. f (pc u))"
    "(\<Union>u<N. f (pc u)) = f (pc t) \<union> (\<Union>u\<in>{..<N} - {t}. f (pc u))"
proof -
  have split: "(\<Union>u<N. g u) = g t \<union> (\<Union>u\<in>{..<N} - {t}. g u)" for g :: "nat \<Rightarrow> nat set" using assms by auto
  have "(\<Union>u\<in>{..<N} - {t}. f ((pc(t := c)) u)) = (\<Union>u\<in>{..<N} - {t}. f (pc u))" by (intro SUP_cong) auto
  then show "(\<Union>u<N. f ((pc(t := c)) u)) = f c \<union> (\<Union>u\<in>{..<N} - {t}. f (pc u))" using split [of "\<lambda>u. f ((pc(t := c)) u)"] by simp
  show "(\<Union>u<N. f (pc u)) = f (pc t) \<union> (\<Union>u\<in>{..<N} - {t}. f (pc u))" by (rule split)
qed

lemma finite_tickets: "tickets_ok N s \<Longrightarrow> finite (good s) \<and> finite (bad s)"
  unfolding tickets_ok_def by (metis finite_Un finite_lessThan)

lemma bad_le_tickets: "tickets_ok N s \<Longrightarrow> card (bad s) \<le> tickets s"
  unfolding tickets_ok_def by (metis Un_upper1 Un_upper2 card_lessThan card_mono finite_lessThan order_trans)

text \<open>A step that only moves a thread on.\<close>

lemma goto_inv:
  assumes inv: "deq_inv N s" and t: "t < N" and c: "pc_ok s c" "pending c = {}" "owes c = 0" "takes c = 0"
    and o: "pending (deq_pc s t) = {}" "owes (deq_pc s t) = 0" "takes (deq_pc s t) = 0"
  shows "deq_inv N (dgoto t c s)"
proof -
  have pc: "pc_ok (dgoto t c s) x = pc_ok s x" for x by (cases x) simp_all
  have un: "(\<Union>u<N. pending (((deq_pc s)(t := c)) u)) = (\<Union>u<N. pending (deq_pc s u))"
    using c o by (intro SUP_cong) auto
  have "tickets_ok N (dgoto t c s)" using inv c(2) un by (simp add: deq_inv_defs)
  moreover have "counts_ok N (dgoto t c s)"
    using inv sum_upd [OF t, of owes "deq_pc s" c] sum_upd [OF t, of takes "deq_pc s" c] c o by (simp add: deq_inv_defs)
  ultimately show ?thesis using inv pc c(1) by (simp add: deq_inv_def counters_ok_def good_ok_def)
qed


lemma publish_inv:
  assumes "deq_inv N s"
  shows "deq_inv N (s\<lparr>tailIdx := tailIdx s + of_nat n, published := published s + n\<rparr>)" (is "deq_inv N ?s")
proof -
  have pc: "pc_ok ?s x = pc_ok s x" for x by (cases x) simp_all
  show ?thesis using assms pc by (auto simp: deq_inv_defs trans_less_add1 add.commute add.left_commute)
qed

lemma fetch_opt_inv:
  assumes inv: "deq_inv N s" and t: "t < N" and c: "deq_pc s t = FetchOpt k v d"
    and small: "tickets (deq_advance t (deq_pc s t) s) < 2 ^ 63"
  shows "deq_inv N (deq_advance t (deq_pc s t) s)" (is "deq_inv N ?s")
proof -
  let ?n = "tickets s" and ?pc = "ReloadTail k v d (optimistic s)"
  have n: "?n + unat d < 2 ^ 63" using small c by simp
  have opt: "unat (optimistic s) = ?n"
    using inv n unat_of_nat_small [of ?n, where 'a = 64] by (simp add: deq_inv_defs)
  have s': "?s = (dgoto t ?pc s)\<lparr>optimistic := optimistic s + d, tickets := ?n + unat d\<rparr>" by (simp add: c)
  have p: "pending ?pc = {?n ..< ?n + unat d}" "pending (deq_pc s t) = {}" by (simp_all add: opt c)
  have below: "good s \<union> bad s \<union> (\<Union>u<N. pending (deq_pc s u)) = {..<?n}" using inv by (simp add: deq_inv_defs)
  have un: "(\<Union>u<N. pending (((deq_pc s)(t := ?pc)) u)) = {?n ..< ?n + unat d} \<union> (\<Union>u<N. pending (deq_pc s u))"
    using p union_upd(1) [OF t, of pending "deq_pc s" ?pc] union_upd(2) [OF t, of pending "deq_pc s"] by simp
  have lt: "x < ?n" if "x \<in> pending (deq_pc s u)" "u < N" for x u using below that by blast
  have gb: "x < ?n" if "x \<in> good s \<union> bad s" for x using below that by blast
  define I where "I = {?n ..< ?n + unat d}"
  have pd: "pending (deq_pc ?s u) = (if u = t then I else pending (deq_pc s u))" for u
    using p by (simp add: s' I_def)
  have I: "I \<inter> X = {}" if "\<And>x. x \<in> X \<Longrightarrow> x < ?n" for X using that by (fastforce simp: I_def)
  have f: "tickets ?s = ?n + unat d" "good ?s = good s" "bad ?s = bad s" by (simp_all add: s')
  have "{..<?n + unat d} = {..<?n} \<union> I" by (auto simp: I_def)
  moreover have "(\<Union>u<N. pending (deq_pc ?s u)) = I \<union> (\<Union>u<N. pending (deq_pc s u))" using un by (simp add: s' I_def)
  ultimately have "{..<tickets ?s} = good ?s \<union> bad ?s \<union> (\<Union>u<N. pending (deq_pc ?s u))"
    unfolding f below [symmetric] by (simp only:) blast
  moreover have "I \<inter> (good s \<union> bad s) = {}" using gb by (intro I) blast
  moreover have "I \<inter> pending (deq_pc s u) = {}" if "u < N" for u using lt that by (intro I) blast
  ultimately have "tickets_ok N ?s"
    using inv unfolding deq_inv_def tickets_ok_def pd f by (simp add: Int_commute)
  moreover have "counts_ok N ?s"
    using inv sum_upd [OF t, of owes "deq_pc s" ?pc] sum_upd [OF t, of takes "deq_pc s" ?pc] c
    by (simp add: s' deq_inv_defs)
  moreover have "counters_ok ?s" using inv by (simp add: s' deq_inv_defs)
  moreover have "bad s \<inter> {..<?n} = bad s" using gb by auto
  then have "pc_ok ?s ?pc" using inv t c by (auto simp: s' opt deq_inv_def)
  moreover have "pc_ok ?s x" if "pc_ok s x" for x using that by (cases x) (auto simp: s')
  ultimately show ?thesis using inv by (auto simp: deq_inv_def good_ok_def s')
qed

text \<open>The second test decides about the tickets of a thread.\<close>

lemma actual_count_spec:
  assumes m: "m + unat d \<le> n" "n < 2 ^ 63" "P < 2 ^ 63" and v: "unat v \<le> m" and k: "k = Single \<Longrightarrow> d = 1"
  shows "actual_count k (of_nat P) v d (of_nat m)
    = (if m - unat v < P then Some (of_nat (min (unat d) (P - (m - unat v)))) else None)"
proof -
  let ?a = "of_nat P - (of_nat m - v) :: 64 word"
  have a: "?a = of_nat P - (of_nat m - of_nat (unat v))" by simp
  note w = word_diff_small [of P m "unat v", folded a]
  have "m < 2 ^ 63" using m by simp
  note w = w [OF m(3) this v]
  have "(if d < ?a then d else ?a) = of_nat (min (unat d) (P - (m - unat v)))" if "m - unat v < P"
  proof -
    have "of_nat (unat ?a) = ?a" by simp
    then have "of_nat (P - (m - unat v)) = ?a" unfolding w(2) [OF that] .
    then show ?thesis using w(2) [OF that] by (auto simp: word_less_nat_alt min_def)
  qed
  then show ?thesis using w(1) k by (subst actual_count_bulk) (auto simp: actual_count_def Let_def)
qed

lemma reload_inv:
  assumes inv: "deq_inv N s" and t: "t < N" and c: "deq_pc s t = ReloadTail k v d m"
    and small: "tickets s < 2 ^ 63" "published s < 2 ^ 63"
  shows "deq_inv N (deq_advance t (deq_pc s t) s)" (is "deq_inv N ?s")
proof -
  let ?m = "unat m" and ?P = "published s" and ?v = "unat v"
  have ok: "counters_ok s" "tickets_ok N s" "counts_ok N s" "good_ok s" "pc_ok s (deq_pc s t)"
    using inv t by (simp_all add: deq_inv_def)
  have v: "?v \<le> card (bad s \<inter> {..<?m})" and mt: "?m + unat d \<le> tickets s" and k: "k = Single \<Longrightarrow> d = 1"
    using ok(5) c by simp_all
  have vm: "?v \<le> ?m" using v card_mono [of "{..<?m}" "bad s \<inter> {..<?m}"] by simp
  define n where "n = (if ?m - ?v < ?P then min (unat d) (?P - (?m - ?v)) else 0)"
  have nd: "n \<le> unat d" by (simp add: n_def)
  define a where "a = actual_count k (tailIdx s) v d m"
  have a: "a = (if ?m - ?v < ?P then Some (of_nat n) else None)"
    using actual_count_spec [OF mt small vm k] ok(1) by (simp add: a_def counters_ok_def n_def)
  have un: "unat (of_nat n :: 64 word) = n"
    using nd unat_bound [of d] by (intro unat_of_nat_small) simp
  have n0: "n = 0" if "\<not> ?m - ?v < ?P" using that by (simp add: n_def)
  have cn: "(case a of None \<Rightarrow> 0 | Some n \<Rightarrow> unat n) = n" using a un n0 by auto
  define G B where "G = {?m ..< ?m + n}" and "B = {?m + n ..< ?m + unat d}"
  define z where "z = ?s"
  have s': "z = (dgoto t (after_test d a) s)\<lparr>good := good s \<union> G, bad := bad s \<union> B\<rparr>"
    by (simp add: z_def c a_def [symmetric] cn G_def B_def)
  have p: "pending (deq_pc s t) = G \<union> B" using nd by (auto simp: c G_def B_def)
  have at: "pending (after_test d a) = {}" "owes (after_test d a) = unat d - n" "takes (after_test d a) = n"
    using a un n0 nd by (auto simp: after_test_def word_less_nat_alt unat_sub_le)
  have fin: "finite (good s)" "finite (bad s)" using finite_tickets [OF ok(2)] by simp_all
  have dis: "G \<inter> (good s \<union> bad s) = {}" "B \<inter> (good s \<union> bad s) = {}"
    using ok(2) t unfolding tickets_ok_def by (metis Int_Un_distrib2 Un_empty p)+
  have card: "card (good s \<union> G) = card (good s) + n" "card (bad s \<union> B) = card (bad s) + (unat d - n)"
    using dis fin by (subst card_Un_disjoint; auto simp: G_def B_def)+
  have "counts_ok N z"
    using ok(3) sum_upd [OF t, of owes "deq_pc s" "after_test d a"] sum_upd [OF t, of takes "deq_pc s" "after_test d a"]
      c card at by (simp add: s' counts_ok_def)
  moreover have "tickets_ok N z"
  proof -
    let ?R = "\<Union>u\<in>{..<N} - {t}. pending (deq_pc s u)"
    have pd: "pending (deq_pc z u) = (if u = t then {} else pending (deq_pc s u))" for u by (simp add: s' at)
    have R: "(\<Union>u<N. pending (deq_pc z u)) = ?R" "(\<Union>u<N. pending (deq_pc s u)) = G \<union> B \<union> ?R"
      using union_upd [OF t, of pending "deq_pc s"] at(1) p by (simp_all add: s')
    have other: "pending (deq_pc s u) \<inter> (G \<union> B) = {}" if "u < N" "u \<noteq> t" for u
      using ok(2) t that unfolding tickets_ok_def p [symmetric] by blast
    have f: "tickets z = tickets s" "good z = good s \<union> G" "bad z = bad s \<union> B" by (simp_all add: s')
    have gb: "pending (deq_pc s u) \<inter> (good s \<union> bad s) = {}" if "u < N" for u
      using ok(2) that by (simp add: tickets_ok_def)
    show ?thesis unfolding tickets_ok_def R(1) f
    proof (intro conjI allI impI)
      have "{..<tickets s} = good s \<union> bad s \<union> (G \<union> B \<union> ?R)" using ok(2) unfolding tickets_ok_def R(2) by blast
      then show "{..<tickets s} = (good s \<union> G) \<union> (bad s \<union> B) \<union> ?R" by (simp only:) blast
      have "G \<inter> B = {}" "good s \<inter> bad s = {}" using ok(2) by (auto simp: G_def B_def tickets_ok_def)
      then show "(good s \<union> G) \<inter> (bad s \<union> B) = {}" using dis by blast
      show "pending (deq_pc z u) \<inter> ((good s \<union> G) \<union> (bad s \<union> B)) = {}" if "u < N" for u
        using gb [OF that] other [OF that] unfolding pd by (cases "u = t") (simp, simp, blast)
      show "pending (deq_pc z u) \<inter> pending (deq_pc z w) = {}" if "u < N" "w < N" "u \<noteq> w" for u w
        using ok(2) that unfolding pd by (simp add: tickets_ok_def)
    qed
  qed
  moreover have "counters_ok z" using ok(1) by (simp add: s' counters_ok_def)
  moreover have mono: "card (bad s \<inter> X) \<le> card (bad z \<inter> X)" for X
    using fin by (intro card_mono) (auto simp: s' B_def)
  have "good_ok z" unfolding good_ok_def
  proof
    fix x assume "x \<in> good z"
    then consider "x \<in> good s" | "x \<in> G" by (auto simp: s')
    then have "x < ?P + card (bad s \<inter> {..<x})"
    proof cases
      case 1
      then show ?thesis using ok(4) by (simp add: good_ok_def)
    next
      case 2
      then have x: "?m \<le> x" "x < ?m + n" by (simp_all add: G_def)
      have "card (bad s \<inter> {..<?m}) \<le> card (bad s \<inter> {..<x})" using fin x(1) by (intro card_mono) auto
      then show ?thesis using x v vm by (auto simp: n_def split: if_splits)
    qed
    then show "x < published z + card (bad z \<inter> {..<x})" using mono [of "{..<x}"] by (simp add: s')
  qed
  moreover have "pc_ok z x" if "pc_ok s x" for x
    using that mono [of UNIV] mono [of "{..<unat _}"] by (cases x) (auto simp: s' intro: order_trans)
  moreover have "pc_ok z (after_test d a)" by (auto simp: after_test_def split: option.splits)
  ultimately have "deq_inv N z" using inv by (auto simp: deq_inv_def s')
  then show ?thesis by (simp add: z_def)
qed


lemma fetch_over_inv:
  assumes inv: "deq_inv N s" and t: "t < N" and c: "deq_pc s t = FetchOver d a"
  shows "deq_inv N (deq_advance t (deq_pc s t) s)"
proof -
  let ?pc = "if a = 0 then DIdle else FetchHead a"
  define z where "z = deq_advance t (deq_pc s t) s"
  have z: "z = (dgoto t ?pc s)\<lparr>overcommitted := overcommitted s + d, overs := overs s + unat d\<rparr>" by (simp add: z_def c)
  have pc: "pending ?pc = {}" "owes ?pc = 0" "takes ?pc = unat a" by simp_all
  have pcs: "pc_ok z x = pc_ok s x" for x by (cases x) (simp_all add: z)
  have "pending (deq_pc z u) = pending (deq_pc s u)" for u using c by (simp add: z pc)
  then have "tickets_ok N z" using inv unfolding deq_inv_def tickets_ok_def by (simp add: z)
  moreover have "counts_ok N z"
    using inv sum_upd [OF t, of owes "deq_pc s" ?pc] sum_upd [OF t, of takes "deq_pc s" ?pc] c pc
    by (simp add: z deq_inv_def counts_ok_def)
  moreover have "counters_ok z" using inv by (simp add: z deq_inv_def counters_ok_def)
  ultimately have "deq_inv N z" using inv pcs unfolding deq_inv_def good_ok_def by (auto simp: z)
  then show ?thesis by (simp add: z_def)
qed

lemma fetch_head_inv:
  assumes inv: "deq_inv N s" and t: "t < N" and c: "deq_pc s t = FetchHead a"
  shows "deq_inv N (deq_advance t (deq_pc s t) s)"
proof -
  define z where "z = deq_advance t (deq_pc s t) s"
  have z: "z = (dgoto t DIdle s)\<lparr>headIdx := headIdx s + a, heads := heads s + unat a,
      got := got s @ map (\<lambda>i. (t, i)) [heads s ..< heads s + unat a]\<rparr>" by (simp add: z_def c)
  have pcs: "pc_ok z x = pc_ok s x" for x by (cases x) (simp_all add: z)
  have "pending (deq_pc z u) = pending (deq_pc s u)" for u using c by (simp add: z)
  then have "tickets_ok N z" using inv unfolding deq_inv_def tickets_ok_def by (simp add: z)
  moreover have "counts_ok N z"
    using inv sum_upd [OF t, of owes "deq_pc s" DIdle] sum_upd [OF t, of takes "deq_pc s" DIdle] c
    by (simp add: z deq_inv_def counts_ok_def)
  moreover have "[0 ..< heads s] @ [heads s ..< heads s + unat a] = [0 ..< heads s + unat a]"
    using upt_add_eq_append [of 0 "heads s" "unat a"] by simp
  then have "counters_ok z" using inv by (simp add: z deq_inv_def counters_ok_def comp_def)
  ultimately have "deq_inv N z" using inv pcs unfolding deq_inv_def good_ok_def by (auto simp: z)
  then show ?thesis by (simp add: z_def)
qed

lemma overs_small:
  assumes "deq_inv N s" "tickets s < 2 ^ 63"
  shows "unat (overcommitted s) \<le> card (bad s)"
proof -
  have "overs s \<le> card (bad s)" "card (bad s) \<le> tickets s"
    using assms(1) bad_le_tickets [of N s] by (simp_all add: deq_inv_def counts_ok_def)
  moreover from this have "unat (overcommitted s) = overs s"
    using assms unat_of_nat_small [of "overs s", where 'a = 64] by (simp add: deq_inv_def counters_ok_def)
  ultimately show ?thesis by simp
qed

lemma advance_inv:
  assumes inv: "deq_inv N s" and t: "t < N"
    and small: "tickets (deq_advance t (deq_pc s t) s) < 2 ^ 63" "tickets s < 2 ^ 63" "published s < 2 ^ 63"
  shows "deq_inv N (deq_advance t (deq_pc s t) s)"
proof (cases "deq_pc s t")
  case DIdle
  then show ?thesis using inv by simp
next
  case (LoadTail k)
  then show ?thesis using goto_inv [OF inv t, of "LoadOver k (tailIdx s)"] by simp
next
  case (LoadOver k tail)
  then show ?thesis
    using goto_inv [OF inv t, of "LoadOpt k tail (overcommitted s)"] overs_small [OF inv small(2)] by simp
next
  case (LoadOpt k tail v)
  let ?c = "case desired_count k tail v (optimistic s) of None \<Rightarrow> DIdle | Some d \<Rightarrow> FetchOpt k v d"
  have "pc_ok s (LoadOpt k tail v)" using inv t LoadOpt by (auto simp: deq_inv_def)
  then have "pc_ok s ?c" by (cases k) (auto simp: desired_count_def split: option.splits)
  then show ?thesis using goto_inv [OF inv t, of ?c] LoadOpt by (simp split: option.splits)
next
  case (FetchOpt k v d)
  then show ?thesis using fetch_opt_inv [OF inv t FetchOpt] small(1) by simp
next
  case (ReloadTail k v d m)
  then show ?thesis using reload_inv [OF inv t ReloadTail small(2, 3)] by simp
next
  case (FetchOver d a)
  then show ?thesis using fetch_over_inv [OF inv t FetchOver] by simp
next
  case (FetchHead a)
  then show ?thesis using fetch_head_inv [OF inv t FetchHead] by simp
qed


lemma deq_step_mono: "deq_step N s s' \<Longrightarrow> tickets s \<le> tickets s' \<and> published s \<le> published s'"
proof (induction rule: deq_step.induct)
  case (operation t s)
  then show ?case by (cases "deq_pc s t") (simp_all add: Let_def)
qed simp_all

lemma deq_step_inv:
  assumes "deq_step N s s'" "deq_inv N s" "tickets s' < 2 ^ 63" "published s' < 2 ^ 63"
  shows "deq_inv N s'"
  using assms(1)
proof cases
  case (publish n)
  then show ?thesis using publish_inv [OF assms(2)] by simp
next
  case (call t k)
  then show ?thesis using goto_inv [OF assms(2), of t "LoadTail k"] by simp
next
  case (operation t)
  then show ?thesis using advance_inv [OF assms(2), of t] deq_step_mono [OF assms(1)] assms(3, 4) by simp
qed

lemma deq_reach_inv:
  "deq_reach N s \<Longrightarrow> tickets s < 2 ^ 63 \<Longrightarrow> published s < 2 ^ 63 \<Longrightarrow> deq_inv N s"
proof (induction rule: deq_reach.induct)
  case init
  then show ?case by (simp add: deq_inv_defs deq_init_def)
next
  case (step s s')
  then have "deq_inv N s" using deq_step_mono [OF step.hyps(2)] by simp
  then show ?case using deq_step_inv [OF step.hyps(2)] step.prems by blast
qed

lemma quiet_counters:
  assumes inv: "deq_inv N s" and quiet: "\<forall>t<N. deq_pc s t = DIdle"
  shows "optimistic s - overcommitted s = headIdx s" "tickets s = overs s + heads s"
proof -
  have c: "overs s = card (bad s)" "heads s = card (good s)" using inv quiet by (simp_all add: deq_inv_def counts_ok_def)
  have u: "{..<tickets s} = good s \<union> bad s" "good s \<inter> bad s = {}"
    using inv quiet by (simp_all add: deq_inv_def tickets_ok_def)
  then have "tickets s = card (good s \<union> bad s)" by (metis card_lessThan)
  also have "\<dots> = card (good s) + card (bad s)"
    using u finite_tickets [of N s] inv by (intro card_Un_disjoint) (auto simp: deq_inv_def)
  finally show t: "tickets s = overs s + heads s" using c by simp
  show "optimistic s - overcommitted s = headIdx s" using inv t by (simp add: deq_inv_def counters_ok_def)
qed

text \<open>
  Claim C4.  Consumers that share a sub-queue.  For any number of threads that call \<^verbatim>\<open>dequeue\<close> and
  \<^verbatim>\<open>dequeue_bulk\<close> while the producer publishes elements, under every interleaving of their atomic
  operations: the head never passes the tail, a thread that is about to advance the head finds as
  many published elements as it takes, every index is handed out exactly once and in order, and
  when no call is in progress the counters agree again.  The counters are 64 bits wide; the
  theorem covers runs of fewer than $2^{63}$ tickets and elements.
\<close>

theorem dequeue_protocol_safe:
  assumes "deq_reach N s" "tickets s < 2 ^ 63" "published s < 2 ^ 63"
  shows "unat (tailIdx s) = published s \<and> unat (headIdx s) = heads s \<and> heads s \<le> published s
    \<and> map snd (got s) = [0 ..< heads s]
    \<and> (\<forall>t a. t < N \<and> deq_pc s t = FetchHead a \<longrightarrow> heads s + unat a \<le> published s)
    \<and> ((\<forall>t<N. deq_pc s t = DIdle) \<longrightarrow> optimistic s - overcommitted s = headIdx s)"
proof -
  have inv: "deq_inv N s" by (rule deq_reach_inv [OF assms])
  have "card (good s) \<le> published s"
    using inv finite_tickets [of N s] by (intro good_le_published) (auto simp: deq_inv_def tickets_ok_def)
  then have le: "heads s + (\<Sum>t<N. takes (deq_pc s t)) \<le> published s" using inv by (simp add: deq_inv_def counts_ok_def)
  have "heads s + unat a \<le> published s" if "t < N" "deq_pc s t = FetchHead a" for t a
  proof -
    have "takes (deq_pc s t) \<le> (\<Sum>t<N. takes (deq_pc s t))" using that(1) by (intro member_le_sum) simp_all
    then show ?thesis using le that(2) by simp
  qed
  moreover have "unat (tailIdx s) = published s" "unat (headIdx s) = heads s"
    using inv assms(3) le unat_of_nat_small [of "published s", where 'a = 64] unat_of_nat_small [of "heads s", where 'a = 64]
    by (simp_all add: deq_inv_def counters_ok_def)
  ultimately show ?thesis using inv le quiet_counters(1) [OF inv] by (auto simp: deq_inv_def counters_ok_def)
qed

section \<open>A call that is not disturbed\<close>

definition deq_next :: "nat \<Rightarrow> deq_state \<Rightarrow> deq_state" where
  "deq_next t s = deq_advance t (deq_pc s t) s"

text \<open>One element and two consumers that both take a ticket for it.\<close>

definition contended :: deq_state where
  "contended = fold deq_next [0, 1, 0, 1, 0, 1, 0, 1, 1, 0, 1, 0]
     (deq_init\<lparr>tailIdx := 1, published := 1, deq_pc := (\<lambda>_. DIdle)(0 := LoadTail Single, 1 := LoadTail (Bulk 5))\<rparr>)"

lemma deq_next_reach: "deq_reach N s \<Longrightarrow> list_all (\<lambda>t. t < N) ts \<Longrightarrow> deq_reach N (fold deq_next ts s)"
proof (induction ts arbitrary: s)
  case (Cons t ts)
  have "deq_reach N (deq_next t s)"
    using deq_reach.step [OF Cons.prems(1) deq_step.operation, of t] Cons.prems(2) by (simp add: deq_next_def)
  then show ?case using Cons by simp
qed simp

lemma contended_reach: "deq_reach 2 contended"
proof -
  have 1: "deq_reach 2 (deq_init\<lparr>tailIdx := 1, published := 1\<rparr>)"
    using deq_reach.step [OF deq_reach.init deq_step.publish, of 2 1] by (simp add: deq_init_def)
  have 2: "deq_reach 2 (dgoto 0 (LoadTail Single) (deq_init\<lparr>tailIdx := 1, published := 1\<rparr>))"
    by (rule deq_reach.step [OF 1 deq_step.call]) (simp_all add: deq_init_def)
  have "deq_reach 2 (dgoto 1 (LoadTail (Bulk 5)) (dgoto 0 (LoadTail Single) (deq_init\<lparr>tailIdx := 1, published := 1\<rparr>)))"
    by (rule deq_reach.step [OF 2 deq_step.call]) (simp_all add: deq_init_def)
  then show ?thesis unfolding contended_def by (intro deq_next_reach) (simp_all add: deq_init_def)
qed

lemma contended_fields:
  "tickets contended = 2" "published contended = 1" "heads contended = 1" "deq_pc contended 0 = DIdle"
  "deq_pc contended 1 = DIdle"
  by (simp_all add: contended_def deq_init_def deq_next_def desired_count_def actual_count_def after_test_def Let_def
      circular_less_than_def)

theorem dequeue_protocol_safe_witness:
  "deq_reach 2 contended \<and> tickets contended = 2 \<and> map snd (got contended) = [0]
   \<and> optimistic contended - overcommitted contended = headIdx contended \<and> headIdx contended = 1"
proof -
  have "\<forall>t<2. deq_pc contended t = DIdle" using contended_fields by (auto simp: less_2_cases_iff)
  moreover have "headIdx contended = 1" if "unat (headIdx contended) = 1" using that by (simp add: word_unat_eq_iff)
  ultimately show ?thesis using dequeue_protocol_safe [OF contended_reach] contended_reach contended_fields by simp
qed

fun wanted :: "deq_call \<Rightarrow> nat" where
  "wanted Single = 1"
| "wanted (Bulk mx) = unat mx"

lemma desired_count_spec:
  assumes "P < 2 ^ 63" "n < 2 ^ 63" "unat v \<le> n"
  shows "desired_count k (of_nat P) v (of_nat n)
    = (if n - unat v < P then Some (of_nat (min (wanted k) (P - (n - unat v)))) else None)"
proof -
  let ?a = "of_nat P - (of_nat n - v) :: 64 word"
  have a: "?a = of_nat P - (of_nat n - of_nat (unat v))" by simp
  note w = word_diff_small [of P n "unat v", folded a, OF assms]
  have bulk: "desired_count (Bulk mx) (of_nat P) v (of_nat n)
      = (if n - unat v < P then Some (of_nat (min (unat mx) (P - (n - unat v)))) else None)" for mx
  proof -
    have "of_nat (unat ?a) = ?a" by simp
    then have "of_nat (P - (n - unat v)) = ?a" if "n - unat v < P" unfolding w(2) [OF that] .
    then show ?thesis using w by (auto simp: desired_count_def Let_def word_less_nat_alt min_def)
  qed
  then show ?thesis using bulk [of 1] by (cases k) (simp_all add: single_is_bulk(1))
qed


text \<open>
  A call of \<^verbatim>\<open>dequeue\<close> or \<^verbatim>\<open>dequeue_bulk\<close> that starts when no other is in progress and is
  not disturbed returns after at most six atomic operations, with as many of the oldest elements as
  are wanted and present; it gives back no ticket.
\<close>

theorem dequeue_alone:
  assumes "deq_reach N s" "published s < 2 ^ 63" "tickets s + wanted k < 2 ^ 63"
    and "\<forall>t<N. deq_pc s t = DIdle" "t < N"
  shows "let s' = (deq_next t ^^ 6) (dgoto t (LoadTail k) s); n = min (wanted k) (published s - heads s)
    in deq_pc s' t = DIdle \<and> heads s' = heads s + n \<and> overs s' = overs s
       \<and> got s' = got s @ map (\<lambda>i. (t, i)) [heads s ..< heads s + n]"
proof -
  let ?P = "published s" and ?T = "tickets s" and ?H = "heads s" and ?v = "overcommitted s"
  have inv: "deq_inv N s" using deq_reach_inv [OF assms(1) _ assms(2)] assms(3) by simp
  note q = quiet_counters [OF inv assms(4)]
  have w: "tailIdx s = of_nat ?P" "optimistic s = of_nat ?T" "unat ?v = overs s"
    using inv q(2) assms(3) unat_of_nat_small [of "overs s", where 'a = 64] by (simp_all add: deq_inv_def counters_ok_def)
  have vT: "unat ?v \<le> ?T" "?T - unat ?v = ?H" using q(2) w(3) by simp_all
  have T: "?T < 2 ^ 63" using assms(3) by simp
  define n where "n = min (wanted k) (?P - ?H)"
  have n: "n \<le> wanted k" "n \<le> ?P - ?H" by (simp_all add: n_def)
  have d: "desired_count k (of_nat ?P) ?v (of_nat ?T) = (if ?H < ?P then Some (of_nat n) else None)"
    using desired_count_spec [OF assms(2) T vT(1), of k] vT(2) by (simp add: n_def)
  have un: "unat (of_nat n :: 64 word) = n" using n(2) assms(2) by (intro unat_of_nat_small) simp
  have six: "(deq_next t ^^ 6) x = deq_next t (deq_next t (deq_next t (deq_next t (deq_next t (deq_next t x)))))" for x
    by (simp add: numeral_eq_Suc)
  show ?thesis
  proof (cases "?H < ?P")
    case False
    then have "n = 0" by (simp add: n_def)
    then show ?thesis using d False unfolding six n_def [symmetric] by (simp add: deq_next_def w Let_def)
  next
    case True
    have one: "k = Single \<Longrightarrow> of_nat n = (1 :: 64 word)" using True by (simp add: n_def)
    have "actual_count k (of_nat ?P) ?v (of_nat n) (of_nat ?T) = Some (of_nat n)"
      using actual_count_spec [of ?T "of_nat n" "?T + n" ?P ?v k] un vT True n assms(2, 3) one by (simp add: min_def)
    then show ?thesis using d True un unfolding six n_def [symmetric]
      by (simp add: deq_next_def w Let_def after_test_def)
  qed
qed


theorem dequeue_alone_witness:
  "got ((deq_next 0 ^^ 6) (dgoto 0 (LoadTail (Bulk 7)) (deq_init\<lparr>tailIdx := 3, published := 3\<rparr>)))
     = [(0, 0), (0, 1), (0, 2)]"
proof -
  have r: "deq_reach 1 (deq_init\<lparr>tailIdx := 3, published := 3\<rparr>)"
    using deq_reach.step [OF deq_reach.init deq_step.publish, of 1 3] by (simp add: deq_init_def)
  show ?thesis using dequeue_alone [OF r, of "Bulk 7" 0]
    by (simp add: deq_init_def Let_def) (simp add: numeral_eq_Suc)
qed

end
