(* ===== verification/CQ_Producers.thy ===== *)
theory CQ_Producers
  imports CQ_Pool
begin

text \<open>
  The producers of a lock-free queue
  (\<^verbatim>\<open>Source/Core/Private/Core/Utilities/Containers/ConcurrentQueue.h\<close>): the list of producers, which
  only grows, the tokens of explicit producers, and the hash tables that map thread ids to implicit
  producers.  A table uses linear probing; when it is half full a larger one is put in front of it,
  and entries move to the new table when their thread asks for them.  Each call is one step.
\<close>

unbundle bit_operations_syntax

section \<open>Data\<close>

text \<open>Thread ids are addresses of thread-local variables.\<close>

definition invalid_thread_id :: "64 word" where
  "invalid_thread_id = 0"

definition invalid_thread_id2 :: "64 word" where
  "invalid_thread_id2 = 1"

record ImplicitProducerHash =
  h_capacity :: "64 word"
  h_keys :: "64 word list"
  h_values :: "nat option list"

text \<open>
  \<open>hashes\<close> is the chain of tables from \<^verbatim>\<open>implicitProducerHash\<close> along \<^verbatim>\<open>prev\<close>, \<open>producers\<close> that of
  producers from \<^verbatim>\<open>producerListTail\<close> along \<^verbatim>\<open>next\<close>.
\<close>

record producer_state =
  hashes :: "ImplicitProducerHash list"
  implicitProducerHashCount :: "64 word"
  producers :: "nat list"
  producerCount :: "32 word"
  isExplicit :: "nat \<Rightarrow> bool"
  inactive :: "nat \<Rightarrow> bool"
  token_of :: "nat \<Rightarrow> nat option"
  producers_made :: nat \<comment> \<open>addresses handed out by \<^verbatim>\<open>create\<close> so far\<close>

section \<open>The producer list\<close>

definition empty_hash :: "64 word \<Rightarrow> ImplicitProducerHash" where
  "empty_hash cap = \<lparr>h_capacity = cap, h_keys = replicate (unat cap) invalid_thread_id,
     h_values = replicate (unat cap) None\<rparr>"

text \<open>The fields the queue's constructor sets, with \<^verbatim>\<open>populate_initial_implicit_producer_hash\<close>.\<close>

definition no_producers :: producer_state where
  "no_producers = \<lparr>hashes = [empty_hash INITIAL_IMPLICIT_PRODUCER_HASH_SIZE], implicitProducerHashCount = 0,
     producers = [], producerCount = 0, isExplicit = (\<lambda>_. False), inactive = (\<lambda>_. False),
     token_of = (\<lambda>_. None), producers_made = 0\<rparr>"

definition add_producer :: "nat option \<Rightarrow> producer_state \<Rightarrow> nat option \<times> producer_state" where
  "add_producer producer s =
     (case producer of
        None \<Rightarrow> (None, s)
      | Some p \<Rightarrow> (Some p, s\<lparr>producerCount := producerCount s + 1, producers := p # producers s\<rparr>))"

definition create_producer :: "bool \<Rightarrow> bool \<Rightarrow> producer_state \<Rightarrow> nat option \<times> producer_state" where
  "create_producer malloc_ok expl s =
     (if malloc_ok
      then (let p = producers_made s
            in (Some p, s\<lparr>producers_made := p + 1, isExplicit := (isExplicit s)(p := expl),
                         inactive := (inactive s)(p := False), token_of := (token_of s)(p := None)\<rparr>))
      else (None, s))"

text \<open>The result, whether it was recycled, and the state.\<close>

definition recycle_or_create_producer ::
  "bool \<Rightarrow> bool \<Rightarrow> producer_state \<Rightarrow> nat option \<times> bool \<times> producer_state" where
  "recycle_or_create_producer malloc_ok expl s =
     (case find (\<lambda>p. inactive s p \<and> isExplicit s p = expl) (producers s) of
        Some p \<Rightarrow> (Some p, True, s\<lparr>inactive := (inactive s)(p := False)\<rparr>)
      | None \<Rightarrow>
          (let (p, s1) = create_producer malloc_ok expl s; (r, s2) = add_producer p s1 in (r, False, s2)))"

section \<open>Producer tokens\<close>

text \<open>A token \<open>tk\<close> holds its producer, or none.\<close>

definition ProducerToken :: "bool \<Rightarrow> nat \<Rightarrow> producer_state \<Rightarrow> nat option \<times> producer_state" where
  "ProducerToken malloc_ok tk s =
     (let (p, _, s1) = recycle_or_create_producer malloc_ok True s
      in (p, case p of None \<Rightarrow> s1 | Some p' \<Rightarrow> s1\<lparr>token_of := (token_of s1)(p' := Some tk)\<rparr>))"

definition token_valid :: "nat option \<Rightarrow> bool" where
  "token_valid producer \<longleftrightarrow> producer \<noteq> None"

definition destroy_ProducerToken :: "nat option \<Rightarrow> producer_state \<Rightarrow> producer_state" where
  "destroy_ProducerToken producer s =
     (case producer of
        None \<Rightarrow> s
      | Some p \<Rightarrow> s\<lparr>token_of := (token_of s)(p := None), inactive := (inactive s)(p := True)\<rparr>)"

section \<open>The hash tables\<close>

text \<open>
  Linear probing from a hashed id to the first slot whose key satisfies \<open>stop\<close>; the loop does not end
  (\<^term>\<open>None\<close>) when there is none.
\<close>

partial_function (option) probe ::
  "(64 word \<Rightarrow> bool) \<Rightarrow> ImplicitProducerHash \<Rightarrow> 64 word \<Rightarrow> 64 word option" where
  "probe stop h index =
     (let i = index AND (h_capacity h - 1)
      in if stop (h_keys h ! unat i) then Some i else probe stop h (i + 1))"

text \<open>One table: whether the id is there and with which value.\<close>

definition find_in_hash :: "nat \<Rightarrow> 64 word \<Rightarrow> ImplicitProducerHash \<Rightarrow> nat option option option" where
  "find_in_hash sz tid h =
     map_option (\<lambda>i. if h_keys h ! unat i = tid then Some (h_values h ! unat i) else None)
       (probe (\<lambda>k. k = tid \<or> k = invalid_thread_id) h (hash_thread_id sz tid))"

fun find_in_hashes :: "nat \<Rightarrow> 64 word \<Rightarrow> ImplicitProducerHash list \<Rightarrow> nat option option option" where
  "find_in_hashes sz tid [] = Some None"
| "find_in_hashes sz tid (h # hs) =
     (case find_in_hash sz tid h of
        None \<Rightarrow> None
      | Some (Some v) \<Rightarrow> Some (Some v)
      | Some None \<Rightarrow> find_in_hashes sz tid hs)"

text \<open>\<open>tls\<close> is whether the code is compiled with support for thread exit.\<close>

definition put_in_hash :: "nat \<Rightarrow> bool \<Rightarrow> 64 word \<Rightarrow> nat option \<Rightarrow> ImplicitProducerHash \<Rightarrow> ImplicitProducerHash option" where
  "put_in_hash sz tls tid v h =
     map_option (\<lambda>i. h\<lparr>h_keys := (h_keys h)[unat i := tid], h_values := (h_values h)[unat i := v]\<rparr>)
       (probe (\<lambda>k. k = invalid_thread_id \<or> tls \<and> k = invalid_thread_id2) h (hash_thread_id sz tid))"

text \<open>The size of a larger table.\<close>

partial_function (option) grow_capacity :: "64 word \<Rightarrow> 64 word \<Rightarrow> 64 word option" where
  "grow_capacity newCount newCapacity =
     (if newCount \<ge> drop_bit 1 newCapacity then grow_capacity newCount (push_bit 1 newCapacity)
      else Some newCapacity)"

definition update_main :: "(ImplicitProducerHash \<Rightarrow> ImplicitProducerHash option) \<Rightarrow> producer_state \<Rightarrow> producer_state option" where
  "update_main f s =
     (case hashes s of
        [] \<Rightarrow> None
      | h # hs \<Rightarrow> map_option (\<lambda>h'. s\<lparr>hashes := h' # hs\<rparr>) (f h))"

text \<open>A larger table in front if the main one is half full; the flag is false if there is no memory for it.\<close>

definition resize_hash :: "bool \<Rightarrow> 64 word \<Rightarrow> producer_state \<Rightarrow> (bool \<times> producer_state) option" where
  "resize_hash malloc_ok newCount s =
     (let cap = h_capacity (hd (hashes s))
      in if newCount \<ge> drop_bit 1 cap then
           (case grow_capacity newCount (push_bit 1 cap) of
              None \<Rightarrow> None
            | Some newCapacity \<Rightarrow>
                Some (if malloc_ok then (True, s\<lparr>hashes := empty_hash newCapacity # hashes s\<rparr>) else (False, s)))
         else Some (True, s))"

text \<open>
  The inserting part.  Calls do not overlap here, so the resize lock is free, and a main table that
  stays too full would be found so for ever.
\<close>

definition insert_producer ::
  "nat \<Rightarrow> bool \<Rightarrow> bool \<Rightarrow> 64 word \<Rightarrow> 64 word \<Rightarrow> producer_state \<Rightarrow> (nat option \<times> producer_state) option" where
  "insert_producer sz tls malloc_ok newCount tid s =
     (let cap = h_capacity (hd (hashes s))
      in if newCount < drop_bit 1 cap + drop_bit 2 cap then
           (case recycle_or_create_producer malloc_ok False s of
              (None, _, s1) \<Rightarrow> Some (None, s1\<lparr>implicitProducerHashCount := implicitProducerHashCount s1 - 1\<rparr>)
            | (Some p, recycled, s1) \<Rightarrow>
                (let s2 = (if recycled then s1\<lparr>implicitProducerHashCount := implicitProducerHashCount s1 - 1\<rparr> else s1)
                 in map_option (Pair (Some p)) (update_main (put_in_hash sz tls tid (Some p)) s2)))
         else None)"

definition get_or_add_implicit_producer ::
  "nat \<Rightarrow> bool \<Rightarrow> bool \<Rightarrow> bool \<Rightarrow> 64 word \<Rightarrow> producer_state \<Rightarrow> (nat option \<times> producer_state) option" where
  "get_or_add_implicit_producer sz tls table_ok producer_ok tid s =
     (case hashes s of
        [] \<Rightarrow> None
      | mainHash # older \<Rightarrow>
          (case find_in_hash sz tid mainHash of
             None \<Rightarrow> None
           | Some (Some v) \<Rightarrow> Some (v, s)
           | Some None \<Rightarrow>
               (case find_in_hashes sz tid older of
                  None \<Rightarrow> None
                | Some (Some v) \<Rightarrow> map_option (Pair v) (update_main (put_in_hash sz tls tid v) s)
                | Some None \<Rightarrow>
                    (let newCount = 1 + implicitProducerHashCount s;
                         s1 = s\<lparr>implicitProducerHashCount := newCount\<rparr>
                     in case resize_hash table_ok newCount s1 of
                          None \<Rightarrow> None
                        | Some (False, s2) \<Rightarrow>
                            Some (None, s2\<lparr>implicitProducerHashCount := implicitProducerHashCount s2 - 1\<rparr>)
                        | Some (True, s2) \<Rightarrow> insert_producer sz tls producer_ok newCount tid s2))))"

text \<open>The end of a thread, in a build that is told of it: its entries become reusable in every table.\<close>

definition remove_from_hash :: "nat \<Rightarrow> 64 word \<Rightarrow> ImplicitProducerHash \<Rightarrow> ImplicitProducerHash option" where
  "remove_from_hash sz tid h =
     map_option (\<lambda>i. if h_keys h ! unat i = tid then h\<lparr>h_keys := (h_keys h)[unat i := invalid_thread_id2]\<rparr> else h)
       (probe (\<lambda>k. k = tid \<or> k = invalid_thread_id) h (hash_thread_id sz tid))"

fun remove_from_hashes :: "nat \<Rightarrow> 64 word \<Rightarrow> ImplicitProducerHash list \<Rightarrow> ImplicitProducerHash list option" where
  "remove_from_hashes sz tid [] = Some []"
| "remove_from_hashes sz tid (h # hs) =
     (case remove_from_hash sz tid h of
        None \<Rightarrow> None
      | Some h' \<Rightarrow> map_option ((#) h') (remove_from_hashes sz tid hs))"

definition implicit_producer_thread_exited :: "nat \<Rightarrow> 64 word \<Rightarrow> nat \<Rightarrow> producer_state \<Rightarrow> producer_state option" where
  "implicit_producer_thread_exited sz tid p s =
     map_option (\<lambda>hs. s\<lparr>hashes := hs, inactive := (inactive s)(p := True)\<rparr>) (remove_from_hashes sz tid (hashes s))"


section \<open>Probing\<close>

abbreviation cap :: "ImplicitProducerHash \<Rightarrow> nat" where
  "cap h \<equiv> unat (h_capacity h)"

text \<open>The slot that is probed after \<open>k\<close> others.\<close>

definition probed :: "ImplicitProducerHash \<Rightarrow> 64 word \<Rightarrow> nat \<Rightarrow> nat" where
  "probed h index k = (unat index + k) mod cap h"

lemma probe_first:
  assumes c: "ring_size (h_capacity h)"
    and stop: "stop (h_keys h ! probed h index n)" "\<And>k. k < n \<Longrightarrow> \<not> stop (h_keys h ! probed h index k)"
  shows "\<exists>i. probe stop h index = Some i \<and> unat i = probed h index n"
  using stop
proof (induction n arbitrary: index)
  case 0
  then show ?case
    by (subst probe.simps) (simp add: Let_def ring_size_and [OF c] probed_def)
next
  case (Suc n)
  let ?i = "index AND (h_capacity h - 1)"
  have i: "unat ?i = probed h index 0" by (simp add: ring_size_and [OF c] probed_def)
  have lt: "unat ?i < cap h" using ring_sizeD(1) [OF c] by (simp add: i probed_def)
  have "unat (?i + of_nat 1) = unat ?i + 1" using lt ring_sizeD(2) [OF c] by (intro unat_add_small) simp
  then have p: "probed h (?i + 1) k = probed h index (Suc k)" for k
    using i by (simp add: probed_def) (metis add_Suc mod_Suc_eq mod_add_left_eq)
  have "\<exists>j. probe stop h (?i + 1) = Some j \<and> unat j = probed h (?i + 1) n"
    using Suc.prems by (intro Suc.IH) (simp_all add: p)
  moreover have "\<not> stop (h_keys h ! unat ?i)" using Suc.prems(2) [of 0] i by simp
  ultimately show ?case by (subst probe.simps) (simp add: Let_def p)
qed

lemma probed_onto:
  assumes "j < cap h"
  shows "\<exists>n<cap h. probed h index n = j"
proof -
  define c i where "c = cap h" and "i = unat index mod cap h"
  define n where "n = (j + c - i) mod c"
  have lt: "i < c" "j < c" using assms by (simp_all add: c_def i_def)
  have "probed h index n = (i + (j + c - i)) mod c"
    by (simp add: probed_def n_def c_def i_def mod_add_right_eq mod_add_left_eq)
  also have "i + (j + c - i) = j + c" using lt by simp
  finally have "probed h index n = j" using lt by simp
  then show ?thesis using lt by (intro exI [of _ n]) (simp add: n_def c_def)
qed

lemma probe_stops:
  assumes c: "ring_size (h_capacity h)" and j: "j < cap h" "stop (h_keys h ! j)"
  shows "\<exists>n i. probe stop h index = Some i \<and> unat i = probed h index n \<and> n < cap h \<and> stop (h_keys h ! unat i)
    \<and> (\<forall>k<n. \<not> stop (h_keys h ! probed h index k))"
proof -
  obtain m where m: "m < cap h" "probed h index m = j" using probed_onto [OF j(1)] by blast
  define P where "P n = stop (h_keys h ! probed h index n)" for n
  have Pm: "P m" using m(2) j(2) by (simp add: P_def)
  define n where "n = (LEAST n. P n)"
  have n: "P n" "n \<le> m" unfolding n_def by (rule LeastI [of P, OF Pm], rule Least_le [of P, OF Pm])
  have less: "\<not> P k" if "k < n" for k using that unfolding n_def by (rule not_less_Least)
  obtain i where i: "probe stop h index = Some i" "unat i = probed h index n"
    using probe_first [OF c, of stop index n] n(1) less unfolding P_def by blast
  then show ?thesis using n less m(1) unfolding P_def by (intro exI [of _ n] exI [of _ i]) simp
qed

lemma probed_inj:
  assumes "probed h index k = probed h index n" "k < cap h" "n < cap h"
  shows "k = n"
proof -
  have "k = n" if "k \<le> n" "n < c" "(a + k) mod c = (a + n) mod c" for a k n c :: nat
  proof -
    have "c dvd (a + n) - (a + k)" using that(1, 3) mod_eq_dvd_iff_nat [of "a + k" "a + n" c] by simp
    then have "c dvd n - k" by simp
    moreover have "n - k < c" using that(2) by simp
    ultimately show "k = n" using that(1) by (auto dest: dvd_imp_le)
  qed
  then show ?thesis using assms unfolding probed_def by (metis nat_le_linear)
qed

section \<open>One table\<close>

text \<open>
  Keys that are in use are distinct, a search from the hash of a key meets no unused slot before the
  key, and not all slots are in use.
\<close>

abbreviation used_keys :: "ImplicitProducerHash \<Rightarrow> 64 word set" where
  "used_keys h \<equiv> set (h_keys h) - {invalid_thread_id}"

definition wf_hash :: "nat \<Rightarrow> ImplicitProducerHash \<Rightarrow> bool" where
  "wf_hash sz h \<longleftrightarrow> ring_size (h_capacity h) \<and> length (h_keys h) = cap h \<and> length (h_values h) = cap h
     \<and> card (used_keys h) < cap h
     \<and> (\<forall>i<cap h. \<forall>j<cap h. h_keys h ! i = h_keys h ! j \<and> h_keys h ! i \<noteq> invalid_thread_id \<longrightarrow> i = j)
     \<and> (\<forall>i<cap h. h_keys h ! i \<noteq> invalid_thread_id \<longrightarrow>
          (\<exists>n<cap h. i = probed h (hash_thread_id sz (h_keys h ! i)) n
             \<and> (\<forall>k<n. h_keys h ! probed h (hash_thread_id sz (h_keys h ! i)) k \<noteq> invalid_thread_id)))"

lemma unused_slot:
  assumes "wf_hash sz h"
  shows "\<exists>j<cap h. h_keys h ! j = invalid_thread_id"
proof (rule ccontr)
  assume "\<not> (\<exists>j<cap h. h_keys h ! j = invalid_thread_id)"
  then have all: "h_keys h ! j \<noteq> invalid_thread_id" if "j < cap h" for j using that by blast
  have l: "length (h_keys h) = cap h" using assms by (simp add: wf_hash_def)
  then have "distinct (h_keys h)" using assms all by (auto simp: wf_hash_def distinct_conv_nth)
  moreover have "invalid_thread_id \<notin> set (h_keys h)" using all l by (auto simp: in_set_conv_nth)
  then have "used_keys h = set (h_keys h)" by blast
  ultimately have "card (used_keys h) = cap h" using l by (simp add: distinct_card)
  then show False using assms by (simp add: wf_hash_def)
qed

lemma find_present:
  assumes wf: "wf_hash sz h" and i: "i < cap h" "h_keys h ! i = tid" and tid: "tid \<noteq> invalid_thread_id"
  shows "find_in_hash sz tid h = Some (Some (h_values h ! i))"
proof -
  let ?ix = "hash_thread_id sz tid"
  obtain n where n: "n < cap h" "i = probed h ?ix n" "\<forall>k<n. h_keys h ! probed h ?ix k \<noteq> invalid_thread_id"
    using wf i tid unfolding wf_hash_def by blast
  have "h_keys h ! probed h ?ix k \<noteq> tid" if k: "k < n" for k
  proof
    assume "h_keys h ! probed h ?ix k = tid"
    moreover have "probed h ?ix k < cap h" using i(1) by (simp add: probed_def)
    ultimately have "probed h ?ix k = probed h ?ix n" using wf i tid n(2) by (auto simp: wf_hash_def)
    then show False using probed_inj [of h ?ix k n] k n(1) by simp
  qed
  then have "\<exists>j. probe (\<lambda>k. k = tid \<or> k = invalid_thread_id) h ?ix = Some j \<and> unat j = probed h ?ix n"
    using wf n i by (intro probe_first) (auto simp: wf_hash_def)
  then show ?thesis using n(2) i(2) by (auto simp: find_in_hash_def)
qed

lemma find_absent:
  assumes wf: "wf_hash sz h" and tid: "tid \<notin> set (h_keys h)"
  shows "find_in_hash sz tid h = Some None"
proof -
  have c: "ring_size (h_capacity h)" using wf by (simp add: wf_hash_def)
  obtain j where j: "j < cap h" "h_keys h ! j = invalid_thread_id" using unused_slot [OF wf] by blast
  obtain n i where i: "probe (\<lambda>k. k = tid \<or> k = invalid_thread_id) h (hash_thread_id sz tid) = Some i"
    "unat i = probed h (hash_thread_id sz tid) n"
    using probe_stops [OF c j(1), of "\<lambda>k. k = tid \<or> k = invalid_thread_id" "hash_thread_id sz tid"] j(2) by auto
  have "unat i < length (h_keys h)" using wf j i(2) by (simp add: wf_hash_def probed_def)
  then have "h_keys h ! unat i \<noteq> tid" using tid nth_mem by blast
  then show ?thesis using i by (simp add: find_in_hash_def)
qed

lemma put_spec:
  assumes wf: "wf_hash sz h" and tid: "tid \<notin> set (h_keys h)" "tid \<noteq> invalid_thread_id"
    and room: "Suc (card (used_keys h)) < cap h"
  obtains h' j where "put_in_hash sz False tid v h = Some h'" "wf_hash sz h'" "j < cap h"
    "h_keys h ! j = invalid_thread_id" "h' = h\<lparr>h_keys := (h_keys h)[j := tid], h_values := (h_values h)[j := v]\<rparr>"
proof -
  let ?ix = "hash_thread_id sz tid" and ?stop = "\<lambda>k. k = invalid_thread_id \<or> False \<and> k = invalid_thread_id2"
  have c: "ring_size (h_capacity h)" using wf by (simp add: wf_hash_def)
  obtain u where u: "u < cap h" "h_keys h ! u = invalid_thread_id" using unused_slot [OF wf] by blast
  obtain n i where i: "probe ?stop h ?ix = Some i" "unat i = probed h ?ix n" "n < cap h"
    "h_keys h ! unat i = invalid_thread_id" "\<And>k. k < n \<Longrightarrow> h_keys h ! probed h ?ix k \<noteq> invalid_thread_id"
    using probe_stops [OF c u(1), of ?stop ?ix] u(2) by auto
  define j where "j = unat i"
  define h' where "h' = h\<lparr>h_keys := (h_keys h)[j := tid], h_values := (h_values h)[j := v]\<rparr>"
  have l: "length (h_keys h) = cap h" using wf by (simp add: wf_hash_def)
  have j: "j < cap h" using u(1) i(2) by (simp add: j_def probed_def)
  have keys: "h_keys h' ! x = (if x = j then tid else h_keys h ! x)" if "x < cap h" for x
    using that l by (simp add: h'_def)
  have pr: "probed h' x k = probed h x k" "probed h x k < cap h" for x k using j by (simp_all add: probed_def h'_def)
  have "used_keys h' \<subseteq> insert tid (used_keys h)" using set_update_subset_insert by (fastforce simp: h'_def)
  then have "card (used_keys h') \<le> Suc (card (used_keys h))"
    using card_mono [of "insert tid (used_keys h)" "used_keys h'"] card_insert_if [of "used_keys h" tid]
    by (auto split: if_splits)
  then have card: "card (used_keys h') < cap h" using room by simp
  have tid': "h_keys h ! x \<noteq> tid" if "x < cap h" for x using tid(1) that l nth_mem by fastforce
  have "\<exists>m<cap h. x = probed h (hash_thread_id sz (h_keys h' ! x)) m
      \<and> (\<forall>k<m. h_keys h' ! probed h (hash_thread_id sz (h_keys h' ! x)) k \<noteq> invalid_thread_id)"
    if x: "x < cap h" "h_keys h' ! x \<noteq> invalid_thread_id" for x
  proof (cases "x = j")
    case True
    then show ?thesis using i(2, 3, 5) keys pr(2) j tid(2) by (intro exI [of _ n]) (auto simp: j_def)
  next
    case False
    then obtain m where "m < cap h" "x = probed h (hash_thread_id sz (h_keys h ! x)) m"
      "\<forall>k<m. h_keys h ! probed h (hash_thread_id sz (h_keys h ! x)) k \<noteq> invalid_thread_id"
      using wf x keys [OF x(1)] unfolding wf_hash_def by auto
    then show ?thesis using False keys [OF x(1)] keys [OF pr(2)] tid(2) by (intro exI [of _ m]) auto
  qed
  moreover have "x = y" if "x < cap h" "y < cap h" "h_keys h' ! x = h_keys h' ! y" "h_keys h' ! x \<noteq> invalid_thread_id" for x y
    using that keys tid' wf unfolding wf_hash_def by (metis (no_types))
  moreover have "cap h' = cap h" "h_capacity h' = h_capacity h" "length (h_keys h') = cap h" "length (h_values h') = cap h"
    using l wf by (simp_all add: h'_def wf_hash_def)
  ultimately have "wf_hash sz h'" using card c unfolding wf_hash_def pr by auto
  then show ?thesis using i(1, 4) j by (intro that [of h' j]) (simp_all add: put_in_hash_def h'_def j_def)
qed


section \<open>All tables\<close>

text \<open>
  The tables represent the map \<open>M\<close> from thread ids to producers: every entry agrees with \<open>M\<close>, every
  thread is in some table, and the main table has room.
\<close>

definition agrees :: "(64 word \<rightharpoonup> nat) \<Rightarrow> ImplicitProducerHash \<Rightarrow> bool" where
  "agrees M h \<longleftrightarrow> (\<forall>i<cap h. h_keys h ! i \<noteq> invalid_thread_id \<longrightarrow>
     h_values h ! i = M (h_keys h ! i) \<and> M (h_keys h ! i) \<noteq> None)"

definition hashes_ok :: "nat \<Rightarrow> (64 word \<rightharpoonup> nat) \<Rightarrow> producer_state \<Rightarrow> bool" where
  "hashes_ok sz M s \<longleftrightarrow> hashes s \<noteq> [] \<and> (\<forall>h\<in>set (hashes s). wf_hash sz h \<and> agrees M h)
     \<and> (\<forall>tid\<in>dom M. \<exists>h\<in>set (hashes s). tid \<in> set (h_keys h))
     \<and> finite (dom M) \<and> invalid_thread_id \<notin> dom M \<and> unat (implicitProducerHashCount s) = card (dom M)
     \<and> card (dom M) < cap (hd (hashes s)) div 2 + cap (hd (hashes s)) div 4"

definition producers_ok :: "(64 word \<rightharpoonup> nat) \<Rightarrow> (nat \<rightharpoonup> nat) \<Rightarrow> producer_state \<Rightarrow> bool" where
  "producers_ok M T s \<longleftrightarrow> distinct (producers s) \<and> (\<forall>p\<in>set (producers s). p < producers_made s)
     \<and> producerCount s = of_nat (length (producers s))
     \<and> (\<forall>p\<in>set (producers s). \<not> isExplicit s p \<longrightarrow> \<not> inactive s p)
     \<and> ran M \<subseteq> {p \<in> set (producers s). \<not> isExplicit s p} \<and> inj_on M (dom M)
     \<and> ran T \<subseteq> {p \<in> set (producers s). isExplicit s p \<and> \<not> inactive s p} \<and> inj_on T (dom T)"

lemma hashes_ok_cong:
  "hashes s' = hashes s \<Longrightarrow> implicitProducerHashCount s' = implicitProducerHashCount s
   \<Longrightarrow> hashes_ok sz M s' = hashes_ok sz M s"
  by (simp only: hashes_ok_def)

lemma agrees_keys:
  assumes "agrees M h" "wf_hash sz h"
  shows "used_keys h \<subseteq> dom M"
proof
  fix x assume "x \<in> used_keys h"
  then obtain i where "i < cap h" "h_keys h ! i = x" "x \<noteq> invalid_thread_id"
    using assms(2) by (auto simp: wf_hash_def in_set_conv_nth)
  then show "x \<in> dom M" using assms(1) by (auto simp: agrees_def)
qed

lemma find_agrees:
  assumes "wf_hash sz h" "agrees M h" "tid \<noteq> invalid_thread_id"
  shows "find_in_hash sz tid h = Some (if tid \<in> set (h_keys h) then Some (M tid) else None)"
proof (cases "tid \<in> set (h_keys h)")
  case True
  then obtain i where i: "i < cap h" "h_keys h ! i = tid" using assms(1) by (auto simp: in_set_conv_nth wf_hash_def)
  then show ?thesis using find_present [OF assms(1) i assms(3)] assms(2, 3) True by (auto simp: agrees_def)
qed (use find_absent [OF assms(1)] in simp)

lemma find_all:
  assumes "\<forall>h\<in>set hs. wf_hash sz h \<and> agrees M h" "tid \<noteq> invalid_thread_id"
  shows "find_in_hashes sz tid hs = Some (if \<exists>h\<in>set hs. tid \<in> set (h_keys h) then Some (M tid) else None)"
  using assms by (induction hs) (auto simp: find_agrees)

lemma agrees_put:
  assumes "agrees M h" "wf_hash sz h" "j < cap h" "M' tid = v" "v \<noteq> None" "\<And>x. x \<noteq> tid \<Longrightarrow> M' x = M x" "tid \<notin> set (h_keys h)"
  shows "agrees M' (h\<lparr>h_keys := (h_keys h)[j := tid], h_values := (h_values h)[j := v]\<rparr>)"
proof -
  have l: "length (h_keys h) = cap h" "length (h_values h) = cap h" using assms(2) by (simp_all add: wf_hash_def)
  have "h_keys h ! i \<noteq> tid" if "i < cap h" for i using assms(7) that l(1) nth_mem by fastforce
  then show ?thesis using assms l by (auto simp: agrees_def nth_list_update)
qed

lemma agrees_more: "agrees M h \<Longrightarrow> wf_hash sz h \<Longrightarrow> tid \<notin> set (h_keys h) \<Longrightarrow> agrees (M(tid \<mapsto> p)) h"
  unfolding agrees_def wf_hash_def by (metis fun_upd_apply nth_mem option.distinct(1))

lemma empty_hash_ok: "ring_size c \<Longrightarrow> wf_hash sz (empty_hash c) \<and> agrees M (empty_hash c)"
proof -
  assume c: "ring_size c"
  have "used_keys (empty_hash c) = {}" by (auto simp: empty_hash_def)
  then show ?thesis using c ring_sizeD(1) [OF c] by (auto simp: wf_hash_def agrees_def empty_hash_def)
qed

text \<open>Putting an id that is not in the main table into it.\<close>

lemma put_in_main:
  assumes h: "hashes s = h # hs" "wf_hash sz h" "agrees M h" and tid: "tid \<notin> set (h_keys h)" "tid \<noteq> invalid_thread_id"
    and fin: "finite (dom M')" "card (dom M') < cap h" and M': "M' tid = Some p" "\<And>x. x \<noteq> tid \<Longrightarrow> M' x = M x"
  obtains h' where "update_main (put_in_hash sz False tid (Some p)) s = Some (s\<lparr>hashes := h' # hs\<rparr>)"
    "wf_hash sz h'" "agrees M' h'" "h_capacity h' = h_capacity h" "set (h_keys h') \<supseteq> insert tid (used_keys h)"
proof -
  have "insert tid (used_keys h) \<subseteq> dom M'"
  proof
    fix x assume "x \<in> insert tid (used_keys h)"
    then show "x \<in> dom M'" using agrees_keys [OF h(3, 2)] M' by (cases "x = tid") auto
  qed
  then have "card (insert tid (used_keys h)) \<le> card (dom M')" using fin(1) by (intro card_mono)
  moreover have "card (insert tid (used_keys h)) = Suc (card (used_keys h))" using tid(1) by simp
  ultimately have room: "Suc (card (used_keys h)) < cap h" using fin(2) by simp
  obtain h' j where h': "put_in_hash sz False tid (Some p) h = Some h'" "wf_hash sz h'" "j < cap h"
    "h_keys h ! j = invalid_thread_id" "h' = h\<lparr>h_keys := (h_keys h)[j := tid], h_values := (h_values h)[j := Some p]\<rparr>"
    by (rule put_spec [OF h(2) tid room])
  have l: "length (h_keys h) = cap h" using h(2) by (simp add: wf_hash_def)
  have "x \<in> set (h_keys h')" if x: "x \<in> insert tid (used_keys h)" for x
  proof (cases "x = tid")
    case True
    then show ?thesis using h'(3, 5) l by (simp add: set_update_memI)
  next
    case False
    then obtain i where "i < cap h" "h_keys h ! i = x" "x \<noteq> invalid_thread_id" using x l by (auto simp: in_set_conv_nth)
    moreover from this have "i \<noteq> j" using h'(4) by auto
    ultimately have "h_keys h' ! i = x" "i < length (h_keys h')" using h'(5) l by simp_all
    then show ?thesis using nth_mem by blast
  qed
  then have "insert tid (used_keys h) \<subseteq> set (h_keys h')" by blast
  then show ?thesis using h' h(1) agrees_put [OF h(3, 2) h'(3) M'(1) _ M'(2) tid(1)]
    by (intro that [of h']) (simp_all add: update_main_def)
qed


lemma recycle_spec:
  assumes ok: "producers_ok M T s" and r: "recycle_or_create_producer pok False s = (r, rec, s')"
  shows "rec = False \<and> hashes s' = hashes s \<and> implicitProducerHashCount s' = implicitProducerHashCount s
    \<and> (r = None \<longrightarrow> \<not> pok \<and> s' = s)
    \<and> (\<forall>p. r = Some p \<longrightarrow> p \<notin> ran M \<union> ran T \<and> (\<forall>tid. tid \<notin> dom M \<longrightarrow> producers_ok (M(tid \<mapsto> p)) T s'))"
proof -
  have "find (\<lambda>p. inactive s p \<and> isExplicit s p = False) (producers s) = None"
    using ok by (auto simp: find_None_iff producers_ok_def)
  then have e: "(r, rec, s') = (if pok then (Some (producers_made s), False,
      s\<lparr>producers_made := producers_made s + 1, isExplicit := (isExplicit s)(producers_made s := False),
        inactive := (inactive s)(producers_made s := False), token_of := (token_of s)(producers_made s := None),
        producerCount := producerCount s + 1, producers := producers_made s # producers s\<rparr>) else (None, False, s))"
    using r by (cases pok) (simp_all add: recycle_or_create_producer_def create_producer_def add_producer_def Let_def)
  let ?p = "producers_made s"
  have new: "?p \<notin> set (producers s)" using ok by (auto simp: producers_ok_def)
  then have nr: "?p \<notin> ran M \<union> ran T" using ok by (auto simp: producers_ok_def)
  show ?thesis
  proof (cases pok)
    case True
    then have s': "s' = s\<lparr>producers_made := ?p + 1, isExplicit := (isExplicit s)(?p := False),
        inactive := (inactive s)(?p := False), token_of := (token_of s)(?p := None),
        producerCount := producerCount s + 1, producers := ?p # producers s\<rparr>" "r = Some ?p" "rec = False"
      using e by simp_all
    have "producers_ok (M(tid \<mapsto> ?p)) T s'" if "tid \<notin> dom M" for tid
    proof -
      have "ran (M(tid \<mapsto> ?p)) = insert ?p (ran M)" using that by (auto simp: domIff)
      moreover have "inj_on (M(tid \<mapsto> ?p)) (dom (M(tid \<mapsto> ?p)))"
        using ok nr that by (auto simp: producers_ok_def inj_on_def ran_def dom_def)
      moreover have "q \<noteq> ?p" if "q \<in> set (producers s)" for q using that new by blast
      ultimately show ?thesis using ok new unfolding producers_ok_def s' by (auto simp: less_Suc_eq)
    qed
    then show ?thesis using s' nr by simp
  qed (use e in simp)
qed

lemma grow_capacity_once:
  assumes "unat n < unat c" "unat (push_bit 1 c) = 2 * unat c"
  shows "grow_capacity n (push_bit 1 c) = Some (push_bit 1 c)"
proof -
  have "unat (drop_bit 1 (push_bit 1 c)) = unat c" using assms(2) by (simp add: drop_bit_eq_div unat_div)
  then show ?thesis using assms(1) by (subst grow_capacity.simps) (simp add: word_le_nat_alt)
qed


text \<open>The result for a thread that has a producer, and for one that has none.\<close>

definition lookup_outcome ::
  "nat \<Rightarrow> bool \<Rightarrow> 64 word \<Rightarrow> (64 word \<rightharpoonup> nat) \<Rightarrow> (nat \<rightharpoonup> nat) \<Rightarrow> (nat option \<times> producer_state) option \<Rightarrow> bool" where
  "lookup_outcome sz memory tid M T res \<longleftrightarrow> (\<exists>r s'. res = Some (r, s')
     \<and> (M tid \<noteq> None \<longrightarrow> r = M tid) \<and> (r = None \<longrightarrow> \<not> memory)
     \<and> (\<forall>p. M tid = None \<and> r = Some p \<longrightarrow> p \<notin> ran M \<union> ran T)
     \<and> hashes_ok sz (case r of None \<Rightarrow> M | Some p \<Rightarrow> M(tid \<mapsto> p)) s'
     \<and> producers_ok (case r of None \<Rightarrow> M | Some p \<Rightarrow> M(tid \<mapsto> p)) T s')"

lemma known_key:
  assumes "hashes_ok sz M s" "y \<in> dom M" "hashes s = h # hs" "used_keys h \<subseteq> set (h_keys h')"
  shows "\<exists>x\<in>set (h' # hs). y \<in> set (h_keys x)"
proof -
  have "y \<noteq> invalid_thread_id" using assms(1, 2) by (auto simp: hashes_ok_def)
  moreover obtain x where "x \<in> set (h # hs)" "y \<in> set (h_keys x)"
    using assms(1, 2) unfolding hashes_ok_def assms(3) by blast
  ultimately show ?thesis using assms(4) by auto
qed

lemma known_producer:
  assumes ok: "hashes_ok sz M s" "producers_ok M T s" and tid: "tid \<noteq> invalid_thread_id" "M tid = Some p"
  shows "lookup_outcome sz m tid M T (get_or_add_implicit_producer sz False tok pok tid s)"
proof -
  obtain h hs where h: "hashes s = h # hs" using ok(1) by (cases "hashes s") (auto simp: hashes_ok_def)
  have wf: "wf_hash sz h" "agrees M h" "\<forall>x\<in>set hs. wf_hash sz x \<and> agrees M x"
    using ok(1) h by (simp_all add: hashes_ok_def)
  note f = find_agrees [OF wf(1, 2) tid(1)]
  have upd: "M(tid \<mapsto> p) = M" using tid(2) by (simp add: fun_upd_idem)
  show ?thesis
  proof (cases "tid \<in> set (h_keys h)")
    case True
    then show ?thesis using f h tid(2) ok upd by (simp add: get_or_add_implicit_producer_def lookup_outcome_def)
  next
    case False
    have "\<exists>x\<in>set hs. tid \<in> set (h_keys x)" using ok(1) tid(2) False h by (auto simp: hashes_ok_def)
    then have g: "find_in_hashes sz tid hs = Some (Some (Some p))" using find_all [OF wf(3) tid(1)] tid(2) by simp
    have c: "finite (dom M)" "card (dom M) < cap h" using ok(1) h by (auto simp: hashes_ok_def)
    obtain h' where h': "update_main (put_in_hash sz False tid (Some p)) s = Some (s\<lparr>hashes := h' # hs\<rparr>)"
      "wf_hash sz h'" "agrees M h'" "h_capacity h' = h_capacity h" "set (h_keys h') \<supseteq> insert tid (used_keys h)"
      by (rule put_in_main [OF h wf(1, 2) False tid(1) c tid(2)]) simp
    have "\<exists>x\<in>set (h' # hs). y \<in> set (h_keys x)" if y: "y \<in> dom M" for y
      using ok(1) y h h'(5) by (intro known_key [of sz M s]) auto
    then have "hashes_ok sz M (s\<lparr>hashes := h' # hs\<rparr>)" using ok(1) h h'(2-4) wf(3) by (simp add: hashes_ok_def)
    moreover have "producers_ok M T (s\<lparr>hashes := h' # hs\<rparr>)" using ok(2) by (simp add: producers_ok_def)
    ultimately show ?thesis using f g h h'(1) tid(2) False upd
      by (simp add: get_or_add_implicit_producer_def lookup_outcome_def)
  qed
qed


lemma resize_spec:
  assumes ok: "hashes_ok sz M s" and tid: "tid \<notin> dom M"
    and small: "tok \<Longrightarrow> 2 * cap (hd (hashes s)) \<le> 2 ^ 57"
  defines "n \<equiv> 1 + implicitProducerHashCount s"
  obtains r s2 where "resize_hash tok n (s\<lparr>implicitProducerHashCount := n\<rparr>) = Some (r, s2)"
    "\<not> r \<Longrightarrow> \<not> tok \<and> s2 = s\<lparr>implicitProducerHashCount := n\<rparr>"
    "r \<Longrightarrow> \<exists>hs. s2 = s\<lparr>implicitProducerHashCount := n, hashes := hs\<rparr> \<and> hashes_ok sz M (s\<lparr>hashes := hs\<rparr>)
       \<and> (\<exists>h hs'. hs = h # hs' \<and> unat n < cap h div 2 + cap h div 4)
       \<and> (\<forall>h\<in>set hs. h \<in> set (hashes s) \<or> set (h_keys h) \<subseteq> {invalid_thread_id})"
proof -
  obtain h hs where h: "hashes s = h # hs" using ok by (cases "hashes s") (auto simp: hashes_ok_def)
  define c where "c = h_capacity h"
  have rs: "ring_size c" using ok h by (simp add: hashes_ok_def wf_hash_def c_def)
  note cb = ring_sizeD [OF rs]
  have card: "unat (implicitProducerHashCount s) = card (dom M)" "card (dom M) < unat c div 2 + unat c div 4"
    using ok h by (simp_all add: hashes_ok_def c_def)
  have cdm: "card (dom M) < unat c" using card(2) by linarith
  have "unat (implicitProducerHashCount s + of_nat 1) = unat (implicitProducerHashCount s) + 1"
    using card(1) cdm cb(2) by (intro unat_add_small) simp
  then have n: "unat n = Suc (card (dom M))" using card by (simp add: n_def add.commute)
  have half: "unat (drop_bit 1 c) = unat c div 2" by (simp add: drop_bit_eq_div unat_div)
  show ?thesis
  proof (cases "drop_bit 1 c \<le> n")
    case False
    then have "unat n < unat c div 2" using half by (simp add: word_le_nat_alt)
    then have room: "unat n < cap h div 2 + cap h div 4" by (simp add: c_def)
    have "s\<lparr>implicitProducerHashCount := n\<rparr> = s\<lparr>implicitProducerHashCount := n, hashes := h # hs\<rparr>"
      using h by (cases s) simp
    moreover have "hashes_ok sz M (s\<lparr>hashes := h # hs\<rparr>)" using ok h by (simp add: hashes_ok_def)
    ultimately have "\<exists>hs. s\<lparr>implicitProducerHashCount := n\<rparr> = s\<lparr>implicitProducerHashCount := n, hashes := hs\<rparr> \<and> hashes_ok sz M (s\<lparr>hashes := hs\<rparr>)
       \<and> (\<exists>h hs'. hs = h # hs' \<and> unat n < cap h div 2 + cap h div 4)
       \<and> (\<forall>h\<in>set hs. h \<in> set (hashes s) \<or> set (h_keys h) \<subseteq> {invalid_thread_id})"
      using h ok room by (intro exI [of _ "h # hs"]) simp
    then show ?thesis using False h
      by (intro that [of True "s\<lparr>implicitProducerHashCount := n\<rparr>"]) (simp_all add: resize_hash_def Let_def c_def)
  next
    case True
    have lt: "unat n < unat c" using n card(2) cb(1) by linarith
    have c2: "unat (push_bit 1 c) = 2 * unat c" using cb(2) by (simp add: push_bit_eq_mult unat_word_ariths mult.commute)
    note g = grow_capacity_once [OF lt c2]
    show ?thesis
    proof (cases tok)
      case False
      then show ?thesis using True g h
        by (intro that [of False "s\<lparr>implicitProducerHashCount := n\<rparr>"]) (auto simp: resize_hash_def Let_def c_def)
    next
      case tk: True
      have r2: "ring_size (push_bit 1 c)" using ring_size_double(1) [OF rs] small tk c2 h by (simp add: c_def)
      let ?hs = "empty_hash (push_bit 1 c) # h # hs"
      have e: "cap (empty_hash (push_bit 1 c)) = 2 * unat c" using c2 by (simp add: empty_hash_def)
      have "hashes_ok sz M (s\<lparr>hashes := ?hs\<rparr>)"
        using ok h empty_hash_ok [OF r2, of sz M] e card by (auto simp: hashes_ok_def)
      moreover have "unat n < cap (empty_hash (push_bit 1 c)) div 2 + cap (empty_hash (push_bit 1 c)) div 4"
        using e lt by linarith
      moreover have "set (h_keys (empty_hash (push_bit 1 c))) \<subseteq> {invalid_thread_id}" by (auto simp: empty_hash_def)
      ultimately have ex: "\<exists>hs. s\<lparr>implicitProducerHashCount := n, hashes := ?hs\<rparr> = s\<lparr>implicitProducerHashCount := n, hashes := hs\<rparr>
          \<and> hashes_ok sz M (s\<lparr>hashes := hs\<rparr>) \<and> (\<exists>h hs'. hs = h # hs' \<and> unat n < cap h div 2 + cap h div 4)
          \<and> (\<forall>h\<in>set hs. h \<in> set (hashes s) \<or> set (h_keys h) \<subseteq> {invalid_thread_id})"
        unfolding h by (intro exI [of _ ?hs]) simp
      have res: "resize_hash tok n (s\<lparr>implicitProducerHashCount := n\<rparr>) = Some (True, s\<lparr>implicitProducerHashCount := n, hashes := ?hs\<rparr>)"
        using True tk g h by (simp add: resize_hash_def Let_def c_def)
      show ?thesis by (rule that [OF res _ ex]) simp
    qed
  qed
qed


lemma new_producer:
  assumes ok: "hashes_ok sz M s" "producers_ok M T s" and tid: "tid \<noteq> invalid_thread_id" "M tid = None"
    and small: "tok \<Longrightarrow> 2 * cap (hd (hashes s)) \<le> 2 ^ 57"
  shows "lookup_outcome sz (tok \<and> pok) tid M T (get_or_add_implicit_producer sz False tok pok tid s)"
proof -
  define n where "n = 1 + implicitProducerHashCount s"
  have dom: "tid \<notin> dom M" using tid(2) by (simp add: domIff)
  obtain r s2 where r: "resize_hash tok n (s\<lparr>implicitProducerHashCount := n\<rparr>) = Some (r, s2)"
    and no: "\<not> r \<Longrightarrow> \<not> tok \<and> s2 = s\<lparr>implicitProducerHashCount := n\<rparr>"
    and yes: "r \<Longrightarrow> \<exists>hs. s2 = s\<lparr>implicitProducerHashCount := n, hashes := hs\<rparr> \<and> hashes_ok sz M (s\<lparr>hashes := hs\<rparr>)
       \<and> (\<exists>h hs'. hs = h # hs' \<and> unat n < cap h div 2 + cap h div 4)
       \<and> (\<forall>h\<in>set hs. h \<in> set (hashes s) \<or> set (h_keys h) \<subseteq> {invalid_thread_id})"
    using resize_spec [OF ok(1) dom small] unfolding n_def by metis
  have absent: "tid \<notin> set (h_keys x)" if "x \<in> set (hashes s)" for x
    using ok(1) that dom tid(1) agrees_keys [of M x sz] by (auto simp: hashes_ok_def)
  obtain h0 hs0 where h0: "hashes s = h0 # hs0" using ok(1) by (cases "hashes s") (auto simp: hashes_ok_def)
  have find0: "find_in_hash sz tid h0 = Some None" "find_in_hashes sz tid hs0 = Some None"
    using ok(1) h0 absent find_agrees [of sz h0 M tid] find_all [of hs0 sz M tid] tid(1) by (auto simp: hashes_ok_def)
  have go: "get_or_add_implicit_producer sz False tok pok tid s
      = (if r then insert_producer sz False pok n tid s2
         else Some (None, s2\<lparr>implicitProducerHashCount := implicitProducerHashCount s2 - 1\<rparr>))"
    using r find0 h0 by (auto simp: get_or_add_implicit_producer_def n_def Let_def)
  show ?thesis
  proof (cases r)
    case False
    then show ?thesis using go no ok by (simp add: lookup_outcome_def n_def hashes_ok_def producers_ok_def tid(2))
  next
    case True
    obtain h hs where s2: "s2 = s\<lparr>implicitProducerHashCount := n, hashes := h # hs\<rparr>"
      and okh: "hashes_ok sz M (s\<lparr>hashes := h # hs\<rparr>)" and room: "unat n < cap h div 2 + cap h div 4"
      and sub: "\<forall>x\<in>set (h # hs). x \<in> set (hashes s) \<or> set (h_keys x) \<subseteq> {invalid_thread_id}"
      using yes [OF True] by auto
    have q: "drop_bit 1 (h_capacity h) + drop_bit 2 (h_capacity h) > n"
    proof -
      have "cap h \<le> 2 ^ 57" using okh ring_sizeD(2) by (simp add: hashes_ok_def wf_hash_def)
      then have "unat (drop_bit 1 (h_capacity h) + drop_bit 2 (h_capacity h)) = cap h div 2 + cap h div 4"
        by (subst unat_add_no_overflow) (simp_all add: drop_bit_eq_div unat_div)
      then show ?thesis using room by (simp add: word_less_nat_alt)
    qed
    obtain pr rec s3 where rc: "recycle_or_create_producer pok False s2 = (pr, rec, s3)" by (metis prod_cases3)
    have ok2: "producers_ok M T s2" using ok(2) by (simp add: s2 producers_ok_def)
    note sp = recycle_spec [OF ok2 rc]
    have ins: "insert_producer sz False pok n tid s2 = (case pr of
        None \<Rightarrow> Some (None, s3\<lparr>implicitProducerHashCount := implicitProducerHashCount s3 - 1\<rparr>)
      | Some p \<Rightarrow> map_option (Pair (Some p)) (update_main (put_in_hash sz False tid (Some p)) s3))"
      using q rc sp by (auto simp: insert_producer_def Let_def s2 split: option.splits)
    show ?thesis
    proof (cases pr)
      case None
      then have e: "s3 = s2" "\<not> pok" using sp by simp_all
      have "hashes_ok sz M (s2\<lparr>implicitProducerHashCount := implicitProducerHashCount s2 - 1\<rparr>)"
        using okh by (simp add: s2 n_def hashes_ok_def)
      moreover have "producers_ok M T (s2\<lparr>implicitProducerHashCount := implicitProducerHashCount s2 - 1\<rparr>)"
        using ok2 by (simp add: producers_ok_def)
      ultimately show ?thesis using go ins True None e tid(2) by (simp add: lookup_outcome_def)
    next
      case (Some p)
      let ?M = "M(tid \<mapsto> p)"
      have s3: "hashes s3 = h # hs" "implicitProducerHashCount s3 = n" "p \<notin> ran M \<union> ran T" "producers_ok ?M T s3"
        using sp Some dom by (simp_all add: s2)
      have tidh: "tid \<notin> set (h_keys x)" if "x \<in> set (h # hs)" for x
        using sub that absent tid(1) by blast
      have wf: "wf_hash sz h" "agrees M h" "\<forall>x\<in>set hs. wf_hash sz x \<and> agrees M x" using okh by (simp_all add: hashes_ok_def)
      have cn: "card (dom ?M) = unat n" "finite (dom ?M)"
      proof -
        have c: "finite (dom M)" "unat (implicitProducerHashCount s) = card (dom M)" "card (dom M) < cap h div 2 + cap h div 4"
          using okh by (simp_all add: hashes_ok_def)
        have "card (dom M) < cap h" using c(3) by linarith
        moreover have "cap h \<le> 2 ^ 57" using wf(1) ring_sizeD(2) by (simp add: wf_hash_def)
        ultimately have "unat (implicitProducerHashCount s + of_nat 1) = card (dom M) + 1"
          unfolding c(2) [symmetric] by (intro unat_add_small) simp
        then show "card (dom ?M) = unat n" "finite (dom ?M)" using dom c(1) by (simp_all add: n_def add.commute)
      qed
      have lt: "card (dom ?M) < cap h" using room cn(1) by linarith
      obtain h' where h': "update_main (put_in_hash sz False tid (Some p)) s3 = Some (s3\<lparr>hashes := h' # hs\<rparr>)"
        "wf_hash sz h'" "agrees ?M h'" "h_capacity h' = h_capacity h" "set (h_keys h') \<supseteq> insert tid (used_keys h)"
        by (rule put_in_main [OF s3(1) wf(1, 2) tidh tid(1) cn(2) lt, of p]) simp_all
      have "\<exists>x\<in>set (h' # hs). y \<in> set (h_keys x)" if "y \<in> dom ?M" for y
        using that known_key [OF okh, of y h hs h'] h'(5) by (cases "y = tid") auto
      moreover have "\<forall>x\<in>set hs. agrees ?M x" using wf(3) tidh agrees_more [of M _ sz] by auto
      ultimately have "hashes_ok sz ?M (s3\<lparr>hashes := h' # hs\<rparr>)"
        using okh h'(2-4) wf(3) cn room tid(1) s3(2) by (auto simp: hashes_ok_def)
      moreover have "producers_ok ?M T (s3\<lparr>hashes := h' # hs\<rparr>)" using s3(4) by (simp add: producers_ok_def)
      ultimately show ?thesis using go ins True Some h'(1) s3(3) tid(2) by (simp add: lookup_outcome_def)
    qed
  qed
qed


section \<open>Tokens\<close>

lemma token_spec:
  assumes ok: "producers_ok M T s" and r: "ProducerToken pok tk s = (r, s')" and tk: "tk \<notin> dom T"
  shows "producers_ok M (T(tk := r)) s' \<and> hashes s' = hashes s
    \<and> implicitProducerHashCount s' = implicitProducerHashCount s
    \<and> (r = None \<longrightarrow> \<not> pok) \<and> (\<forall>p. r = Some p \<longrightarrow> p \<notin> ran M \<union> ran T)"
proof (cases "find (\<lambda>p. inactive s p \<and> isExplicit s p = True) (producers s)")
  case (Some p)
  then have p: "inactive s p" "isExplicit s p" "p \<in> set (producers s)" by (auto simp: find_Some_iff)
  have e: "r = Some p" "s' = s\<lparr>inactive := (inactive s)(p := False), token_of := (token_of s)(p := Some tk)\<rparr>"
    using r Some by (auto simp: ProducerToken_def recycle_or_create_producer_def)
  have n: "p \<notin> ran M \<union> ran T" using ok p by (auto simp: producers_ok_def)
  have "ran (T(tk \<mapsto> p)) = insert p (ran T)" using tk by (auto simp: domIff)
  moreover have "inj_on (T(tk \<mapsto> p)) (dom (T(tk \<mapsto> p)))"
    using ok n tk by (auto simp: producers_ok_def inj_on_def ran_def dom_def)
  ultimately show ?thesis using ok p n unfolding producers_ok_def e by auto
next
  case None
  let ?p = "producers_made s"
  have new: "?p \<notin> set (producers s)" using ok by (auto simp: producers_ok_def)
  then have n: "?p \<notin> ran M \<union> ran T" using ok by (auto simp: producers_ok_def)
  show ?thesis
  proof (cases pok)
    case False
    then have "r = None" "s' = s"
      using r None by (auto simp: ProducerToken_def recycle_or_create_producer_def create_producer_def add_producer_def)
    then show ?thesis using ok False tk by (simp add: fun_upd_idem domIff)
  next
    case True
    then have e: "r = Some ?p" "s' = s\<lparr>producers_made := ?p + 1, isExplicit := (isExplicit s)(?p := True),
        inactive := (inactive s)(?p := False), token_of := (token_of s)(?p := None, ?p := Some tk),
        producerCount := producerCount s + 1, producers := ?p # producers s\<rparr>"
      using r None by (auto simp: ProducerToken_def recycle_or_create_producer_def create_producer_def add_producer_def Let_def)
    have "ran (T(tk \<mapsto> ?p)) = insert ?p (ran T)" using tk by (auto simp: domIff)
    moreover have "inj_on (T(tk \<mapsto> ?p)) (dom (T(tk \<mapsto> ?p)))"
      using ok n tk by (auto simp: producers_ok_def inj_on_def ran_def dom_def)
    moreover have "q \<noteq> ?p" if "q \<in> set (producers s)" for q using that new by blast
    ultimately show ?thesis using ok new n unfolding producers_ok_def e by (auto simp: less_Suc_eq)
  qed
qed

lemma destroy_token_spec:
  assumes ok: "producers_ok M T s"
  shows "producers_ok M (T(tk := None)) (destroy_ProducerToken (T tk) s)"
proof (cases "T tk")
  case None
  then show ?thesis using ok by (simp add: destroy_ProducerToken_def fun_upd_idem)
next
  case (Some p)
  have p: "p \<in> set (producers s)" "isExplicit s p" using ok Some by (auto simp: producers_ok_def ran_def)
  have "q \<noteq> p" if q: "q \<in> ran (T(tk := None))" for q
  proof
    assume "q = p"
    then obtain k where "k \<noteq> tk" "T k = Some p" using q by (auto simp: ran_def split: if_splits)
    then show False using ok Some unfolding producers_ok_def inj_on_def by (metis domI)
  qed
  moreover have "ran (T(tk := None)) \<subseteq> ran T" by (auto simp: ran_def)
  moreover have "inj_on (T(tk := None)) (dom (T(tk := None)))" using ok by (auto simp: producers_ok_def inj_on_def)
  ultimately show ?thesis using ok p unfolding producers_ok_def
    by (auto simp: destroy_ProducerToken_def Some)
qed


section \<open>Any sequence of calls\<close>

text \<open>
  Calls in the build without thread exit, with the map \<open>M\<close> from threads and the map \<open>T\<close> from tokens
  to producers.  A table is never larger than memory can hold.
\<close>

inductive prod_reach :: "nat \<Rightarrow> (64 word \<rightharpoonup> nat) \<Rightarrow> (nat \<rightharpoonup> nat) \<Rightarrow> producer_state \<Rightarrow> bool" for sz where
  init: "prod_reach sz Map.empty Map.empty no_producers"
| thread: "prod_reach sz M T s \<Longrightarrow> tid \<noteq> invalid_thread_id \<Longrightarrow> (tok \<longrightarrow> 2 * cap (hd (hashes s)) \<le> 2 ^ 57)
    \<Longrightarrow> get_or_add_implicit_producer sz False tok pok tid s = Some (r, s')
    \<Longrightarrow> prod_reach sz (case r of None \<Rightarrow> M | Some p \<Rightarrow> M(tid \<mapsto> p)) T s'"
| token: "prod_reach sz M T s \<Longrightarrow> tk \<notin> dom T \<Longrightarrow> ProducerToken pok tk s = (r, s') \<Longrightarrow> prod_reach sz M (T(tk := r)) s'"
| destroy: "prod_reach sz M T s \<Longrightarrow> prod_reach sz M (T(tk := None)) (destroy_ProducerToken (T tk) s)"

lemma no_producers_ok: "hashes_ok sz Map.empty no_producers" "producers_ok Map.empty Map.empty no_producers"
proof -
  have "ring_size 32" unfolding ring_size_def by (intro exI [of _ 5]) simp
  then show "hashes_ok sz Map.empty no_producers"
    using empty_hash_ok [of 32 sz Map.empty]
    by (simp add: hashes_ok_def no_producers_def INITIAL_IMPLICIT_PRODUCER_HASH_SIZE_def) (simp add: empty_hash_def)
qed (simp add: producers_ok_def no_producers_def)

lemma lookup_outcome:
  assumes "hashes_ok sz M s" "producers_ok M T s" "tid \<noteq> invalid_thread_id"
    and "tok \<Longrightarrow> 2 * cap (hd (hashes s)) \<le> 2 ^ 57"
  shows "lookup_outcome sz (tok \<and> pok) tid M T (get_or_add_implicit_producer sz False tok pok tid s)"
  using known_producer [OF assms(1-3)] new_producer [OF assms(1-3) _ assms(4)] by (cases "M tid") auto

lemma prod_reach_ok: "prod_reach sz M T s \<Longrightarrow> hashes_ok sz M s \<and> producers_ok M T s"
proof (induction rule: prod_reach.induct)
  case init
  then show ?case using no_producers_ok by blast
next
  case (thread M T s tid tok pok r s')
  then show ?case using lookup_outcome [of sz M s T tid tok pok] by (auto simp: lookup_outcome_def)
next
  case (token M T s tk pok r s')
  then show ?case using token_spec [of M T s pok tk r s'] hashes_ok_cong [of s' s sz M] by (simp add: fun_upd_def)
next
  case (destroy M T s tk)
  moreover have "hashes (destroy_ProducerToken (T tk) s) = hashes s"
    "implicitProducerHashCount (destroy_ProducerToken (T tk) s) = implicitProducerHashCount s"
    by (simp_all add: destroy_ProducerToken_def split: option.splits)
  ultimately show ?case using destroy_token_spec [of M T s tk] hashes_ok_cong [of _ s sz M] unfolding fun_upd_def by blast
qed

text \<open>
  Claim C12.  Every thread its own producer.  In the build as configured, whatever threads ask for their
  implicit producer and whatever tokens come and go, every call returns: probing ends, since
  no table ever fills up.  A thread that asked before gets the same producer again, whichever table
  it is in; another one gets a producer that belongs to no other thread and to no token, unless
  memory runs out.  No two threads and no two tokens share a producer.
\<close>

theorem implicit_producers:
  assumes "prod_reach sz M T s" "tid \<noteq> invalid_thread_id" "tok \<longrightarrow> 2 * cap (hd (hashes s)) \<le> 2 ^ 57"
  shows "\<exists>r s'. get_or_add_implicit_producer sz False tok pok tid s = Some (r, s')
      \<and> (case M tid of Some p \<Rightarrow> r = Some p
         | None \<Rightarrow> (case r of None \<Rightarrow> \<not> (tok \<and> pok) | Some p \<Rightarrow> p \<notin> ran M \<and> p \<notin> ran T))
    \<and> inj_on M (dom M) \<and> inj_on T (dom T) \<and> ran M \<inter> ran T = {}"
proof -
  have ok: "hashes_ok sz M s" "producers_ok M T s" using prod_reach_ok [OF assms(1)] by simp_all
  have "lookup_outcome sz (tok \<and> pok) tid M T (get_or_add_implicit_producer sz False tok pok tid s)"
    using lookup_outcome [OF ok assms(2)] assms(3) by blast
  then obtain r s' where r: "get_or_add_implicit_producer sz False tok pok tid s = Some (r, s')"
    "M tid \<noteq> None \<longrightarrow> r = M tid" "r = None \<longrightarrow> \<not> (tok \<and> pok)"
    "\<forall>p. M tid = None \<and> r = Some p \<longrightarrow> p \<notin> ran M \<union> ran T" unfolding lookup_outcome_def by (elim exE conjE)
  have "inj_on M (dom M) \<and> inj_on T (dom T) \<and> ran M \<inter> ran T = {}" using ok(2) by (auto simp: producers_ok_def)
  then show ?thesis using r by (auto split: option.splits)
qed


lemma first_thread:
  assumes "tid \<noteq> invalid_thread_id"
  shows "\<exists>s'. get_or_add_implicit_producer sz False tok True tid no_producers = Some (Some 0, s')
     \<and> prod_reach sz [tid \<mapsto> 0] Map.empty s' \<and> cap (hd (hashes s')) = 32"
proof -
  have h: "hashes no_producers = [empty_hash 32]" by (simp add: no_producers_def INITIAL_IMPLICIT_PRODUCER_HASH_SIZE_def)
  have f: "find_in_hash sz tid (empty_hash 32) = Some None"
    using no_producers_ok(1) [of sz] assms h by (intro find_absent) (auto simp: hashes_ok_def empty_hash_def)
  have go: "get_or_add_implicit_producer sz False tok True tid no_producers
      = insert_producer sz False True 1 tid (no_producers\<lparr>implicitProducerHashCount := 1\<rparr>)"
  proof -
    have "resize_hash tok 1 (no_producers\<lparr>implicitProducerHashCount := 1\<rparr>)
        = Some (True, no_producers\<lparr>implicitProducerHashCount := 1\<rparr>)"
      using h by (simp add: resize_hash_def Let_def empty_hash_def drop_bit_eq_div word_le_nat_alt)
    moreover have "implicitProducerHashCount no_producers = 0" by (simp add: no_producers_def)
    ultimately show ?thesis using f h by (simp add: get_or_add_implicit_producer_def Let_def)
  qed
  obtain r s' where r: "get_or_add_implicit_producer sz False tok True tid no_producers = Some (r, s')"
    using lookup_outcome [OF no_producers_ok assms, of tok sz True] h by (auto simp: lookup_outcome_def empty_hash_def)
  have ins: "insert_producer sz False True 1 tid (no_producers\<lparr>implicitProducerHashCount := 1\<rparr>) = Some (r, s')" using r go by simp
  then have "r = Some 0 \<and> cap (hd (hashes s')) = 32" using h
    by (auto simp: insert_producer_def recycle_or_create_producer_def create_producer_def add_producer_def Let_def
        update_main_def put_in_hash_def no_producers_def empty_hash_def split: if_splits)
  moreover from this have "prod_reach sz [tid \<mapsto> 0] Map.empty s'"
    using prod_reach.thread [OF prod_reach.init assms _ r] h by (simp add: empty_hash_def)
  ultimately show ?thesis using r by auto
qed

theorem implicit_producers_witness:
  "\<exists>s r s'. prod_reach 8 [0x7000 \<mapsto> 0] Map.empty s \<and> get_or_add_implicit_producer 8 False True True 0x8000 s = Some (r, s')
     \<and> r \<noteq> None \<and> r \<noteq> Some 0"
proof -
  obtain s where s: "prod_reach 8 [0x7000 \<mapsto> 0] Map.empty s" "cap (hd (hashes s)) = 32"
    using first_thread [of "0x7000" 8 True] by (auto simp: invalid_thread_id_def)
  obtain r s' where "get_or_add_implicit_producer 8 False True True 0x8000 s = Some (r, s')" "r \<noteq> None" "r \<noteq> Some 0"
    using s implicit_producers [OF s(1), of "0x8000" True True] by (auto simp: invalid_thread_id_def split: option.splits)
  then show ?thesis using s(1) by blast
qed


section \<open>Thread exit\<close>

text \<open>A thread that asks for its producer and ends, in a build that is told of it; and \<open>n\<close> such threads, one after the other.\<close>

definition thread_life :: "nat \<Rightarrow> 64 word \<Rightarrow> producer_state \<Rightarrow> producer_state option" where
  "thread_life sz tid s =
     (case get_or_add_implicit_producer sz True True True tid s of
        Some (Some p, s1) \<Rightarrow> implicit_producer_thread_exited sz tid p s1
      | _ \<Rightarrow> None)"

primrec thread_lives :: "nat \<Rightarrow> (nat \<Rightarrow> 64 word) \<Rightarrow> nat \<Rightarrow> producer_state \<Rightarrow> producer_state option" where
  "thread_lives sz ids 0 s = Some s"
| "thread_lives sz ids (Suc n) s = Option.bind (thread_lives sz ids n s) (thread_life sz (ids n))"

lemma probe_diverges:
  assumes c: "ring_size (h_capacity h)" and no: "\<And>j. j < cap h \<Longrightarrow> \<not> stop (h_keys h ! j)"
  shows "probe stop h index = None"
proof (rule ccontr)
  assume "probe stop h index \<noteq> None"
  then obtain i where "probe stop h index = Some i" by blast
  then have "ring_size (h_capacity h) \<longrightarrow> (\<exists>j<cap h. stop (h_keys h ! j))"
  proof (rule probe.raw_induct [rotated])
    fix pr stop h index r
    assume IH: "\<And>stop h index r. pr stop h index = Some r \<Longrightarrow> ring_size (h_capacity h) \<longrightarrow> (\<exists>j<cap h. stop (h_keys h ! j))"
      and r: "(let i = index AND (h_capacity h - 1) in if stop (h_keys h ! unat i) then Some i else pr stop h (i + 1)) = Some r"
    show "ring_size (h_capacity h) \<longrightarrow> (\<exists>j<cap h. stop (h_keys h ! j))"
    proof
      assume c: "ring_size (h_capacity h)"
      have "unat (index AND (h_capacity h - 1)) < cap h" using ring_size_and [OF c] ring_sizeD(1) [OF c] by simp
      then show "\<exists>j<cap h. stop (h_keys h ! j)" using r IH c by (auto simp: Let_def split: if_splits)
    qed
  qed
  then show False using c no by blast
qed

text \<open>The table and the state after \<open>n\<close> threads, each of which hashed to the next slot.\<close>

definition worn_table :: "nat \<Rightarrow> ImplicitProducerHash" where
  "worn_table n = \<lparr>h_capacity = 32, h_keys = replicate n invalid_thread_id2 @ replicate (32 - n) invalid_thread_id,
     h_values = replicate n (Some 0) @ replicate (32 - n) None\<rparr>"

definition worn_state :: "nat \<Rightarrow> producer_state" where
  "worn_state n = (if n = 0 then no_producers else
     \<lparr>hashes = [worn_table n], implicitProducerHashCount = 1, producers = [0], producerCount = 1,
      isExplicit = (\<lambda>_. False)(0 := False), inactive = (\<lambda>_. False)(0 := True), token_of = (\<lambda>_. None)(0 := None),
      producers_made = 1\<rparr>)"

lemma upd_boundary: "n < m \<Longrightarrow> (replicate n a @ replicate (m - n) b)[n := c] = replicate n a @ c # replicate (m - Suc n) b"
  by (simp add: list_update_append) (metis Suc_diff_Suc list_update_code(2) replicate_Suc)


lemma ring_size_32: "ring_size 32"
  unfolding ring_size_def by (intro exI [of _ 5]) simp

lemma probe_at_once:
  assumes "h_capacity h = 32" "unat index mod 32 = n" "stop (h_keys h ! n)"
  shows "\<exists>i. probe stop h index = Some i \<and> unat i = n"
proof -
  have "probed h index 0 = n" using assms(1, 2) by (simp add: probed_def)
  then show ?thesis using probe_first [of h stop index 0] assms(1, 3) ring_size_32 by simp
qed

lemma life_step:
  assumes n: "n < 32" "unat (hash_thread_id sz tid) mod 32 = n" and tid: "tid \<noteq> invalid_thread_id"
  shows "thread_life sz tid (worn_state n) = Some (worn_state (Suc n))"
proof -
  let ?h = "worn_table n" and ?s = "worn_state n" and ?ix = "hash_thread_id sz tid"
  have hs: "hashes ?s = [?h]"
    by (simp add: worn_state_def no_producers_def worn_table_def empty_hash_def INITIAL_IMPLICIT_PRODUCER_HASH_SIZE_def)
  have key: "h_keys ?h ! n = invalid_thread_id" "h_capacity ?h = 32" using n(1) by (simp_all add: worn_table_def nth_append)
  obtain i where i: "probe (\<lambda>k. k = tid \<or> k = invalid_thread_id) ?h ?ix = Some i" "unat i = n"
    using probe_at_once [OF key(2) n(2), of "\<lambda>k. k = tid \<or> k = invalid_thread_id"] key by auto
  obtain j where j: "probe (\<lambda>k. k = invalid_thread_id \<or> True \<and> k = invalid_thread_id2) ?h ?ix = Some j" "unat j = n"
    using probe_at_once [OF key(2) n(2), of "\<lambda>k. k = invalid_thread_id \<or> True \<and> k = invalid_thread_id2"] key by auto
  define h1 where "h1 = ?h\<lparr>h_keys := (h_keys ?h)[n := tid], h_values := (h_values ?h)[n := Some 0]\<rparr>"
  have f: "find_in_hash sz tid ?h = Some None" using i key tid by (simp add: find_in_hash_def)
  have p: "put_in_hash sz True tid (Some 0) ?h = Some h1" using j by (simp add: put_in_hash_def h1_def)
  have key1: "h_keys h1 ! n = tid" "h_capacity h1 = 32" using n(1) by (simp_all add: h1_def worn_table_def)
  obtain k where k: "probe (\<lambda>k. k = tid \<or> k = invalid_thread_id) h1 ?ix = Some k" "unat k = n"
    using probe_at_once [OF key1(2) n(2), of "\<lambda>k. k = tid \<or> k = invalid_thread_id"] key1 by auto
  have "h1\<lparr>h_keys := (h_keys h1)[n := invalid_thread_id2]\<rparr> = worn_table (Suc n)"
  proof -
    have "(h_keys h1)[n := invalid_thread_id2] = replicate n invalid_thread_id2 @ invalid_thread_id2 # replicate (32 - Suc n) invalid_thread_id"
      "h_values h1 = replicate n (Some 0) @ Some 0 # replicate (32 - Suc n) None"
      using upd_boundary [OF n(1), of invalid_thread_id2 invalid_thread_id tid] upd_boundary [OF n(1), of "Some 0" None "Some (0 :: nat)"]
      by (simp_all add: h1_def worn_table_def list_update_append del: list_update_overwrite)
    then show ?thesis by (simp add: h1_def worn_table_def replicate_app_Cons_same)
  qed
  then have rm: "remove_from_hash sz tid h1 = Some (worn_table (Suc n))"
    using k key1 by (simp add: remove_from_hash_def)
  have resize: "resize_hash True c (?s\<lparr>implicitProducerHashCount := c\<rparr>) = Some (True, ?s\<lparr>implicitProducerHashCount := c\<rparr>)"
    if "c \<in> {1, 2}" for c
    using that hs key(2) by (auto simp: resize_hash_def Let_def drop_bit_eq_div word_le_nat_alt)
  let ?c = "1 + implicitProducerHashCount ?s"
  have c: "?c = (if n = 0 then 1 else 2)" by (simp add: worn_state_def no_producers_def)
  have "get_or_add_implicit_producer sz True True True tid ?s
      = insert_producer sz True True ?c tid (?s\<lparr>implicitProducerHashCount := ?c\<rparr>)"
    using f hs resize [of ?c] c by (simp add: get_or_add_implicit_producer_def Let_def)
  also have "\<dots> = Some (Some 0, (worn_state (Suc n))\<lparr>hashes := [h1], inactive := (\<lambda>_. False)(0 := False)\<rparr>)"
    using p hs key(2)
    by (auto simp: insert_producer_def recycle_or_create_producer_def create_producer_def add_producer_def Let_def
        update_main_def worn_state_def no_producers_def drop_bit_eq_div word_less_nat_alt)
  finally show ?thesis using rm
    by (simp add: thread_life_def implicit_producer_thread_exited_def worn_state_def)
qed


lemma thread_lives_worn:
  assumes "\<forall>n<32. unat (hash_thread_id sz (ids n)) mod 32 = n \<and> ids n \<noteq> invalid_thread_id" "n \<le> 32"
  shows "thread_lives sz ids n no_producers = Some (worn_state n)"
  using assms(2)
proof (induction n)
  case 0
  then show ?case by (simp add: worn_state_def)
next
  case (Suc n)
  then show ?case using life_step [of n sz "ids n"] assms(1) by simp
qed



end
