(* ===== verification/CQ_Queue.thy ===== *)
theory CQ_Queue
  imports CQ_Implicit CQ_Explicit CQ_Producers
begin

text \<open>
  Dequeueing from the lock-free queue as a whole
  (\<^verbatim>\<open>Source/Core/Private/Core/Utilities/Containers/ConcurrentQueue.h\<close>): the queue has a chain of
  producers, each with a sub-queue of its own, and a call of \<^verbatim>\<open>try_dequeue\<close> looks for one that has an
  element.  What it needs of a sub-queue is an interface, which both kinds of producer implement.
  Each call is one step.  A producer is modelled together with the block pool it draws from.
\<close>

section \<open>The interface of a sub-queue\<close>

text \<open>\<open>holds q p\<close>: the elements of \<open>p\<close> are \<open>q\<close>, the oldest first.\<close>

locale sub_queue =
  fixes holds :: "'a list \<Rightarrow> 'p \<Rightarrow> bool"
    and deq :: "bool \<Rightarrow> 'p \<Rightarrow> ('a dequeue_result \<times> 'p) option"
    and sz :: "'p \<Rightarrow> 64 word"
  assumes deq_empty: "holds [] p \<Longrightarrow> deq thr p = Some (NothingThere, p)"
    and deq_front: "holds (x # q) p \<Longrightarrow> \<exists>p'. deq thr p = Some (if thr then LostByThrow x else Got x, p') \<and> holds q p'"
    and sz_length: "holds q p \<Longrightarrow> unat (sz p) = length q"

interpretation implicit_queue: sub_queue producer_ok dequeue size_approx
proof
  show "producer_ok [] p \<Longrightarrow> dequeue thr p = Some (NothingThere, p)" for thr and p :: "'a producer" by (rule dequeue_empty)
  show "\<exists>p'. dequeue thr p = Some (if thr then LostByThrow x else Got x, p') \<and> producer_ok q p'"
    if ok: "producer_ok (x # q) p" for thr x q and p :: "'a producer"
    using dequeue_ok [OF ok, of thr] by (elim ex_forward conjE) (rule conjI)
  show "producer_ok q p \<Longrightarrow> unat (size_approx p) = length q" for q and p :: "'a producer"
    using producer_length [of q p] by (cases "length q") (auto simp: size_approx_def circular_less_than_iff)
qed

interpretation explicit_queue: sub_queue x_ok x_dequeue size_approx
proof
  show "x_ok [] p \<Longrightarrow> x_dequeue thr p = Some (NothingThere, p)" for thr and p :: "'a explicit_producer" by (rule x_dequeue_empty)
  show "\<exists>p'. x_dequeue thr p = Some (if thr then LostByThrow x else Got x, p') \<and> x_ok q p'"
    if ok: "x_ok (x # q) p" for thr x q and p :: "'a explicit_producer"
    using x_dequeue_ok [OF ok, of thr] by (elim ex_forward conjE) (rule conjI)
  show "x_ok q p \<Longrightarrow> unat (size_approx p) = length q" for q and p :: "'a explicit_producer" by (rule x_ok_size)
qed

section \<open>Producers of both kinds\<close>

datatype 'a any_producer = ExplicitOne "'a explicit_producer" | ImplicitOne "'a producer"

fun dequeue_any :: "bool \<Rightarrow> 'a any_producer \<Rightarrow> ('a dequeue_result \<times> 'a any_producer) option" where
  "dequeue_any thr (ExplicitOne p) = map_option (\<lambda>(r, p'). (r, ExplicitOne p')) (x_dequeue thr p)"
| "dequeue_any thr (ImplicitOne p) = map_option (\<lambda>(r, p'). (r, ImplicitOne p')) (dequeue thr p)"

fun size_any :: "'a any_producer \<Rightarrow> 64 word" where
  "size_any (ExplicitOne p) = size_approx p"
| "size_any (ImplicitOne p) = size_approx p"

fun any_ok :: "'a list \<Rightarrow> 'a any_producer \<Rightarrow> bool" where
  "any_ok q (ExplicitOne p) = x_ok q p"
| "any_ok q (ImplicitOne p) = producer_ok q p"

interpretation any_queue: sub_queue any_ok dequeue_any size_any
proof
  show "any_ok [] p \<Longrightarrow> dequeue_any thr p = Some (NothingThere, p)" for thr and p :: "'a any_producer"
    using explicit_queue.deq_empty implicit_queue.deq_empty by (cases p) auto
  show "any_ok (x # q) p \<Longrightarrow> \<exists>p'. dequeue_any thr p = Some (if thr then LostByThrow x else Got x, p') \<and> any_ok q p'"
    for thr x q and p :: "'a any_producer"
    using explicit_queue.deq_front [of x q _ thr] implicit_queue.deq_front [of x q _ thr]
    by (cases p) fastforce+
  show "any_ok q p \<Longrightarrow> unat (size_any p) = length q" for q and p :: "'a any_producer"
    using explicit_queue.sz_length implicit_queue.sz_length by (cases p) auto
qed

section \<open>Dequeueing\<close>

text \<open>
  The operations take the sub-queue's \<^verbatim>\<open>dequeue\<close> and \<^verbatim>\<open>size_approx\<close> as arguments; \<open>ps\<close> is the chain of
  producers from \<^verbatim>\<open>producerListTail\<close> on and \<open>st\<close> what is at their addresses.
\<close>

fun choose_best :: "('p \<Rightarrow> 64 word) \<Rightarrow> (nat \<Rightarrow> 'p) \<Rightarrow> nat list \<Rightarrow> nat \<Rightarrow> nat option \<Rightarrow> 64 word \<Rightarrow> nat \<times> nat option" where
  "choose_best sz st [] nonEmptyCount best bestSize = (nonEmptyCount, best)"
| "choose_best sz st (ptr # ps) nonEmptyCount best bestSize =
     (if nonEmptyCount < 3 then
        (let size = sz (st ptr)
         in if size > 0 then
              if size > bestSize then choose_best sz st ps (nonEmptyCount + 1) (Some ptr) size
              else choose_best sz st ps (nonEmptyCount + 1) best bestSize
            else choose_best sz st ps nonEmptyCount best bestSize)
      else (nonEmptyCount, best))"

definition deq_at ::
  "(bool \<Rightarrow> 'p \<Rightarrow> ('a dequeue_result \<times> 'p) option) \<Rightarrow> bool \<Rightarrow> nat \<Rightarrow> (nat \<Rightarrow> 'p) \<Rightarrow> ('a dequeue_result \<times> (nat \<Rightarrow> 'p)) option" where
  "deq_at deq thr ptr st = map_option (\<lambda>(r, p'). (r, st(ptr := p'))) (deq thr (st ptr))"

fun try_each ::
  "(bool \<Rightarrow> 'p \<Rightarrow> ('a dequeue_result \<times> 'p) option) \<Rightarrow> bool \<Rightarrow> nat option \<Rightarrow> nat list \<Rightarrow> (nat \<Rightarrow> 'p)
     \<Rightarrow> ('a dequeue_result \<times> (nat \<Rightarrow> 'p)) option" where
  "try_each deq thr best [] st = Some (NothingThere, st)"
| "try_each deq thr best (ptr # ps) st =
     (if Some ptr = best then try_each deq thr best ps st
      else (case deq_at deq thr ptr st of
              None \<Rightarrow> None
            | Some (r, st') \<Rightarrow> if r = NothingThere then try_each deq thr best ps st' else Some (r, st')))"

definition try_dequeue ::
  "('p \<Rightarrow> 64 word) \<Rightarrow> (bool \<Rightarrow> 'p \<Rightarrow> ('a dequeue_result \<times> 'p) option) \<Rightarrow> bool \<Rightarrow> nat list \<Rightarrow> (nat \<Rightarrow> 'p)
     \<Rightarrow> ('a dequeue_result \<times> (nat \<Rightarrow> 'p)) option" where
  "try_dequeue sz deq thr ps st =
     (let (nonEmptyCount, best) = choose_best sz st ps 0 None 0
      in if nonEmptyCount > 0 then
           (case best of
              None \<Rightarrow> None
            | Some b \<Rightarrow>
                (case deq_at deq thr b st of
                   None \<Rightarrow> None
                 | Some (r, st') \<Rightarrow> if r = NothingThere then try_each deq thr best ps st' else Some (r, st')))
         else Some (NothingThere, st))"

definition try_dequeue_non_interleaved ::
  "(bool \<Rightarrow> 'p \<Rightarrow> ('a dequeue_result \<times> 'p) option) \<Rightarrow> bool \<Rightarrow> nat list \<Rightarrow> (nat \<Rightarrow> 'p)
     \<Rightarrow> ('a dequeue_result \<times> (nat \<Rightarrow> 'p)) option" where
  "try_dequeue_non_interleaved deq thr ps st = try_each deq thr None ps st"

definition queue_size_approx :: "('p \<Rightarrow> 64 word) \<Rightarrow> nat list \<Rightarrow> (nat \<Rightarrow> 'p) \<Rightarrow> 64 word" where
  "queue_size_approx sz ps st = foldl (\<lambda>size ptr. size + sz (st ptr)) 0 ps"

section \<open>Consumer tokens\<close>

record ConsumerToken =
  initialOffset :: "32 word"
  lastKnownGlobalOffset :: "32 word"
  itemsConsumedFromCurrent :: "32 word"
  currentProducer :: "nat option"
  desiredProducer :: "nat option"

text \<open>The constructor takes the next consumer id; the result is the token and the next id.\<close>

definition new_ConsumerToken :: "32 word \<Rightarrow> ConsumerToken \<times> 32 word" where
  "new_ConsumerToken nextExplicitConsumerId =
     (\<lparr>initialOffset = nextExplicitConsumerId, lastKnownGlobalOffset = - 1, itemsConsumedFromCurrent = 0,
       currentProducer = None, desiredProducer = None\<rparr>, nextExplicitConsumerId + 1)"

text \<open>\<^verbatim>\<open>next_prod\<close>, and the step that goes on at the tail of the list after its end.\<close>

fun next_prod :: "nat list \<Rightarrow> nat \<Rightarrow> nat option" where
  "next_prod [] p = None"
| "next_prod (x # xs) p = (if x = p then (case xs of [] \<Rightarrow> None | y # _ \<Rightarrow> Some y) else next_prod xs p)"

definition next_around :: "nat list \<Rightarrow> nat \<Rightarrow> nat" where
  "next_around ps p = (case next_prod ps p of None \<Rightarrow> hd ps | Some q \<Rightarrow> q)"

text \<open>
  The result is undefined when there is no producer to step to or the producer count is zero; the
  flag is false when there is no producer at all.
\<close>

definition update_current_producer_after_rotation ::
  "nat list \<Rightarrow> 32 word \<Rightarrow> 32 word \<Rightarrow> ConsumerToken \<Rightarrow> (bool \<times> ConsumerToken) option" where
  "update_current_producer_after_rotation ps prodCount globalOffset token =
     (if desiredProducer token = None \<and> ps = [] then Some (False, token)
      else if ps = [] \<or> prodCount = 0 then None
      else
        (let desired = (case desiredProducer token of
                          None \<Rightarrow> (next_around ps ^^ unat (prodCount - 1 - initialOffset token mod prodCount)) (hd ps)
                        | Some d \<Rightarrow> d);
             delta = globalOffset - lastKnownGlobalOffset token;
             delta = (if delta \<ge> prodCount then delta mod prodCount else delta);
             desired = (next_around ps ^^ unat delta) desired
         in Some (True, token\<lparr>desiredProducer := Some desired, lastKnownGlobalOffset := globalOffset,
                             currentProducer := Some desired, itemsConsumedFromCurrent := 0\<rparr>)))"

text \<open>The loop over the other producers, once around from the current one.\<close>

partial_function (option) try_around ::
  "(bool \<Rightarrow> 'p \<Rightarrow> ('a dequeue_result \<times> 'p) option) \<Rightarrow> bool \<Rightarrow> nat list \<Rightarrow> nat \<Rightarrow> nat \<Rightarrow> (nat \<Rightarrow> 'p)
     \<Rightarrow> ('a dequeue_result \<times> nat \<times> (nat \<Rightarrow> 'p)) option" where
  "try_around deq thr ps current ptr st =
     (if ptr = current then Some (NothingThere, ptr, st)
      else (case deq_at deq thr ptr st of
              None \<Rightarrow> None
            | Some (r, st') \<Rightarrow>
                if r = NothingThere then try_around deq thr ps current (next_around ps ptr) st'
                else Some (r, ptr, st')))"

text \<open>
  \<^verbatim>\<open>try_dequeue\<close> with a token: the result, the token, the global offset and the producers.  An
  assignment that throws leaves before the token is updated.
\<close>

definition try_dequeue_token ::
  "(bool \<Rightarrow> 'p \<Rightarrow> ('a dequeue_result \<times> 'p) option) \<Rightarrow> bool \<Rightarrow> nat list \<Rightarrow> 32 word \<Rightarrow> 32 word \<Rightarrow> ConsumerToken
     \<Rightarrow> (nat \<Rightarrow> 'p) \<Rightarrow> ('a dequeue_result \<times> ConsumerToken \<times> 32 word \<times> (nat \<Rightarrow> 'p)) option" where
  "try_dequeue_token deq thr ps prodCount globalOffset token st =
     (case (if desiredProducer token = None \<or> lastKnownGlobalOffset token \<noteq> globalOffset
            then update_current_producer_after_rotation ps prodCount globalOffset token else Some (True, token)) of
        None \<Rightarrow> None
      | Some (False, token1) \<Rightarrow> Some (NothingThere, token1, globalOffset, st)
      | Some (True, token1) \<Rightarrow>
          (case currentProducer token1 of
             None \<Rightarrow> None
           | Some current \<Rightarrow>
               (case deq_at deq thr current st of
                  None \<Rightarrow> None
                | Some (Got x, st') \<Rightarrow>
                    (let token2 = token1\<lparr>itemsConsumedFromCurrent := itemsConsumedFromCurrent token1 + 1\<rparr>
                     in Some (Got x, token2,
                          if itemsConsumedFromCurrent token2 = EXPLICIT_CONSUMER_CONSUMPTION_QUOTA_BEFORE_ROTATE
                          then globalOffset + 1 else globalOffset, st'))
                | Some (LostByThrow x, st') \<Rightarrow> Some (LostByThrow x, token1, globalOffset, st')
                | Some (NothingThere, st') \<Rightarrow>
                    (case try_around deq thr ps current (next_around ps current) st' of
                       None \<Rightarrow> None
                     | Some (Got x, ptr, st'') \<Rightarrow>
                         Some (Got x, token1\<lparr>currentProducer := Some ptr, itemsConsumedFromCurrent := 1\<rparr>, globalOffset, st'')
                     | Some (r, ptr, st'') \<Rightarrow> Some (r, token1, globalOffset, st'')))))"


section \<open>Correctness of the dequeue operations\<close>

text \<open>
  \<open>Q p\<close> is what the sub-queue at \<open>p\<close> holds; \<open>candidates\<close> are the producers that the scoring loop
  looks at: the first three that are not empty.
\<close>

definition nonempty_of :: "(nat \<Rightarrow> 'a list) \<Rightarrow> nat list \<Rightarrow> nat list" where
  "nonempty_of Q ps = filter (\<lambda>p. Q p \<noteq> []) ps"

definition result_of :: "bool \<Rightarrow> 'a \<Rightarrow> 'a dequeue_result" where
  "result_of thr x = (if thr then LostByThrow x else Got x)"

lemma nonempty_of_simps [simp]:
  "nonempty_of Q [] = []"
  "nonempty_of Q (p # ps) = (if Q p = [] then nonempty_of Q ps else p # nonempty_of Q ps)"
  by (simp_all add: nonempty_of_def)

lemma set_nonempty_of: "set (nonempty_of Q ps) = {p \<in> set ps. Q p \<noteq> []}"
  by (simp add: nonempty_of_def)

lemma find_nonempty: "find (\<lambda>a. Q a \<noteq> []) ps = (case nonempty_of Q ps of [] \<Rightarrow> None | p # _ \<Rightarrow> Some p)"
  by (induction ps) auto

lemma result_of_not_nothing [simp]: "result_of thr x \<noteq> NothingThere"
  by (simp add: result_of_def)

context sub_queue
begin

definition all_hold :: "(nat \<Rightarrow> 'a list) \<Rightarrow> nat list \<Rightarrow> (nat \<Rightarrow> 'p) \<Rightarrow> bool" where
  "all_hold Q ps st \<longleftrightarrow> (\<forall>p\<in>set ps. holds (Q p) (st p))"

lemma all_hold_Cons [simp]: "all_hold Q (p # ps) st \<longleftrightarrow> holds (Q p) (st p) \<and> all_hold Q ps st"
  by (simp add: all_hold_def)

lemma deq_at_empty: "holds [] (st p) \<Longrightarrow> deq_at deq thr p st = Some (NothingThere, st)"
  by (simp add: deq_at_def deq_empty)

lemma deq_at_front:
  assumes "holds (x # q) (st p)"
  shows "\<exists>p'. deq_at deq thr p st = Some (result_of thr x, st(p := p')) \<and> holds q p'"
  using deq_front [OF assms, of thr] by (elim ex_forward) (simp add: deq_at_def result_of_def)

lemma sz_positive: "holds q p \<Longrightarrow> 0 < sz p \<longleftrightarrow> q \<noteq> []"
  using sz_length [of q p] by (metis length_0_conv unat_eq_zero_iff word_greater_zero_iff)

lemma sz_less: "holds q p \<Longrightarrow> holds q' p' \<Longrightarrow> sz p < sz p' \<longleftrightarrow> length q < length q'"
  by (simp add: word_less_nat_alt sz_length)

lemma choose_best_spec:
  assumes "all_hold Q ps st" and "n \<le> 3" and "(n = 0) = (best = None)"
    and "\<forall>b. best = Some b \<longrightarrow> Q b \<noteq> [] \<and> holds (Q b) (st b) \<and> m = sz (st b)" and "best = None \<longrightarrow> m = 0"
  shows "\<exists>n' best'. choose_best sz st ps n best m = (n', best')
     \<and> n' = n + length (take (3 - n) (nonempty_of Q ps))
     \<and> (best' = None \<longleftrightarrow> best = None \<and> nonempty_of Q ps = [])
     \<and> (\<forall>b. best' = Some b \<longrightarrow> (best = Some b \<or> b \<in> set (take (3 - n) (nonempty_of Q ps)))
          \<and> (\<forall>c \<in> set_option best \<union> set (take (3 - n) (nonempty_of Q ps)). length (Q c) \<le> length (Q b)))"
  using assms
proof (induction ps arbitrary: n best m)
  case Nil
  then show ?case by auto
next
  case (Cons p ps)
  show ?case
  proof (cases "n < 3")
    case False
    then show ?thesis using Cons.prems by auto
  next
    case True
    note hp = Cons.prems(1) [simplified, THEN conjunct1] and hps = Cons.prems(1) [simplified, THEN conjunct2]
    have three: "3 - n = Suc (3 - Suc n)" using True by simp
    show ?thesis
    proof (cases "Q p = []")
      case True
      then show ?thesis using Cons.IH [OF hps Cons.prems(2-5)] sz_positive [OF hp] \<open>n < 3\<close> by (simp add: Let_def)
    next
      case False
      have best: "sz (st p) > m \<longleftrightarrow> (\<forall>b. best = Some b \<longrightarrow> length (Q b) < length (Q p))"
        using Cons.prems(4,5) sz_positive [OF hp] sz_less [OF _ hp] False by (cases best) auto
      show ?thesis
      proof (cases "sz (st p) > m")
        case bigger: True
        show ?thesis
          using Cons.IH [of "Suc n" "Some p" "sz (st p)"] hps hp False bigger \<open>n < 3\<close> sz_positive [OF hp] best
          by (simp add: Let_def three) (auto simp: less_imp_le intro: order.trans)
      next
        case False': False
        then show ?thesis
          using Cons.IH [of "Suc n" best m] hps hp False Cons.prems(3-5) \<open>n < 3\<close> sz_positive [OF hp] best
          by (simp add: Let_def three) (auto simp: not_less intro: order.trans)
      qed
    qed
  qed
qed

lemma try_each_empty:
  "all_hold Q ps st \<Longrightarrow> \<forall>p\<in>set ps. Some p \<noteq> best \<longrightarrow> Q p = [] \<Longrightarrow> try_each deq thr best ps st = Some (NothingThere, st)"
  by (induction ps) (auto simp: deq_at_empty)

lemma try_each_first:
  "all_hold Q ps st \<Longrightarrow> nonempty_of Q ps = p # rest \<Longrightarrow> Q p = x # q
     \<Longrightarrow> \<exists>p'. try_each deq thr None ps st = Some (result_of thr x, st(p := p')) \<and> holds q p'"
proof (induction ps)
  case (Cons a ps)
  show ?case
  proof (cases "Q a = []")
    case True
    then show ?thesis using Cons by (simp add: deq_at_empty)
  next
    case False
    then have "a = p" "holds (x # q) (st p)" using Cons.prems by auto
    then obtain p' where "deq_at deq thr p st = Some (result_of thr x, st(p := p'))" "holds q p'"
      using deq_at_front by blast
    then show ?thesis using \<open>a = p\<close> by (intro exI [of _ p']) (simp add: fun_upd_def)
  qed
qed simp

lemma try_dequeue_spec:
  assumes "all_hold Q ps st"
  shows "if nonempty_of Q ps = [] then try_dequeue sz deq thr ps st = Some (NothingThere, st)
    else \<exists>p x q p'. p \<in> set (take 3 (nonempty_of Q ps))
      \<and> (\<forall>c\<in>set (take 3 (nonempty_of Q ps)). length (Q c) \<le> length (Q p))
      \<and> Q p = x # q \<and> try_dequeue sz deq thr ps st = Some (result_of thr x, st(p := p')) \<and> holds q p'"
proof -
  obtain n best where c: "choose_best sz st ps 0 None 0 = (n, best)"
    and n: "n = length (take 3 (nonempty_of Q ps))" and none: "best = None \<longleftrightarrow> nonempty_of Q ps = []"
    and some: "\<forall>b. best = Some b \<longrightarrow> b \<in> set (take 3 (nonempty_of Q ps))
      \<and> (\<forall>c\<in>set (take 3 (nonempty_of Q ps)). length (Q c) \<le> length (Q b))"
    using choose_best_spec [OF assms, of 0 None 0] by auto
  show ?thesis
  proof (cases best)
    case None
    then show ?thesis using c n none by (simp add: try_dequeue_def)
  next
    case (Some b)
    have ne: "nonempty_of Q ps \<noteq> []" and b: "b \<in> set (take 3 (nonempty_of Q ps))" using Some none some by auto
    then have "b \<in> set ps" "Q b \<noteq> []" using in_set_takeD [OF b] by (simp_all add: set_nonempty_of)
    then obtain x q where q: "Q b = x # q" by (cases "Q b") auto
    have "holds (x # q) (st b)" using assms \<open>b \<in> set ps\<close> q by (auto simp: all_hold_def)
    then obtain p' where d: "deq_at deq thr b st = Some (result_of thr x, st(b := p'))" and p': "holds q p'"
      using deq_at_front by blast
    have "n > 0" using ne n by simp
    then have "try_dequeue sz deq thr ps st = Some (result_of thr x, st(b := p'))"
      unfolding try_dequeue_def c Let_def prod.case Some option.case d by simp
    moreover have "\<forall>c\<in>set (take 3 (nonempty_of Q ps)). length (Q c) \<le> length (Q b)" using some Some by blast
    ultimately show ?thesis unfolding if_not_P [OF ne] using b q p' by (intro exI conjI)
  qed
qed


lemma non_interleaved_spec:
  assumes "all_hold Q ps st"
  shows "case nonempty_of Q ps of
      [] \<Rightarrow> try_dequeue_non_interleaved deq thr ps st = Some (NothingThere, st)
    | p # _ \<Rightarrow> \<exists>x q p'. Q p = x # q \<and> try_dequeue_non_interleaved deq thr ps st = Some (result_of thr x, st(p := p')) \<and> holds q p'"
proof (cases "nonempty_of Q ps")
  case Nil
  then have "\<forall>p\<in>set ps. Q p = []" using set_nonempty_of [of Q ps] by auto
  then show ?thesis using Nil try_each_empty [OF assms] by (simp add: try_dequeue_non_interleaved_def)
next
  case (Cons p rest)
  then have "Q p \<noteq> []" using set_nonempty_of [of Q ps] by auto
  then obtain x q where q: "Q p = x # q" by (cases "Q p") auto
  obtain p' where "try_each deq thr None ps st = Some (result_of thr x, st(p := p'))" "holds q p'"
    using try_each_first [OF assms Cons q] by blast
  then show ?thesis unfolding Cons list.case try_dequeue_non_interleaved_def
    using q by (intro exI [of _ x] exI [of _ q] exI [of _ p'] conjI)
qed

lemma all_hold_update:
  assumes "all_hold Q ps st" and "holds q p'"
  shows "all_hold (Q(p := q)) ps (st(p := p'))"
  using assms by (simp add: all_hold_def)

lemma sizes_sum:
  "all_hold Q ps st \<Longrightarrow> foldl (\<lambda>size ptr. size + sz (st ptr)) a ps = a + of_nat (\<Sum>p\<leftarrow>ps. length (Q p))"
proof (induction ps arbitrary: a)
  case (Cons p ps)
  then have "unat (sz (st p)) = length (Q p)" using sz_length by simp
  then have "of_nat (length (Q p)) = sz (st p)" by (metis unat_of_nat_small unat_bound word_unat_eq_iff)
  then show ?case using Cons by (simp add: algebra_simps)
qed simp

lemma queue_size_spec: "all_hold Q ps st \<Longrightarrow> queue_size_approx sz ps st = of_nat (\<Sum>p\<leftarrow>ps. length (Q p))"
  by (simp add: queue_size_approx_def sizes_sum)

end


section \<open>The walk around the chain\<close>

lemma next_prod_nth:
  "distinct ps \<Longrightarrow> i < length ps \<Longrightarrow> next_prod ps (ps ! i) = (if Suc i < length ps then Some (ps ! Suc i) else None)"
proof (induction ps arbitrary: i)
  case (Cons x xs)
  show ?case
  proof (cases i)
    case 0
    then show ?thesis by (cases xs) auto
  next
    case (Suc j)
    then have "xs ! j \<in> set xs" using Cons.prems by simp
    then have "x \<noteq> xs ! j" using Cons.prems by auto
    then show ?thesis using Cons Suc by simp
  qed
qed simp

lemma next_around_nth:
  assumes "distinct ps" "i < length ps"
  shows "next_around ps (ps ! i) = ps ! (Suc i mod length ps)"
proof (cases "Suc i < length ps")
  case False
  then have "Suc i = length ps" using assms by simp
  then show ?thesis using assms next_prod_nth [OF assms] by (cases ps) (auto simp: next_around_def)
qed (simp add: next_around_def next_prod_nth [OF assms])

lemma next_around_power:
  assumes "distinct ps" "i < length ps"
  shows "(next_around ps ^^ k) (ps ! i) = ps ! ((i + k) mod length ps)"
proof (induction k)
  case (Suc k)
  have "(i + k) mod length ps < length ps" using assms by (intro mod_less_divisor) linarith
  then show ?case using Suc next_around_nth [OF assms(1), of "(i + k) mod length ps"] by (simp add: mod_Suc_eq)
qed (use assms in simp)

text \<open>\<open>walk\<close>: each producer of the list is followed by the next one of the chain.\<close>

definition walk :: "nat list \<Rightarrow> nat list \<Rightarrow> bool" where
  "walk ps xs \<longleftrightarrow> (\<forall>i. Suc i < length xs \<longrightarrow> next_around ps (xs ! i) = xs ! Suc i)"

lemma walk_Cons: "walk ps (x # y # xs) \<longleftrightarrow> next_around ps x = y \<and> walk ps (y # xs)"
  unfolding walk_def by (simp add: All_less_Suc2 flip: less_Suc_eq_le)

lemma walk_rotate:
  assumes "distinct ps" "c < length ps"
  shows "walk ps (rotate c ps @ [ps ! c])"
  unfolding walk_def
proof (intro allI impI)
  fix i
  assume i: "Suc i < length (rotate c ps @ [ps ! c])"
  have l: "(c + i) mod length ps < length ps" using assms by (intro mod_less_divisor) linarith
  have "next_around ps (rotate c ps ! i) = ps ! (Suc (c + i) mod length ps)"
    using next_around_nth [OF assms(1) l] i by (simp add: nth_rotate mod_Suc_eq)
  also have "\<dots> = (rotate c ps @ [ps ! c]) ! Suc i"
  proof (cases "Suc i < length ps")
    case True
    then show ?thesis by (simp add: nth_append nth_rotate)
  next
    case False
    then have "Suc i = length ps" using i by simp
    then have "Suc (c + i) mod length ps = c" using assms(2) by (metis add_Suc_right mod_add_self2 mod_less)
    then show ?thesis using \<open>Suc i = length ps\<close> by (simp add: nth_append)
  qed
  finally show "next_around ps ((rotate c ps @ [ps ! c]) ! i) = (rotate c ps @ [ps ! c]) ! Suc i"
    using i by (simp add: nth_append)
qed

lemma rotate_parts:
  assumes "c < length ps"
  shows "\<exists>others. rotate c ps = ps ! c # others"
proof -
  have "rotate c ps \<noteq> []" using assms by auto
  moreover have "rotate c ps ! 0 = ps ! c" using assms nth_rotate [of 0 ps c] by (cases ps) simp_all
  ultimately have "rotate c ps \<noteq> []" "hd (rotate c ps) = ps ! c" by (simp_all add: hd_conv_nth)
  then show ?thesis by (metis list.collapse)
qed

context sub_queue
begin

lemma try_around_spec:
  assumes "all_hold Q xs st" "current \<notin> set xs" "walk ps (xs @ [current])"
  shows "case nonempty_of Q xs of
      [] \<Rightarrow> try_around deq thr ps current (hd (xs @ [current])) st = Some (NothingThere, current, st)
    | p # _ \<Rightarrow> \<exists>x q p'. Q p = x # q \<and> holds q p'
        \<and> try_around deq thr ps current (hd (xs @ [current])) st = Some (result_of thr x, p, st(p := p'))"
  using assms
proof (induction xs)
  case Nil
  show ?case by (simp add: try_around.simps)
next
  case (Cons a xs)
  have nx: "next_around ps a = hd (xs @ [current])" "walk ps (xs @ [current])"
    using Cons.prems(3) walk_Cons [of ps a] by (cases xs; simp)+
  have a: "a \<noteq> current" "holds (Q a) (st a)" using Cons.prems by auto
  show ?case
  proof (cases "Q a")
    case Nil
    then have "try_around deq thr ps current a st = try_around deq thr ps current (hd (xs @ [current])) st"
      using a nx deq_at_empty [of st a thr] by (subst try_around.simps) simp
    moreover have "nonempty_of Q (a # xs) = nonempty_of Q xs" "hd ((a # xs) @ [current]) = a" using Nil by simp_all
    moreover have "all_hold Q xs st" "current \<notin> set xs" using Cons.prems by simp_all
    note Cons.IH [OF this nx(2)]
    ultimately show ?thesis by (simp only:)
  next
    case (Cons x q)
    then obtain p' where d: "deq_at deq thr a st = Some (result_of thr x, st(a := p'))" and p': "holds q p'"
      using a deq_at_front [of x q st a thr] by auto
    then have "try_around deq thr ps current a st = Some (result_of thr x, a, st(a := p'))"
      using a by (subst try_around.simps) simp
    then show ?thesis using Cons p' by auto
  qed
qed


text \<open>A call with a token that starts at position \<open>c\<close>: the first producer with an element, going around from there.\<close>

lemma deq_around_spec:
  assumes all: "all_hold Q ps st" and d: "distinct ps" and c: "c < length ps"
  shows "case nonempty_of Q (rotate c ps) of
      [] \<Rightarrow> deq_at deq thr (ps ! c) st = Some (NothingThere, st)
        \<and> try_around deq thr ps (ps ! c) (next_around ps (ps ! c)) st = Some (NothingThere, ps ! c, st)
    | p # _ \<Rightarrow> \<exists>x q p'. Q p = x # q \<and> holds q p'
        \<and> (if p = ps ! c then deq_at deq thr p st = Some (result_of thr x, st(p := p'))
           else deq_at deq thr (ps ! c) st = Some (NothingThere, st)
             \<and> try_around deq thr ps (ps ! c) (next_around ps (ps ! c)) st = Some (result_of thr x, p, st(p := p')))"
proof -
  obtain others where r: "rotate c ps = ps ! c # others" using rotate_parts [OF c] by blast
  have dist: "ps ! c \<notin> set others" using d r by (metis distinct.simps(2) distinct_rotate)
  have all': "holds (Q (ps ! c)) (st (ps ! c))" "all_hold Q others st"
    using all r by (metis all_hold_Cons all_hold_def set_rotate)+
  have w: "walk ps (ps ! c # others @ [ps ! c])" using walk_rotate [OF d c] r by simp
  then have nx: "next_around ps (ps ! c) = hd (others @ [ps ! c])" "walk ps (others @ [ps ! c])"
    using walk_Cons [of ps "ps ! c"] by (cases others; simp)+
  show ?thesis
  proof (cases "Q (ps ! c)")
    case Nil
    have sub: "p \<in> set others" if "nonempty_of Q others = p # z" for p z
      using that set_nonempty_of [of Q others] by (metis (no_types, lifting) list.set_intros(1) mem_Collect_eq)
    have "deq_at deq thr (ps ! c) st = Some (NothingThere, st)" using deq_at_empty all' Nil by simp
    then show ?thesis using try_around_spec [OF all'(2) dist nx(2), of thr] nx(1) r Nil sub dist
      by (auto split: list.split)
  next
    case (Cons x q)
    then have "\<exists>p'. deq_at deq thr (ps ! c) st = Some (result_of thr x, st(ps ! c := p')) \<and> holds q p'"
      using deq_at_front all' by metis
    then show ?thesis using Cons r by auto
  qed
qed

end

section \<open>Rotation of the consumers\<close>

definition token_ok :: "nat list \<Rightarrow> ConsumerToken \<Rightarrow> bool" where
  "token_ok ps token \<longleftrightarrow>
     (desiredProducer token = None \<longleftrightarrow> currentProducer token = None)
     \<and> set_option (desiredProducer token) \<union> set_option (currentProducer token) \<subseteq> set ps"

text \<open>The place of a consumer: at first from its own number, afterwards where it was, moved on by the rotations since.\<close>

definition place :: "nat list \<Rightarrow> 32 word \<Rightarrow> ConsumerToken \<Rightarrow> nat \<Rightarrow> bool" where
  "place ps globalOffset token c \<longleftrightarrow>
     (let n = length ps; delta = unat (globalOffset - lastKnownGlobalOffset token)
      in case desiredProducer token of
           None \<Rightarrow> c = (n - 1 - unat (initialOffset token) mod n + delta) mod n
         | Some d \<Rightarrow> \<exists>i<n. ps ! i = d \<and> c = (i + delta) mod n)"

lemma unat_sub_mod:
  assumes "n \<noteq> (0 :: 32 word)"
  shows "unat (n - 1 - x mod n) = unat n - 1 - unat x mod unat n"
proof -
  have n: "unat n > 0" using assms by (simp add: unat_gt_0)
  have 1: "unat (n - 1) = unat n - 1" using n by (subst unat_sub_le) (simp_all add: word_le_nat_alt)
  have "unat (x mod n) = unat x mod unat n" by (rule unat_mod_distrib)
  moreover have "unat x mod unat n < unat n" using n by simp
  ultimately show ?thesis using 1 by (subst unat_sub_le) (simp_all add: word_le_nat_alt)
qed

lemma rotation_spec:
  assumes d: "distinct ps" and n: "unat prodCount = length ps" "ps \<noteq> []" and ok: "token_ok ps token"
  shows "\<exists>c<length ps. place ps off token c
    \<and> update_current_producer_after_rotation ps prodCount off token
        = Some (True, token\<lparr>desiredProducer := Some (ps ! c), lastKnownGlobalOffset := off,
                           currentProducer := Some (ps ! c), itemsConsumedFromCurrent := 0\<rparr>)"
proof -
  let ?n = "length ps" and ?delta = "off - lastKnownGlobalOffset token"
  have p0: "prodCount \<noteq> 0" and n0: "0 < ?n" using n by auto
  have delta: "unat (if ?delta \<ge> prodCount then ?delta mod prodCount else ?delta) mod ?n = unat ?delta mod ?n"
    by (simp add: unat_mod_distrib n(1))
  obtain i where i: "i < ?n" "case desiredProducer token of
      None \<Rightarrow> i = ?n - 1 - unat (initialOffset token) mod ?n | Some d \<Rightarrow> ps ! i = d"
  proof (cases "desiredProducer token")
    case None
    then show ?thesis using that [of "?n - 1 - unat (initialOffset token) mod ?n"] n0 by simp
  next
    case (Some d)
    then show ?thesis using that ok by (auto simp: token_ok_def in_set_conv_nth)
  qed
  define c where "c = (i + unat ?delta) mod ?n"
  have c: "c < ?n" using n0 by (simp add: c_def)
  have start: "(case desiredProducer token of
      None \<Rightarrow> (next_around ps ^^ unat (prodCount - 1 - initialOffset token mod prodCount)) (hd ps) | Some d \<Rightarrow> d) = ps ! i"
    using i next_around_power [OF d n0, of i] unat_sub_mod [OF p0] n by (auto simp: hd_conv_nth split: option.splits)
  have "(i + unat (if ?delta \<ge> prodCount then ?delta mod prodCount else ?delta)) mod ?n = c"
    unfolding c_def using delta by (metis mod_add_right_eq)
  then have "update_current_producer_after_rotation ps prodCount off token
      = Some (True, token\<lparr>desiredProducer := Some (ps ! c), lastKnownGlobalOffset := off,
                         currentProducer := Some (ps ! c), itemsConsumedFromCurrent := 0\<rparr>)"
    unfolding update_current_producer_after_rotation_def Let_def start next_around_power [OF d i(1)] using n p0 by simp
  moreover have "place ps off token c" using i by (auto simp: place_def c_def Let_def split: option.splits)
  ultimately show ?thesis using c by blast
qed


text \<open>The token after a successful call, and the global offset.\<close>

definition token_after :: "nat list \<Rightarrow> nat \<Rightarrow> nat \<Rightarrow> ConsumerToken \<Rightarrow> ConsumerToken" where
  "token_after ps c p token =
     (if p = ps ! c then token\<lparr>itemsConsumedFromCurrent := itemsConsumedFromCurrent token + 1\<rparr>
      else token\<lparr>currentProducer := Some p, itemsConsumedFromCurrent := 1\<rparr>)"

definition offset_after :: "nat list \<Rightarrow> nat \<Rightarrow> nat \<Rightarrow> ConsumerToken \<Rightarrow> 32 word \<Rightarrow> 32 word" where
  "offset_after ps c p token off =
     (if p = ps ! c \<and> itemsConsumedFromCurrent token + 1 = EXPLICIT_CONSUMER_CONSUMPTION_QUOTA_BEFORE_ROTATE then off + 1 else off)"

text \<open>\<open>start_at\<close>: where the call starts, and the token it has there.\<close>

definition start_at :: "nat list \<Rightarrow> 32 word \<Rightarrow> ConsumerToken \<Rightarrow> nat \<Rightarrow> ConsumerToken \<Rightarrow> bool" where
  "start_at ps off token c token1 \<longleftrightarrow> c < length ps \<and>
     (if desiredProducer token = None \<or> lastKnownGlobalOffset token \<noteq> off
      then place ps off token c
        \<and> token1 = token\<lparr>desiredProducer := Some (ps ! c), lastKnownGlobalOffset := off,
                        currentProducer := Some (ps ! c), itemsConsumedFromCurrent := 0\<rparr>
      else currentProducer token = Some (ps ! c) \<and> token1 = token)"

lemma start_exists:
  assumes "distinct ps" "unat prodCount = length ps" "ps \<noteq> []" "token_ok ps token"
  shows "\<exists>c token1. start_at ps off token c token1
    \<and> (if desiredProducer token = None \<or> lastKnownGlobalOffset token \<noteq> off
       then update_current_producer_after_rotation ps prodCount off token else Some (True, token)) = Some (True, token1)"
proof (cases "desiredProducer token = None \<or> lastKnownGlobalOffset token \<noteq> off")
  case True
  then show ?thesis using rotation_spec [OF assms, of off] by (fastforce simp: start_at_def)
next
  case False
  then obtain p where "currentProducer token = Some p" "p \<in> set ps" using assms(4) by (auto simp: token_ok_def)
  then show ?thesis using False by (auto simp: start_at_def in_set_conv_nth)
qed

lemma start_current: "start_at ps off token c token1 \<Longrightarrow> currentProducer token1 = Some (ps ! c)"
  by (auto simp: start_at_def split: if_splits)

lemma start_ok: "start_at ps off token c token1 \<Longrightarrow> token_ok ps token \<Longrightarrow> token_ok ps token1"
  by (auto simp: start_at_def token_ok_def split: if_splits)

lemma after_ok: "start_at ps off token c token1 \<Longrightarrow> token_ok ps token1 \<Longrightarrow> p \<in> set ps \<Longrightarrow> token_ok ps (token_after ps c p token1)"
  using start_current [of ps off token c token1] by (auto simp: token_after_def token_ok_def)

context sub_queue
begin

lemma token_spec_from:
  assumes all: "all_hold Q ps st" and d: "distinct ps" and s: "start_at ps off token c token1"
    and up: "(if desiredProducer token = None \<or> lastKnownGlobalOffset token \<noteq> off
       then update_current_producer_after_rotation ps prodCount off token else Some (True, token)) = Some (True, token1)"
  shows "case nonempty_of Q (rotate c ps) of
      [] \<Rightarrow> try_dequeue_token deq thr ps prodCount off token st = Some (NothingThere, token1, off, st)
    | p # _ \<Rightarrow> \<exists>x q p'. Q p = x # q \<and> holds q p' \<and> try_dequeue_token deq thr ps prodCount off token st
        = Some (if thr then (LostByThrow x, token1, off, st(p := p'))
                else (Got x, token_after ps c p token1, offset_after ps c p token1 off, st(p := p')))"
proof -
  note cur = start_current [OF s]
  have c: "c < length ps" using s by (simp add: start_at_def)
  note run = try_dequeue_token_def up option.case prod.case bool.case cur
  show ?thesis
  proof (cases "nonempty_of Q (rotate c ps)")
    case Nil
    then show ?thesis using deq_around_spec [OF all d c, of thr] by (simp add: run)
  next
    case (Cons p rest)
    obtain x q p' where x: "Q p = x # q" "holds q p'"
      and go: "if p = ps ! c then deq_at deq thr p st = Some (result_of thr x, st(p := p'))
           else deq_at deq thr (ps ! c) st = Some (NothingThere, st)
             \<and> try_around deq thr ps (ps ! c) (next_around ps (ps ! c)) st = Some (result_of thr x, p, st(p := p'))"
      using deq_around_spec [OF all d c, of thr] unfolding Cons list.case by blast
    have "try_dequeue_token deq thr ps prodCount off token st
        = Some (if thr then (LostByThrow x, token1, off, st(p := p'))
                else (Got x, token_after ps c p token1, offset_after ps c p token1 off, st(p := p')))"
    proof (cases "p = ps ! c")
      case True
      then have go': "deq_at deq thr (ps ! c) st = Some (result_of thr x, st(p := p'))" using go by simp
      show ?thesis unfolding run go' using True
        by (simp add: result_of_def token_after_def offset_after_def Let_def)
    next
      case False
      then have go': "deq_at deq thr (ps ! c) st = Some (NothingThere, st)"
        "try_around deq thr ps (ps ! c) (next_around ps (ps ! c)) st = Some (result_of thr x, p, st(p := p'))" using go by simp_all
      show ?thesis unfolding run go' using False
        by (simp add: result_of_def token_after_def offset_after_def go')
    qed
    then show ?thesis unfolding Cons list.case using x by blast
  qed
qed

end


section \<open>Emptying a queue\<close>

text \<open>\<open>drain n\<close>: \<open>n\<close> calls of \<^verbatim>\<open>try_dequeue\<close> that all return an element.\<close>

fun drain ::
  "('p \<Rightarrow> 64 word) \<Rightarrow> (bool \<Rightarrow> 'p \<Rightarrow> ('a dequeue_result \<times> 'p) option) \<Rightarrow> nat list \<Rightarrow> nat \<Rightarrow> (nat \<Rightarrow> 'p)
     \<Rightarrow> ('a list \<times> (nat \<Rightarrow> 'p)) option" where
  "drain sz deq ps 0 st = Some ([], st)"
| "drain sz deq ps (Suc n) st =
     (case try_dequeue sz deq False ps st of
        Some (Got x, st') \<Rightarrow> map_option (\<lambda>(xs, st''). (x # xs, st'')) (drain sz deq ps n st')
      | _ \<Rightarrow> None)"

text \<open>\<open>interleaved ps Q xs\<close>: \<open>xs\<close> is made of the lists \<open>Q p\<close>, each in its order and all of it.\<close>

fun interleaved :: "nat list \<Rightarrow> (nat \<Rightarrow> 'a list) \<Rightarrow> 'a list \<Rightarrow> bool" where
  "interleaved ps Q [] \<longleftrightarrow> (\<forall>p\<in>set ps. Q p = [])"
| "interleaved ps Q (x # xs) \<longleftrightarrow> (\<exists>p\<in>set ps. Q p \<noteq> [] \<and> hd (Q p) = x \<and> interleaved ps (Q(p := tl (Q p))) xs)"

lemma total_update:
  "distinct ps \<Longrightarrow> p \<in> set ps \<Longrightarrow> Q p = x # q \<Longrightarrow> (\<Sum>a\<leftarrow>ps. length (Q a)) = Suc (\<Sum>a\<leftarrow>ps. length ((Q(p := q)) a))"
proof (induction ps)
  case (Cons a ps)
  show ?case
  proof (cases "a = p")
    case True
    then have "map (\<lambda>a. length ((Q(p := q)) a)) ps = map (\<lambda>a. length (Q a)) ps" using Cons.prems by auto
    then show ?thesis using True Cons.prems(3) by (simp only: list.map sum_list.Cons fun_upd_same list.size)
  next
    case False
    then show ?thesis using Cons by simp
  qed
qed simp

lemma total_zero: "(\<Sum>p\<leftarrow>ps. length (Q p)) = 0 \<longleftrightarrow> nonempty_of Q ps = []"
  by (induction ps) auto

context sub_queue
begin

lemma drain_spec:
  assumes "all_hold Q ps st" "distinct ps" "n = (\<Sum>p\<leftarrow>ps. length (Q p))"
  shows "\<exists>xs st'. drain sz deq ps n st = Some (xs, st') \<and> interleaved ps Q xs
    \<and> try_dequeue sz deq thr ps st' = Some (NothingThere, st')"
  using assms
proof (induction n arbitrary: Q st)
  case 0
  then have "nonempty_of Q ps = []" by (metis total_zero)
  then show ?case using try_dequeue_spec [OF 0(1), of thr] set_nonempty_of [of Q ps] by auto
next
  case (Suc n)
  then have "nonempty_of Q ps \<noteq> []" by (metis nat.simps(3) total_zero)
  then obtain p x q p' where p: "p \<in> set (take 3 (nonempty_of Q ps))" and x: "Q p = x # q"
    and t: "try_dequeue sz deq False ps st = Some (result_of False x, st(p := p'))" and h: "holds q p'"
    using try_dequeue_spec [OF Suc.prems(1), of False] by (simp only: if_False) blast
  have mem: "p \<in> set ps" using in_set_takeD [OF p] by (simp add: set_nonempty_of)
  have "n = (\<Sum>a\<leftarrow>ps. length ((Q(p := q)) a))" using Suc.prems(2,3) total_update [of ps p Q x q] mem x by simp
  from Suc.IH [OF all_hold_update [OF Suc.prems(1) h] Suc.prems(2) this] obtain xs st'
    where rest: "drain sz deq ps n (st(p := p')) = Some (xs, st')" "interleaved ps (Q(p := q)) xs"
      "try_dequeue sz deq thr ps st' = Some (NothingThere, st')" by blast
  have "drain sz deq ps (Suc n) st = Some (x # xs, st')" using t rest(1) by (simp add: result_of_def)
  moreover have "interleaved ps Q (x # xs)" using mem x rest(2) by (auto intro!: bexI [of _ p])
  ultimately show ?case using rest(3) by blast
qed

end

section \<open>The queue\<close>

text \<open>
  Claim C14.  The two dequeue operations without a token, for any number of producers of either kind.
  Nothing is returned only when every sub-queue is empty; otherwise the oldest element of one
  sub-queue is returned and no other producer changes.  \<^verbatim>\<open>try_dequeue_non_interleaved\<close> takes the first
  producer with an element, \<^verbatim>\<open>try_dequeue\<close> a longest one of the first three.  The size is the sum of
  the sizes, with wrap-around.
\<close>

theorem try_dequeue_outcome:
  assumes "\<forall>p\<in>set ps. any_ok (Q p) (st p)"
  shows "queue_size_approx size_any ps st = of_nat (\<Sum>p\<leftarrow>ps. length (Q p))
    \<and> (if \<forall>p\<in>set ps. Q p = []
       then try_dequeue size_any dequeue_any thr ps st = Some (NothingThere, st)
         \<and> try_dequeue_non_interleaved dequeue_any thr ps st = Some (NothingThere, st)
       else (\<exists>p x q p'. p \<in> set (take 3 (nonempty_of Q ps))
           \<and> (\<forall>c\<in>set (take 3 (nonempty_of Q ps)). length (Q c) \<le> length (Q p)) \<and> Q p = x # q
           \<and> try_dequeue size_any dequeue_any thr ps st = Some (result_of thr x, st(p := p')) \<and> any_ok q p')
         \<and> (\<exists>p x q p'. find (\<lambda>a. Q a \<noteq> []) ps = Some p \<and> Q p = x # q \<and> any_ok q p'
           \<and> try_dequeue_non_interleaved dequeue_any thr ps st = Some (result_of thr x, st(p := p'))))"
proof -
  have all: "any_queue.all_hold Q ps st" using assms by (simp add: any_queue.all_hold_def)
  have e: "(\<forall>p\<in>set ps. Q p = []) \<longleftrightarrow> nonempty_of Q ps = []" by (auto simp: nonempty_of_def filter_empty_conv)
  note size = any_queue.queue_size_spec [OF all]
    and one = any_queue.try_dequeue_spec [OF all, of thr] any_queue.non_interleaved_spec [OF all, of thr]
  show ?thesis
  proof (cases "nonempty_of Q ps")
    case Nil
    then show ?thesis using size one unfolding e by simp
  next
    case (Cons a rest)
    then have ne: "nonempty_of Q ps \<noteq> []" by simp
    show ?thesis using size one find_nonempty [of Q ps] unfolding e if_not_P [OF ne] unfolding Cons list.case by blast
  qed
qed

text \<open>A queue of two producers, an explicit one without elements and an implicit one with one.\<close>

definition sample_contents :: "nat \<Rightarrow> nat list" where
  "sample_contents p = (if p = 0 then [7] else [])"

lemma sample_queue: "\<exists>st. \<forall>p\<in>set [1, 0]. any_ok (sample_contents p) (st p)"
proof -
  obtain p where e: "enqueue (- 1) CannotAlloc False False Noexcept (7 :: nat) (ImplicitProducer True 2) = Some (Enqueued, p)"
    using first_enqueue by blast
  have "producer_reach (- 1) 2 [7 :: nat] [] p" using producer_reach.enq [OF producer_reach.init _ e] by simp
  then have "producer_ok [7] p" using producer_reach_ok by fastforce
  then show ?thesis
    by (intro exI [of _ "\<lambda>a. if a = 0 then ImplicitOne p else ExplicitOne (ExplicitProducer True 2)"])
      (simp add: sample_contents_def ExplicitProducer_ok)
qed

theorem try_dequeue_outcome_witness:
  "\<exists>st p'. queue_size_approx size_any [1, 0] st = 1
     \<and> try_dequeue size_any dequeue_any False [1, 0] st = Some (Got (7 :: nat), st(0 := p'))"
proof -
  obtain st where st: "\<forall>p\<in>set [1, 0]. any_ok (sample_contents p) (st p)" using sample_queue by blast
  from try_dequeue_outcome [OF st, of False] show ?thesis by (auto simp: sample_contents_def result_of_def)
qed

text \<open>
  Claim C13.  Emptying the queue.  With \<open>n\<close> elements in the sub-queues, \<open>n\<close> calls of \<^verbatim>\<open>try_dequeue\<close>
  return an element each, the next one returns none, and the elements returned are an interleaving of
  the sub-queues: each element once, and those of a producer in the order it enqueued them.
\<close>

theorem queue_drains:
  assumes "\<forall>p\<in>set ps. any_ok (Q p) (st p)" "distinct ps"
  shows "\<exists>xs st'. drain size_any dequeue_any ps (\<Sum>p\<leftarrow>ps. length (Q p)) st = Some (xs, st') \<and> interleaved ps Q xs
    \<and> try_dequeue size_any dequeue_any thr ps st' = Some (NothingThere, st')"
  using any_queue.drain_spec [OF _ assms(2) refl, of Q st thr] assms(1) by (simp add: any_queue.all_hold_def)

theorem queue_drains_witness:
  "\<exists>st st'. drain size_any dequeue_any [1, 0] 1 st = Some ([7 :: nat], st')
     \<and> try_dequeue size_any dequeue_any False [1, 0] st' = Some (NothingThere, st')"
proof -
  obtain st where st: "\<forall>p\<in>set [1, 0]. any_ok (sample_contents p) (st p)" using sample_queue by blast
  have total: "(\<Sum>p\<leftarrow>[1, 0]. length (sample_contents p)) = 1" by (simp add: sample_contents_def)
  obtain xs st' where d: "drain size_any dequeue_any [1, 0] 1 st = Some (xs, st')" "interleaved [1, 0] sample_contents xs"
    "try_dequeue size_any dequeue_any False [1, 0] st' = Some (NothingThere, st')"
    using queue_drains [OF st, of False] unfolding total by auto
  have "xs = [7]"
  proof (cases xs)
    case (Cons x ys)
    then show ?thesis using d(2) by (cases ys) (auto simp: sample_contents_def)
  qed (use d(2) in \<open>simp add: sample_contents_def\<close>)
  then show ?thesis using d(1,3) by blast
qed

text \<open>
  Claim C15.  Dequeueing with a consumer token.  The call returns, whatever the token has seen: it
  starts at the token's place, which moves on by the rotations since its last call, and takes the
  oldest element of the first producer with one, going around the chain once.  After the quota of
  elements from one producer it starts a rotation.  A token keeps pointing at producers of the chain.
\<close>

theorem try_dequeue_with_token:
  assumes "\<forall>p\<in>set ps. any_ok (Q p) (st p)" "distinct ps" "unat prodCount = length ps" "ps \<noteq> []" "token_ok ps token"
  shows "\<exists>c token1. start_at ps off token c token1 \<and> token_ok ps token1
    \<and> (case find (\<lambda>p. Q p \<noteq> []) (rotate c ps) of
         None \<Rightarrow> try_dequeue_token dequeue_any thr ps prodCount off token st = Some (NothingThere, token1, off, st)
       | Some p \<Rightarrow> \<exists>x q p'. Q p = x # q \<and> any_ok q p' \<and> token_ok ps (token_after ps c p token1)
           \<and> try_dequeue_token dequeue_any thr ps prodCount off token st
             = Some (if thr then (LostByThrow x, token1, off, st(p := p'))
                     else (Got x, token_after ps c p token1, offset_after ps c p token1 off, st(p := p'))))"
proof -
  have all: "any_queue.all_hold Q ps st" using assms by (simp add: any_queue.all_hold_def)
  obtain c token1 where s: "start_at ps off token c token1"
    and u: "(if desiredProducer token = None \<or> lastKnownGlobalOffset token \<noteq> off
       then update_current_producer_after_rotation ps prodCount off token else Some (True, token)) = Some (True, token1)"
    using start_exists [OF assms(2-5), of off] by blast
  note ok = start_ok [OF s assms(5)]
  have p: "p \<in> set ps" if "nonempty_of Q (rotate c ps) = p # z" for p z
    using that set_nonempty_of [of Q "rotate c ps"] by (metis (no_types, lifting) list.set_intros(1) mem_Collect_eq set_rotate)
  show ?thesis
  proof (cases "nonempty_of Q (rotate c ps)")
    case Nil
    then show ?thesis using any_queue.token_spec_from [OF all assms(2) s u, of thr] unfolding find_nonempty
      by (intro exI [of _ c] exI [of _ token1] conjI s ok) (simp only: Nil list.case option.case)
  next
    case (Cons p rest)
    then show ?thesis using any_queue.token_spec_from [OF all assms(2) s u, of thr] after_ok [OF s ok p [OF Cons]] unfolding find_nonempty
      by (intro exI [of _ c] exI [of _ token1] conjI s ok) (simp only: Cons list.case option.case True_implies_equals HOL.simp_thms)
  qed
qed

theorem try_dequeue_with_token_witness:
  "\<exists>st tok p'. try_dequeue_token dequeue_any False [1, 0] 2 0 (fst (new_ConsumerToken 0)) st = Some (Got (7 :: nat), tok, 0, st(0 := p'))
     \<and> currentProducer tok = Some 0 \<and> desiredProducer tok = Some 1"
proof -
  let ?t = "fst (new_ConsumerToken 0)"
  obtain st where st: "\<forall>p\<in>set [1, 0]. any_ok (sample_contents p) (st p)" using sample_queue by blast
  have t: "token_ok [1, 0] ?t" by (simp add: token_ok_def new_ConsumerToken_def)
  have f: "find (\<lambda>p. sample_contents p \<noteq> []) (rotate c [1, 0]) = Some 0" if "start_at [1, 0] 0 ?t c tok" for c tok
    using that by (auto simp: start_at_def place_def new_ConsumerToken_def sample_contents_def Let_def numeral_2_eq_2)
  have c: "c = 0 \<and> token_after [1, 0] c 0 tok = tok\<lparr>currentProducer := Some 0, itemsConsumedFromCurrent := 1\<rparr>
      \<and> offset_after [1, 0] c 0 tok 0 = 0 \<and> desiredProducer tok = Some 1"
    if "start_at [1, 0] 0 ?t c tok" for c tok
    using that by (auto simp: start_at_def place_def new_ConsumerToken_def token_after_def offset_after_def Let_def)
  obtain c tok where s: "start_at [1, 0] 0 ?t c tok" and r: "case find (\<lambda>p. sample_contents p \<noteq> []) (rotate c [1, 0]) of
         None \<Rightarrow> try_dequeue_token dequeue_any False [1, 0] 2 0 ?t st = Some (NothingThere, tok, 0, st)
       | Some p \<Rightarrow> \<exists>x q p'. sample_contents p = x # q \<and> any_ok q p' \<and> token_ok [1, 0] (token_after [1, 0] c p tok)
           \<and> try_dequeue_token dequeue_any False [1, 0] 2 0 ?t st
             = Some (if False then (LostByThrow x, tok, 0, st(p := p'))
                     else (Got x, token_after [1, 0] c p tok, offset_after [1, 0] c p tok 0, st(p := p')))"
    using try_dequeue_with_token [OF st _ _ _ t, of 2 0 False] by auto
  define tok' where "tok' = tok\<lparr>currentProducer := Some 0, itemsConsumedFromCurrent := 1\<rparr>"
  obtain p' where "try_dequeue_token dequeue_any False [1, 0] 2 0 ?t st = Some (Got 7, tok', 0, st(0 := p'))"
    using r c [OF s] unfolding f [OF s] option.case tok'_def by (auto simp: sample_contents_def)
  moreover have "currentProducer tok' = Some 0" "desiredProducer tok' = Some 1" using c [OF s] by (simp_all add: tok'_def)
  ultimately show ?thesis by blast
qed

end
