(* ===== verification/CQ_Bulk.thy ===== *)
theory CQ_Bulk
  imports CQ_Queue
begin

text \<open>
  Dequeueing several elements at once from the lock-free queue
  (\<^verbatim>\<open>Source/Core/Private/Core/Utilities/Containers/ConcurrentQueue.h\<close>): \<^verbatim>\<open>dequeue_bulk\<close> of both kinds of
  producer and \<^verbatim>\<open>try_dequeue_bulk\<close>, call by call.  The loops over the blocks are the same text for both kinds and
  take the accesses to the block index as arguments.  A bulk call is shown to be as many single calls.
\<close>

unbundle bit_operations_syntax

section \<open>The loops\<close>

text \<open>
  Moving \<open>n\<close> elements out of a block, from index \<open>i\<close> on; the assignment with the number \<open>thr\<close>, if any, throws.
  The result is the elements assigned, whether an assignment threw, the index reached and the block.
\<close>

fun move_slots :: "nat \<Rightarrow> nat option \<Rightarrow> 64 word \<Rightarrow> 'a block \<Rightarrow> ('a list \<times> bool \<times> 64 word \<times> 'a block) option" where
  "move_slots 0 thr i b = Some ([], False, i, b)"
| "move_slots (Suc n) thr i b =
     (case block_get i b of
        None \<Rightarrow> None
      | Some el \<Rightarrow>
          if thr = Some 0 then Some ([], True, i, b)
          else map_option (\<lambda>(els, r). (el # els, r))
                 (move_slots n (map_option (\<lambda>k. k - 1) thr) (i + 1) (block_put i None b)))"

fun destroy_slots :: "nat \<Rightarrow> 64 word \<Rightarrow> 'a block \<Rightarrow> 'a block option" where
  "destroy_slots 0 i b = Some b"
| "destroy_slots (Suc n) i b =
     (case block_get i b of None \<Rightarrow> None | Some _ \<Rightarrow> destroy_slots n (i + 1) (block_put i None b))"

definition end_index :: "64 word \<Rightarrow> 64 word \<Rightarrow> 64 word" where
  "end_index lastIndex index =
     (let endIndex = (index AND NOT (BLOCK_SIZE - 1)) + BLOCK_SIZE
      in if circular_less_than lastIndex endIndex then lastIndex else endIndex)"

lemma end_index_closer:
  assumes "end_index lastIndex index \<noteq> lastIndex"
  shows "unat (lastIndex - end_index lastIndex index) < unat (lastIndex - index)"
proof -
  define e where "e = end_index lastIndex index"
  have e: "e = index - of_nat (slot index) + BLOCK_SIZE" and nl: "\<not> circular_less_than lastIndex e"
    using assms by (auto simp: e_def end_index_def Let_def base_diff split: if_splits)
  define s where "s = 32 - slot index"
  have s: "0 < s" "s \<le> 32" "e = index + of_nat s"
    using slot_le [of index] by (auto simp: e s_def BLOCK_SIZE_def of_nat_diff)
  have u: "unat (of_nat s :: 64 word) = s" using s(2) by (intro unat_of_nat_small) simp
  have d: "unat (e - lastIndex) = 0 \<or> 2 ^ 63 \<le> unat (e - lastIndex)" using nl by (auto simp: circular_less_than_iff)
  have "e \<noteq> lastIndex" using assms by (simp add: e_def)
  then have "2 ^ 63 \<le> unat (e - lastIndex)" using d by (simp add: unat_eq_zero)
  moreover have "unat (lastIndex - e) = 2 ^ 64 - unat (e - lastIndex)"
    using unat_uminus [of "e - lastIndex"] \<open>e \<noteq> lastIndex\<close> by simp
  ultimately have "unat (lastIndex - e) + s < 2 ^ 64" using s(2) by simp
  then have "unat (lastIndex - e + of_nat s) = unat (lastIndex - e) + s" by (rule unat_add_small)
  moreover have "lastIndex - e + of_nat s = lastIndex - index" by (simp add: s(3))
  ultimately have "unat (lastIndex - index) = unat (lastIndex - e) + s" by (simp only:)
  then show ?thesis using s(1) by (simp add: e_def)
qed

text \<open>
  The block at a position of the index is \<open>blk_at\<close>, what is done with an emptied stretch of a block is \<open>fin\<close>, the next
  position is \<open>nxt\<close>.  The loop of the handler destroys what is left and counts it as emptied.
\<close>

function catch_loop ::
  "(64 word \<Rightarrow> ('a, 'z) producer_base_scheme \<Rightarrow> nat option)
   \<Rightarrow> (64 word \<Rightarrow> nat \<Rightarrow> 64 word \<Rightarrow> 64 word \<Rightarrow> ('a, 'z) producer_base_scheme \<Rightarrow> ('a, 'z) producer_base_scheme)
   \<Rightarrow> (64 word \<Rightarrow> 64 word) \<Rightarrow> 64 word \<Rightarrow> 64 word \<Rightarrow> 64 word \<Rightarrow> 64 word \<Rightarrow> 64 word
   \<Rightarrow> ('a, 'z) producer_base_scheme \<Rightarrow> ('a, 'z) producer_base_scheme option" where
  "catch_loop blk_at fin nxt lastIndex endIndex index blockStartIndex indexIndex p =
     (case blk_at indexIndex p of
        None \<Rightarrow> None
      | Some b \<Rightarrow>
          (case destroy_slots (unat (endIndex - index)) index (blocks p b) of
             None \<Rightarrow> None
           | Some blk \<Rightarrow>
               (let p1 = fin indexIndex b blockStartIndex (endIndex - blockStartIndex) (upd_block b (\<lambda>_. blk) p)
                in if endIndex = lastIndex then Some p1
                   else catch_loop blk_at fin nxt lastIndex (end_index lastIndex endIndex) endIndex endIndex (nxt indexIndex) p1)))"
  by pat_completeness auto
termination
proof (relation "measure (\<lambda>(blk_at, fin, nxt, lastIndex, endIndex, index, blockStartIndex, indexIndex, p). unat (lastIndex - endIndex))", goal_cases)
  case (2 blk_at fin nxt lastIndex endIndex index blockStartIndex indexIndex p b blk p1)
  then show ?case using end_index_closer [of lastIndex endIndex]
    by (cases "end_index lastIndex endIndex = lastIndex") (simp_all add: unat_gt_0)
qed simp

datatype 'a bulk_result = Moved "'a list" | ThrewAfter "'a list"

fun prepend :: "'a list \<Rightarrow> 'a bulk_result \<Rightarrow> 'a bulk_result" where
  "prepend xs (Moved ys) = Moved (xs @ ys)"
| "prepend xs (ThrewAfter ys) = ThrewAfter (xs @ ys)"

function bulk_loop ::
  "(64 word \<Rightarrow> ('a, 'z) producer_base_scheme \<Rightarrow> nat option)
   \<Rightarrow> (64 word \<Rightarrow> nat \<Rightarrow> 64 word \<Rightarrow> 64 word \<Rightarrow> ('a, 'z) producer_base_scheme \<Rightarrow> ('a, 'z) producer_base_scheme)
   \<Rightarrow> (64 word \<Rightarrow> 64 word) \<Rightarrow> nat option \<Rightarrow> 64 word \<Rightarrow> 64 word \<Rightarrow> 64 word
   \<Rightarrow> ('a, 'z) producer_base_scheme \<Rightarrow> ('a bulk_result \<times> ('a, 'z) producer_base_scheme) option" where
  "bulk_loop blk_at fin nxt thr lastIndex index indexIndex p =
     (let endIndex = end_index lastIndex index
      in case blk_at indexIndex p of
           None \<Rightarrow> None
         | Some b \<Rightarrow>
             (case move_slots (unat (endIndex - index)) thr index (blocks p b) of
                None \<Rightarrow> None
              | Some (moved, threw, index', blk) \<Rightarrow>
                  (let p1 = upd_block b (\<lambda>_. blk) p
                   in if threw then
                        map_option (Pair (ThrewAfter moved)) (catch_loop blk_at fin nxt lastIndex endIndex index' index indexIndex p1)
                      else
                        (let p2 = fin indexIndex b index (endIndex - index) p1
                         in if endIndex = lastIndex then Some (Moved moved, p2)
                            else map_option (\<lambda>(r, p'). (prepend moved r, p'))
                                   (bulk_loop blk_at fin nxt (map_option (\<lambda>k. k - length moved) thr) lastIndex endIndex (nxt indexIndex) p2)))))"
  by pat_completeness auto
termination
  by (relation "measure (\<lambda>(blk_at, fin, nxt, thr, lastIndex, index, indexIndex, p). unat (lastIndex - index))")
    (simp_all add: end_index_closer)

declare catch_loop.simps [simp del] bulk_loop.simps [simp del]

section \<open>The calls\<close>

text \<open>
  The counters, then the blocks.  \<open>hdr\<close> is the block index, \<open>pos\<close> the position of the block with an index.
\<close>

definition dequeue_bulk_with ::
  "(('a, 'z) producer_base_scheme \<Rightarrow> 'h option) \<Rightarrow> ('h \<Rightarrow> 64 word \<Rightarrow> ('a, 'z) producer_base_scheme \<Rightarrow> nat option)
   \<Rightarrow> ('h \<Rightarrow> 64 word \<Rightarrow> nat \<Rightarrow> 64 word \<Rightarrow> 64 word \<Rightarrow> ('a, 'z) producer_base_scheme \<Rightarrow> ('a, 'z) producer_base_scheme)
   \<Rightarrow> ('h \<Rightarrow> 64 word \<Rightarrow> 64 word) \<Rightarrow> ('h \<Rightarrow> 64 word \<Rightarrow> ('a, 'z) producer_base_scheme \<Rightarrow> 64 word option)
   \<Rightarrow> nat option \<Rightarrow> 64 word \<Rightarrow> ('a, 'z) producer_base_scheme \<Rightarrow> ('a bulk_result \<times> ('a, 'z) producer_base_scheme) option" where
  "dequeue_bulk_with hdr blk_at fin nxt pos thr max_count p =
     (let overcommit = dequeueOvercommit p;
          available = tailIndex p - (dequeueOptimisticCount p - overcommit)
      in if circular_less_than 0 available then
           (let desiredCount = (if available < max_count then available else max_count);
                myDequeueCount = dequeueOptimisticCount p;
                p1 = p\<lparr>dequeueOptimisticCount := myDequeueCount + desiredCount\<rparr>;
                left = tailIndex p1 - (myDequeueCount - overcommit)
            in if circular_less_than 0 left then
                 (let actualCount = (if desiredCount < left then desiredCount else left);
                      p2 = (if actualCount < desiredCount
                            then p1\<lparr>dequeueOvercommit := dequeueOvercommit p1 + (desiredCount - actualCount)\<rparr> else p1);
                      firstIndex = headIndex p2;
                      p3 = p2\<lparr>headIndex := firstIndex + actualCount\<rparr>
                  in case hdr p3 of
                       None \<Rightarrow> None
                     | Some h \<Rightarrow>
                         (case pos h firstIndex p3 of
                            None \<Rightarrow> None
                          | Some indexIndex \<Rightarrow>
                              bulk_loop (blk_at h) (fin h) (nxt h) thr (firstIndex + actualCount) firstIndex indexIndex p3))
               else Some (Moved [], p1\<lparr>dequeueOvercommit := dequeueOvercommit p1 + desiredCount\<rparr>))
         else Some (Moved [], p))"

text \<open>Implicit producers: an emptied block leaves the index and goes to the free list.\<close>

definition block_at :: "BlockIndexHeader \<Rightarrow> 64 word \<Rightarrow> 'a producer \<Rightarrow> nat option" where
  "block_at h indexIndex p = entry_value p (bi_index h ! unat indexIndex)"

definition release_slots :: "BlockIndexHeader \<Rightarrow> 64 word \<Rightarrow> nat \<Rightarrow> 64 word \<Rightarrow> 64 word \<Rightarrow> 'a producer \<Rightarrow> 'a producer" where
  "release_slots h indexIndex b start count p =
     (let (now_empty, blk) = set_many_empty implicit_context start count (blocks p b);
          p1 = upd_block b (\<lambda>_. blk) p
      in if now_empty then add_block_to_free_list b (set_entry_value (bi_index h ! unat indexIndex) None p1) else p1)"

definition next_position :: "BlockIndexHeader \<Rightarrow> 64 word \<Rightarrow> 64 word" where
  "next_position h ii = (ii + 1) AND (capacity h - 1)"

definition head_position :: "BlockIndexHeader \<Rightarrow> 64 word \<Rightarrow> 'a producer \<Rightarrow> 64 word option" where
  "head_position h index p = Some (get_block_index_index_for_index index h p)"

definition dequeue_bulk :: "nat option \<Rightarrow> 64 word \<Rightarrow> 'a producer \<Rightarrow> ('a bulk_result \<times> 'a producer) option" where
  "dequeue_bulk =
     dequeue_bulk_with blockIndex block_at release_slots next_position head_position"

text \<open>Explicit producers: the block stays in the circular list.\<close>

definition x_block_at :: "ExplicitIndex \<Rightarrow> 64 word \<Rightarrow> 'a explicit_producer \<Rightarrow> nat option" where
  "x_block_at h indexIndex p = map_option snd (ix_entries h ! unat indexIndex)"

definition x_release_slots :: "ExplicitIndex \<Rightarrow> 64 word \<Rightarrow> nat \<Rightarrow> 64 word \<Rightarrow> 64 word \<Rightarrow> 'a explicit_producer \<Rightarrow> 'a explicit_producer" where
  "x_release_slots h indexIndex b start count p = upd_block b (\<lambda>blk. snd (set_many_empty explicit_context start count blk)) p"

definition x_position :: "ExplicitIndex \<Rightarrow> 64 word \<Rightarrow> 'a explicit_producer \<Rightarrow> 64 word option" where
  "x_position h index p =
     (case ix_entries h ! unat (ix_front h) of
        None \<Rightarrow> None
      | Some (headBase, _) \<Rightarrow>
          (let offset = ((index AND NOT (BLOCK_SIZE - 1)) - headBase) div BLOCK_SIZE
           in Some ((ix_front h + offset) AND (ix_size h - 1))))"

definition x_next_position :: "ExplicitIndex \<Rightarrow> 64 word \<Rightarrow> 64 word" where
  "x_next_position h ii = (ii + 1) AND (ix_size h - 1)"

definition x_dequeue_bulk :: "nat option \<Rightarrow> 64 word \<Rightarrow> 'a explicit_producer \<Rightarrow> ('a bulk_result \<times> 'a explicit_producer) option" where
  "x_dequeue_bulk =
     dequeue_bulk_with x_blockIndex x_block_at x_release_slots x_next_position x_position"

section \<open>Slots\<close>

primrec clear_slots :: "nat \<Rightarrow> 64 word \<Rightarrow> 'a block \<Rightarrow> 'a block" where
  "clear_slots 0 i b = b"
| "clear_slots (Suc n) i b = clear_slots n (i + 1) (block_put i None b)"

lemma clear_slots_add: "clear_slots (j + k) i b = clear_slots k (i + of_nat j) (clear_slots j i b)"
  by (induction j arbitrary: i b) (simp_all add: ac_simps)

lemma block_put_upd:
  "block_put i x (b\<lparr>elementsCompletelyDequeued := c\<rparr>) = (block_put i x b)\<lparr>elementsCompletelyDequeued := c\<rparr>"
  "block_put i x (b\<lparr>emptyFlags := fs\<rparr>) = (block_put i x b)\<lparr>emptyFlags := fs\<rparr>"
  "elementsCompletelyDequeued (block_put i x b) = elementsCompletelyDequeued b" "emptyFlags (block_put i x b) = emptyFlags b"
  by (simp_all add: block_put_def)

lemma clear_slots_upd:
  "clear_slots k i (b\<lparr>elementsCompletelyDequeued := c\<rparr>) = (clear_slots k i b)\<lparr>elementsCompletelyDequeued := c\<rparr>"
  "clear_slots k i (b\<lparr>emptyFlags := fs\<rparr>) = (clear_slots k i b)\<lparr>emptyFlags := fs\<rparr>"
  "elementsCompletelyDequeued (clear_slots k i b) = elementsCompletelyDequeued b" "emptyFlags (clear_slots k i b) = emptyFlags b"
  by (induction k arbitrary: i b) (simp_all add: block_put_upd)

lemma slot_next: "slot i < 31 \<Longrightarrow> slot (i + 1) = Suc (slot i)"
  using slot_add [of i 1] by simp

lemma get_after_put:
  assumes "slot i + Suc j < 32"
  shows "block_get (i + 1 + of_nat j) (block_put i x b) = block_get (i + 1 + of_nat j) b"
proof -
  have "slot (i + 1 + of_nat j) = slot i + Suc j" using slot_add [of i "Suc j"] assms by (simp add: ac_simps)
  then show ?thesis by (simp add: block_get_def block_put_def)
qed

definition filled :: "'a list \<Rightarrow> 64 word \<Rightarrow> 'a block \<Rightarrow> bool" where
  "filled xs i b \<longleftrightarrow> slot i + length xs \<le> 32 \<and> (\<forall>j<length xs. block_get (i + of_nat j) b = Some (xs ! j))"

lemma filled_Cons:
  assumes "filled (x # xs) i b"
  shows "block_get i b = Some x" "filled xs (i + 1) (block_put i None b)"
proof -
  have g: "block_get (i + of_nat j) b = Some ((x # xs) ! j)" if "j < length (x # xs)" for j
    using assms that by (simp add: filled_def)
  show "block_get i b = Some x" using g [of 0] by simp
  show "filled xs (i + 1) (block_put i None b)"
  proof (cases xs)
    case Nil
    then show ?thesis using slot_le [of "i + 1"] by (simp add: filled_def)
  next
    case (Cons y ys)
    then have "slot (i + 1) = Suc (slot i)" using assms by (intro slot_next) (simp add: filled_def)
    moreover have "block_get (i + 1 + of_nat j) (block_put i None b) = Some (xs ! j)" if "j < length xs" for j
      using g [of "Suc j"] that assms by (subst get_after_put) (simp_all add: filled_def ac_simps)
    ultimately show ?thesis using assms by (simp add: filled_def)
  qed
qed

lemma move_slots_all:
  "filled xs i b \<Longrightarrow> (case thr of None \<Rightarrow> True | Some k \<Rightarrow> length xs \<le> k)
   \<Longrightarrow> move_slots (length xs) thr i b = Some (xs, False, i + of_nat (length xs), clear_slots (length xs) i b)"
proof (induction xs arbitrary: i b thr)
  case (Cons x xs)
  note f = filled_Cons [OF Cons.prems(1)]
  have "case map_option (\<lambda>k. k - 1) thr of None \<Rightarrow> True | Some k \<Rightarrow> length xs \<le> k" using Cons.prems(2) by (cases thr) auto
  then show ?case using Cons.IH [OF f(2)] Cons.prems(2) f(1) by (auto simp: ac_simps split: option.splits)
qed simp

lemma move_slots_throw:
  "filled xs i b \<Longrightarrow> k < length xs
   \<Longrightarrow> move_slots (length xs) (Some k) i b = Some (take k xs, True, i + of_nat k, clear_slots k i b)"
proof (induction xs arbitrary: i b k)
  case (Cons x xs)
  note f = filled_Cons [OF Cons.prems(1)]
  then show ?case using Cons.IH [OF f(2), of "k - 1"] Cons.prems(2) by (cases k) (auto simp: ac_simps)
qed simp

lemma destroy_slots_all: "filled xs i b \<Longrightarrow> destroy_slots (length xs) i b = Some (clear_slots (length xs) i b)"
  by (induction xs arbitrary: i b) (simp_all add: filled_Cons)

lemma filled_rest:
  assumes "filled xs i b" "k < length xs"
  shows "filled (drop k xs) (i + of_nat k) (clear_slots k i b)"
  using assms
proof (induction k arbitrary: xs i b)
  case (Suc k)
  then obtain x ys where xs: "xs = x # ys" by (cases xs) auto
  show ?case using Suc.IH [OF filled_Cons(2) [OF Suc.prems(1) [unfolded xs]]] Suc.prems(2) by (simp add: xs ac_simps)
qed simp

section \<open>Single calls\<close>

fun deq_n :: "(bool \<Rightarrow> 'p \<Rightarrow> ('a dequeue_result \<times> 'p) option) \<Rightarrow> nat \<Rightarrow> 'p \<Rightarrow> ('a list \<times> 'p) option" where
  "deq_n deq 0 p = Some ([], p)"
| "deq_n deq (Suc n) p =
     (case deq False p of
        Some (Got x, p') \<Rightarrow> map_option (\<lambda>(xs, p''). (x # xs, p'')) (deq_n deq n p')
      | _ \<Rightarrow> None)"

lemma deq_n_add:
  "deq_n deq m p = Some (xs, p1) \<Longrightarrow> deq_n deq n p1 = Some (ys, p2) \<Longrightarrow> deq_n deq (m + n) p = Some (xs @ ys, p2)"
  by (induction m arbitrary: p xs) (fastforce split: option.splits dequeue_result.splits)+

text \<open>A producer with other head counters, and with \<open>k\<close> elements of a block taken.\<close>

definition with_head :: "64 word \<Rightarrow> 64 word \<Rightarrow> ('a, 'z) producer_base_scheme \<Rightarrow> ('a, 'z) producer_base_scheme" where
  "with_head hi oc p = p\<lparr>dequeueOptimisticCount := oc, headIndex := hi\<rparr>"

definition seg_done ::
  "(64 word \<Rightarrow> nat \<Rightarrow> 64 word \<Rightarrow> 64 word \<Rightarrow> ('a, 'z) producer_base_scheme \<Rightarrow> ('a, 'z) producer_base_scheme)
     \<Rightarrow> 64 word \<Rightarrow> nat \<Rightarrow> nat \<Rightarrow> ('a, 'z) producer_base_scheme \<Rightarrow> ('a, 'z) producer_base_scheme" where
  "seg_done fin ii b k p = with_head (headIndex p + of_nat k) (dequeueOptimisticCount p + of_nat k)
     (fin ii b (headIndex p) (of_nat k) (upd_block b (clear_slots k (headIndex p)) p))"

lemma with_head_simps [simp]:
  "headIndex (with_head hi oc p) = hi" "dequeueOptimisticCount (with_head hi oc p) = oc"
  "blocks (with_head hi oc p) = blocks p" "with_head hi oc (with_head hi' oc' p) = with_head hi oc p"
  "upd_block b f (with_head hi oc p) = with_head hi oc (upd_block b f p)"
  "with_head (headIndex p) (dequeueOptimisticCount p) p = p"
  by (simp_all add: with_head_def upd_block_def)

lemma end_index_within:
  assumes "n < 2 ^ 63"
  shows "end_index (i + of_nat n) i = i + of_nat (min n (32 - slot i))"
proof -
  define s where "s = 32 - slot i"
  have "(i AND NOT (BLOCK_SIZE - 1)) + BLOCK_SIZE = i + of_nat s"
    unfolding base_diff using slot_le [of i] by (simp add: s_def BLOCK_SIZE_def of_nat_diff)
  moreover have "circular_less_than (i + of_nat n) (i + of_nat s) \<longleftrightarrow> n < s"
  proof (cases "n \<le> s")
    case True
    then have d: "(i + of_nat s) - (i + of_nat n) = of_nat (s - n)" by (simp add: of_nat_diff)
    have "unat (of_nat (s - n) :: 64 word) = s - n" by (intro unat_of_nat_small) (simp add: s_def)
    then show ?thesis unfolding circular_less_than_iff d by (auto simp: s_def)
  next
    case False
    have d: "(i + of_nat s) - (i + of_nat n) = - of_nat (n - s)" using False by (simp add: of_nat_diff)
    have u: "unat (of_nat (n - s) :: 64 word) = n - s" using assms by (intro unat_of_nat_small) simp
    have "of_nat (n - s) \<noteq> (0 :: 64 word)" using u False by (metis diff_is_0_eq unat_0)
    then have "unat (- of_nat (n - s) :: 64 word) = 2 ^ 64 - (n - s)"
      using unat_uminus [of "of_nat (n - s) :: 64 word"] u by simp
    then show ?thesis unfolding circular_less_than_iff d using False assms by simp
  qed
  ultimately show ?thesis by (simp add: end_index_def Let_def min_def flip: s_def)
qed

section \<open>The contract of a producer\<close>

text \<open>
  What the loops need of a producer: the block at the head holds the oldest element, a single call is a stretch of
  length one, stretches of one block add up, and after the last slot the next position is the head's.
\<close>

definition at_head where
  "at_head hdr blk_at pos h ii b p \<longleftrightarrow> hdr p = Some h \<and> pos h (headIndex p) p = Some ii \<and> blk_at h ii p = Some b"

locale bulk_queue =
  fixes holds :: "'a list \<Rightarrow> ('a, 'z) producer_base_scheme \<Rightarrow> bool"
    and deq :: "bool \<Rightarrow> ('a, 'z) producer_base_scheme \<Rightarrow> ('a dequeue_result \<times> ('a, 'z) producer_base_scheme) option"
    and hdr :: "('a, 'z) producer_base_scheme \<Rightarrow> 'h option"
    and blk_at :: "'h \<Rightarrow> 64 word \<Rightarrow> ('a, 'z) producer_base_scheme \<Rightarrow> nat option"
    and fin :: "'h \<Rightarrow> 64 word \<Rightarrow> nat \<Rightarrow> 64 word \<Rightarrow> 64 word \<Rightarrow> ('a, 'z) producer_base_scheme \<Rightarrow> ('a, 'z) producer_base_scheme"
    and nxt :: "'h \<Rightarrow> 64 word \<Rightarrow> 64 word"
    and pos :: "'h \<Rightarrow> 64 word \<Rightarrow> ('a, 'z) producer_base_scheme \<Rightarrow> 64 word option"
  assumes counters: "holds q p \<Longrightarrow> tailIndex p = headIndex p + of_nat (length q)
        \<and> dequeueOptimisticCount p - dequeueOvercommit p = headIndex p \<and> length q < 2 ^ 63"
    and first: "holds (x # q) p \<Longrightarrow> \<exists>h ii b. at_head hdr blk_at pos h ii b p
        \<and> block_get (headIndex p) (blocks p b) = Some x \<and> fin h ii b (headIndex p) 0 p = p
        \<and> deq False p = Some (Got x, seg_done (fin h) ii b 1 p) \<and> holds q (seg_done (fin h) ii b 1 p)"
    and stay: "holds (x # q) p \<Longrightarrow> at_head hdr blk_at pos h ii b p \<Longrightarrow> slot (headIndex p) < 31
        \<Longrightarrow> at_head hdr blk_at pos h ii b (seg_done (fin h) ii b 1 p)
          \<and> (0 < k \<longrightarrow> slot (headIndex p) + Suc k \<le> 32
               \<longrightarrow> seg_done (fin h) ii b k (seg_done (fin h) ii b 1 p) = seg_done (fin h) ii b (Suc k) p)"
    and move: "holds (x # y # q) p \<Longrightarrow> at_head hdr blk_at pos h ii b p \<Longrightarrow> slot (headIndex p) = 31
        \<Longrightarrow> hdr (seg_done (fin h) ii b 1 p) = Some h
          \<and> pos h (headIndex p + 1) (seg_done (fin h) ii b 1 p) = Some (nxt h ii)"
    and frame: "blk_at h ii (with_head hi oc p) = blk_at h ii p" "blk_at h ii (upd_block b f p) = blk_at h ii p"
      "hdr (with_head hi oc p) = hdr p" "pos h i (with_head hi oc p) = pos h i p"
      "fin h ii b i c (with_head hi oc p) = with_head hi oc (fin h ii b i c p)"
      "elements (blocks (fin h ii b i c p) b') = elements (blocks p b')"
begin

lemma head_unique:
  assumes "at_head hdr blk_at pos h ii b p" "at_head hdr blk_at pos h' ii' b' p"
  shows "h' = h" "ii' = ii" "b' = b"
  using assms by (auto simp: at_head_def)

lemma first_at:
  assumes "holds (x # q) p" "at_head hdr blk_at pos h ii b p"
  shows "block_get (headIndex p) (blocks p b) = Some x" "fin h ii b (headIndex p) 0 p = p"
    "deq False p = Some (Got x, seg_done (fin h) ii b 1 p)" "holds q (seg_done (fin h) ii b 1 p)"
  using first [OF assms(1)] head_unique [OF assms(2)] by metis+

lemma seg_head [simp]:
  "headIndex (seg_done f ii b k p) = headIndex p + of_nat k"
  "dequeueOptimisticCount (seg_done f ii b k p) = dequeueOptimisticCount p + of_nat k"
  by (simp_all add: seg_done_def)

lemma get_seg_one:
  "slot (headIndex p) + Suc j < 32 \<Longrightarrow>
   block_get (headIndex p + 1 + of_nat j) (blocks (seg_done (fin h) ii b 1 p) b) = block_get (headIndex p + 1 + of_nat j) (blocks p b)"
  using get_after_put [of "headIndex p" j None "blocks p b"]
  by (simp add: seg_done_def frame block_get_def upd_block_def)

text \<open>A stretch of one block is as many single calls.\<close>

lemma segment:
  assumes "holds q p" "at_head hdr blk_at pos h ii b p" "0 < k" "k \<le> length q" "slot (headIndex p) + k \<le> 32"
  shows "filled (take k q) (headIndex p) (blocks p b)
    \<and> deq_n deq k p = Some (take k q, seg_done (fin h) ii b k p) \<and> holds (drop k q) (seg_done (fin h) ii b k p)
    \<and> (slot (headIndex p) + k = 32 \<longrightarrow> k < length q \<longrightarrow>
         hdr (seg_done (fin h) ii b k p) = Some h \<and> pos h (headIndex p + of_nat k) (seg_done (fin h) ii b k p) = Some (nxt h ii))"
  using assms
proof (induction k arbitrary: q p)
  case (Suc k)
  obtain x q' where q: "q = x # q'" using Suc.prems(4) by (cases q) auto
  let ?p1 = "seg_done (fin h) ii b 1 p"
  note f = first_at [OF Suc.prems(1) [unfolded q] Suc.prems(2)]
  show ?case
  proof (cases "k = 0")
    case True
    moreover have "slot (headIndex p) = 31 \<Longrightarrow> q' \<noteq> [] \<Longrightarrow> hdr ?p1 = Some h \<and> pos h (headIndex p + 1) ?p1 = Some (nxt h ii)"
      using move [of x _ _ p] Suc.prems(1,2) by (cases q') (auto simp: q)
    ultimately show ?thesis using f slot_le [of "headIndex p"] by (auto simp: q filled_def)
  next
    case False
    then have s: "slot (headIndex p) < 31" using Suc.prems(5) by simp
    then have s1: "slot (headIndex ?p1) = Suc (slot (headIndex p))" by (simp add: slot_next)
    have st: "at_head hdr blk_at pos h ii b ?p1" and e: "seg_done (fin h) ii b k ?p1 = seg_done (fin h) ii b (Suc k) p"
      using stay [OF Suc.prems(1) [unfolded q] Suc.prems(2) s, of k] False Suc.prems(5) by auto
    have IH: "filled (take k q') (headIndex ?p1) (blocks ?p1 b)"
      "deq_n deq k ?p1 = Some (take k q', seg_done (fin h) ii b (Suc k) p)" "holds (drop k q') (seg_done (fin h) ii b (Suc k) p)"
      "slot (headIndex ?p1) + k = 32 \<longrightarrow> k < length q' \<longrightarrow> hdr (seg_done (fin h) ii b (Suc k) p) = Some h
         \<and> pos h (headIndex ?p1 + of_nat k) (seg_done (fin h) ii b (Suc k) p) = Some (nxt h ii)"
      using Suc.IH [OF f(4) st] False Suc.prems(4,5) s1 unfolding e by (simp_all add: q)
    have "block_get (headIndex p + of_nat j) (blocks p b) = Some (take (Suc k) q ! j)" if "j < Suc k" for j
    proof (cases j)
      case 0
      then show ?thesis using f(1) by (simp add: q)
    next
      case (Suc i)
      then have "i < length (take k q')" using that Suc.prems(4) by (simp add: q)
      then have "block_get (headIndex ?p1 + of_nat i) (blocks ?p1 b) = Some (take k q' ! i)" using IH(1) by (simp add: filled_def)
      moreover have "block_get (headIndex ?p1 + of_nat i) (blocks ?p1 b) = block_get (headIndex p + 1 + of_nat i) (blocks p b)"
        using get_seg_one [of p i h ii b] Suc.prems(5) that Suc by simp
      ultimately show ?thesis using Suc by (simp add: q ac_simps)
    qed
    then have "filled (take (Suc k) q) (headIndex p) (blocks p b)" using Suc.prems(4,5) by (simp add: filled_def)
    then show ?thesis using f IH s1 by (simp add: q ac_simps)
  qed
qed simp

end

definition bulk_outcome :: "nat option \<Rightarrow> 'a list \<Rightarrow> 'a bulk_result" where
  "bulk_outcome thr xs =
     (case thr of None \<Rightarrow> Moved xs | Some k \<Rightarrow> if k < length xs then ThrewAfter (take k xs) else Moved xs)"

lemma bulk_outcome_append:
  assumes "case thr of None \<Rightarrow> True | Some k \<Rightarrow> length xs \<le> k"
  shows "prepend xs (bulk_outcome (map_option (\<lambda>k. k - length xs) thr) ys) = bulk_outcome thr (xs @ ys)"
  using assms by (cases thr) (auto simp: bulk_outcome_def)

lemma unat_stretch:
  assumes "j \<le> k" "k \<le> 32"
  shows "unat ((i + of_nat k) - (i + of_nat j) :: 64 word) = k - j"
proof -
  have "(i + of_nat k) - (i + of_nat j) = (of_nat (k - j) :: 64 word)" using assms(1) by (simp add: of_nat_diff)
  then show ?thesis using assms by (simp only:) (intro unat_of_nat_small, simp)
qed

context bulk_queue
begin

lemma deq_n_spec:
  assumes "holds q p" "n \<le> length q"
  shows "\<exists>p'. deq_n deq n p = Some (take n q, p') \<and> holds (drop n q) p'
    \<and> headIndex p' = headIndex p + of_nat n \<and> dequeueOptimisticCount p' = dequeueOptimisticCount p + of_nat n"
  using assms
proof (induction n arbitrary: q p)
  case (Suc n)
  obtain x q' where q: "q = x # q'" using Suc.prems(2) by (cases q) auto
  obtain h ii b where f: "deq False p = Some (Got x, seg_done (fin h) ii b 1 p)" "holds q' (seg_done (fin h) ii b 1 p)"
    using first [OF Suc.prems(1) [unfolded q]] by blast
  show ?case using Suc.IH [OF f(2)] Suc.prems(2) f(1) by (auto simp: q ac_simps)
qed simp

text \<open>The first stretch of \<open>n\<close> elements, and what comes after it.\<close>

lemma stretch:
  assumes "holds q p" "at_head hdr blk_at pos h ii b p" "0 < n" "n \<le> length q" "deq_n deq n p = Some (xs, pn)"
  defines "k \<equiv> min n (32 - slot (headIndex p))" and "p' \<equiv> seg_done (fin h) ii b (min n (32 - slot (headIndex p))) p"
  shows "0 < k" "k \<le> n" "k \<le> 32" "filled (take k q) (headIndex p) (blocks p b)" "xs = take n q"
    "end_index (headIndex p + of_nat n) (headIndex p) = headIndex p + of_nat k"
    "k = n \<Longrightarrow> pn = p'"
    "k \<noteq> n \<Longrightarrow> holds (drop k q) p' \<and> (\<exists>b'. at_head hdr blk_at pos h (nxt h ii) b' p') \<and> 0 < n - k \<and> n - k \<le> length (drop k q)
       \<and> deq_n deq (n - k) p' = Some (take (n - k) (drop k q), pn) \<and> headIndex p' + of_nat (n - k) = headIndex p + of_nat n"
proof -
  let ?s = "slot (headIndex p)"
  show k: "0 < k" "k \<le> n" "k \<le> 32" using assms(3) slot_less [of "headIndex p"] by (simp_all add: k_def)
  have kl: "k \<le> length q" "?s + k \<le> 32" using k(2) assms(4) slot_le [of "headIndex p"] by (auto simp: k_def)
  note sg = segment [OF assms(1,2) k(1) kl, folded p'_def [folded k_def]]
  show "filled (take k q) (headIndex p) (blocks p b)" using sg by blast
  show xs: "xs = take n q" using deq_n_spec [OF assms(1,4)] assms(5) by auto
  show "end_index (headIndex p + of_nat n) (headIndex p) = headIndex p + of_nat k"
    using counters [OF assms(1)] assms(4) unfolding k_def by (intro end_index_within) simp
  show "pn = p'" if "k = n" using sg that assms(5) by (simp add: p'_def flip: k_def)
  show "holds (drop k q) p' \<and> (\<exists>b'. at_head hdr blk_at pos h (nxt h ii) b' p') \<and> 0 < n - k \<and> n - k \<le> length (drop k q)
       \<and> deq_n deq (n - k) p' = Some (take (n - k) (drop k q), pn) \<and> headIndex p' + of_nat (n - k) = headIndex p + of_nat n"
    if "k \<noteq> n"
  proof -
    have lt: "k < n" "?s + k = 32" using that k(2) slot_le [of "headIndex p"] by (auto simp: k_def)
    have ho: "holds (drop k q) p'" and hp: "hdr p' = Some h" "pos h (headIndex p') p' = Some (nxt h ii)"
      using sg lt assms(4) by (simp_all add: p'_def flip: k_def)
    obtain y ys where "drop k q = y # ys" using lt(1) assms(4) by (cases "drop k q") auto
    then obtain h' ii' b' where "at_head hdr blk_at pos h' ii' b' p'" using first [of y ys p'] ho by auto
    then have at: "at_head hdr blk_at pos h (nxt h ii) b' p'" using hp by (auto simp: at_head_def)
    have le: "n - k \<le> length (drop k q)" using assms(4) by simp
    obtain p'' where r: "deq_n deq (n - k) p' = Some (take (n - k) (drop k q), p'')" using deq_n_spec [OF ho le] by blast
    have "deq_n deq (k + (n - k)) p = Some (take k q @ take (n - k) (drop k q), p'')"
      using sg r by (intro deq_n_add) (auto simp: p'_def k_def)
    then have "p'' = pn" using assms(5) lt(1) by simp
    then show ?thesis using ho at le r lt(1) by (auto simp: p'_def of_nat_diff simp flip: k_def)
  qed
qed

lemma fin_stretch:
  "fin h ii b (headIndex p) (of_nat k) (upd_block b (\<lambda>_. clear_slots k (headIndex p) (blocks p b)) (with_head hi oc (upd_block b g p)))
     = with_head hi oc (seg_done (fin h) ii b k p)"
proof -
  have "upd_block b (\<lambda>_. clear_slots k (headIndex p) (blocks p b)) (upd_block b g p) = upd_block b (clear_slots k (headIndex p)) p"
    by (simp add: upd_block_def)
  then show ?thesis by (simp add: frame seg_done_def)
qed

lemma catch_spec:
  assumes "holds q p" "at_head hdr blk_at pos h ii b p" "0 < n" "n \<le> length q" "deq_n deq n p = Some (xs, pn)"
    "j < n" "j < 32 - slot (headIndex p)"
  shows "catch_loop (blk_at h) (fin h) (nxt h) (headIndex p + of_nat n) (end_index (headIndex p + of_nat n) (headIndex p))
     (headIndex p + of_nat j) (headIndex p) ii (with_head hi oc (upd_block b (clear_slots j (headIndex p)) p))
     = Some (with_head hi oc pn)"
  using assms
proof (induction n arbitrary: q p ii b j xs rule: less_induct)
  case (less n)
  define k where "k = min n (32 - slot (headIndex p))"
  define p' where "p' = seg_done (fin h) ii b k p"
  note s = stretch [OF less.prems(1-5), folded k_def, folded p'_def]
  have jk: "j < k" using less.prems(6,7) by (simp add: k_def)
  have "filled (drop j (take k q)) (headIndex p + of_nat j) (clear_slots j (headIndex p) (blocks p b))"
    using s(2,4) jk less.prems(4) by (intro filled_rest) auto
  then have "destroy_slots (k - j) (headIndex p + of_nat j) (clear_slots j (headIndex p) (blocks p b))
      = Some (clear_slots (k - j) (headIndex p + of_nat j) (clear_slots j (headIndex p) (blocks p b)))"
    using destroy_slots_all s(2) less.prems(4) by fastforce
  then have d: "destroy_slots (k - j) (headIndex p + of_nat j) (clear_slots j (headIndex p) (blocks p b))
      = Some (clear_slots k (headIndex p) (blocks p b))"
    using jk clear_slots_add [of j "k - j" "headIndex p" "blocks p b"] by simp
  have u: "unat ((headIndex p + of_nat k) - (headIndex p + of_nat j)) = k - j" using jk s(3) by (intro unat_stretch) simp_all
  have at: "blk_at h ii p = Some b" using less.prems(2) by (simp add: at_head_def)
  have b: "blocks (upd_block b g p) b = g (blocks p b)" for g by (simp add: upd_block_def)
  have step: "catch_loop (blk_at h) (fin h) (nxt h) (headIndex p + of_nat n) (headIndex p + of_nat k)
     (headIndex p + of_nat j) (headIndex p) ii (with_head hi oc (upd_block b (clear_slots j (headIndex p)) p))
     = (if headIndex p + of_nat k = headIndex p + of_nat n then Some (with_head hi oc p')
        else catch_loop (blk_at h) (fin h) (nxt h) (headIndex p + of_nat n)
          (end_index (headIndex p + of_nat n) (headIndex p + of_nat k)) (headIndex p + of_nat k) (headIndex p + of_nat k) (nxt h ii)
          (with_head hi oc p'))"
    using at d u b fin_stretch [of h ii b p k hi oc "clear_slots j (headIndex p)"]
    by (subst catch_loop.simps) (simp add: frame p'_def)
  show ?case
  proof (cases "k = n")
    case True
    then show ?thesis using step s(6,7) by simp
  next
    case False
    have ne: "headIndex p + of_nat k \<noteq> headIndex p + (of_nat n :: 64 word)"
    proof -
      have "unat (of_nat n :: 64 word) = n" "unat (of_nat k :: 64 word) = k"
        using counters [OF less.prems(1)] less.prems(4) s(2) by (auto intro!: unat_of_nat_small)
      then show ?thesis using False by (metis add_left_cancel)
    qed
    obtain b' where r: "holds (drop k q) p'" "at_head hdr blk_at pos h (nxt h ii) b' p'" "0 < n - k" "n - k \<le> length (drop k q)"
      "deq_n deq (n - k) p' = Some (take (n - k) (drop k q), pn)" "headIndex p' + of_nat (n - k) = headIndex p + of_nat n"
      using s(8) [OF False] by blast
    have "n - k < n" using s(1,2) by simp
    note IH = less.IH [OF this r(1-5) r(3), unfolded r(6)]
    have "catch_loop (blk_at h) (fin h) (nxt h) (headIndex p + of_nat n) (end_index (headIndex p + of_nat n) (headIndex p'))
       (headIndex p') (headIndex p') (nxt h ii) (with_head hi oc p') = Some (with_head hi oc pn)"
      using IH slot_less [of "headIndex p'"] by (simp add: upd_block_def)
    then show ?thesis using step ne s(6) by (simp add: p'_def)
  qed
qed

end

context bulk_queue
begin

lemma of_nat_neq:
  assumes "holds q p" "k \<le> n" "n \<le> length q" "k \<noteq> n"
  shows "headIndex p + of_nat k \<noteq> headIndex p + (of_nat n :: 64 word)"
proof -
  have "unat (of_nat n :: 64 word) = n" "unat (of_nat k :: 64 word) = k"
    using counters [OF assms(1)] assms(2,3) by (auto intro!: unat_of_nat_small)
  then show ?thesis using assms(4) by (metis add_left_cancel)
qed

lemma loop_spec:
  assumes "holds q p" "at_head hdr blk_at pos h ii b p" "0 < n" "n \<le> length q" "deq_n deq n p = Some (xs, pn)"
  shows "bulk_loop (blk_at h) (fin h) (nxt h) thr (headIndex p + of_nat n) (headIndex p) ii (with_head hi oc p)
     = Some (bulk_outcome thr (take n q), with_head hi oc pn)"
  using assms
proof (induction n arbitrary: q p ii b xs thr rule: less_induct)
  case (less n)
  define k where "k = min n (32 - slot (headIndex p))"
  define p' where "p' = seg_done (fin h) ii b k p"
  note s = stretch [OF less.prems(1-5), folded k_def, folded p'_def]
  have lk: "length (take k q) = k" using s(2) less.prems(4) by simp
  have at: "blk_at h ii p = Some b" using less.prems(2) by (simp add: at_head_def)
  have u: "unat ((headIndex p + of_nat k) - headIndex p) = k" using unat_stretch [of 0 k "headIndex p"] s(3) by simp
  note unfold = bulk_loop.simps [of "blk_at h" "fin h" "nxt h" thr "headIndex p + of_nat n" "headIndex p" ii "with_head hi oc p"]
  show ?case
  proof (cases "\<exists>t. thr = Some t \<and> t < k")
    case True
    then obtain t where t: "thr = Some t" "t < k" by blast
    have m: "move_slots k thr (headIndex p) (blocks p b)
        = Some (take t (take k q), True, headIndex p + of_nat t, clear_slots t (headIndex p) (blocks p b))"
      using move_slots_throw [OF s(4), of t] t lk by simp
    have "catch_loop (blk_at h) (fin h) (nxt h) (headIndex p + of_nat n) (headIndex p + of_nat k)
       (headIndex p + of_nat t) (headIndex p) ii (with_head hi oc (upd_block b (clear_slots t (headIndex p)) p)) = Some (with_head hi oc pn)"
      using catch_spec [OF less.prems, of t hi oc] t(2) s(6) by (simp add: k_def)
    moreover have "upd_block b (\<lambda>_. clear_slots t (headIndex p) (blocks p b)) p = upd_block b (clear_slots t (headIndex p)) p"
      by (simp add: upd_block_def)
    moreover have "bulk_outcome thr (take n q) = ThrewAfter (take t (take k q))"
      using t s(2) less.prems(4) by (simp add: bulk_outcome_def min_def)
    ultimately show ?thesis using unfold m at u s(6) by (simp add: frame)
  next
    case False
    then have nt: "case thr of None \<Rightarrow> True | Some t \<Rightarrow> length (take k q) \<le> t" using lk by (auto split: option.splits)
    have m: "move_slots k thr (headIndex p) (blocks p b)
        = Some (take k q, False, headIndex p + of_nat k, clear_slots k (headIndex p) (blocks p b))"
      using move_slots_all [OF s(4) nt] lk by simp
    have f: "fin h ii b (headIndex p) (of_nat k) (upd_block b (\<lambda>_. clear_slots k (headIndex p) (blocks p b)) (with_head hi oc p))
        = with_head hi oc p'"
      using fin_stretch [of h ii b p k hi oc "\<lambda>x. x"] by (simp add: upd_block_def p'_def)
    have step: "bulk_loop (blk_at h) (fin h) (nxt h) thr (headIndex p + of_nat n) (headIndex p) ii (with_head hi oc p)
      = (if headIndex p + of_nat k = headIndex p + of_nat n then Some (Moved (take k q), with_head hi oc p')
         else map_option (\<lambda>(r, p'). (prepend (take k q) r, p'))
           (bulk_loop (blk_at h) (fin h) (nxt h) (map_option (\<lambda>t. t - k) thr) (headIndex p + of_nat n) (headIndex p + of_nat k) (nxt h ii)
              (with_head hi oc p')))"
      using unfold m at u s(6) f lk by (simp add: frame)
    show ?thesis
    proof (cases "k = n")
      case True
      then have "bulk_outcome thr (take n q) = Moved (take k q)" using nt lk by (auto simp: bulk_outcome_def split: option.splits)
      then show ?thesis using True step s(7) by simp
    next
      case kn: False
      obtain b' where r: "holds (drop k q) p'" "at_head hdr blk_at pos h (nxt h ii) b' p'" "0 < n - k" "n - k \<le> length (drop k q)"
        "deq_n deq (n - k) p' = Some (take (n - k) (drop k q), pn)" "headIndex p' + of_nat (n - k) = headIndex p + of_nat n"
        using s(8) [OF kn] by blast
      have "n - k < n" using s(1,2) by simp
      note IH = less.IH [OF this r(1-5), unfolded r(6)]
      have hp: "headIndex p' = headIndex p + of_nat k" by (simp add: p'_def)
      have o: "prepend (take k q) (bulk_outcome (map_option (\<lambda>t. t - k) thr) (take (n - k) (drop k q))) = bulk_outcome thr (take n q)"
        using bulk_outcome_append [OF nt, of "take (n - k) (drop k q)"] lk s(2) take_add [of k "n - k" q] by simp
      show ?thesis using step IH [of "map_option (\<lambda>t. t - k) thr"] of_nat_neq [OF less.prems(1) s(2) less.prems(4) kn] o
        by (simp add: hp)
    qed
  qed
qed

text \<open>A bulk call is as many single calls as there are elements, at most the number asked for.\<close>

lemma bulk_spec:
  fixes max_count :: "64 word"
  assumes "holds q p"
  defines "n \<equiv> min (unat max_count) (length q)"
  shows "\<exists>p'. deq_n deq n p = Some (take n q, p') \<and> holds (drop n q) p'
    \<and> dequeue_bulk_with hdr blk_at fin nxt pos thr max_count p = Some (bulk_outcome thr (take n q), p')"
proof -
  note c = counters [OF assms(1)]
  have n: "n \<le> length q" by (simp add: n_def)
  obtain pn where pn: "deq_n deq n p = Some (take n q, pn)" "holds (drop n q) pn"
      "headIndex pn = headIndex p + of_nat n" "dequeueOptimisticCount pn = dequeueOptimisticCount p + of_nat n"
    using deq_n_spec [OF assms(1) n] by blast
  have av: "tailIndex p - (dequeueOptimisticCount p - dequeueOvercommit p) = of_nat (length q)" using c by simp
  have ul: "unat (of_nat (length q) :: 64 word) = length q" using c by (intro unat_of_nat_small) simp
  show ?thesis
  proof (cases q)
    case Nil
    then show ?thesis using pn av by (simp add: n_def dequeue_bulk_with_def Let_def circular_less_than_iff bulk_outcome_def split: option.splits)
  next
    case (Cons x q')
    obtain h ii b where at: "at_head hdr blk_at pos h ii b p" and z: "fin h ii b (headIndex p) 0 p = p"
      using first [of x q' p] assms(1) Cons by blast
    let ?p = "with_head (headIndex p + of_nat n) (dequeueOptimisticCount p + of_nat n) p"
    have lt: "circular_less_than 0 (of_nat (length q) :: 64 word)" using c ul Cons by (simp add: circular_less_than_iff)
    have un: "unat (of_nat n :: 64 word) = n" using c n by (intro unat_of_nat_small) simp
    have "dequeue_bulk_with hdr blk_at fin nxt pos thr max_count p
        = bulk_loop (blk_at h) (fin h) (nxt h) thr (headIndex p + of_nat n) (headIndex p) ii ?p"
    proof (cases "of_nat (length q) < max_count")
      case True
      then have "n = length q" using ul by (simp add: n_def word_less_nat_alt)
      then show ?thesis using at lt True by (simp add: dequeue_bulk_with_def Let_def av frame at_head_def flip: with_head_def)
    next
      case False
      then have "n = unat max_count" using ul by (simp add: n_def word_less_nat_alt)
      then have m: "max_count = of_nat n" by simp
      have "(if (of_nat n :: 64 word) < of_nat (length q) then of_nat n else of_nat (length q)) = (of_nat n :: 64 word)"
        using ul un n by (auto simp: word_less_nat_alt not_less)
      then show ?thesis using at lt False unfolding m
        by (simp only: dequeue_bulk_with_def Let_def av) (simp add: av frame at_head_def flip: with_head_def)
    qed
    also have "\<dots> = Some (bulk_outcome thr (take n q), pn)"
    proof (cases "n = 0")
      case True
      have "end_index (headIndex p) (headIndex p) = headIndex p" using end_index_within [of 0 "headIndex p"] by simp
      moreover have "upd_block b (\<lambda>_. blocks p b) p = p" by (simp add: upd_block_def)
      ultimately show ?thesis using True at z pn
        by (subst bulk_loop.simps) (simp add: at_head_def frame bulk_outcome_def split: option.splits)
    next
      case False
      have "with_head (headIndex p + of_nat n) (dequeueOptimisticCount p + of_nat n) pn = pn"
        using pn(3,4) with_head_simps(6) [of pn] by simp
      then show ?thesis using loop_spec [OF assms(1) at _ n pn(1)] False by simp
    qed
    finally show ?thesis using pn by blast
  qed
qed

end

section \<open>Implicit producers\<close>

lemma ring_step:
  assumes c: "ring_size c" and t: "unat t < unat c" and d: "Suc d < unat c"
  shows "(t + (- of_nat (32 * d)) div BLOCK_SIZE) AND (c - 1)
    = (((t + (- of_nat (32 * Suc d)) div BLOCK_SIZE) AND (c - 1)) + 1) AND (c - 1)" (is "?a = (?b + 1) AND _")
proof -
  have a: "unat ?a = (unat t + (unat c - d)) mod unat c" using ring_position [OF c t, of d] d by simp
  have b: "unat ?b = (unat t + (unat c - Suc d)) mod unat c" using ring_position [OF c t d] by simp
  have "0 < unat c" using d by simp
  then have "unat ?b < unat c" unfolding b by simp
  then have "unat ((?b + 1) AND (c - 1)) = Suc (unat ?b) mod unat c" by (rule ring_next [OF c])
  also have "\<dots> = Suc (unat t + (unat c - Suc d)) mod unat c" unfolding b by (simp add: mod_Suc_eq)
  also have "Suc (unat t + (unat c - Suc d)) = unat t + (unat c - d)" using d by simp
  finally show ?thesis unfolding a [symmetric] by (simp add: word_unat_eq_iff)
qed

abbreviation at_implicit :: "BlockIndexHeader \<Rightarrow> 64 word \<Rightarrow> nat \<Rightarrow> 'a producer \<Rightarrow> bool" where
  "at_implicit \<equiv> at_head blockIndex block_at head_position"

lemma counter_full: "k < 32 \<Longrightarrow> of_nat k + 1 = (32 :: 64 word) \<longleftrightarrow> k = 31"
proof -
  assume k: "k < 32"
  have "unat (of_nat (Suc k) :: 64 word) = Suc k" using k by (intro unat_of_nat_small) simp
  then show ?thesis by (auto dest: arg_cong [where f = unat])
qed

lemma slot_not_full: "of_nat (slot i) \<noteq> (32 :: 64 word)"
proof -
  have "unat (of_nat (slot i) :: 64 word) = slot i" using slot_le [of i] by (intro unat_of_nat_small) simp
  moreover have "slot i \<noteq> 32" using slot_less [of i] by linarith
  ultimately show ?thesis by (auto dest: arg_cong [where f = unat])
qed

lemma implicit_head:
  assumes ok: "producer_ok (x # q) p"
  obtains h ii b where "at_implicit h ii b p" "block_get (headIndex p) (blocks p b) = Some x"
    "elementsCompletelyDequeued (blocks p b) = of_nat (slot (headIndex p))"
    "dequeue False p = Some (Got x, taken (bi_index h ! unat ii) b p)" "ring_size (capacity h)" "unat (bi_tail h) < unat (capacity h)"
    "used_blocks (x # q) p \<le> unat (capacity h)"
    "head_base p - entry_key p (bi_index h ! unat (bi_tail h)) = - of_nat (32 * (used_blocks (x # q) p - 1))"
proof -
  let ?o = "slot (headIndex p)" and ?m = "used_blocks (x # q) p"
  obtain bs F E where i: "index_ok ?m (head_base p) bs F E p" and el: "elements_ok (x # q) ?o bs p"
    and dq: "dequeueOptimisticCount p - dequeueOvercommit p = headIndex p"
    using ok unfolding producer_ok_def by blast
  obtain h where h: "blockIndex p = Some h" "header_ok h" "ring h = F @ E" using i by (auto simp: index_ok_def)
  have m: "0 < ?m" "length bs = ?m" "length E = ?m" using i by (simp_all add: used_blocks_def index_ok_def div_greater_zero_iff)
  let ?ii = "get_block_index_index_for_index (headIndex p) h p"
  have "get_block_index_entry_for_index (headIndex p) p = Some (E ! 0)"
    using i m(1) by (rule head_entry) (simp add: base_diff head_base_def)
  then have e: "bi_index h ! unat ?ii = E ! 0" by (simp add: get_block_index_entry_for_index_def h(1))
  have v: "entry_value p (E ! 0) = Some (bs ! 0)" using i m by (auto simp: index_ok_def)
  have x: "block_get (headIndex p) (blocks p (bs ! 0)) = Some x"
    using el contents_first [of x q ?o bs "blocks p"] by (simp add: elements_ok_def block_get_def)
  have cn: "elementsCompletelyDequeued (blocks p (bs ! 0)) = of_nat ?o"
    using el m unfolding elements_ok_def by (metis (mono_tags))
  have lt: "circular_less_than (headIndex p) (tailIndex p)" using producer_length [OF ok] by (simp add: circular_less_than_iff)
  have dd: "dequeue False p = Some (Got x, taken (E ! 0) (bs ! 0) p)" using dequeue_head [OF i m(1) dq lt x, of False] by simp
  have c: "length F + ?m = unat (capacity h)" using h(3) m(3) length_ring [OF h(2)] by simp
  have "E \<noteq> []" using m by auto
  then have "last (ring h) = E ! (?m - 1)" using h(3) m(3) last_conv_nth [of E] by simp
  moreover have "last (ring h) = bi_index h ! unat (bi_tail h)"
  proof -
    have ne: "ring h \<noteq> []" using length_ring [OF h(2)] header_okD(3) [OF h(2)] by auto
    have "last (ring h) = ring h ! (unat (capacity h) - 1)" using last_conv_nth [OF ne] length_ring [OF h(2)] by simp
    also have "\<dots> = bi_index h ! unat (bi_tail h)"
      using nth_rotate [of "unat (capacity h) - 1" "bi_index h" "Suc (unat (bi_tail h))"] header_okD [OF h(2)] by (simp add: ring_def)
    finally show ?thesis .
  qed
  moreover have "entry_key p (E ! (?m - 1)) = head_base p + of_nat (32 * (?m - 1))" using i m(1) by (simp add: index_ok_def)
  ultimately have k: "head_base p - entry_key p (bi_index h ! unat (bi_tail h)) = - of_nat (32 * (?m - 1))" by (simp del: of_nat_mult)
  have "at_implicit h ?ii (bs ! 0) p" using h(1) e v by (simp add: at_head_def head_position_def block_at_def)
  then show ?thesis using that x cn dd e header_okD [OF h(2)] c k by simp
qed

lemma taken_is_stretch:
  "taken (bi_index h ! unat ii) b p = seg_done (release_slots h) ii b 1 p"
proof -
  have "elementsCompletelyDequeued (blocks p b) + 1 = BLOCK_SIZE \<longleftrightarrow> elementsCompletelyDequeued (blocks p b) = BLOCK_SIZE - 1"
    by (simp add: eq_diff_eq)
  then show ?thesis
    by (simp add: taken_def seg_done_def release_slots_def with_head_def Let_def upd_block_def set_empty_def set_many_empty_def
        block_put_def add_block_to_free_list_def set_entry_value_def)
qed

lemma stretch_open:
  assumes "elementsCompletelyDequeued (blocks p b) = of_nat k" "k < 31"
  shows "seg_done (release_slots h) ii b 1 p
    = with_head (headIndex p + 1) (dequeueOptimisticCount p + 1)
        (upd_block b (\<lambda>blk. (block_put (headIndex p) None blk)\<lparr>elementsCompletelyDequeued := of_nat k + 1\<rparr>) p)"
  using assms counter_full [of k]
  by (simp add: seg_done_def release_slots_def with_head_def Let_def upd_block_def set_many_empty_def block_put_def BLOCK_SIZE_def)

lemma release_frame:
  "blockIndex (release_slots h ii b i c p) = blockIndex p" "entry_key (release_slots h ii b i c p) = entry_key p"
  "elements (blocks (release_slots h ii b i c p) b') = elements (blocks p b')"
  "release_slots h ii b i c (with_head hi oc p) = with_head hi oc (release_slots h ii b i c p)"
  by (simp_all add: release_slots_def with_head_def Let_def upd_block_def set_many_empty_def add_block_to_free_list_def set_entry_value_def)

lemma head_frame:
  "blockIndex (with_head hi oc p) = blockIndex p" "entry_key (with_head hi oc p) = entry_key p" "entry_value (with_head hi oc p) = entry_value p"
  "blockIndex (upd_block b f p) = blockIndex p" "entry_key (upd_block b f p) = entry_key p" "entry_value (upd_block b f p) = entry_value p"
  by (simp_all add: with_head_def upd_block_def)

lemma implicit_stay:
  assumes ok: "producer_ok (x # q) p" and at: "at_implicit h ii b p" and s: "slot (headIndex p) < 31"
  shows "at_implicit h ii b (seg_done (release_slots h) ii b 1 p)"
    "seg_done (release_slots h) ii b k (seg_done (release_slots h) ii b 1 p) = seg_done (release_slots h) ii b (Suc k) p"
proof -
  let ?o = "slot (headIndex p)" and ?p1 = "seg_done (release_slots h) ii b 1 p"
  have cn: "elementsCompletelyDequeued (blocks p b) = of_nat ?o"
    using implicit_head [OF ok] at by (metis at_head_def option.inject)
  note p1 = stretch_open [OF cn s, of h ii]
  have "slot (headIndex p + 1) = Suc ?o" using s by (rule slot_next)
  then have "get_block_index_index_for_index (headIndex p + 1) h ?p1 = get_block_index_index_for_index (headIndex p) h p"
    unfolding p1 by (simp add: get_block_index_index_for_index_def base_diff head_frame)
  moreover have "blockIndex ?p1 = blockIndex p" "entry_value ?p1 = entry_value p" "headIndex ?p1 = headIndex p + 1"
    unfolding p1 by (simp_all add: head_frame)
  ultimately show "at_implicit h ii b ?p1" using at by (simp add: at_head_def head_position_def block_at_def)
  show "seg_done (release_slots h) ii b k ?p1 = seg_done (release_slots h) ii b (Suc k) p"
    unfolding p1 using cn
    by (simp add: seg_done_def release_slots_def with_head_def Let_def upd_block_def set_many_empty_def clear_slots_upd block_put_upd
        add_block_to_free_list_def set_entry_value_def ac_simps)
qed


lemma implicit_move:
  assumes ok: "producer_ok (x # y # q) p" and at: "at_implicit h ii b p" and s: "slot (headIndex p) = 31"
  shows "blockIndex (seg_done (release_slots h) ii b 1 p) = Some h"
    "head_position h (headIndex p + 1) (seg_done (release_slots h) ii b 1 p) = Some (next_position h ii)"
proof -
  let ?p1 = "seg_done (release_slots h) ii b 1 p" and ?m = "used_blocks (x # y # q) p"
  have f: "blockIndex ?p1 = blockIndex p" "entry_key ?p1 = entry_key p" by (simp_all add: seg_done_def release_frame head_frame)
  then show "blockIndex ?p1 = Some h" using at by (simp add: at_head_def)
  have r: "ring_size (capacity h)" "unat (bi_tail h) < unat (capacity h)" "?m \<le> unat (capacity h)"
    "head_base p - entry_key p (bi_index h ! unat (bi_tail h)) = - of_nat (32 * (?m - 1))"
    using implicit_head [OF ok] at by (metis at_head_def option.inject)+
  obtain d where d: "?m = Suc (Suc d)"
    using s by (intro that [of "length q div 32"]) (simp add: used_blocks_def)
  have hb: "headIndex p AND NOT (BLOCK_SIZE - 1) = head_base p" by (simp add: base_diff head_base_def)
  have "slot (headIndex p + 1) = 0" using slot_add [of "headIndex p" 1] s by simp
  then have hb1: "(headIndex p + 1) AND NOT (BLOCK_SIZE - 1) = head_base p + 32" using s by (simp add: base_diff head_base_def)
  have "head_base p + 32 - entry_key p (bi_index h ! unat (bi_tail h)) = - of_nat (32 * d)"
    using r(4) d by (simp add: algebra_simps)
  then have "get_block_index_index_for_index (headIndex p + 1) h ?p1 = (bi_tail h + (- of_nat (32 * d)) div BLOCK_SIZE) AND (capacity h - 1)"
    by (simp only: get_block_index_index_for_index_def Let_def hb1 f)
  also have "\<dots> = (((bi_tail h + (- of_nat (32 * Suc d)) div BLOCK_SIZE) AND (capacity h - 1)) + 1) AND (capacity h - 1)"
    using r(3) d by (intro ring_step [OF r(1,2)]) simp
  also have "(bi_tail h + (- of_nat (32 * Suc d)) div BLOCK_SIZE) AND (capacity h - 1) = get_block_index_index_for_index (headIndex p) h p"
    using r(4) d by (simp only: get_block_index_index_for_index_def Let_def hb diff_Suc_1)
  also have "get_block_index_index_for_index (headIndex p) h p = ii" using at by (simp add: at_head_def head_position_def)
  finally show "head_position h (headIndex p + 1) ?p1 = Some (next_position h ii)" by (simp add: head_position_def next_position_def)
qed

interpretation implicit_bulk: bulk_queue producer_ok dequeue blockIndex block_at release_slots next_position head_position
proof
  fix q and p :: "'a producer" assume ok: "producer_ok q p"
  show "tailIndex p = headIndex p + of_nat (length q) \<and> dequeueOptimisticCount p - dequeueOvercommit p = headIndex p \<and> length q < 2 ^ 63"
    using ok producer_length [OF ok] by (auto simp: producer_ok_def)
next
  fix x q and p :: "'a producer" assume ok: "producer_ok (x # q) p"
  obtain h ii b where h: "at_implicit h ii b p" "block_get (headIndex p) (blocks p b) = Some x"
    "elementsCompletelyDequeued (blocks p b) = of_nat (slot (headIndex p))" "dequeue False p = Some (Got x, taken (bi_index h ! unat ii) b p)"
    using implicit_head [OF ok] by metis
  have "of_nat (slot (headIndex p)) \<noteq> (32 :: 64 word)" by (rule slot_not_full)
  then have "elementsCompletelyDequeued (blocks p b) \<noteq> 32" using h(3) by simp
  then have "release_slots h ii b (headIndex p) 0 p = p"
    by (simp add: release_slots_def set_many_empty_def upd_block_def BLOCK_SIZE_def Let_def)
  moreover have "producer_ok q (taken (bi_index h ! unat ii) b p)" using dequeue_ok [OF ok, of False] h(4) by auto
  ultimately show "\<exists>h ii b. at_implicit h ii b p \<and> block_get (headIndex p) (blocks p b) = Some x \<and> release_slots h ii b (headIndex p) 0 p = p
      \<and> dequeue False p = Some (Got x, seg_done (release_slots h) ii b 1 p) \<and> producer_ok q (seg_done (release_slots h) ii b 1 p)"
    using h unfolding taken_is_stretch by blast
next
  fix x q h ii b k and p :: "'a producer"
  assume a: "producer_ok (x # q) p" "at_implicit h ii b p" "slot (headIndex p) < 31"
  show "at_implicit h ii b (seg_done (release_slots h) ii b 1 p) \<and> (0 < k \<longrightarrow> slot (headIndex p) + Suc k \<le> 32 \<longrightarrow>
      seg_done (release_slots h) ii b k (seg_done (release_slots h) ii b 1 p) = seg_done (release_slots h) ii b (Suc k) p)"
    using implicit_stay [OF a] by blast
next
  fix x y q h ii b and p :: "'a producer"
  assume a: "producer_ok (x # y # q) p" "at_implicit h ii b p" "slot (headIndex p) = 31"
  show "blockIndex (seg_done (release_slots h) ii b 1 p) = Some h
      \<and> head_position h (headIndex p + 1) (seg_done (release_slots h) ii b 1 p) = Some (next_position h ii)"
    using implicit_move [OF a] by blast
qed (simp_all add: block_at_def head_position_def get_block_index_index_for_index_def head_frame release_frame)


section \<open>Explicit producers\<close>

definition many_flags :: "64 word \<Rightarrow> 64 word \<Rightarrow> bool list \<Rightarrow> bool list" where
  "many_flags i c fs = set_flags (unat c) (BLOCK_SIZE - 1 - of_nat (slot i) - c + 1) fs"

lemma set_many_explicit: "snd (set_many_empty explicit_context i c b) = b\<lparr>emptyFlags := many_flags i c (emptyFlags b)\<rparr>"
  by (simp add: set_many_empty_def many_flags_def Let_def)

lemma many_flags_one: "many_flags i 1 fs = fs[31 - slot i := True]"
proof -
  have "BLOCK_SIZE - 1 - of_nat (slot i) - 1 + 1 = (BLOCK_SIZE - 1 - of_nat (slot i) :: 64 word)" by simp
  then show ?thesis unfolding many_flags_def by (simp only: unat_1 One_nat_def set_flags.simps flag_position)
qed

lemma many_flags_Suc:
  assumes "slot i + Suc k \<le> 32" "0 < k" "length fs = 32"
  shows "many_flags (i + 1) (of_nat k) (many_flags i 1 fs) = many_flags i (of_nat (Suc k)) fs"
proof -
  let ?b = "(Block :: bool block)\<lparr>emptyFlags := fs\<rparr>"
  have m: "many_flags j (of_nat n) gs = emptyFlags (set_each_empty explicit_context n j ((Block :: bool block)\<lparr>emptyFlags := gs\<rparr>))"
    if "slot j + n \<le> 32" "0 < n" "length gs = 32" for j n gs
  proof -
    have u: "unat (of_nat n :: 64 word) = n" using that by (intro unat_of_nat_small) simp
    then have "(0 :: 64 word) < of_nat n" using that(2) by (simp add: word_less_nat_alt)
    then have e: "(Block :: bool block)\<lparr>emptyFlags := many_flags j (of_nat n) gs\<rparr> = set_each_empty explicit_context n j (Block\<lparr>emptyFlags := gs\<rparr>)"
      using set_many_is_each [of j "of_nat n" "(Block :: bool block)\<lparr>emptyFlags := gs\<rparr>" explicit_context] that u
      by (simp add: set_many_explicit)
    show ?thesis unfolding e [symmetric] by simp
  qed
  have s: "slot (i + 1) = Suc (slot i)" using assms(1,2) by (intro slot_next) simp
  have e: "set_each_empty explicit_context (Suc k) i ?b = set_each_empty explicit_context k (i + 1) ((Block :: bool block)\<lparr>emptyFlags := many_flags i 1 fs\<rparr>)"
    by (simp add: set_empty_def flag_position many_flags_one)
  have "many_flags i (of_nat (Suc k)) fs = emptyFlags (set_each_empty explicit_context (Suc k) i ?b)"
    using assms by (intro m) simp_all
  also have "\<dots> = many_flags (i + 1) (of_nat k) (many_flags i 1 fs)"
    unfolding e using assms s by (intro m [symmetric]) (simp_all add: many_flags_one)
  finally show ?thesis by simp
qed

lemma x_taken_is_stretch: "x_taken b p = seg_done (x_release_slots h) ii b 1 p"
  by (simp add: x_taken_def seg_done_def x_release_slots_def with_head_def upd_block_def set_many_explicit many_flags_one
      set_empty_def flag_position block_put_upd)

abbreviation at_explicit :: "ExplicitIndex \<Rightarrow> 64 word \<Rightarrow> nat \<Rightarrow> 'a explicit_producer \<Rightarrow> bool" where
  "at_explicit \<equiv> at_head x_blockIndex x_block_at x_position"

lemma newest_entry:
  assumes ok: "x_index_ok hb U p" and U: "U \<noteq> []" and h: "x_blockIndex p = Some h"
  shows "ix_entries h ! unat (ix_front h) = Some (hb + of_nat (32 * (length U - 1)), U ! (length U - 1))"
    "ring_size (ix_size h)" "unat (ix_front h) < unat (ix_size h)" "length U \<le> unat (ix_size h)"
proof -
  let ?c = "unat (pr_blockIndexSize p)" and ?f = "unat (pr_blockIndexFront p)" and ?t = "unat (ix_front h)" and ?es = "ix_entries h"
  have o: "ring_size (pr_blockIndexSize p)" "ix_size h = pr_blockIndexSize p" "length ?es = ?c" "?t < ?c" "Suc ?t mod ?c = ?f"
    using ok U h by (simp_all add: x_index_ok_def)
  obtain F where F: "rotate ?f ?es = F @ entries_for hb U" using ok h by (auto simp: x_index_ok_def)
  have "length (rotate ?f ?es) = length F + length U" by (simp only: F length_append entries_for_simps)
  then have l: "length F + length U = ?c" using o(3) by simp
  show "ring_size (ix_size h)" "unat (ix_front h) < unat (ix_size h)" "length U \<le> unat (ix_size h)" using o l by simp_all
  have "(?f + (?c - 1)) mod ?c = (Suc ?t + (?c - 1)) mod ?c" unfolding o(5) [symmetric] by (simp add: mod_add_left_eq)
  also have "Suc ?t + (?c - 1) = ?t + ?c" using o(4) by simp
  finally have "(?f + (?c - 1)) mod ?c = ?t" using o(4) by simp
  then have "rotate ?f ?es ! (?c - 1) = ?es ! ?t" using o(3,4) by (simp add: nth_rotate)
  moreover have "?c - 1 = length F + (length U - 1)" using l U by (cases U) auto
  then have "rotate ?f ?es ! (?c - 1) = entries_for hb U ! (length U - 1)" by (simp only: F nth_append_length_plus)
  ultimately show "?es ! ?t = Some (hb + of_nat (32 * (length U - 1)), U ! (length U - 1))"
    using U by (simp add: entries_for_simps)
qed

lemma explicit_head:
  assumes ok: "x_ok (x # q) p"
  obtains h ii b n where "at_explicit h ii b p" "block_get (headIndex p) (blocks p b) = Some x"
    "length (emptyFlags (blocks p b)) = 32" "x_dequeue False p = Some (Got x, x_taken b p)"
    "ring_size (ix_size h)" "unat (ix_front h) < unat (ix_size h)" "used_blocks (x # q) p \<le> unat (ix_size h)"
    "ix_entries h ! unat (ix_front h) = Some (head_base p + of_nat (32 * (used_blocks (x # q) p - 1)), n)"
proof -
  obtain G U where st: "x_state (x # q) G U p" using ok by (auto simp: x_ok_def)
  have u: "in_use (x # q) U p" and slots: "length U \<le> unat (pr_blockIndexSlotsUsed p)" using st by (simp_all add: x_state_def)
  note l = in_use_length [OF u slots]
  have U: "U \<noteq> []" using l(3) by (cases U) auto
  have lu: "length U = used_blocks (x # q) p" and ix: "x_index_ok (head_base p) U p" using u by (simp_all add: in_use_def)
  have "circular_less_than (headIndex p) (tailIndex p)" using l by (simp add: circular_less_than_iff)
  note d = x_dequeue_head [OF u U this, of False]
  have x: "block_get (headIndex p) (blocks p (U ! 0)) = Some x"
    using u contents_first [of x q "slot (headIndex p)" U "blocks p"] by (simp add: in_use_def block_get_def)
  have fl: "length (emptyFlags (blocks p (U ! 0))) = 32" using u by (simp add: in_use_def flags_ok_def)
  have lk: "x_lookup (headIndex p) p = Some (U ! 0)" by (rule lookup_spec [OF ix U]) (simp add: base_diff head_base_def)
  obtain h where h: "x_blockIndex p = Some h" using lk by (auto simp: x_lookup_def split: option.splits)
  note n = newest_entry [OF ix U h]
  have "at_explicit h ((ix_front h + ((headIndex p AND NOT (BLOCK_SIZE - 1)) - (head_base p + of_nat (32 * (length U - 1)))) div BLOCK_SIZE) AND (ix_size h - 1)) (U ! 0) p"
    using lk h n(1) by (simp add: at_head_def x_position_def x_block_at_def x_lookup_def Let_def)
  then show ?thesis using that x fl d n unfolding lu by simp
qed


lemma x_frame:
  "x_blockIndex (with_head hi oc p) = x_blockIndex p" "x_blockIndex (upd_block b f p) = x_blockIndex p"
  "x_blockIndex (x_release_slots h ii b i c p) = x_blockIndex p"
  "elements (blocks (x_release_slots h ii b i c p) b') = elements (blocks p b')"
  "x_release_slots h ii b i c (with_head hi oc p) = with_head hi oc (x_release_slots h ii b i c p)"
  by (simp_all add: with_head_def upd_block_def x_release_slots_def set_many_explicit)

lemma explicit_stay:
  assumes ok: "x_ok (x # q) p" and at: "at_explicit h ii b p" and s: "slot (headIndex p) < 31"
  shows "at_explicit h ii b (seg_done (x_release_slots h) ii b 1 p)"
    "0 < k \<Longrightarrow> slot (headIndex p) + Suc k \<le> 32
      \<Longrightarrow> seg_done (x_release_slots h) ii b k (seg_done (x_release_slots h) ii b 1 p) = seg_done (x_release_slots h) ii b (Suc k) p"
proof -
  let ?p1 = "seg_done (x_release_slots h) ii b 1 p"
  have "slot (headIndex p + 1) = Suc (slot (headIndex p))" using s by (rule slot_next)
  then have "x_position h (headIndex p + 1) ?p1 = x_position h (headIndex p) p"
    by (simp add: x_position_def base_diff cong: option.case_cong)
  moreover have "x_block_at h ii ?p1 = x_block_at h ii p" by (simp add: x_block_at_def)
  moreover have "x_blockIndex ?p1 = x_blockIndex p" "headIndex ?p1 = headIndex p + 1" by (simp_all add: seg_done_def x_frame)
  ultimately show "at_explicit h ii b ?p1" using at by (simp add: at_head_def)
  have fl: "length (emptyFlags (blocks p b)) = 32"
    using explicit_head [OF ok] at by (metis at_head_def option.inject)
  assume k: "0 < k" "slot (headIndex p) + Suc k \<le> 32"
  show "seg_done (x_release_slots h) ii b k ?p1 = seg_done (x_release_slots h) ii b (Suc k) p"
    using many_flags_Suc [OF k(2,1) fl]
    by (simp add: seg_done_def x_release_slots_def with_head_def upd_block_def set_many_explicit clear_slots_upd block_put_upd ac_simps)
qed

lemma explicit_move:
  assumes ok: "x_ok (x # y # q) p" and at: "at_explicit h ii b p" and s: "slot (headIndex p) = 31"
  shows "x_blockIndex (seg_done (x_release_slots h) ii b 1 p) = Some h"
    "x_position h (headIndex p + 1) (seg_done (x_release_slots h) ii b 1 p) = Some (x_next_position h ii)"
proof -
  let ?p1 = "seg_done (x_release_slots h) ii b 1 p" and ?m = "used_blocks (x # y # q) p"
  show "x_blockIndex ?p1 = Some h" using at by (simp add: at_head_def seg_done_def x_frame)
  obtain h' ii' b' n where "at_explicit h' ii' b' p" and r: "ring_size (ix_size h')" "unat (ix_front h') < unat (ix_size h')" "?m \<le> unat (ix_size h')"
    and n: "ix_entries h' ! unat (ix_front h') = Some (head_base p + of_nat (32 * (?m - 1)), n)"
    by (rule explicit_head [OF ok])
  then have hh: "h' = h" using at by (simp add: at_head_def)
  note r = r [unfolded hh] and n = n [unfolded hh]
  obtain d where d: "?m = Suc (Suc d)"
    using s by (intro that [of "length q div 32"]) (simp add: used_blocks_def)
  have hb: "headIndex p AND NOT (BLOCK_SIZE - 1) = head_base p" by (simp add: base_diff head_base_def)
  have "slot (headIndex p + 1) = 0" using slot_add [of "headIndex p" 1] s by simp
  then have hb1: "(headIndex p + 1) AND NOT (BLOCK_SIZE - 1) = head_base p + 32" using s by (simp add: base_diff head_base_def)
  have diff: "head_base p - (head_base p + of_nat (32 * Suc d)) = - of_nat (32 * Suc d)"
    "head_base p + 32 - (head_base p + of_nat (32 * Suc d)) = (- of_nat (32 * d) :: 64 word)" by (simp_all add: algebra_simps)
  have n: "ix_entries h ! unat (ix_front h) = Some (head_base p + of_nat (32 * Suc d), n)" using n d by (simp only: diff_Suc_1)
  have "x_position h (headIndex p) p = Some ii" using at by (simp add: at_head_def)
  then have ii: "ii = (ix_front h + (- of_nat (32 * Suc d)) div BLOCK_SIZE) AND (ix_size h - 1)"
    by (simp only: x_position_def n option.case prod.case hb diff Let_def option.inject)
  have "x_position h (headIndex p + 1) ?p1 = Some ((ix_front h + (- of_nat (32 * d)) div BLOCK_SIZE) AND (ix_size h - 1))"
    by (simp only: x_position_def n option.case prod.case hb1 diff Let_def)
  also have "(ix_front h + (- of_nat (32 * d)) div BLOCK_SIZE) AND (ix_size h - 1) = x_next_position h ii"
    unfolding ii x_next_position_def using r(3) d by (intro ring_step [OF r(1,2)]) simp
  finally show "x_position h (headIndex p + 1) ?p1 = Some (x_next_position h ii)" .
qed

interpretation explicit_bulk: bulk_queue x_ok x_dequeue x_blockIndex x_block_at x_release_slots x_next_position x_position
proof
  fix q and p :: "'a explicit_producer" assume ok: "x_ok q p"
  obtain G U where "x_state q G U p" using ok by (auto simp: x_ok_def)
  then have u: "in_use q U p" "length U \<le> unat (pr_blockIndexSlotsUsed p)" by (simp_all add: x_state_def)
  show "tailIndex p = headIndex p + of_nat (length q) \<and> dequeueOptimisticCount p - dequeueOvercommit p = headIndex p \<and> length q < 2 ^ 63"
    using u(1) in_use_length(1) [OF u] by (simp add: in_use_def indices_ok_def)
next
  fix x q and p :: "'a explicit_producer" assume ok: "x_ok (x # q) p"
  obtain h ii b where h: "at_explicit h ii b p" "block_get (headIndex p) (blocks p b) = Some x" "x_dequeue False p = Some (Got x, x_taken b p)"
    using explicit_head [OF ok] by metis
  have "many_flags (headIndex p) 0 fs = fs" for fs by (simp add: many_flags_def)
  then have "x_release_slots h ii b (headIndex p) 0 p = p" by (simp add: x_release_slots_def set_many_explicit upd_block_def)
  moreover have "x_ok q (x_taken b p)" using x_dequeue_ok [OF ok, of False] h(3) by auto
  ultimately show "\<exists>h ii b. at_explicit h ii b p \<and> block_get (headIndex p) (blocks p b) = Some x \<and> x_release_slots h ii b (headIndex p) 0 p = p
      \<and> x_dequeue False p = Some (Got x, seg_done (x_release_slots h) ii b 1 p) \<and> x_ok q (seg_done (x_release_slots h) ii b 1 p)"
    using h unfolding x_taken_is_stretch [of b p h ii] by blast
next
  fix x q h ii b k and p :: "'a explicit_producer"
  assume a: "x_ok (x # q) p" "at_explicit h ii b p" "slot (headIndex p) < 31"
  show "at_explicit h ii b (seg_done (x_release_slots h) ii b 1 p) \<and> (0 < k \<longrightarrow> slot (headIndex p) + Suc k \<le> 32 \<longrightarrow>
      seg_done (x_release_slots h) ii b k (seg_done (x_release_slots h) ii b 1 p) = seg_done (x_release_slots h) ii b (Suc k) p)"
    using explicit_stay [OF a] by blast
next
  fix x y q h ii b and p :: "'a explicit_producer"
  assume a: "x_ok (x # y # q) p" "at_explicit h ii b p" "slot (headIndex p) = 31"
  show "x_blockIndex (seg_done (x_release_slots h) ii b 1 p) = Some h
      \<and> x_position h (headIndex p + 1) (seg_done (x_release_slots h) ii b 1 p) = Some (x_next_position h ii)"
    using explicit_move [OF a] by blast
qed (simp_all add: x_frame, simp_all add: x_block_at_def x_position_def)


section \<open>Producers of both kinds\<close>

fun dequeue_bulk_any :: "nat option \<Rightarrow> 64 word \<Rightarrow> 'a any_producer \<Rightarrow> ('a bulk_result \<times> 'a any_producer) option" where
  "dequeue_bulk_any thr max_count (ExplicitOne p) = map_option (\<lambda>(r, p'). (r, ExplicitOne p')) (x_dequeue_bulk thr max_count p)"
| "dequeue_bulk_any thr max_count (ImplicitOne p) = map_option (\<lambda>(r, p'). (r, ImplicitOne p')) (dequeue_bulk thr max_count p)"

lemma deq_n_explicit: "deq_n x_dequeue n p = Some (xs, p') \<Longrightarrow> deq_n dequeue_any n (ExplicitOne p) = Some (xs, ExplicitOne p')"
  by (induction n arbitrary: p xs) (fastforce split: option.splits dequeue_result.splits)+

lemma deq_n_implicit: "deq_n dequeue n p = Some (xs, p') \<Longrightarrow> deq_n dequeue_any n (ImplicitOne p) = Some (xs, ImplicitOne p')"
  by (induction n arbitrary: p xs) (fastforce split: option.splits dequeue_result.splits)+

lemma any_bulk:
  fixes max_count :: "64 word"
  assumes "any_ok q p"
  defines "n \<equiv> min (unat max_count) (length q)"
  shows "\<exists>p'. deq_n dequeue_any n p = Some (take n q, p') \<and> any_ok (drop n q) p'
    \<and> dequeue_bulk_any thr max_count p = Some (bulk_outcome thr (take n q), p')"
proof (cases p)
  case (ExplicitOne e)
  then have "x_ok q e" using assms(1) by simp
  then show ?thesis using explicit_bulk.bulk_spec [of q e max_count thr, folded n_def x_dequeue_bulk_def] deq_n_explicit
    by (fastforce simp: ExplicitOne)
next
  case (ImplicitOne e)
  then have "producer_ok q e" using assms(1) by simp
  then show ?thesis using implicit_bulk.bulk_spec [of q e max_count thr, folded n_def dequeue_bulk_def] deq_n_implicit
    by (fastforce simp: ImplicitOne)
qed

text \<open>
  Claim C16.  A bulk call on a producer of either kind is as many single calls: with \<open>n\<close> the smaller of the number
  asked for and the number of elements, it hands out the \<open>n\<close> oldest elements in order and leaves exactly the state
  that \<open>n\<close> calls of \<^verbatim>\<open>dequeue\<close> leave, across block boundaries, with the blocks they give back and with wrap-around of
  the indices.  When an assignment throws, the elements before it were handed out and the others of the \<open>n\<close>
  are destroyed, with the same state.
\<close>

theorem bulk_is_repeated_dequeue:
  assumes "any_ok q p"
  shows "\<exists>n p'. n = min (unat max_count) (length q) \<and> deq_n dequeue_any n p = Some (take n q, p') \<and> any_ok (drop n q) p'
    \<and> dequeue_bulk_any None max_count p = Some (Moved (take n q), p')
    \<and> dequeue_bulk_any (Some k) max_count p = Some (if k < n then ThrewAfter (take k q) else Moved (take n q), p')"
proof -
  define n where "n = min (unat max_count) (length q)"
  obtain p' where a: "deq_n dequeue_any n p = Some (take n q, p')" "any_ok (drop n q) p'"
    "dequeue_bulk_any None max_count p = Some (bulk_outcome None (take n q), p')"
    using any_bulk [OF assms, of max_count None] unfolding n_def by blast
  moreover have "dequeue_bulk_any (Some k) max_count p = Some (bulk_outcome (Some k) (take n q), p')"
    using any_bulk [OF assms, of max_count "Some k"] a(1) unfolding n_def by auto
  moreover have "bulk_outcome (Some k) (take n q) = (if k < n then ThrewAfter (take k q) else Moved (take n q))"
    by (auto simp: bulk_outcome_def n_def min_def)
  ultimately show ?thesis by (intro exI [of _ n] exI [of _ p']) (simp add: n_def bulk_outcome_def)
qed

theorem bulk_is_repeated_dequeue_witness:
  "\<exists>p p'. any_ok [7 :: nat] p \<and> deq_n dequeue_any 1 p = Some ([7], p') \<and> dequeue_bulk_any None 100 p = Some (Moved [7], p')
     \<and> dequeue_bulk_any (Some 0) 100 p = Some (ThrewAfter [], p') \<and> any_ok [] p'"
proof -
  obtain st where "any_ok (sample_contents 0) (st 0)" using sample_queue by auto
  then have ok: "any_ok [7] (st 0)" by (simp add: sample_contents_def)
  then obtain n p' where "n = min (unat (100 :: 64 word)) (length [7 :: nat])"
      "deq_n dequeue_any n (st 0) = Some (take n [7], p')" "any_ok (drop n [7]) p'"
      "dequeue_bulk_any None 100 (st 0) = Some (Moved (take n [7]), p')"
      "dequeue_bulk_any (Some 0) 100 (st 0) = Some (if 0 < n then ThrewAfter (take 0 [7]) else Moved (take n [7]), p')"
    using bulk_is_repeated_dequeue [OF ok, of 100 0] by blast
  then show ?thesis using ok by (intro exI [of _ "st 0"] exI [of _ p']) (simp add: min_def)
qed

section \<open>The queue\<close>

text \<open>\<open>count\<close> is the number of elements so far.\<close>

fun try_dequeue_bulk ::
  "(nat option \<Rightarrow> 64 word \<Rightarrow> 'p \<Rightarrow> ('a bulk_result \<times> 'p) option) \<Rightarrow> nat option \<Rightarrow> 64 word \<Rightarrow> 64 word \<Rightarrow> nat list \<Rightarrow> (nat \<Rightarrow> 'p)
     \<Rightarrow> ('a bulk_result \<times> (nat \<Rightarrow> 'p)) option" where
  "try_dequeue_bulk bulk thr max_count count [] st = Some (Moved [], st)"
| "try_dequeue_bulk bulk thr max_count count (ptr # ps) st =
     (case bulk thr (max_count - count) (st ptr) of
        None \<Rightarrow> None
      | Some (ThrewAfter xs, p') \<Rightarrow> Some (ThrewAfter xs, st(ptr := p'))
      | Some (Moved xs, p') \<Rightarrow>
          (let count' = count + of_nat (length xs)
           in if count' = max_count then Some (Moved xs, st(ptr := p'))
              else map_option (\<lambda>(r, st'). (prepend xs r, st'))
                     (try_dequeue_bulk bulk (map_option (\<lambda>k. k - length xs) thr) max_count count' ps (st(ptr := p')))))"


text \<open>How many elements left their producers: all of the \<open>n\<close>, or more than \<open>k\<close> when the assignment \<open>k\<close> threw.\<close>

definition gone :: "nat option \<Rightarrow> nat \<Rightarrow> nat \<Rightarrow> bool" where
  "gone thr n m \<longleftrightarrow> (case thr of None \<Rightarrow> m = n | Some k \<Rightarrow> if k < n then k < m \<and> m \<le> n else m = n)"

definition bulk_post ::
  "nat option \<Rightarrow> nat \<Rightarrow> (nat \<Rightarrow> 'a list) \<Rightarrow> nat list \<Rightarrow> (nat \<Rightarrow> 'a any_producer) \<Rightarrow> ('a bulk_result \<times> (nat \<Rightarrow> 'a any_producer)) option \<Rightarrow> bool" where
  "bulk_post thr n Q ps st r \<longleftrightarrow> (\<exists>m Q' st'. r = Some (bulk_outcome thr (take n (concat (map Q ps))), st')
     \<and> (\<forall>p\<in>set ps. any_ok (Q' p) (st' p)) \<and> concat (map Q' ps) = drop m (concat (map Q ps))
     \<and> gone thr (min n (length (concat (map Q ps)))) m \<and> (\<forall>p. p \<notin> set ps \<longrightarrow> st' p = st p))"

lemma bulk_post_here:
  assumes ps: "distinct (ptr # ps)" "\<forall>p\<in>set (ptr # ps). any_ok (Q p) (st p)"
    and p': "any_ok (drop n1 (Q ptr)) p'" "n1 \<le> length (Q ptr)"
    and g: "gone thr (min n (length (concat (map Q (ptr # ps))))) n1"
    and r: "r = Some (bulk_outcome thr (take n (concat (map Q (ptr # ps)))), st(ptr := p'))"
  shows "bulk_post thr n Q (ptr # ps) st r"
proof -
  let ?Q = "Q(ptr := drop n1 (Q ptr))"
  have d: "map ?Q ps = map Q ps" using ps(1) by simp
  have "concat (map ?Q (ptr # ps)) = drop n1 (concat (map Q (ptr # ps)))" unfolding list.map d using p'(2) by simp
  moreover have "\<forall>p\<in>set (ptr # ps). any_ok (?Q p) ((st(ptr := p')) p)" using p'(1) ps by simp
  moreover have "\<forall>p. p \<notin> set (ptr # ps) \<longrightarrow> (st(ptr := p')) p = st p" by simp
  ultimately show ?thesis unfolding bulk_post_def
    by (intro exI [of _ n1] exI [of _ ?Q] exI [of _ "st(ptr := p')"] conjI r g)
qed

lemma bulk_post_more:
  assumes ps: "distinct (ptr # ps)" and p': "any_ok [] p'" and n1: "length (Q ptr) \<le> n"
    and t: "case thr of None \<Rightarrow> True | Some k \<Rightarrow> length (Q ptr) \<le> k"
    and post: "bulk_post (map_option (\<lambda>k. k - length (Q ptr)) thr) (n - length (Q ptr)) Q ps (st(ptr := p')) r"
  shows "bulk_post thr n Q (ptr # ps) st (map_option (\<lambda>(r, st'). (prepend (Q ptr) r, st')) r)"
proof -
  let ?l = "length (Q ptr)" and ?thr = "map_option (\<lambda>k. k - length (Q ptr)) thr" and ?rest = "concat (map Q ps)"
  obtain m Q' st' where i: "r = Some (bulk_outcome ?thr (take (n - ?l) ?rest), st')" "\<forall>p\<in>set ps. any_ok (Q' p) (st' p)"
      "concat (map Q' ps) = drop m ?rest" "gone ?thr (min (n - ?l) (length ?rest)) m" "\<forall>p. p \<notin> set ps \<longrightarrow> st' p = (st(ptr := p')) p"
    using post unfolding bulk_post_def by blast
  have o: "prepend (Q ptr) (bulk_outcome ?thr (take (n - ?l) ?rest)) = bulk_outcome thr (take n (concat (map Q (ptr # ps))))"
    using bulk_outcome_append [OF t, of "take (n - ?l) ?rest"] n1 by simp
  have e: "map (Q'(ptr := [])) ps = map Q' ps" using ps by simp
  have d: "concat (map (Q'(ptr := [])) (ptr # ps)) = drop (?l + m) (concat (map Q (ptr # ps)))"
    unfolding list.map e using i(3) by simp
  have "st' ptr = p'" using i(5) ps by simp
  then have h: "\<forall>p\<in>set (ptr # ps). any_ok ((Q'(ptr := [])) p) (st' p)" using i(2) p' by simp
  have mn: "min n (length (concat (map Q (ptr # ps)))) = ?l + min (n - ?l) (length ?rest)" using n1 by simp
  have g: "gone thr (min n (length (concat (map Q (ptr # ps))))) (?l + m)"
    unfolding mn using i(4) t by (auto simp: gone_def split: option.splits if_splits)
  have "\<forall>p. p \<notin> set (ptr # ps) \<longrightarrow> st' p = st p" using i(5) by simp
  moreover have "map_option (\<lambda>(r, st'). (prepend (Q ptr) r, st')) r = Some (bulk_outcome thr (take n (concat (map Q (ptr # ps)))), st')"
    unfolding i(1) using o by simp
  ultimately show ?thesis unfolding bulk_post_def
    by (intro exI [of _ "?l + m"] exI [of _ "Q'(ptr := [])"] exI [of _ st'] conjI h d g)
qed

lemma try_bulk_spec:
  fixes max_count :: "64 word"
  assumes "distinct ps" "\<forall>p\<in>set ps. any_ok (Q p) (st p)" "c \<le> unat max_count"
  shows "bulk_post thr (unat max_count - c) Q ps st (try_dequeue_bulk dequeue_bulk_any thr max_count (of_nat c) ps st)"
  using assms
proof (induction ps arbitrary: st c thr)
  case Nil
  then show ?case by (auto simp: bulk_post_def bulk_outcome_def gone_def intro!: exI [of _ 0] split: option.splits)
next
  case (Cons ptr ps)
  define q n n1 where "q = Q ptr" and "n = unat max_count - c" and "n1 = min n (length q)"
  have uc: "unat (of_nat c :: 64 word) = c" using Cons.prems(3) unat_bound [of max_count] by (intro unat_of_nat_small) simp
  then have um: "unat (max_count - of_nat c) = n" using Cons.prems(3) unfolding n_def by (subst unat_sub_le) (simp_all add: word_le_nat_alt)
  obtain p' where b: "dequeue_bulk_any thr (max_count - of_nat c) (st ptr) = Some (bulk_outcome thr (take n1 q), p')" "any_ok (drop n1 q) p'"
    using any_bulk [of q "st ptr" "max_count - of_nat c" thr] Cons.prems(2) um by (auto simp: q_def n1_def)
  have len: "length (take n1 q) = n1" "n1 \<le> length q" by (simp_all add: n1_def)
  note here = bulk_post_here [OF Cons.prems(1,2) b(2) [unfolded q_def] len(2) [unfolded q_def], of thr n, folded n_def]
  show ?case unfolding n_def [symmetric]
  proof (cases "\<exists>k. thr = Some k \<and> k < n1")
    case True
    then obtain k where k: "thr = Some k" "k < n1" by blast
    have "bulk_outcome thr (take n (concat (map Q (ptr # ps)))) = ThrewAfter (take k q)"
      using k by (auto simp: bulk_outcome_def n1_def q_def)
    moreover have "gone thr (min n (length (concat (map Q (ptr # ps))))) n1" using k by (auto simp: gone_def n1_def q_def)
    ultimately show "bulk_post thr n Q (ptr # ps) st (try_dequeue_bulk dequeue_bulk_any thr max_count (of_nat c) (ptr # ps) st)"
      using k b(1) by (intro here) (auto simp: bulk_outcome_def n1_def)
  next
    case False
    then have t: "case thr of None \<Rightarrow> True | Some k \<Rightarrow> n1 \<le> k" by (auto simp: not_less split: option.splits)
    then have o: "bulk_outcome thr (take n1 q) = Moved (take n1 q)" using len by (auto simp: bulk_outcome_def split: option.splits)
    have cn: "unat (of_nat (c + n1) :: 64 word) = c + n1"
      using Cons.prems(3) unat_bound [of max_count] by (intro unat_of_nat_small) (simp add: n1_def n_def)
    show "bulk_post thr n Q (ptr # ps) st (try_dequeue_bulk dequeue_bulk_any thr max_count (of_nat c) (ptr # ps) st)"
    proof (cases "c + n1 = unat max_count")
      case True
      then have w: "of_nat c + of_nat n1 = max_count" using cn by (metis of_nat_add word_unat_eq_iff)
      have n: "n = n1" using True by (simp add: n_def)
      then have "take n (concat (map Q (ptr # ps))) = take n1 q" using len(2) by (simp add: q_def)
      moreover have "gone thr (min n (length (concat (map Q (ptr # ps))))) n1" using t n len(2) by (auto simp: gone_def q_def split: option.splits)
      ultimately show ?thesis using b(1) o w len(1) by (intro here) simp_all
    next
      case ne: False
      then have n1: "n1 = length q" "n1 \<le> n" "c + n1 \<le> unat max_count" using Cons.prems(3) by (auto simp: n1_def n_def min_def split: if_splits)
      have w: "of_nat c + of_nat n1 \<noteq> max_count" using ne cn by auto
      have nn: "unat max_count - (c + n1) = n - n1" by (simp add: n_def)
      have ok: "distinct ps" "\<forall>p\<in>set ps. any_ok (Q p) ((st(ptr := p')) p)" using Cons.prems(1,2) by auto
      have "bulk_post (map_option (\<lambda>k. k - n1) thr) (n - n1) Q ps (st(ptr := p'))
          (try_dequeue_bulk dequeue_bulk_any (map_option (\<lambda>k. k - n1) thr) max_count (of_nat (c + n1)) ps (st(ptr := p')))"
        by (rule Cons.IH [OF ok n1(3), unfolded nn])
      note post = bulk_post_more [OF Cons.prems(1) _ _ _ this [unfolded n1(1) q_def]]
      show ?thesis using post b o w len t [unfolded n1(1) q_def] n1 by (simp add: q_def)
    qed
  qed
qed

text \<open>
  Claim C17.  A bulk call on the queue takes elements producer by producer, along the chain: it hands out as many as
  asked for, or all there are, in the order of the chain and within a producer the oldest first, and what
  stays behind is the rest in that order.  When an assignment throws, the elements before it were handed out, and
  what is lost are the following elements of that producer up to the number asked for.  Other producers do not change.
\<close>

theorem bulk_dequeue_outcome:
  assumes "distinct ps" "\<forall>p\<in>set ps. any_ok (Q p) (st p)"
  shows "\<exists>m Q' st'. try_dequeue_bulk dequeue_bulk_any thr max_count 0 ps st
      = Some (case thr of
                None \<Rightarrow> Moved (take (unat max_count) (concat (map Q ps)))
              | Some k \<Rightarrow> if k < min (unat max_count) (length (concat (map Q ps))) then ThrewAfter (take k (concat (map Q ps)))
                         else Moved (take (unat max_count) (concat (map Q ps))), st')
    \<and> (\<forall>p\<in>set ps. any_ok (Q' p) (st' p)) \<and> concat (map Q' ps) = drop m (concat (map Q ps))
    \<and> gone thr (min (unat max_count) (length (concat (map Q ps)))) m \<and> (\<forall>p. p \<notin> set ps \<longrightarrow> st' p = st p)"
proof -
  let ?all = "concat (map Q ps)"
  have "bulk_outcome thr (take (unat max_count) ?all) = (case thr of
      None \<Rightarrow> Moved (take (unat max_count) ?all)
    | Some k \<Rightarrow> if k < min (unat max_count) (length ?all) then ThrewAfter (take k ?all) else Moved (take (unat max_count) ?all))"
    by (cases thr) (auto simp: bulk_outcome_def)
  then show ?thesis using try_bulk_spec [OF assms, of 0 max_count thr] unfolding bulk_post_def by simp
qed

theorem bulk_dequeue_outcome_witness:
  "\<exists>st Q' st'. try_dequeue_bulk dequeue_bulk_any None 5 0 [1, 0] st = Some (Moved [7 :: nat], st')
     \<and> (\<forall>p\<in>set [1, 0]. any_ok (Q' p) (st' p)) \<and> Q' 1 @ Q' 0 = []"
proof -
  obtain st where st: "\<forall>p\<in>set [1, 0]. any_ok (sample_contents p) (st p)" using sample_queue by blast
  have c: "concat (map sample_contents [1, 0]) = [7]" by (simp add: sample_contents_def)
  obtain m Q' st' where "try_dequeue_bulk dequeue_bulk_any None 5 0 [1, 0] st = Some (Moved (take 5 [7]), st')"
    "\<forall>p\<in>set [1, 0]. any_ok (Q' p) (st' p)" "concat (map Q' [1, 0]) = drop m [7]" "gone None (min 5 (length [7 :: nat])) m"
    using bulk_dequeue_outcome [of "[1, 0]" sample_contents st None 5] st unfolding c by auto
  then show ?thesis by (intro exI [of _ st] exI [of _ Q'] exI [of _ st']) (simp add: gone_def)
qed


end
