(* ===== verification/Utf8.thy ===== *)
theory Utf8
  imports Wide_Chars
begin

text \<open>
  Conversion between UTF-8 and wide strings: the checked functions of the UTF-8 library that the
  repository carries (\<^verbatim>\<open>3rdParty/utf8cpp/utf8/core.h\<close>, \<^verbatim>\<open>checked.h\<close>) and the functions of
  \<^verbatim>\<open>Source/ProtobufDecompileTest/Util.cpp\<close> that call them.  A byte string is a list of octets, an
  iterator is what is left of the string, an exception is the left side of a sum.
\<close>

unbundle bit_operations_syntax

section \<open>Code points and sequences\<close>

definition is_trail :: "u8 \<Rightarrow> bool" where
  "is_trail oc \<longleftrightarrow> drop_bit 6 oc = 2"

definition is_lead_surrogate :: "u32 \<Rightarrow> bool" where
  "is_lead_surrogate cp \<longleftrightarrow> cp \<ge> 0xd800 \<and> cp \<le> 0xdbff"

definition is_trail_surrogate :: "u32 \<Rightarrow> bool" where
  "is_trail_surrogate cp \<longleftrightarrow> cp \<ge> 0xdc00 \<and> cp \<le> 0xdfff"

definition is_surrogate :: "u32 \<Rightarrow> bool" where
  "is_surrogate cp \<longleftrightarrow> cp \<ge> 0xd800 \<and> cp \<le> 0xdfff"

definition is_code_point_valid :: "u32 \<Rightarrow> bool" where
  "is_code_point_valid cp \<longleftrightarrow> cp \<le> 0x10ffff \<and> \<not> is_surrogate cp"

definition sequence_length :: "u8 \<Rightarrow> nat" where
  "sequence_length lead =
     (if lead < 0x80 then 1 else if drop_bit 5 lead = 6 then 2 else if drop_bit 4 lead = 0xe then 3
      else if drop_bit 3 lead = 0x1e then 4 else 0)"

definition is_overlong_sequence :: "u32 \<Rightarrow> nat \<Rightarrow> bool" where
  "is_overlong_sequence cp len =
     (if cp < 0x80 then len \<noteq> 1 else if cp < 0x800 then len \<noteq> 2 else if cp < 0x10000 then len \<noteq> 3 else False)"

datatype utf_error = NOT_ENOUGH_ROOM | INVALID_LEAD | INCOMPLETE_SEQUENCE | OVERLONG_SEQUENCE | INVALID_CODE_POINT

definition increase_safely :: "u8 list \<Rightarrow> utf_error + u8 list" where
  "increase_safely it =
     (case tl it of
        [] \<Rightarrow> Inl NOT_ENOUGH_ROOM
      | oc # rest \<Rightarrow> if \<not> is_trail oc then Inl INCOMPLETE_SEQUENCE else Inr (oc # rest))"

text \<open>The decoders leave the iterator at the last octet of the sequence.\<close>

definition get_sequence_1 :: "u8 list \<Rightarrow> utf_error + u32 \<times> u8 list" where
  "get_sequence_1 it = (if it = [] then Inl NOT_ENOUGH_ROOM else Inr (ucast (hd it), it))"

definition get_sequence_2 :: "u8 list \<Rightarrow> utf_error + u32 \<times> u8 list" where
  "get_sequence_2 it =
     (if it = [] then Inl NOT_ENOUGH_ROOM
      else let code_point = ucast (hd it) :: u32
        in case increase_safely it of
             Inl ret \<Rightarrow> Inl ret
           | Inr it \<Rightarrow> Inr ((push_bit 6 code_point AND 0x7ff) + (ucast (hd it) AND 0x3f), it))"

definition get_sequence_3 :: "u8 list \<Rightarrow> utf_error + u32 \<times> u8 list" where
  "get_sequence_3 it =
     (if it = [] then Inl NOT_ENOUGH_ROOM
      else let code_point = ucast (hd it) :: u32
        in case increase_safely it of
             Inl ret \<Rightarrow> Inl ret
           | Inr it \<Rightarrow>
               (let code_point = (push_bit 12 code_point AND 0xffff) + (push_bit 6 (ucast (hd it)) AND 0xfff)
                in case increase_safely it of
                     Inl ret \<Rightarrow> Inl ret
                   | Inr it \<Rightarrow> Inr (code_point + (ucast (hd it) AND 0x3f), it)))"

definition get_sequence_4 :: "u8 list \<Rightarrow> utf_error + u32 \<times> u8 list" where
  "get_sequence_4 it =
     (if it = [] then Inl NOT_ENOUGH_ROOM
      else let code_point = ucast (hd it) :: u32
        in case increase_safely it of
             Inl ret \<Rightarrow> Inl ret
           | Inr it \<Rightarrow>
               (let code_point = (push_bit 18 code_point AND 0x1fffff) + (push_bit 12 (ucast (hd it)) AND 0x3ffff)
                in case increase_safely it of
                     Inl ret \<Rightarrow> Inl ret
                   | Inr it \<Rightarrow>
                       (let code_point = code_point + (push_bit 6 (ucast (hd it)) AND 0xfff)
                        in case increase_safely it of
                             Inl ret \<Rightarrow> Inl ret
                           | Inr it \<Rightarrow> Inr (code_point + (ucast (hd it) AND 0x3f), it))))"

text \<open>The iterator has at least one octet left; on an error it stays where it was.\<close>

definition validate_next :: "u8 list \<Rightarrow> utf_error + u32 \<times> u8 list" where
  "validate_next it =
     (let len = sequence_length (hd it)
      in if len = 0 then Inl INVALID_LEAD
         else case (if len = 1 then get_sequence_1 it else if len = 2 then get_sequence_2 it
                    else if len = 3 then get_sequence_3 it else get_sequence_4 it) of
                Inl err \<Rightarrow> Inl err
              | Inr (cp, it) \<Rightarrow>
                  if is_code_point_valid cp then
                    if \<not> is_overlong_sequence cp len then Inr (cp, tl it) else Inl OVERLONG_SEQUENCE
                  else Inl INVALID_CODE_POINT)"

section \<open>The interface of the library\<close>

datatype utf_exception = not_enough_room | invalid_utf8 u8 | invalid_utf16 u16 | invalid_code_point u32

definition append_cp :: "u32 \<Rightarrow> utf_exception + u8 list" where
  "append_cp cp =
     (if \<not> is_code_point_valid cp then Inl (invalid_code_point cp)
      else if cp < 0x80 then Inr [ucast cp]
      else if cp < 0x800 then Inr [ucast (drop_bit 6 cp OR 0xc0), ucast ((cp AND 0x3f) OR 0x80)]
      else if cp < 0x10000 then
        Inr [ucast (drop_bit 12 cp OR 0xe0), ucast ((drop_bit 6 cp AND 0x3f) OR 0x80), ucast ((cp AND 0x3f) OR 0x80)]
      else
        Inr [ucast (drop_bit 18 cp OR 0xf0), ucast ((drop_bit 12 cp AND 0x3f) OR 0x80),
             ucast ((drop_bit 6 cp AND 0x3f) OR 0x80), ucast ((cp AND 0x3f) OR 0x80)])"

text \<open>
  \<^verbatim>\<open>next\<close>: the code point that an \<^verbatim>\<open>invalid_code_point\<close> reports is the caller's variable, which an
  error leaves at zero.
\<close>

definition utf8_next :: "u8 list \<Rightarrow> utf_exception + u32 \<times> u8 list" where
  "utf8_next it =
     (case validate_next it of
        Inr (cp, it') \<Rightarrow> Inr (cp, it')
      | Inl NOT_ENOUGH_ROOM \<Rightarrow> Inl not_enough_room
      | Inl INVALID_CODE_POINT \<Rightarrow> Inl (invalid_code_point 0)
      | Inl _ \<Rightarrow> Inl (invalid_utf8 (hd it)))"

lemma increase_shorter: "increase_safely it = Inr it' \<Longrightarrow> length it' < length it"
  by (cases it) (auto simp: increase_safely_def split: list.splits if_splits)

lemma validate_shorter:
  assumes "validate_next it = Inr (cp, it')" "it \<noteq> []"
  shows "length it' < length it"
  using assms
  by (auto simp: validate_next_def get_sequence_1_def get_sequence_2_def get_sequence_3_def get_sequence_4_def Let_def
      split: if_splits sum.splits dest!: increase_shorter)

lemma next_shorter: "utf8_next it = Inr (cp, it') \<Longrightarrow> it \<noteq> [] \<Longrightarrow> length it' < length it"
  by (auto simp: utf8_next_def split: sum.splits utf_error.splits intro: validate_shorter)

function utf8_distance :: "u8 list \<Rightarrow> utf_exception + nat" where
  "utf8_distance it =
     (if it = [] then Inr 0
      else case utf8_next it of
             Inl e \<Rightarrow> Inl e
           | Inr (cp, it') \<Rightarrow> (case utf8_distance it' of Inl e \<Rightarrow> Inl e | Inr d \<Rightarrow> Inr (d + 1)))"
  by pat_completeness auto
termination by (relation "measure length") (auto dest: next_shorter)

text \<open>The units are written to a wide string, so each is extended to a \<^verbatim>\<open>wchar_t\<close>.\<close>

definition utf16_units :: "u32 \<Rightarrow> wchar_t list" where
  "utf16_units cp =
     (if cp > 0xffff then [ucast (ucast (drop_bit 10 cp + 0xd7c0) :: u16), ucast (ucast ((cp AND 0x3ff) + 0xdc00) :: u16)]
      else [ucast (ucast cp :: u16)])"

function utf8to16 :: "u8 list \<Rightarrow> utf_exception + wchar_t list" where
  "utf8to16 it =
     (if it = [] then Inr []
      else case utf8_next it of
             Inl e \<Rightarrow> Inl e
           | Inr (cp, it') \<Rightarrow> (case utf8to16 it' of Inl e \<Rightarrow> Inl e | Inr w \<Rightarrow> Inr (utf16_units cp @ w)))"
  by pat_completeness auto
termination by (relation "measure length") (auto dest: next_shorter)

definition mask16 :: "wchar_t \<Rightarrow> u32" where
  "mask16 w = w AND 0xffff"

definition SURROGATE_OFFSET :: u32 where
  "SURROGATE_OFFSET = 0x10000 - push_bit 10 0xd800 - 0xdc00"

fun utf16to8 :: "wchar_t list \<Rightarrow> utf_exception + u8 list" where
  "utf16to8 [] = Inr []"
| "utf16to8 [w] =
     (let cp = mask16 w
      in if is_lead_surrogate cp \<or> is_trail_surrogate cp then Inl (invalid_utf16 (ucast cp))
         else append_cp cp)"
| "utf16to8 (w # v # ws) =
     (let cp = mask16 w
      in if is_lead_surrogate cp then
           (let trail_surrogate = mask16 v
            in if is_trail_surrogate trail_surrogate then
                 (case append_cp (push_bit 10 cp + trail_surrogate + SURROGATE_OFFSET) of
                    Inl e \<Rightarrow> Inl e
                  | Inr s \<Rightarrow> (case utf16to8 ws of Inl e \<Rightarrow> Inl e | Inr t \<Rightarrow> Inr (s @ t)))
               else Inl (invalid_utf16 (ucast trail_surrogate)))
         else if is_trail_surrogate cp then Inl (invalid_utf16 (ucast cp))
         else (case append_cp cp of
                 Inl e \<Rightarrow> Inl e
               | Inr s \<Rightarrow> (case utf16to8 (v # ws) of Inl e \<Rightarrow> Inl e | Inr t \<Rightarrow> Inr (s @ t))))"


section \<open>The callers\<close>

text \<open>
  \<^term>\<open>None\<close> is a write outside the string.  Exceptions of the library are caught by every caller.
  A \<^verbatim>\<open>std::string&\<close> argument is an argument and a result.
\<close>

definition utf8length :: "u8 list \<Rightarrow> nat \<times> u8 list" where
  "utf8length utf8str = (case utf8_distance utf8str of Inr d \<Rightarrow> (d, utf8str) | Inl _ \<Rightarrow> (0, []))"

definition utf8truncate :: "u8 list \<Rightarrow> nat \<Rightarrow> u8 list option" where
  "utf8truncate utf8str len =
     (case utf8_distance utf8str of
        Inl _ \<Rightarrow> Some []
      | Inr wlen \<Rightarrow>
          if wlen \<le> len then Some utf8str
          else (case utf8to16 utf8str of
                  Inl _ \<Rightarrow> Some []
                | Inr units \<Rightarrow>
                    (case blit 0 units (vec_resize wlen 0 []) of
                       None \<Rightarrow> None
                     | Some wstr \<Rightarrow>
                         (case utf16to8 (vec_resize len 0 wstr) of
                            Inl _ \<Rightarrow> Some []
                          | Inr out \<Rightarrow> map_option (take (length out)) (blit 0 out utf8str)))))"

text \<open>\<^verbatim>\<open>Utf8toWStr\<close> with a caller's buffer; \<open>wsize\<close> does not count the terminator.\<close>

definition wstr_failed :: "wchar_t list \<Rightarrow> nat \<Rightarrow> (bool \<times> wchar_t list \<times> nat) option" where
  "wstr_failed wstr wsize = map_option (\<lambda>w. (False, w, 0)) (if wsize > 0 then blit 0 [0] wstr else Some wstr)"

definition Utf8toWStr_buffer :: "u8 list \<Rightarrow> wchar_t list \<Rightarrow> nat \<Rightarrow> (bool \<times> wchar_t list \<times> nat) option" where
  "Utf8toWStr_buffer utf8str wstr wsize =
     (case utf8_distance utf8str of
        Inl _ \<Rightarrow> wstr_failed wstr wsize
      | Inr len \<Rightarrow>
          if len > wsize then wstr_failed wstr wsize
          else (case utf8to16 utf8str of
                  Inl _ \<Rightarrow> wstr_failed wstr len
                | Inr units \<Rightarrow>
                    (case blit 0 units wstr of
                       None \<Rightarrow> None
                     | Some w \<Rightarrow> map_option (\<lambda>w'. (True, w', len)) (blit len [0] w))))"

definition Utf8toWStr :: "u8 list \<Rightarrow> wchar_t list \<Rightarrow> (bool \<times> wchar_t list) option" where
  "Utf8toWStr utf8str wstr =
     (case utf8_distance utf8str of
        Inl _ \<Rightarrow> Some (False, [])
      | Inr len \<Rightarrow>
          if len \<noteq> 0 then
            (case utf8to16 utf8str of
               Inl _ \<Rightarrow> Some (False, [])
             | Inr units \<Rightarrow> map_option (Pair True) (blit 0 units (vec_resize len 0 wstr)))
          else Some (True, wstr))"

definition WStrToUtf8 :: "wchar_t list \<Rightarrow> u8 list \<Rightarrow> (bool \<times> u8 list) option" where
  "WStrToUtf8 wstr utf8str =
     (let utf8str2 = vec_resize (length wstr * 4) 0 []
      in if length wstr \<noteq> 0 then
           (case utf16to8 wstr of
              Inl _ \<Rightarrow> Some (False, [])
            | Inr out \<Rightarrow> map_option (\<lambda>b. (True, take (length out) b)) (blit 0 out utf8str2))
         else Some (True, utf8str2))"

definition wstr_find :: "wchar_t list \<Rightarrow> wchar_t list \<Rightarrow> bool" where
  "wstr_find temp search = list_ex (\<lambda>i. take (length search) (drop i temp) = search) [0..<Suc (length temp)]"

definition Utf8FitTo :: "u8 list \<Rightarrow> wchar_t list \<Rightarrow> bool option" where
  "Utf8FitTo str search =
     map_option (\<lambda>(ok, temp). ok \<and> wstr_find (wstrToLower temp) search) (Utf8toWStr str [])"

definition Utf8ToUpperOnlyLatin :: "u8 list \<Rightarrow> (bool \<times> u8 list) option" where
  "Utf8ToUpperOnlyLatin utf8String =
     (case Utf8toWStr utf8String [] of
        None \<Rightarrow> None
      | Some (False, wstr) \<Rightarrow> Some (False, utf8String)
      | Some (True, wstr) \<Rightarrow> WStrToUtf8 (map wcharToUpperOnlyLatin wstr) utf8String)"

section \<open>Decoding is the inverse of encoding\<close>

lemma and_mask_nat:
  fixes w :: "'a::len word"
  assumes "k \<le> LENGTH('a)" "m = mask k"
  shows "unat (w AND m) = unat w mod 2 ^ k"
proof -
  have "unat (w AND m) = take_bit k (unat w)"
    unfolding assms(2) take_bit_eq_mask [symmetric] by (simp only: unsigned_take_bit_eq)
  then show ?thesis by (simp only: take_bit_eq_mod)
qed

lemma masks:
  "0x3f = (mask 6 :: 32 word)" "0x3ff = (mask 10 :: 32 word)" "0x7ff = (mask 11 :: 32 word)" "0xfff = (mask 12 :: 32 word)"
  "0xffff = (mask 16 :: 32 word)" "0x3ffff = (mask 18 :: 32 word)" "0x1fffff = (mask 21 :: 32 word)"
  by (simp_all add: mask_eq_exp_minus_1)

lemma or_plus_nat:
  fixes a :: "'a::len word"
  assumes "unat a < 2 ^ k" "b = push_bit k c"
  shows "a OR b = a + b"
proof -
  have "\<not> bit a n" if "k \<le> n" for n
  proof -
    have "take_bit k a = a" using assms(1) by (simp add: word_unat_eq_iff unsigned_take_bit_eq take_bit_nat_eq_self)
    then show ?thesis using that by (metis bit_take_bit_iff not_less)
  qed
  then have "\<And>n. \<not> bit a n \<or> \<not> bit b n" by (auto simp: assms(2) bit_push_bit_iff)
  then show ?thesis by (metis disjunctive_add)
qed

lemma unat_push_byte: "k \<le> 18 \<Longrightarrow> unat (push_bit k (ucast (b :: u8)) :: u32) = unat b * 2 ^ k"
proof -
  assume "k \<le> 18"
  then have "(2 :: nat) ^ k \<le> 2 ^ 18" by (intro power_increasing) simp_all
  moreover have "unat b < 2 ^ 8" using unat_bound [of b] by simp
  ultimately have "unat b * 2 ^ k < 2 ^ 32"
    using mult_less_le_imp_less [of "unat b" "2 ^ 8" "2 ^ k" "2 ^ 18"] by simp
  moreover have "unat (ucast b :: u32) = unat b" using unat_bound [of b] by (simp add: unsigned_ucast_eq take_bit_nat_eq_self)
  moreover have "unat (push_bit k (ucast b :: u32)) = take_bit LENGTH(32) (push_bit k (unat (ucast b :: u32)))"
    by (simp only: unsigned_push_bit_eq)
  ultimately show ?thesis by (simp add: take_bit_nat_eq_self push_bit_eq_mult)
qed


text \<open>The encoding of a code point as numbers.\<close>

definition enc :: "nat \<Rightarrow> nat list" where
  "enc n =
     (if n < 128 then [n]
      else if n < 2048 then [192 + n div 64, 128 + n mod 64]
      else if n < 65536 then [224 + n div 4096, 128 + n div 64 mod 64, 128 + n mod 64]
      else [240 + n div 262144, 128 + n div 4096 mod 64, 128 + n div 64 mod 64, 128 + n mod 64])"

lemma valid_nat: "is_code_point_valid cp \<longleftrightarrow> unat cp \<le> 0x10ffff \<and> \<not> (0xd800 \<le> unat cp \<and> unat cp \<le> 0xdfff)"
  by (simp add: is_code_point_valid_def is_surrogate_def word_le_nat_alt)

lemma is_trail_nat: "is_trail b \<longleftrightarrow> 128 \<le> unat b \<and> unat b < 192"
proof -
  have "unat (drop_bit 6 b) = unat b div 64" unfolding unat_drop_bit_eq by (simp add: drop_bit_eq_div)
  then have "is_trail b \<longleftrightarrow> unat b div 64 = 2" by (simp add: is_trail_def word_unat_eq_iff)
  then show ?thesis by arith
qed

lemma byte_bound: "unat (b :: u8) < 256"
  using unat_bound [of b] by simp

lemma sequence_length_nat:
  "sequence_length b = (if unat b < 128 then 1 else if 192 \<le> unat b \<and> unat b < 224 then 2
     else if 224 \<le> unat b \<and> unat b < 240 then 3 else if 240 \<le> unat b \<and> unat b < 248 then 4 else 0)"
proof -
  have d: "unat (drop_bit 5 b) = unat b div 32" "unat (drop_bit 4 b) = unat b div 16" "unat (drop_bit 3 b) = unat b div 8"
    unfolding unat_drop_bit_eq by (simp_all add: drop_bit_eq_div)
  have e: "drop_bit 5 b = 6 \<longleftrightarrow> unat b div 32 = 6" "drop_bit 4 b = 0xe \<longleftrightarrow> unat b div 16 = 14" "drop_bit 3 b = 0x1e \<longleftrightarrow> unat b div 8 = 30"
    by (simp_all add: word_unat_eq_iff d)
  have "unat b div 32 = 6 \<longleftrightarrow> 192 \<le> unat b \<and> unat b < 224" "unat b div 16 = 14 \<longleftrightarrow> 224 \<le> unat b \<and> unat b < 240"
    "unat b div 8 = 30 \<longleftrightarrow> 240 \<le> unat b \<and> unat b < 248" by arith+
  then show ?thesis by (simp add: sequence_length_def e word_less_nat_alt)
qed

lemma overlong_nat:
  "is_overlong_sequence cp len \<longleftrightarrow> (if unat cp < 128 then len \<noteq> 1 else if unat cp < 2048 then len \<noteq> 2 else if unat cp < 65536 then len \<noteq> 3 else False)"
  by (simp add: is_overlong_sequence_def word_less_nat_alt)

lemma low_six: "unat ((ucast (b :: u8) :: u32) AND 0x3f) = unat b mod 64"
  using and_mask_nat [of 6 "0x3f :: u32" "ucast b"] masks(1) byte_bound [of b]
  by (simp add: unsigned_ucast_eq take_bit_nat_eq_self)

lemma pushed:
  "unat (push_bit 6 (ucast (b :: u8) :: u32) AND 0x7ff) = unat b * 64 mod 2048"
  "unat (push_bit 6 (ucast b :: u32) AND 0xfff) = unat b * 64 mod 4096"
  "unat (push_bit 12 (ucast b :: u32) AND 0xffff) = unat b * 4096 mod 65536"
  "unat (push_bit 12 (ucast b :: u32) AND 0x3ffff) = unat b * 4096 mod 262144"
  "unat (push_bit 18 (ucast b :: u32) AND 0x1fffff) = unat b * 262144 mod 2097152"
  by (simp_all add: and_mask_nat [OF _ masks(3)] and_mask_nat [OF _ masks(4)] and_mask_nat [OF _ masks(5)]
      and_mask_nat [OF _ masks(6)] and_mask_nat [OF _ masks(7)] unat_push_byte)

lemma mod_offset: "z < m \<Longrightarrow> a = c * m + z \<Longrightarrow> a mod m = (z :: nat)"
  by simp

lemma trail_low: "is_trail b \<Longrightarrow> unat b mod 64 = unat b - 128"
  unfolding is_trail_nat by (rule mod_offset [of _ _ _ 2]) auto

lemma unat_plus:
  fixes p q :: u32
  assumes "unat p = x" "unat q = y" "x \<le> 16777216" "y \<le> 16777216"
  shows "unat (p + q) = x + y"
  using assms by (subst unat_add_no_overflow) simp_all

lemma seq_2:
  assumes "192 \<le> unat a" "unat a < 224" "is_trail b"
  shows "\<exists>cp. get_sequence_2 (a # b # r) = Inr (cp, b # r) \<and> unat cp = (unat a - 192) * 64 + (unat b - 128)"
proof -
  have "unat a * 64 mod 2048 = (unat a - 192) * 64" using assms(1,2) by (intro mod_offset [of _ _ _ 6]) auto
  then have "unat ((push_bit 6 (ucast a) AND 0x7ff) + (ucast b AND 0x3f) :: u32) = (unat a - 192) * 64 + (unat b - 128)"
    using assms by (intro unat_plus) (simp_all add: pushed low_six trail_low, auto simp: is_trail_nat)
  then show ?thesis using assms(3) by (simp add: get_sequence_2_def increase_safely_def Let_def)
qed

lemma seq_3:
  assumes "224 \<le> unat a" "unat a < 240" "is_trail b" "is_trail c"
  shows "\<exists>cp. get_sequence_3 (a # b # c # r) = Inr (cp, c # r)
    \<and> unat cp = (unat a - 224) * 4096 + (unat b - 128) * 64 + (unat c - 128)"
proof -
  have "unat a * 4096 mod 65536 = (unat a - 224) * 4096" using assms(1,2) by (intro mod_offset [of _ _ _ 14]) auto
  moreover have "unat b * 64 mod 4096 = (unat b - 128) * 64" using assms(3) unfolding is_trail_nat
    by (intro mod_offset [of _ _ _ 2]) auto
  ultimately have "unat ((push_bit 12 (ucast a) AND 0xffff) + (push_bit 6 (ucast b) AND 0xfff) + (ucast c AND 0x3f) :: u32)
      = (unat a - 224) * 4096 + (unat b - 128) * 64 + (unat c - 128)"
    using assms by (intro unat_plus) (simp_all add: pushed low_six trail_low, auto simp: is_trail_nat)
  then show ?thesis using assms(3,4) by (simp add: get_sequence_3_def increase_safely_def Let_def)
qed

lemma seq_4:
  assumes "240 \<le> unat a" "unat a < 248" "is_trail b" "is_trail c" "is_trail d"
  shows "\<exists>cp. get_sequence_4 (a # b # c # d # r) = Inr (cp, d # r)
    \<and> unat cp = (unat a - 240) * 262144 + (unat b - 128) * 4096 + (unat c - 128) * 64 + (unat d - 128)"
proof -
  have "unat a * 262144 mod 2097152 = (unat a - 240) * 262144" using assms(1,2) by (intro mod_offset [of _ _ _ 30]) auto
  moreover have "unat b * 4096 mod 262144 = (unat b - 128) * 4096" using assms(3) unfolding is_trail_nat
    by (intro mod_offset [of _ _ _ 2]) auto
  moreover have "unat c * 64 mod 4096 = (unat c - 128) * 64" using assms(4) unfolding is_trail_nat
    by (intro mod_offset [of _ _ _ 2]) auto
  ultimately have "unat ((push_bit 18 (ucast a) AND 0x1fffff) + (push_bit 12 (ucast b) AND 0x3ffff)
        + (push_bit 6 (ucast c) AND 0xfff) + (ucast d AND 0x3f) :: u32)
      = (unat a - 240) * 262144 + (unat b - 128) * 4096 + (unat c - 128) * 64 + (unat d - 128)"
    using assms by (intro unat_plus) (simp_all add: pushed low_six trail_low, auto simp: is_trail_nat)
  then show ?thesis using assms(3-5) by (simp add: get_sequence_4_def increase_safely_def Let_def)
qed

text \<open>Which sequences the decoders accept.\<close>

lemma seq_1_iff: "get_sequence_1 it = Inr (cp, it') \<longleftrightarrow> (\<exists>a r. it = a # r \<and> cp = ucast a \<and> it' = it)"
  by (cases it) (auto simp: get_sequence_1_def)

lemma seq_2_shape: "get_sequence_2 it = Inr (cp, it') \<Longrightarrow> \<exists>a b r. it = a # b # r \<and> is_trail b \<and> it' = b # r"
  by (cases it) (auto simp: get_sequence_2_def increase_safely_def Let_def split: list.splits if_splits)

lemma seq_3_shape: "get_sequence_3 it = Inr (cp, it') \<Longrightarrow> \<exists>a b c r. it = a # b # c # r \<and> is_trail b \<and> is_trail c \<and> it' = c # r"
  by (cases it) (auto simp: get_sequence_3_def increase_safely_def Let_def split: list.splits if_splits)

lemma seq_4_shape:
  "get_sequence_4 it = Inr (cp, it')
     \<Longrightarrow> \<exists>a b c d r. it = a # b # c # d # r \<and> is_trail b \<and> is_trail c \<and> is_trail d \<and> it' = d # r"
  by (cases it) (auto simp: get_sequence_4_def increase_safely_def Let_def split: list.splits if_splits)

text \<open>The octets that \<^verbatim>\<open>append\<close> writes.\<close>

lemma byte_or:
  fixes x :: u32
  assumes "unat x < 2 ^ k" "c = push_bit k d" "unat x + unat c < 256"
  shows "unat (ucast (x OR c) :: u8) = unat x + unat c"
proof -
  have "unat (x + c) = unat x + unat c" using assms(3) by (subst unat_add_no_overflow) simp_all
  then show ?thesis unfolding or_plus_nat [OF assms(1,2)] using assms(3) by (simp add: unsigned_ucast_eq take_bit_nat_eq_self)
qed

lemma byte_trail: "unat (x :: u32) < 64 \<Longrightarrow> unat (ucast (x OR 0x80) :: u8) = 128 + unat x"
  using byte_or [of x 6 "0x80" 2] by (simp add: push_bit_eq_mult)

lemma unat_shift: "unat (drop_bit k (x :: u32)) = unat x div 2 ^ k"
  unfolding unat_drop_bit_eq by (simp add: drop_bit_eq_div)

lemma unat_and_3f: "unat ((x :: u32) AND 0x3f) = unat x mod 64"
  using and_mask_nat [OF _ masks(1), of x] by simp

lemma append_spec:
  assumes "is_code_point_valid cp"
  shows "\<exists>s. append_cp cp = Inr s \<and> map unat s = enc (unat cp)"
proof -
  have top: "unat cp \<le> 0x10ffff" using assms by (simp add: valid_nat)
  have t: "unat (ucast ((cp AND 0x3f) OR 0x80) :: u8) = 128 + unat cp mod 64"
    "unat (ucast ((drop_bit 6 cp AND 0x3f) OR 0x80) :: u8) = 128 + unat cp div 64 mod 64"
    "unat (ucast ((drop_bit 12 cp AND 0x3f) OR 0x80) :: u8) = 128 + unat cp div 4096 mod 64"
    by (simp_all add: byte_trail unat_and_3f unat_shift)
  consider "unat cp < 128" | "128 \<le> unat cp" "unat cp < 2048" | "2048 \<le> unat cp" "unat cp < 65536" | "65536 \<le> unat cp" by linarith
  then show ?thesis
  proof cases
    case 1
    then show ?thesis using assms by (simp add: append_cp_def enc_def word_less_nat_alt unsigned_ucast_eq take_bit_nat_eq_self)
  next
    case 2
    have "unat (ucast (drop_bit 6 cp OR 0xc0) :: u8) = 192 + unat cp div 64"
      using 2 byte_or [of "drop_bit 6 cp" 5 "0xc0" 6] by (simp add: unat_shift push_bit_eq_mult)
    then show ?thesis using assms 2 t by (simp add: append_cp_def enc_def word_less_nat_alt)
  next
    case 3
    have "unat (ucast (drop_bit 12 cp OR 0xe0) :: u8) = 224 + unat cp div 4096"
      using 3 byte_or [of "drop_bit 12 cp" 4 "0xe0" 14] by (simp add: unat_shift push_bit_eq_mult)
    then show ?thesis using assms 3 t by (simp add: append_cp_def enc_def word_less_nat_alt)
  next
    case 4
    have "unat (ucast (drop_bit 18 cp OR 0xf0) :: u8) = 240 + unat cp div 262144"
      using 4 top byte_or [of "drop_bit 18 cp" 3 "0xf0" 30] by (simp add: unat_shift push_bit_eq_mult)
    then show ?thesis using assms 4 t by (simp add: append_cp_def enc_def word_less_nat_alt)
  qed
qed

lemma append_bytes:
  assumes "is_code_point_valid cp" "map unat s = enc (unat cp)"
  shows "append_cp cp = Inr s"
proof -
  obtain s' where "append_cp cp = Inr s'" "map unat s' = map unat s" using append_spec [OF assms(1)] assms(2) by auto
  moreover have "inj (unat :: u8 \<Rightarrow> nat)" by (rule injI) (simp add: word_unat_eq_iff)
  ultimately show ?thesis by (simp add: inj_map_eq_map)
qed

lemma enc_2: "x < 32 \<Longrightarrow> y < 64 \<Longrightarrow> 128 \<le> x * 64 + y \<Longrightarrow> enc (x * 64 + y) = [192 + x, 128 + y]"
  by (simp add: enc_def)

lemma enc_3:
  assumes "x < 16" "y < 64" "z < 64" "2048 \<le> x * 4096 + y * 64 + z"
  shows "enc (x * 4096 + y * 64 + z) = [224 + x, 128 + y, 128 + z]"
proof -
  have "(x * 4096 + y * 64 + z) div 64 = x * 64 + y" "(x * 4096 + y * 64 + z) div 4096 = x" using assms by (auto simp: algebra_simps)
  moreover have "(x * 4096 + y * 64 + z) mod 64 = z" using assms by (intro mod_offset [of _ _ _ "x * 64 + y"]) auto
  ultimately show ?thesis using assms by (simp add: enc_def)
qed

lemma enc_4:
  assumes "w < 8" "x < 64" "y < 64" "z < 64" "65536 \<le> w * 262144 + x * 4096 + y * 64 + z"
  shows "enc (w * 262144 + x * 4096 + y * 64 + z) = [240 + w, 128 + x, 128 + y, 128 + z]"
proof -
  let ?n = "w * 262144 + x * 4096 + y * 64 + z"
  have "?n div 64 = (w * 64 + x) * 64 + y" "?n div 4096 = w * 64 + x" "?n div 262144 = w" using assms by (auto simp: algebra_simps)
  moreover have "?n mod 64 = z" "((w * 64 + x) * 64 + y) mod 64 = y" "(w * 64 + x) mod 64 = x"
    using assms by (auto intro: mod_offset [of _ _ _ "(w * 64 + x) * 64 + y"] mod_offset [of _ _ _ "w * 64 + x"])
  ultimately show ?thesis using assms by (simp only: enc_def) simp
qed


lemma validate_next_sound:
  assumes v: "validate_next it = Inr (cp, r)" and ne: "it \<noteq> []"
  shows "is_code_point_valid cp \<and> (\<exists>s. append_cp cp = Inr s \<and> it = s @ r)"
proof -
  let ?n = "sequence_length (hd it)"
  have ok: "is_code_point_valid cp" "\<not> is_overlong_sequence cp ?n" "?n \<noteq> 0"
    using v by (auto simp: validate_next_def Let_def split: sum.splits if_splits)
  have len: "(?n = 1 \<and> unat (hd it) < 128) \<or> (?n = 2 \<and> 192 \<le> unat (hd it) \<and> unat (hd it) < 224)
      \<or> (?n = 3 \<and> 224 \<le> unat (hd it) \<and> unat (hd it) < 240) \<or> (?n = 4 \<and> 240 \<le> unat (hd it) \<and> unat (hd it) < 248)"
    using ok(3) by (auto simp: sequence_length_nat split: if_splits)
  from len show ?thesis
  proof (elim disjE conjE)
    assume 1: "?n = 1" "unat (hd it) < 128"
    then obtain a where "it = a # r" "cp = ucast a" using v by (auto simp: validate_next_def seq_1_iff Let_def split: sum.splits if_splits)
    moreover from this have "map unat [a] = enc (unat cp)" using 1 by (simp add: enc_def unsigned_ucast_eq take_bit_nat_eq_self)
    ultimately show ?thesis using ok append_bytes by fastforce
  next
    assume 2: "?n = 2" "192 \<le> unat (hd it)" "unat (hd it) < 224"
    then obtain it' where g: "get_sequence_2 it = Inr (cp, it')" "r = tl it'"
      using v by (auto simp: validate_next_def Let_def split: sum.splits if_splits)
    then obtain a b q where ab: "it = a # b # q" "is_trail b" "it' = b # q" using seq_2_shape by blast
    then have u: "unat cp = (unat a - 192) * 64 + (unat b - 128)" using seq_2 [of a b q] 2 g by auto
    have "128 \<le> unat cp" using ok(2) 2(1) by (auto simp: overlong_nat split: if_splits)
    moreover have "unat a - 192 < 32" "unat b - 128 < 64" using ab 2 by (auto simp: is_trail_nat)
    ultimately have "map unat [a, b] = enc (unat cp)" unfolding u using enc_2 [of "unat a - 192" "unat b - 128"] ab 2 by (simp add: is_trail_nat)
    then show ?thesis using ok(1) append_bytes ab g(2) by fastforce
  next
    assume 3: "?n = 3" "224 \<le> unat (hd it)" "unat (hd it) < 240"
    then obtain it' where g: "get_sequence_3 it = Inr (cp, it')" "r = tl it'"
      using v by (auto simp: validate_next_def Let_def split: sum.splits if_splits)
    then obtain a b c q where ab: "it = a # b # c # q" "is_trail b" "is_trail c" "it' = c # q" using seq_3_shape by blast
    then have u: "unat cp = (unat a - 224) * 4096 + (unat b - 128) * 64 + (unat c - 128)" using seq_3 [of a b c q] 3 g by auto
    have "2048 \<le> unat cp" using ok(2) 3(1) by (auto simp: overlong_nat split: if_splits)
    moreover have "unat a - 224 < 16" "unat b - 128 < 64" "unat c - 128 < 64" using ab 3 by (auto simp: is_trail_nat)
    ultimately have "map unat [a, b, c] = enc (unat cp)" unfolding u
      using enc_3 [of "unat a - 224" "unat b - 128" "unat c - 128"] ab 3 by (simp add: is_trail_nat)
    then show ?thesis using ok(1) append_bytes ab g(2) by fastforce
  next
    assume 4: "?n = 4" "240 \<le> unat (hd it)" "unat (hd it) < 248"
    then obtain it' where g: "get_sequence_4 it = Inr (cp, it')" "r = tl it'"
      using v by (auto simp: validate_next_def Let_def split: sum.splits if_splits)
    then obtain a b c d q where ab: "it = a # b # c # d # q" "is_trail b" "is_trail c" "is_trail d" "it' = d # q"
      using seq_4_shape by blast
    then have u: "unat cp = (unat a - 240) * 262144 + (unat b - 128) * 4096 + (unat c - 128) * 64 + (unat d - 128)"
      using seq_4 [of a b c d q] 4 g by auto
    have "65536 \<le> unat cp" using ok(2) 4(1) by (auto simp: overlong_nat split: if_splits)
    moreover have "unat a - 240 < 8" "unat b - 128 < 64" "unat c - 128 < 64" "unat d - 128 < 64"
      using ab 4 by (auto simp: is_trail_nat)
    ultimately have "map unat [a, b, c, d] = enc (unat cp)" unfolding u
      using enc_4 [of "unat a - 240" "unat b - 128" "unat c - 128" "unat d - 128"] ab 4 by (simp add: is_trail_nat)
    then show ?thesis using ok(1) append_bytes ab g(2) by fastforce
  qed
qed


lemma base64_4: "(n :: nat) div 262144 * 262144 + n div 4096 mod 64 * 4096 + n div 64 mod 64 * 64 + n mod 64 = n"
proof -
  define a where "a = n div 64"
  define b where "b = a div 64"
  define c where "c = b div 64"
  define x where "x = n mod 64"
  define y where "y = a mod 64"
  define z where "z = b mod 64"
  have d: "n div 4096 = b" "n div 262144 = c" "n div 64 = a" by (simp_all add: a_def b_def c_def div_mult2_eq [symmetric])
  have "n = a * 64 + x" "a = b * 64 + y" "b = c * 64 + z" by (simp_all add: a_def b_def c_def x_def y_def z_def)
  then have "c * 262144 + z * 4096 + y * 64 + x = n" by linarith
  then show ?thesis unfolding d x_def y_def z_def .
qed

lemma base64_3: "(n :: nat) div 4096 * 4096 + n div 64 mod 64 * 64 + n mod 64 = n"
proof -
  define a where "a = n div 64"
  define x where "x = n mod 64"
  define y where "y = a mod 64"
  have d: "n div 4096 = a div 64" by (simp add: a_def div_mult2_eq [symmetric])
  have "n = a * 64 + x" "a = a div 64 * 64 + y" by (simp_all add: a_def x_def y_def)
  then have "a div 64 * 4096 + y * 64 + x = n" by linarith
  then show ?thesis unfolding d x_def y_def a_def .
qed

lemma validate_next_complete:
  assumes ok: "is_code_point_valid cp" and s: "append_cp cp = Inr s"
  shows "validate_next (s @ r) = Inr (cp, r)"
proof -
  have e: "map unat s = enc (unat cp)" using append_spec [OF ok] s by auto
  have top: "unat cp \<le> 0x10ffff" using ok by (simp add: valid_nat)
  consider "unat cp < 128" | "128 \<le> unat cp" "unat cp < 2048" | "2048 \<le> unat cp" "unat cp < 65536" | "65536 \<le> unat cp" by linarith
  then show ?thesis
  proof cases
    case 1
    then obtain a where a: "s = [a]" "unat a = unat cp" using e by (auto simp: enc_def)
    then have "ucast a = cp" using 1 by (simp add: word_unat_eq_iff unsigned_ucast_eq take_bit_nat_eq_self)
    then show ?thesis using a 1 ok
      by (simp add: validate_next_def sequence_length_nat get_sequence_1_def overlong_nat)
  next
    case 2
    then obtain a b where a: "s = [a, b]" "unat a = 192 + unat cp div 64" "unat b = 128 + unat cp mod 64"
      using e by (auto simp: enc_def)
    have t: "is_trail b" "unat a < 224" using a 2 by (auto simp: is_trail_nat)
    obtain cp' where g: "get_sequence_2 (a # b # r) = Inr (cp', b # r)" "unat cp' = (unat a - 192) * 64 + (unat b - 128)"
      using seq_2 [of a b r] a t by auto
    then have "cp' = cp" using a by (simp add: word_unat_eq_iff)
    then show ?thesis using a t g 2 ok by (simp add: validate_next_def sequence_length_nat overlong_nat)
  next
    case 3
    then obtain a b c where a: "s = [a, b, c]" "unat a = 224 + unat cp div 4096" "unat b = 128 + unat cp div 64 mod 64"
      "unat c = 128 + unat cp mod 64" using e by (auto simp: enc_def)
    have t: "is_trail b" "is_trail c" "unat a < 240" using a 3 by (auto simp: is_trail_nat)
    obtain cp' where g: "get_sequence_3 (a # b # c # r) = Inr (cp', c # r)"
      "unat cp' = (unat a - 224) * 4096 + (unat b - 128) * 64 + (unat c - 128)"
      using seq_3 [of a b c r] a t by auto
    have "cp' = cp" using a(2-) g(2) base64_3 [of "unat cp"] by (simp add: word_unat_eq_iff)
    then show ?thesis using a t g 3 ok by (simp add: validate_next_def sequence_length_nat overlong_nat)
  next
    case 4
    then obtain a b c d where a: "s = [a, b, c, d]" "unat a = 240 + unat cp div 262144" "unat b = 128 + unat cp div 4096 mod 64"
      "unat c = 128 + unat cp div 64 mod 64" "unat d = 128 + unat cp mod 64" using e by (auto simp: enc_def)
    have t: "is_trail b" "is_trail c" "is_trail d" "unat a < 248" using a 4 top by (auto simp: is_trail_nat)
    obtain cp' where g: "get_sequence_4 (a # b # c # d # r) = Inr (cp', d # r)"
      "unat cp' = (unat a - 240) * 262144 + (unat b - 128) * 4096 + (unat c - 128) * 64 + (unat d - 128)"
      using seq_4 [of a b c d r] a t by auto
    have "cp' = cp" using a(2-) g(2) base64_4 [of "unat cp"] by (simp add: word_unat_eq_iff)
    then show ?thesis using a t g 4 ok by (simp add: validate_next_def sequence_length_nat overlong_nat)
  qed
qed


section \<open>Texts\<close>

text \<open>A text is a list of valid code points; \<open>utf8_of\<close> is its encoding.\<close>

definition octets :: "u32 \<Rightarrow> u8 list" where
  "octets cp = (case append_cp cp of Inl _ \<Rightarrow> [] | Inr s \<Rightarrow> s)"

definition utf8_of :: "u32 list \<Rightarrow> u8 list" where
  "utf8_of cps = concat (map octets cps)"

definition utf16_of :: "u32 list \<Rightarrow> wchar_t list" where
  "utf16_of cps = concat (map utf16_units cps)"

definition valid_text :: "u32 list \<Rightarrow> bool" where
  "valid_text cps \<longleftrightarrow> list_all is_code_point_valid cps"

lemma text_simps [simp]:
  "utf8_of [] = []" "utf8_of (cp # cps) = octets cp @ utf8_of cps"
  "utf16_of [] = []" "utf16_of (cp # cps) = utf16_units cp @ utf16_of cps"
  "valid_text []" "valid_text (cp # cps) \<longleftrightarrow> is_code_point_valid cp \<and> valid_text cps"
  by (simp_all add: utf8_of_def utf16_of_def valid_text_def)

lemma append_octets:
  assumes "is_code_point_valid cp"
  shows "append_cp cp = Inr (octets cp)" "map unat (octets cp) = enc (unat cp)" "octets cp \<noteq> []"
proof -
  obtain s where s: "append_cp cp = Inr s" "map unat s = enc (unat cp)" using append_spec [OF assms] by blast
  moreover have "s \<noteq> []" using s(2) by (auto simp: enc_def split: if_splits)
  ultimately show "append_cp cp = Inr (octets cp)" "map unat (octets cp) = enc (unat cp)" "octets cp \<noteq> []"
    by (auto simp: octets_def)
qed

lemma next_octets: "is_code_point_valid cp \<Longrightarrow> utf8_next (octets cp @ r) = Inr (cp, r)"
  by (simp add: utf8_next_def validate_next_complete append_octets)

lemma next_sound:
  assumes "utf8_next it = Inr (cp, r)" "it \<noteq> []"
  shows "is_code_point_valid cp" "it = octets cp @ r"
proof -
  have "validate_next it = Inr (cp, r)" using assms(1) by (auto simp: utf8_next_def split: sum.splits utf_error.splits)
  then show "is_code_point_valid cp" "it = octets cp @ r" using validate_next_sound [of it cp r] assms(2) by (auto simp: octets_def)
qed

declare utf8_distance.simps [simp del] utf8to16.simps [simp del]

lemma distance_text: "valid_text cps \<Longrightarrow> utf8_distance (utf8_of cps) = Inr (length cps)"
  by (induction cps) (simp_all add: utf8_distance.simps [of "[]"] utf8_distance.simps [of "octets _ @ _"] append_octets next_octets)

lemma to16_text: "valid_text cps \<Longrightarrow> utf8to16 (utf8_of cps) = Inr (utf16_of cps)"
  by (induction cps) (simp_all add: utf8to16.simps [of "[]"] utf8to16.simps [of "octets _ @ _"] append_octets next_octets)

lemma distance_sound: "utf8_distance s = Inr n \<Longrightarrow> \<exists>cps. valid_text cps \<and> s = utf8_of cps \<and> length cps = n"
proof (induction s arbitrary: n rule: utf8_distance.induct)
  case (1 it)
  show ?case
  proof (cases "it = []")
    case True
    then show ?thesis using 1 by (intro exI [of _ "[]"]) (simp add: utf8_distance.simps)
  next
    case False
    obtain cp r where nx: "utf8_next it = Inr (cp, r)"
      using 1(2) False by (subst (asm) utf8_distance.simps) (auto split: sum.splits)
    obtain m where m: "utf8_distance r = Inr m" "n = Suc m"
      using 1(2) False nx by (subst (asm) utf8_distance.simps) (auto split: sum.splits)
    obtain cps where "valid_text cps" "r = utf8_of cps" "length cps = m" using 1(1) [OF False nx refl m(1)] by blast
    then show ?thesis using next_sound [OF nx False] m(2) by (intro exI [of _ "cp # cps"]) simp
  qed
qed

lemma utf8_of_inject: "valid_text a \<Longrightarrow> valid_text b \<Longrightarrow> utf8_of a = utf8_of b \<Longrightarrow> a = b"
proof (induction a arbitrary: b)
  case Nil
  then show ?case by (cases b) (auto simp: append_octets)
next
  case (Cons x a)
  obtain y b' where b: "b = y # b'" using Cons.prems append_octets(3) [of x] by (cases b) auto
  have v: "is_code_point_valid x" "is_code_point_valid y" using Cons.prems b by simp_all
  have "utf8_next (octets x @ utf8_of a) = Inr (x, utf8_of a)" "utf8_next (octets y @ utf8_of b') = Inr (y, utf8_of b')"
    by (rule next_octets [OF v(1)], rule next_octets [OF v(2)])
  moreover have "octets x @ utf8_of a = octets y @ utf8_of b'" using Cons.prems(3) b by simp
  ultimately have "x = y" "utf8_of a = utf8_of b'" by (metis Inr_inject Pair_inject)+
  then show ?case using Cons b by auto
qed

section \<open>Surrogates\<close>

definition astral :: "u32 \<Rightarrow> bool" where
  "astral cp \<longleftrightarrow> cp > 0xffff"

lemma unat_unit: "unat (x :: u32) < 65536 \<Longrightarrow> unat (ucast (ucast x :: u16) :: u32) = unat x"
  by (simp add: unsigned_ucast_eq unsigned_take_bit_eq take_bit_nat_eq_self)

lemma units_plain: "\<not> astral cp \<Longrightarrow> utf16_units cp = [cp]"
  using unat_unit [of cp] unfolding astral_def utf16_units_def word_less_nat_alt word_unat_eq_iff by (simp add: word_unat_eq_iff)

lemma units_pair:
  assumes "astral cp" "is_code_point_valid cp"
  shows "\<exists>l t. utf16_units cp = [l, t] \<and> unat l = 0xd7c0 + unat cp div 1024 \<and> unat t = 0xdc00 + unat cp mod 1024"
proof -
  have top: "unat cp \<le> 0x10ffff" using assms(2) by (simp add: valid_nat)
  have "unat (drop_bit 10 cp + 0xd7c0) = 0xd7c0 + unat cp div 1024"
    using top by (subst unat_add_no_overflow) (simp_all add: unat_shift)
  moreover have "unat ((cp AND 0x3ff) + 0xdc00) = 0xdc00 + unat cp mod 1024"
    using and_mask_nat [OF _ masks(2), of cp] by (subst unat_add_no_overflow) simp_all
  moreover have "unat cp div 1024 \<le> 1087" using top by linarith
  ultimately show ?thesis using assms(1) unat_unit [of "drop_bit 10 cp + 0xd7c0"] unat_unit [of "(cp AND 0x3ff) + 0xdc00"]
      mod_less_divisor [of 1024 "unat cp"]
    unfolding astral_def utf16_units_def
    by (intro exI [of _ "ucast (ucast (drop_bit 10 cp + 0xd7c0) :: u16)"] exI [of _ "ucast (ucast ((cp AND 0x3ff) + 0xdc00) :: u16)"])
      simp
qed

lemma mask16_id: "unat w < 65536 \<Longrightarrow> mask16 w = w"
  unfolding mask16_def word_unat_eq_iff using and_mask_nat [OF _ masks(5), of w] by simp


lemma surrogate_value:
  fixes l t :: u32
  assumes "unat l = 0xd7c0 + unat cp div 1024" "unat t = 0xdc00 + unat cp mod 1024" "unat cp \<le> 0x10ffff"
  shows "push_bit 10 l + t + SURROGATE_OFFSET = cp"
proof -
  have "unat (push_bit 10 l) = take_bit LENGTH(32) (push_bit 10 (unat l))" by (simp only: unsigned_push_bit_eq)
  then have "unat (push_bit 10 l) = unat l * 1024"
    using assms by (simp add: push_bit_eq_mult take_bit_nat_eq_self)
  then have "unat (push_bit 10 l + t) = unat l * 1024 + unat t" using assms by (subst unat_add_no_overflow) simp_all
  also have "\<dots> = unat cp + 56613888" using assms(1,2) by simp
  finally have "push_bit 10 l + t = cp + 56613888"
    using assms(3) by (simp add: word_unat_eq_iff unat_add_no_overflow)
  then show ?thesis by (simp add: SURROGATE_OFFSET_def push_bit_eq_mult)
qed

lemma utf16to8_text: "valid_text cps \<Longrightarrow> utf16to8 (utf16_of cps) = Inr (utf8_of cps)"
proof (induction cps)
  case (Cons cp cps)
  have ok: "is_code_point_valid cp" and rest: "utf16to8 (utf16_of cps) = Inr (utf8_of cps)" using Cons by simp_all
  show ?case
  proof (cases "astral cp")
    case False
    then have small: "unat cp < 65536" by (simp add: astral_def word_less_nat_alt not_less)
    have m: "mask16 cp = cp" by (rule mask16_id [OF small])
    have "\<not> is_lead_surrogate cp" "\<not> is_trail_surrogate cp"
      using ok by (auto simp: valid_nat is_lead_surrogate_def is_trail_surrogate_def word_le_nat_alt)
    then show ?thesis using units_plain [OF False] rest m append_octets(1) [OF ok]
      by (cases "utf16_of cps") (simp_all add: Let_def)
  next
    case True
    obtain l t where u: "utf16_units cp = [l, t]" and l: "unat l = 0xd7c0 + unat cp div 1024" and t: "unat t = 0xdc00 + unat cp mod 1024"
      using units_pair [OF True ok] by blast
    have cp: "65536 \<le> unat cp" "unat cp \<le> 0x10ffff" using True ok by (simp_all add: astral_def valid_nat word_less_nat_alt)
    then have r: "0xd800 \<le> unat l" "unat l \<le> 0xdbff" "0xdc00 \<le> unat t" "unat t \<le> 0xdfff" using l t by linarith+
    then have "mask16 l = l" "mask16 t = t" by (simp_all add: mask16_id)
    moreover have "is_lead_surrogate l" "is_trail_surrogate t"
      using r by (simp_all add: is_lead_surrogate_def is_trail_surrogate_def word_le_nat_alt)
    ultimately show ?thesis using rest surrogate_value [OF l t cp(2)] append_octets(1) [OF ok] by (simp add: u Let_def)
  qed
qed simp

lemma utf16_length: "valid_text cps \<Longrightarrow> length (utf16_of cps) = length cps + length (filter astral cps)"
proof (induction cps)
  case (Cons cp cps)
  then show ?case using units_plain [of cp] units_pair [of cp] by (cases "astral cp") auto
qed simp

lemma utf16_plain: "\<not> list_ex astral cps \<Longrightarrow> utf16_of cps = cps"
  by (induction cps) (simp_all add: units_plain)

lemma octets_length: "is_code_point_valid cp \<Longrightarrow> length (octets cp) \<le> 4 \<and> (\<not> astral cp \<longrightarrow> length (octets cp) \<le> 3)"
proof -
  assume "is_code_point_valid cp"
  then have "length (octets cp) = length (enc (unat cp))" using append_octets(2) by (metis length_map)
  then show ?thesis by (simp add: enc_def astral_def word_less_nat_alt)
qed

text \<open>The output never exceeds four octets for each unit.\<close>

lemma append_length: "append_cp cp = Inr s \<Longrightarrow> length s \<le> 4"
  by (auto simp: append_cp_def split: if_splits)

lemma utf16to8_length: "utf16to8 w = Inr s \<Longrightarrow> length s \<le> 4 * length w"
proof (induction w arbitrary: s rule: utf16to8.induct)
  case (3 w v ws)
  then show ?case by (fastforce simp: Let_def dest: append_length split: if_splits sum.splits)
qed (auto simp: Let_def dest: append_length split: if_splits)


section \<open>Correctness of the conversions\<close>

lemma distance_invalid:
  assumes "\<nexists>cps. valid_text cps \<and> s = utf8_of cps"
  shows "\<exists>e. utf8_distance s = Inl e"
  using assms distance_sound [of s] by (cases "utf8_distance s") blast+

text \<open>
  Claim C18.  The octets that the decoder accepts are exactly the encodings of texts of valid code
  points, each by one text only: no surrogates, nothing above 0x10FFFF and no overlong forms.  It then
  counts the code points, and converting to UTF-16 and back gives the same octets.
\<close>

theorem utf8_codec:
  "(\<exists>n. utf8_distance s = Inr n) = (\<exists>cps. valid_text cps \<and> s = utf8_of cps)
   \<and> (valid_text cps \<longrightarrow> utf8_distance (utf8_of cps) = Inr (length cps)
        \<and> utf8to16 (utf8_of cps) = Inr (utf16_of cps) \<and> utf16to8 (utf16_of cps) = Inr (utf8_of cps)
        \<and> (\<forall>cps'. valid_text cps' \<longrightarrow> utf8_of cps' = utf8_of cps \<longrightarrow> cps' = cps))"
  using distance_sound [of s] distance_text to16_text utf16to8_text utf8_of_inject by (intro conjI impI iffI) blast+

lemma wide_text:
  assumes "valid_text cps" "cps \<noteq> []"
  shows "Utf8toWStr (utf8_of cps) w = (if list_ex astral cps then None else Some (True, cps))"
proof (cases "list_ex astral cps")
  case True
  then have "filter astral cps \<noteq> []" by (auto simp: list_ex_iff filter_empty_conv)
  then have "length cps < length (utf16_of cps)" using utf16_length [OF assms(1)] by simp
  then show ?thesis using True assms by (simp add: Utf8toWStr_def distance_text to16_text blit_def)
next
  case False
  then show ?thesis using assms by (simp add: Utf8toWStr_def distance_text to16_text blit_def utf16_plain)
qed

lemma wide_invalid:
  assumes "\<nexists>cps. valid_text cps \<and> s = utf8_of cps"
  shows "Utf8toWStr s w = Some (False, [])"
  using distance_invalid [OF assms] by (auto simp: Utf8toWStr_def)

lemma narrow_text:
  assumes "valid_text cps"
  shows "WStrToUtf8 (utf16_of cps) u = Some (True, utf8_of cps)"
proof (cases "utf16_of cps = []")
  case True
  then show ?thesis using utf16to8_text [OF assms] by (simp add: WStrToUtf8_def vec_resize_def)
next
  case False
  then show ?thesis using utf16to8_text [OF assms] utf16to8_length [OF utf16to8_text [OF assms]]
    by (simp add: WStrToUtf8_def Let_def blit_def)
qed

lemma narrow_total: "WStrToUtf8 w u \<noteq> None"
  using utf16to8_length [of w] by (auto simp: WStrToUtf8_def Let_def blit_def split: sum.splits)



text \<open>The text is a dollar sign and a euro sign; the second one has a code point above 0xFFFF.\<close>

theorem utf8_codec_witness:
  "utf8_distance (utf8_of [0x24, 0x20AC, 0x1F600]) = Inr 3
   \<and> utf16to8 (utf16_of [0x24, 0x20AC, 0x1F600]) = Inr (utf8_of [0x24, 0x20AC, 0x1F600])"
proof -
  have "valid_text [0x24, 0x20AC, 0x1F600]" by (simp add: is_code_point_valid_def is_surrogate_def)
  then show ?thesis using utf8_codec [of "[]" "[0x24, 0x20AC, 0x1F600]"] by (simp only: list.size) simp
qed

lemma text_unique: "valid_text a \<Longrightarrow> valid_text b \<Longrightarrow> utf8_of a = utf8_of b \<longleftrightarrow> a = b"
  using utf8_of_inject by blast


lemma valid_take: "valid_text cps \<Longrightarrow> valid_text (take n cps)"
  by (auto simp: valid_text_def list_all_iff dest: in_set_takeD)

lemma plain_take: "\<not> list_ex astral cps \<Longrightarrow> \<not> list_ex astral (take n cps)"
  by (auto simp: list_ex_iff dest: in_set_takeD)

lemma utf8_of_take: "length (utf8_of (take n cps)) \<le> length (utf8_of cps)"
proof -
  have "utf8_of cps = utf8_of (take n cps) @ utf8_of (drop n cps)"
    unfolding utf8_of_def by (metis append_take_drop_id concat_append map_append)
  then show ?thesis by simp
qed

lemma truncate_text:
  assumes "valid_text cps" "\<not> list_ex astral cps"
  shows "utf8truncate (utf8_of cps) len = Some (utf8_of (take len cps))"
proof (cases "length cps \<le> len")
  case True
  then show ?thesis using assms by (simp add: utf8truncate_def distance_text)
next
  case False
  have "utf16to8 (take len cps) = Inr (utf8_of (take len cps))"
    using utf16to8_text [OF valid_take [OF assms(1)], of len] utf16_plain [OF plain_take [OF assms(2)], of len] by simp
  then show ?thesis using False assms utf8_of_take [of len cps]
    by (simp add: utf8truncate_def distance_text to16_text utf16_plain blit_def vec_resize_def)
qed

text \<open>
  For a text whose code points fit one unit each, \<^verbatim>\<open>utf8truncate\<close> keeps the first \<open>len\<close>
  code points, never a part of one, \<^verbatim>\<open>utf8length\<close> counts what is left, and \<^verbatim>\<open>Utf8toWStr\<close> with a buffer
  writes the text and a terminator if it fits and otherwise an empty string.  Octets that are no text
  are cleared.
\<close>

theorem utf8_truncation:
  assumes "valid_text cps" "\<not> list_ex astral cps" "length buf = wsize + 1"
  shows "utf8truncate (utf8_of cps) len = Some (utf8_of (take len cps))
    \<and> utf8length (utf8_of (take len cps)) = (min len (length cps), utf8_of (take len cps))
    \<and> Utf8toWStr_buffer (utf8_of cps) buf wsize
        = Some (if length cps \<le> wsize then (True, cps @ [0] @ drop (length cps + 1) buf, length cps)
                else (False, if wsize > 0 then 0 # tl buf else buf, 0))
    \<and> ((\<nexists>cps. valid_text cps \<and> s = utf8_of cps) \<longrightarrow> utf8truncate s len = Some [] \<and> utf8length s = (0, []))"
proof -
  have "utf8length (utf8_of (take len cps)) = (min len (length cps), utf8_of (take len cps))"
    using distance_text [OF valid_take [OF assms(1)], of len] by (simp add: utf8length_def min.commute)
  moreover have "Utf8toWStr_buffer (utf8_of cps) buf wsize
        = Some (if length cps \<le> wsize then (True, cps @ [0] @ drop (length cps + 1) buf, length cps)
                else (False, if wsize > 0 then 0 # tl buf else buf, 0))"
    using assms by (cases buf) (simp_all add: Utf8toWStr_buffer_def wstr_failed_def distance_text to16_text utf16_plain blit_def)
  moreover have "(\<nexists>cps. valid_text cps \<and> s = utf8_of cps) \<longrightarrow> utf8truncate s len = Some [] \<and> utf8length s = (0, [])"
    using distance_invalid [of s] by (auto simp: utf8truncate_def utf8length_def)
  ultimately show ?thesis using truncate_text [OF assms(1,2), of len] by blast
qed

theorem utf8_truncation_witness:
  "utf8truncate (utf8_of [0x24, 0x20AC]) 1 = Some (utf8_of [0x24])
   \<and> Utf8toWStr_buffer (utf8_of [0x24, 0x20AC]) [7, 7, 7] 2 = Some (True, [0x24, 0x20AC, 0], 2)"
proof -
  have v: "valid_text [0x24, 0x20AC]" "\<not> list_ex astral [0x24, 0x20AC]"
    by (simp_all add: is_code_point_valid_def is_surrogate_def astral_def)
  show ?thesis using utf8_truncation [OF v, of "[7, 7, 7]" 2 1 "[]"] by simp
qed

end
