(* ===== verification/Text_Utils.thy ===== *)
theory Text_Utils
  imports C_Library Wide_Chars
begin

text \<open>
  The text helpers of \<^verbatim>\<open>Source/ProtobufDecompileTest/Util.cpp\<close>: splitting at a separator, cleaning
  a line, durations and amounts of money as text, and the stem of a Cyrillic name.
\<close>

section \<open>Tokenizer\<close>

text \<open>
  The constructor runs over a copy of the string with its terminator; \<open>cur\<close> is what lies between
  \<^verbatim>\<open>posold\<close> and \<^verbatim>\<open>posnew\<close>.  \<^term>\<open>None\<close> is a run past the end of the copy.
\<close>

fun token_loop :: "char \<Rightarrow> bool \<Rightarrow> string \<Rightarrow> string \<Rightarrow> string list option" where
  "token_loop sep keep cur [] = None"
| "token_loop sep keep cur (c # rest) =
     (if c = sep then map_option (\<lambda>ts. if keep \<or> cur \<noteq> [] then cur # ts else ts) (token_loop sep keep [] rest)
      else if c = NUL then Some (if cur \<noteq> [] then [cur] else [])
      else token_loop sep keep (cur @ [c]) rest)"

definition Tokenizer :: "string \<Rightarrow> char \<Rightarrow> bool \<Rightarrow> string list option" where
  "Tokenizer src sep keepEmptyStrings = token_loop sep keepEmptyStrings [] (src @ [NUL])"

section \<open>Cleaning a line\<close>

definition inv_char :: "char \<Rightarrow> bool" where
  "inv_char c \<longleftrightarrow> c = CHR '' '' \<or> c = CHR 0x09 \<or> c = CHR 0x07 \<or> c = CHR 0x0A"

text \<open>The loop works in place: \<open>wpos\<close> is where the next character goes.\<close>

function strip_loop :: "nat \<Rightarrow> nat \<Rightarrow> bool \<Rightarrow> string \<Rightarrow> nat \<times> string" where
  "strip_loop pos wpos space str =
     (if pos < length str then
        if inv_char (str ! pos) then
          if \<not> space then strip_loop (pos + 1) (wpos + 1) True (str[wpos := CHR '' ''])
          else strip_loop (pos + 1) wpos space str
        else strip_loop (pos + 1) (wpos + 1) False (if wpos \<noteq> pos then str[wpos := str ! pos] else str)
      else (wpos, str))"
  by pat_completeness auto
termination by (relation "measure (\<lambda>(pos, wpos, space, str). length str - pos)") auto

definition stripLineInvisibleChars :: "string \<Rightarrow> string" where
  "stripLineInvisibleChars str =
     (let (wpos, str) = strip_loop 0 0 False str;
          str = (if wpos < length str then take wpos str else str)
      in if strstr str ''|TInterface'' \<noteq> None then [] else str)"

section \<open>Durations\<close>

definition MINUTE :: nat where "MINUTE = 60"
definition HOUR :: nat where "HOUR = MINUTE * 60"
definition DAY :: nat where "DAY = HOUR * 24"

definition secsToTimeString :: "u64 \<Rightarrow> bool \<Rightarrow> bool \<Rightarrow> string" where
  "secsToTimeString timeInSecs shortText hoursOnly =
     (let t = unat timeInSecs;
          secs = t mod MINUTE; minutes = t mod HOUR div MINUTE; hours = t mod DAY div HOUR; days = t div DAY
      in (if days \<noteq> 0 then dec days @ (if shortText then ''d'' else '' Day(s) '') else [])
         @ (if hours \<noteq> 0 \<or> hoursOnly then dec hours @ (if shortText then ''h'' else '' Hour(s) '') else [])
         @ (if \<not> hoursOnly then
              (if minutes \<noteq> 0 then dec minutes @ (if shortText then ''m'' else '' Minute(s) '') else [])
              @ (if secs \<noteq> 0 \<or> (days = 0 \<and> hours = 0 \<and> minutes = 0)
                 then dec secs @ (if shortText then ''s'' else '' Second(s).'') else [])
            else []))"

fun time_loop :: "u32 \<Rightarrow> u32 \<Rightarrow> string \<Rightarrow> u32" where
  "time_loop secs buffer [] = secs"
| "time_loop secs buffer (c # cs) =
     (if isdigit c then time_loop secs (buffer * 10 + of_nat (ord c - 48)) cs
      else if c = CHR ''d'' then time_loop (secs + buffer * of_nat DAY) 0 cs
      else if c = CHR ''h'' then time_loop (secs + buffer * of_nat HOUR) 0 cs
      else if c = CHR ''m'' then time_loop (secs + buffer * of_nat MINUTE) 0 cs
      else if c = CHR ''s'' then time_loop (secs + buffer * 1) 0 cs
      else 0)"

definition TimeStringToSecs :: "string \<Rightarrow> u32" where
  "TimeStringToSecs timestring = time_loop 0 0 timestring"

section \<open>Money\<close>

text \<open>\<^verbatim>\<open>strtoull\<close> in base 10: white space, a sign, digits; a value too large gives the largest one.\<close>

definition atoull :: "string \<Rightarrow> u64" where
  "atoull s =
     (let (neg, t) = split_sign (dropWhile isspace s); v = digits_val (takeWhile isdigit t)
      in if v \<ge> 2 ^ 64 then - 1 else if neg then - of_nat v else of_nat v)"

fun money_loop :: "u64 \<Rightarrow> string list \<Rightarrow> u64" where
  "money_loop money [] = money"
| "money_loop money (tok # toks) =
     (let gCount = count_list tok CHR ''g''; sCount = count_list tok CHR ''s''; cCount = count_list tok CHR ''c''
      in if gCount + sCount + cCount \<noteq> 1 then 0
         else let amount = atoull tok
           in money_loop (if gCount = 1 then money + amount * 100 * 100
                          else if sCount = 1 then money + amount * 100
                          else if cCount = 1 then money + amount else money) toks)"

definition MoneyStringToMoney :: "string \<Rightarrow> u64 option" where
  "MoneyStringToMoney moneyString =
     (if \<not> (count_list moneyString CHR ''g'' = 1 \<or> count_list moneyString CHR ''s'' = 1 \<or> count_list moneyString CHR ''c'' = 1)
      then Some 0
      else map_option (money_loop 0) (Tokenizer moneyString CHR '' '' True))"

section \<open>The stem of a name\<close>

definition dropEnds :: "wchar_t list list list" where
  "dropEnds =
     (let a_End = [0x0430]; o_End = [0x043E]; ya_End = [0x044F]; ie_End = [0x0435]; i_End = [0x0438]; yeru_End = [0x044B];
          u_End = [0x0443]; yu_End = [0x044E]; oj_End = [0x043E, 0x0439]; ie_j_End = [0x0435, 0x0439]; io_j_End = [0x0451, 0x0439];
          o_m_End = [0x043E, 0x043C]; io_m_End = [0x0451, 0x043C]; ie_m_End = [0x0435, 0x043C]; soft_End = [0x044C]; j_End = [0x0439]
      in [[a_End, o_End, ya_End, ie_End, soft_End, j_End],
          [a_End, ya_End, yeru_End, i_End],
          [ie_End, u_End, yu_End, i_End],
          [u_End, yu_End, o_End, ie_End, soft_End, ya_End, a_End],
          [oj_End, io_j_End, ie_j_End, o_m_End, io_m_End, ie_m_End, yu_End],
          [ie_End, i_End]])"

text \<open>\<^verbatim>\<open>substr\<close> from \<^verbatim>\<open>size() - len\<close> throws when that position, an unsigned number, is past the end.\<close>

fun drop_end_loop :: "wchar_t list \<Rightarrow> wchar_t list list \<Rightarrow> wchar_t list option" where
  "drop_end_loop wname [] = Some wname"
| "drop_end_loop wname (e # es) =
     (let pos = of_nat (length wname) - of_nat (length e) :: size_t
      in if unat pos > length wname then None
         else if take (length e) (drop (unat pos) wname) = e then Some (take (length wname - length e) wname)
         else drop_end_loop wname es)"

definition GetMainPartOfName :: "wchar_t list \<Rightarrow> u32 \<Rightarrow> wchar_t list option" where
  "GetMainPartOfName wname declension =
     (if length wname < 1 \<or> \<not> isCyrillicCharacter (hd wname) \<or> declension > 5 then Some wname
      else drop_end_loop wname (dropEnds ! unat declension))"

definition StringToBool :: "string \<Rightarrow> bool" where
  "StringToBool str = (let lowerStr = lower_string str in lowerStr = ''1'' \<or> lowerStr = ''true'' \<or> lowerStr = ''yes'')"

section \<open>Correctness of the tokenizer\<close>

fun join :: "char \<Rightarrow> string list \<Rightarrow> string" where
  "join sep [] = []"
| "join sep [t] = t"
| "join sep (t # u # ts) = t @ sep # join sep (u # ts)"

definition clean :: "char \<Rightarrow> string \<Rightarrow> bool" where
  "clean sep t \<longleftrightarrow> sep \<notin> set t \<and> NUL \<notin> set t"

lemma token_loop_clean: "clean sep t \<Longrightarrow> token_loop sep keep cur (t @ r) = token_loop sep keep (cur @ t) r"
  by (induction t arbitrary: cur) (auto simp: clean_def)

lemma token_loop_join:
  assumes "list_all (clean sep) ts" "sep \<noteq> NUL"
  shows "token_loop sep keep [] (join sep ts @ [NUL])
    = Some (if keep then (if ts = [] \<or> last ts = [] then butlast ts else ts) else filter (\<lambda>t. t \<noteq> []) ts)"
  using assms
proof (induction sep ts rule: join.induct)
  case (2 sep t)
  then show ?case using token_loop_clean [of sep t keep "[]" "[NUL]"] by auto
next
  case (3 sep t u ts)
  then show ?case using token_loop_clean [of sep t keep "[]"] by auto
qed simp

text \<open>
  Splitting at the separator inverts joining with it, for fields without the separator and
  NUL: with \<^verbatim>\<open>keepEmptyStrings\<close> all fields come back but an empty last one, without it the fields
  that are not empty.  The tokenizer stays inside its copy of the string.
\<close>

theorem tokenizer_roundtrip:
  assumes "list_all (clean sep) ts" "sep \<noteq> NUL"
  shows "Tokenizer (join sep ts) sep keep
    = Some (if keep then (if ts = [] \<or> last ts = [] then butlast ts else ts) else filter (\<lambda>t. t \<noteq> []) ts)"
  unfolding Tokenizer_def by (rule token_loop_join [OF assms])

theorem tokenizer_roundtrip_witness:
  "Tokenizer ''a,,b,'' CHR '','' True = Some [''a'', [], ''b''] \<and> Tokenizer ''a,,b,'' CHR '','' False = Some [''a'', ''b'']"
  using tokenizer_roundtrip [of "CHR '',''" "[''a'', [], ''b'', []]" True]
    tokenizer_roundtrip [of "CHR '',''" "[''a'', [], ''b'', []]" False] by (simp add: clean_def)

section \<open>Cleaning a line\<close>

fun collapse :: "bool \<Rightarrow> string \<Rightarrow> string" where
  "collapse space [] = []"
| "collapse space (c # cs) =
     (if inv_char c then (if space then collapse True cs else CHR '' '' # collapse True cs) else c # collapse False cs)"

declare strip_loop.simps [simp del]

lemma strip_loop_collapse:
  assumes "wpos \<le> pos" "pos \<le> length str"
  shows "case strip_loop pos wpos space str of (w, str') \<Rightarrow>
    length str' = length str \<and> w \<le> length str \<and> take w str' = take wpos str @ collapse space (drop pos str)"
  using assms
proof (induction pos wpos space str rule: strip_loop.induct)
  case (1 pos wpos space str)
  show ?case
  proof (cases "pos < length str")
    case False
    then show ?thesis using 1 by (simp add: strip_loop.simps)
  next
    case True
    have d: "drop pos str = str ! pos # drop (Suc pos) str" using True by (rule Cons_nth_drop_Suc [symmetric])
    have w: "wpos < length str" using True 1 by simp
    have upd: "take (Suc wpos) (str[wpos := c]) = take wpos str @ [c]" "drop (Suc pos) (str[wpos := c]) = drop (Suc pos) str" for c
      using w 1(4) by (simp_all add: take_Suc_conv_app_nth)
    have same: "(if wpos \<noteq> pos then str[wpos := str ! pos] else str) = str[wpos := str ! pos]" by simp
    consider "inv_char (str ! pos)" "\<not> space" | "inv_char (str ! pos)" "space" | "\<not> inv_char (str ! pos)" by blast
    then show ?thesis
    proof cases
      case first: 1
      then show ?thesis using 1(1) [OF True first] True d upd 1(4,5) by (simp add: strip_loop.simps [of pos])
    next
      case second: 2
      then show ?thesis using 1(2) [OF True second(1)] True d 1(4,5) by (simp add: strip_loop.simps [of pos])
    next
      case third: 3
      then have "strip_loop pos wpos space str = strip_loop (Suc pos) (Suc wpos) False (str[wpos := str ! pos])"
        using True by (cases "wpos = pos") (simp_all add: strip_loop.simps [of pos])
      then show ?thesis using 1(3) [OF True third] third True d upd 1(4,5) unfolding same by simp
    qed
  qed
qed

lemma strip_reference:
  "stripLineInvisibleChars s = (let t = collapse False s in if strstr t ''|TInterface'' \<noteq> None then [] else t)"
  using strip_loop_collapse [of 0 0 s False]
  by (auto simp: stripLineInvisibleChars_def Let_def split: prod.splits)

lemma collapse_idem: "collapse False (collapse False s) = collapse False s \<and> collapse True (collapse True s) = collapse True s"
  by (induction s) (auto simp: inv_char_def)

text \<open>
  Cleaning a line in place gives what the plain definition gives that reads one string and
  writes another: every run of blanks, tabs, bells and line ends becomes one blank, and a line with
  the interface tag becomes empty.  Cleaning twice changes nothing.
\<close>

theorem line_cleaning:
  "stripLineInvisibleChars s = (if strstr (collapse False s) ''|TInterface'' \<noteq> None then [] else collapse False s)
   \<and> stripLineInvisibleChars (stripLineInvisibleChars s) = stripLineInvisibleChars s"
  using collapse_idem [of s] by (simp add: strip_reference Let_def)

section \<open>Durations and money\<close>

lemma time_digits:
  "\<forall>c\<in>set ds. isdigit c \<Longrightarrow> time_loop s (of_nat a) (ds @ r) = time_loop s (of_nat (foldl (\<lambda>a c. a * 10 + digit_val c) a ds)) r"
proof (induction ds arbitrary: a)
  case (Cons c ds)
  then have "time_loop s (of_nat a) ((c # ds) @ r) = time_loop s (of_nat (a * 10 + digit_val c)) (ds @ r)"
    by (simp add: digit_val_def)
  also have "\<dots> = time_loop s (of_nat (foldl (\<lambda>a c. a * 10 + digit_val c) (a * 10 + digit_val c) ds)) r"
    using Cons by (intro Cons.IH) simp
  finally show ?case by simp
qed simp

lemma time_dec: "time_loop s 0 (dec n @ r) = time_loop s (of_nat n) r"
  using time_digits [of "dec n" s 0 r] dec_digits [of n] digits_val_dec [of n] by (simp add: digits_val_def)

lemma time_units:
  "time_loop s b (CHR ''d'' # r) = time_loop (s + b * of_nat DAY) 0 r"
  "time_loop s b (CHR ''h'' # r) = time_loop (s + b * of_nat HOUR) 0 r"
  "time_loop s b (CHR ''m'' # r) = time_loop (s + b * of_nat MINUTE) 0 r"
  "time_loop s b (CHR ''s'' # r) = time_loop (s + b) 0 r"
  by (simp_all add: isdigit_def)

declare time_loop.simps(2) [simp del]

lemma time_field:
  "time_loop s 0 ((if n \<noteq> 0 then dec n @ ''d'' else []) @ r) = time_loop (s + of_nat (n * DAY)) 0 r"
  "time_loop s 0 ((if n \<noteq> 0 then dec n @ ''h'' else []) @ r) = time_loop (s + of_nat (n * HOUR)) 0 r"
  "time_loop s 0 ((if n \<noteq> 0 then dec n @ ''m'' else []) @ r) = time_loop (s + of_nat (n * MINUTE)) 0 r"
  "time_loop s 0 (if n \<noteq> 0 \<or> b then dec n @ ''s'' else []) = s + of_nat n"
  by (simp_all add: time_dec time_units)

lemma time_parts: "t div DAY * DAY + t mod DAY div HOUR * HOUR + t mod HOUR div MINUTE * MINUTE + t mod MINUTE = t"
proof -
  have "t mod DAY mod HOUR = t mod HOUR" "t mod HOUR mod MINUTE = t mod MINUTE"
    by (simp_all add: DAY_def HOUR_def MINUTE_def mod_mod_cancel)
  then show ?thesis using div_mult_mod_eq [of t DAY] div_mult_mod_eq [of "t mod DAY" HOUR] div_mult_mod_eq [of "t mod HOUR" MINUTE]
    by linarith
qed

text \<open>
  A duration written in the short form is read back, modulo the 32 bits of the reader: in
  particular every duration below \<open>2 ^ 32\<close> seconds is read back exactly.
\<close>

theorem duration_roundtrip: "TimeStringToSecs (secsToTimeString t True False) = ucast t"
proof -
  let ?t = "unat t"
  have "TimeStringToSecs (secsToTimeString t True False)
      = of_nat (?t div DAY * DAY) + of_nat (?t mod DAY div HOUR * HOUR) + of_nat (?t mod HOUR div MINUTE * MINUTE) + of_nat (?t mod MINUTE)"
    unfolding TimeStringToSecs_def secsToTimeString_def Let_def 
    by (simp only: if_True if_False simp_thms time_field add_0_left)
  also have "\<dots> = of_nat ?t" by (metis of_nat_add time_parts)
  finally show ?thesis by simp
qed

lemma count_dec: "\<not> isdigit c \<Longrightarrow> count_list (dec n) c = 0"
  using dec_digits [of n] by (metis count_list_0_iff)

lemma atoull_dec:
  assumes "n < 2 ^ 64" "\<not> isdigit c"
  shows "atoull (dec n @ [c]) = of_nat n"
proof -
  have "dropWhile isspace (dec n @ [c]) = dec n @ [c]" using dropWhile_space_digits [of "[]" "dec n" "[c]"] dec_digits by simp
  moreover have "split_sign (dec n @ [c]) = (False, dec n @ [c])" by (rule split_sign_digits) (use dec_digits in auto)
  moreover have "takeWhile isdigit (dec n @ [c]) = dec n" by (rule takeWhile_digits) (use assms dec_digits in auto)
  ultimately show ?thesis using assms by (simp add: atoull_def)
qed

lemma money_chars: "\<not> isdigit CHR ''g''" "\<not> isdigit CHR ''s''" "\<not> isdigit CHR ''c''" "\<not> isdigit CHR '' ''" "\<not> isdigit NUL"
  by (simp_all add: isdigit_def)

lemma clean_dec: "x \<noteq> CHR '' '' \<Longrightarrow> x \<noteq> NUL \<Longrightarrow> clean CHR '' '' (dec n @ [x])"
  using dec_digits [of n] money_chars(4,5) by (auto simp: clean_def)

definition money_text :: "nat \<Rightarrow> nat \<Rightarrow> nat \<Rightarrow> string" where
  "money_text g s c = dec g @ ''g '' @ dec s @ ''s '' @ dec c @ ''c''"

text \<open>
  An amount written as gold, silver and copper is read as its value in copper, modulo the
  64 bits of the result.
\<close>

theorem money_value:
  assumes "g < 2 ^ 64" "s < 2 ^ 64" "c < 2 ^ 64"
  shows "MoneyStringToMoney (money_text g s c) = Some (of_nat (g * 10000 + s * 100 + c))"
proof -
  let ?ts = "[dec g @ ''g'', dec s @ ''s'', dec c @ ''c'']"
  have t: "money_text g s c = join CHR '' '' ?ts" by (simp add: money_text_def)
  have "list_all (clean CHR '' '') ?ts" by (simp add: clean_dec)
  then have "Tokenizer (money_text g s c) CHR '' '' True = Some ?ts"
    unfolding t Tokenizer_def by (subst token_loop_join) simp_all
  moreover have "count_list (money_text g s c) CHR ''g'' = 1"
    by (simp add: money_text_def count_dec money_chars)
  moreover have "money_loop 0 ?ts = of_nat (g * 10000 + s * 100 + c)"
    using assms by (simp add: count_dec money_chars atoull_dec Let_def)
  ultimately show ?thesis by (simp add: MoneyStringToMoney_def)
qed

theorem money_value_witness: "MoneyStringToMoney (money_text 12 34 56) = Some 123456"
  using money_value [of 12 34 56] by simp

section \<open>Stems\<close>

lemma drop_end_cases:
  assumes "\<forall>e\<in>set es. length e \<le> length w" "length w < 2 ^ 64"
  shows "\<exists>r e. drop_end_loop w es = Some r \<and> w = r @ e \<and> (e = [] \<or> e \<in> set es)"
  using assms(1)
proof (induction es)
  case (Cons e es)
  have pos: "unat (of_nat (length w) - of_nat (length e) :: size_t) = length w - length e"
    using Cons.prems assms(2) by (simp add: unat_sub_le unat_of_nat_small)
  show ?case
  proof (cases "drop (length w - length e) w = e")
    case True
    then have "w = take (length w - length e) w @ e" by (metis append_take_drop_id)
    then show ?thesis using True pos by (auto simp: Let_def intro!: exI [of _ e])
  next
    case False
    have "\<not> length w < length w - length e" by simp
    then show ?thesis using False Cons pos by (simp add: Let_def) blast
  qed
qed simp

lemma drop_ends_short: "(declension :: u32) \<noteq> 4 \<Longrightarrow> declension \<le> 5 \<Longrightarrow> e \<in> set (dropEnds ! unat declension) \<Longrightarrow> length e = 1"
proof -
  assume d: "declension \<noteq> 4" "declension \<le> 5" and e: "e \<in> set (dropEnds ! unat declension)"
  have "unat declension \<le> 5" "unat declension \<noteq> 4" using d by (simp_all add: word_le_nat_alt word_unat_eq_iff)
  then have "unat declension \<in> {0, 1, 2, 3, 5}" by auto
  then show ?thesis using e by (auto simp: dropEnds_def Let_def)
qed

lemma drop_ends_length: "(declension :: u32) \<le> 5 \<Longrightarrow> e \<in> set (dropEnds ! unat declension) \<Longrightarrow> length e \<le> 2"
proof -
  assume d: "declension \<le> 5" and e: "e \<in> set (dropEnds ! unat declension)"
  have "unat declension \<le> 5" using d by (simp add: word_le_nat_alt)
  then have "unat declension \<in> {0, 1, 2, 3, 4, 5}" by auto
  then show ?thesis using e by (auto simp: dropEnds_def Let_def)
qed

lemma drop_end_too_long:
  assumes "length w = 1" "length e = 2"
  shows "drop_end_loop w (e # es) = None"
proof -
  have "unat (- 1 :: size_t) = 2 ^ 64 - 1" by (simp add: unat_uminus)
  then show ?thesis using assms by (simp add: Let_def)
qed

text \<open>
  The stem of a name.  The call throws exactly for a name of a single Cyrillic character in
  the fifth case: the first ending tried there has two characters, and the start of the suffix wraps
  around.  Otherwise the result is the name without an ending of at most two characters.
\<close>

theorem main_part_of_name:
  assumes "length wname < 2 ^ 64"
  shows "(GetMainPartOfName wname declension = None)
      = (length wname = 1 \<and> isCyrillicCharacter (hd wname) \<and> declension = 4)
    \<and> (\<forall>r. GetMainPartOfName wname declension = Some r \<longrightarrow> (\<exists>e. wname = r @ e \<and> length e \<le> 2))"
proof (cases "length wname < 1 \<or> \<not> isCyrillicCharacter (hd wname) \<or> declension > 5")
  case True
  then show ?thesis by (auto simp: GetMainPartOfName_def)
next
  case False
  then have d: "declension \<le> 5" and n: "1 \<le> length wname" by (auto simp: Suc_le_eq)
  let ?es = "dropEnds ! unat declension"
  have g: "GetMainPartOfName wname declension = drop_end_loop wname ?es" using False by (simp add: GetMainPartOfName_def)
  show ?thesis
  proof (cases "length wname = 1 \<and> declension = 4")
    case True
    have "\<exists>e es. ?es = e # es \<and> length e = 2" using True by (simp add: dropEnds_def Let_def)
    then have "drop_end_loop wname ?es = None" using True drop_end_too_long [of wname] by auto
    then show ?thesis using True False g by simp
  next
    case not: False
    have "\<forall>e\<in>set ?es. length e \<le> length wname"
    proof (cases "length wname = 1")
      case True
      then show ?thesis using not drop_ends_short [OF _ d] by auto
    next
      case False
      then show ?thesis using n drop_ends_length [OF d] by fastforce
    qed
    then obtain r e where r: "drop_end_loop wname ?es = Some r" "wname = r @ e" "e = [] \<or> e \<in> set ?es"
      using drop_end_cases [OF _ assms] by blast
    then have "length e \<le> 2" using drop_ends_length [OF d] by auto
    then show ?thesis using r g not by auto
  qed
qed

theorem main_part_of_name_witness:
  "GetMainPartOfName [0x0410] 4 = None \<and> GetMainPartOfName [0x0410, 0x043D, 0x043D, 0x0430] 0 = Some [0x0410, 0x043D, 0x043D]"
proof -
  have "GetMainPartOfName [0x0410] 4 = None"
    using main_part_of_name [of "[0x0410]" 4] by (simp add: isCyrillicCharacter_def in_range_def)
  moreover have "GetMainPartOfName [0x0410, 0x043D, 0x043D, 0x0430] 0 = Some [0x0410, 0x043D, 0x043D]"
    by (simp add: GetMainPartOfName_def dropEnds_def Let_def isCyrillicCharacter_def in_range_def)
  ultimately show ?thesis ..
qed

end
