(* ===== verification/Log_System.thy ===== *)
theory Log_System
  imports Text_Utils "HOL-Library.AList"
begin

text \<open>
  The logging system (\<^verbatim>\<open>Source/ProtobufDecompileTest/Log.cpp\<close>, \<^verbatim>\<open>Log.h\<close>, \<^verbatim>\<open>Logger.cpp\<close>,
  \<^verbatim>\<open>Appender.cpp\<close>): named loggers in a hierarchy of dotted names, appenders that write messages out,
  and their configuration.  The configuration is the list of its entries in order; what an appender
  writes is a list of records of appender, prefix and text.  A log level is a number, as a compiler
  with signed enumerations has it.  Diagnostics on the error stream are not modelled.
\<close>

section \<open>Messages, appenders and loggers\<close>

type_synonym LogLevel = int

definition LOG_LEVEL_DISABLED :: LogLevel where "LOG_LEVEL_DISABLED = 0"
definition LOG_LEVEL_TRACE :: LogLevel where "LOG_LEVEL_TRACE = 1"
definition LOG_LEVEL_DEBUG :: LogLevel where "LOG_LEVEL_DEBUG = 2"
definition LOG_LEVEL_INFO :: LogLevel where "LOG_LEVEL_INFO = 3"
definition LOG_LEVEL_WARN :: LogLevel where "LOG_LEVEL_WARN = 4"
definition LOG_LEVEL_ERROR :: LogLevel where "LOG_LEVEL_ERROR = 5"
definition LOG_LEVEL_FATAL :: LogLevel where "LOG_LEVEL_FATAL = 6"

lemmas log_levels = LOG_LEVEL_DISABLED_def LOG_LEVEL_TRACE_def LOG_LEVEL_DEBUG_def LOG_LEVEL_INFO_def LOG_LEVEL_WARN_def
  LOG_LEVEL_ERROR_def LOG_LEVEL_FATAL_def

record LogMessage =
  msg_level :: LogLevel
  msg_type :: string
  msg_text :: string
  msg_time :: string

record Appender =
  ap_id :: u8
  ap_name :: string
  ap_level :: LogLevel
  ap_flags :: u32
  ap_type :: u8
  ap_args :: "string list"

record Logger =
  lg_name :: string
  lg_level :: LogLevel
  lg_appenders :: "u8 list"

definition default_Logger :: Logger where
  "default_Logger = \<lparr>lg_name = [], lg_level = LOG_LEVEL_DISABLED, lg_appenders = []\<rparr>"

definition Logger_Create :: "string \<Rightarrow> LogLevel \<Rightarrow> Logger \<Rightarrow> Logger" where
  "Logger_Create name level l = l\<lparr>lg_name := name, lg_level := level\<rparr>"

definition addAppender :: "u8 \<Rightarrow> Logger \<Rightarrow> Logger" where
  "addAppender i l = l\<lparr>lg_appenders := (if i \<in> set (lg_appenders l) then lg_appenders l else lg_appenders l @ [i])\<rparr>"

definition delAppender :: "u8 \<Rightarrow> Logger \<Rightarrow> Logger" where
  "delAppender i l = l\<lparr>lg_appenders := removeAll i (lg_appenders l)\<rparr>"

definition getLogLevelString :: "LogLevel \<Rightarrow> string" where
  "getLogLevelString level =
     (if level = LOG_LEVEL_FATAL then ''FATAL'' else if level = LOG_LEVEL_ERROR then ''ERROR''
      else if level = LOG_LEVEL_WARN then ''WARN'' else if level = LOG_LEVEL_INFO then ''INFO''
      else if level = LOG_LEVEL_DEBUG then ''DEBUG'' else if level = LOG_LEVEL_TRACE then ''TRACE'' else ''DISABLED'')"

unbundle bit_operations_syntax

text \<open>The format \<^verbatim>\<open>%-5s\<close> pads on the right.\<close>

definition Appender_prefix :: "Appender \<Rightarrow> LogMessage \<Rightarrow> string" where
  "Appender_prefix a m =
     (if ap_flags a AND 0x01 \<noteq> 0 then msg_time m @ '' '' else [])
     @ (if ap_flags a AND 0x02 \<noteq> 0
        then (let s = getLogLevelString (msg_level m) in s @ replicate (5 - length s) CHR '' '' @ '' '') else [])
     @ (if ap_flags a AND 0x04 \<noteq> 0 then ''['' @ msg_type m @ ''] '' else [])"

definition Appender_write :: "LogMessage \<Rightarrow> Appender \<Rightarrow> (u8 \<times> string \<times> string) list" where
  "Appender_write m a =
     (if ap_level a = 0 \<or> ap_level a > msg_level m then [] else [(ap_id a, Appender_prefix a m, msg_text m)])"

section \<open>The log\<close>

record Log =
  appenders :: "(u8 \<times> Appender) list"
  loggers :: "(string \<times> Logger) list"
  AppenderId :: u8
  lowestLogLevel :: LogLevel
  logsDir :: string

definition LOGGER_ROOT :: string where "LOGGER_ROOT = ''root''"

definition empty_Log :: Log where
  "empty_Log = \<lparr>appenders = [], loggers = [], AppenderId = 0, lowestLogLevel = LOG_LEVEL_FATAL, logsDir = []\<rparr>"

definition NextAppenderId :: "Log \<Rightarrow> u8 \<times> Log" where
  "NextAppenderId l = (AppenderId l, l\<lparr>AppenderId := AppenderId l + 1\<rparr>)"

definition GetAppenderByName :: "string \<Rightarrow> Log \<Rightarrow> Appender option" where
  "GetAppenderByName name l = map_option snd (find (\<lambda>(i, a). ap_name a = name) (appenders l))"

text \<open>\<^verbatim>\<open>sConfigMgr\<close>: the entries of the file; quotes are removed from a value.\<close>

type_synonym log_config = "(string \<times> string) list"

definition GetStringDefault :: "log_config \<Rightarrow> string \<Rightarrow> string \<Rightarrow> string" where
  "GetStringDefault cfg name def =
     filter (\<lambda>c. c \<noteq> CHR 0x22) (case map_of cfg name of None \<Rightarrow> def | Some v \<Rightarrow> v)"

definition ConfigMgr_GetKeysByString :: "log_config \<Rightarrow> string \<Rightarrow> string list" where
  "ConfigMgr_GetKeysByString cfg name = filter (\<lambda>k. take (length name) k = name) (map fst cfg)"

text \<open>
  The factory knows the console (1) and the file (2); a file appender without a file name throws, after
  the id has been taken.
\<close>

definition CreateAppenderFromConfig :: "log_config \<Rightarrow> string \<Rightarrow> Log \<Rightarrow> Log" where
  "CreateAppenderFromConfig cfg appenderName l =
     (if appenderName = [] then l
      else case Tokenizer (GetStringDefault cfg appenderName []) CHR '','' True of
             None \<Rightarrow> l
           | Some tokens \<Rightarrow>
               (let name = drop 9 appenderName
                in if length tokens < 2 then l
                   else let type = word_of_int (atoi (tokens ! 0)); level = atoi (tokens ! 1)
                     in if level > LOG_LEVEL_FATAL then l
                        else let flags = (if length tokens > 2 then word_of_int (atoi (tokens ! 2)) else 0); args = drop 3 tokens
                          in if type \<noteq> 1 \<and> type \<noteq> 2 then l
                             else let (i, l1) = NextAppenderId l
                               in if type = 2 \<and> args = [] then l1
                                  else l1\<lparr>appenders := AList.update i
                                            \<lparr>ap_id = i, ap_name = name, ap_level = level, ap_flags = flags, ap_type = type, ap_args = args\<rparr>
                                            (appenders l1)\<rparr>))"

text \<open>The words of a string, as \<^verbatim>\<open>operator>>\<close> reads them.\<close>

function words :: "string \<Rightarrow> string list" where
  "words s =
     (let t = dropWhile isspace s
      in if t = [] then [] else takeWhile (\<lambda>c. \<not> isspace c) t # words (dropWhile (\<lambda>c. \<not> isspace c) t))"
  by pat_completeness auto
termination
proof (relation "measure length")
  fix s t :: string
  assume t: "t = dropWhile isspace s" "t \<noteq> []"
  then have "\<not> isspace (hd t)" by (metis hd_dropWhile)
  then have "length (dropWhile (\<lambda>c. \<not> isspace c) t) < length t"
    using t(2) length_dropWhile_le [of "\<lambda>c. \<not> isspace c" "tl t"] by (cases t) auto
  also have "\<dots> \<le> length s" unfolding t(1) by (rule length_dropWhile_le)
  finally show "(dropWhile (\<lambda>c. \<not> isspace c) t, s) \<in> measure length" by simp
qed simp

declare words.simps [simp del]

definition add_named :: "Log \<Rightarrow> string \<Rightarrow> Logger \<Rightarrow> Logger" where
  "add_named l str lg = (case GetAppenderByName str l of None \<Rightarrow> lg | Some a \<Rightarrow> addAppender (ap_id a) lg)"

text \<open>\<^verbatim>\<open>loggers[name]\<close> makes an entry before the level is checked.\<close>

definition logger_entry :: "string \<Rightarrow> Log \<Rightarrow> Logger" where
  "logger_entry name l = (case map_of (loggers l) name of None \<Rightarrow> default_Logger | Some lg \<Rightarrow> lg)"

definition put_logger :: "string \<Rightarrow> Logger \<Rightarrow> Log \<Rightarrow> Log" where
  "put_logger name lg l = l\<lparr>loggers := AList.update name lg (loggers l)\<rparr>"

definition lower_level :: "LogLevel \<Rightarrow> Log \<Rightarrow> Log" where
  "lower_level level l = (if level < lowestLogLevel l then l\<lparr>lowestLogLevel := level\<rparr> else l)"

definition configure_logger :: "string \<Rightarrow> string list \<Rightarrow> Log \<Rightarrow> Log" where
  "configure_logger name tokens l =
     (let logger = logger_entry name l; l1 = put_logger name logger l
      in if lg_name logger \<noteq> [] then l1
         else let level = atoi (tokens ! 0)
           in if level > LOG_LEVEL_FATAL then l1
              else let l2 = lower_level level l1
                in put_logger name (fold (add_named l2) (words (tokens ! 1)) (Logger_Create name level logger)) l2)"

definition CreateLoggerFromConfig :: "log_config \<Rightarrow> string \<Rightarrow> Log \<Rightarrow> Log" where
  "CreateLoggerFromConfig cfg appenderName l =
     (if appenderName = [] then l
      else let options = GetStringDefault cfg appenderName []; name = drop 7 appenderName
        in if options = [] then l
           else case Tokenizer options CHR '','' True of
                  None \<Rightarrow> l
                | Some tokens \<Rightarrow> if length tokens \<noteq> 2 then l else configure_logger name tokens l)"

definition Close :: "Log \<Rightarrow> Log" where
  "Close l = l\<lparr>loggers := [], appenders := []\<rparr>"

definition ReadAppendersFromConfig :: "log_config \<Rightarrow> Log \<Rightarrow> Log" where
  "ReadAppendersFromConfig cfg l = fold (CreateAppenderFromConfig cfg) (ConfigMgr_GetKeysByString cfg ''Appender.'') l"

definition default_config :: "Log \<Rightarrow> Log" where
  "default_config l =
     (let (i, l1) = NextAppenderId (Close l);
          console = \<lparr>ap_id = i, ap_name = ''Console'', ap_level = LOG_LEVEL_DEBUG, ap_flags = 0, ap_type = 1, ap_args = []\<rparr>
      in l1\<lparr>appenders := AList.update i console (appenders l1),
            loggers := AList.update ''server'' (addAppender i (Logger_Create ''server'' LOG_LEVEL_INFO default_Logger))
              (AList.update LOGGER_ROOT (addAppender i (Logger_Create LOGGER_ROOT LOG_LEVEL_ERROR default_Logger)) (loggers l1))\<rparr>)"

definition ReadLoggersFromConfig :: "log_config \<Rightarrow> Log \<Rightarrow> Log" where
  "ReadLoggersFromConfig cfg l =
     (let l1 = fold (CreateLoggerFromConfig cfg) (ConfigMgr_GetKeysByString cfg ''Logger.'') l
      in if map_of (loggers l1) LOGGER_ROOT = None then default_config l1 else l1)"

definition LoadFromConfig :: "log_config \<Rightarrow> Log \<Rightarrow> Log" where
  "LoadFromConfig cfg l =
     (let l1 = (Close l)\<lparr>lowestLogLevel := LOG_LEVEL_FATAL, AppenderId := 0\<rparr>;
          dir = GetStringDefault cfg ''LogsDir'' [];
          l2 = l1\<lparr>logsDir := (if dir \<noteq> [] \<and> last dir \<noteq> CHR ''/'' \<and> last dir \<noteq> CHR 0x5C then dir @ ''/'' else dir)\<rparr>
      in ReadLoggersFromConfig cfg (ReadAppendersFromConfig cfg l2))"

section \<open>Looking up loggers and writing messages\<close>

definition parent_of :: "string \<Rightarrow> string" where
  "parent_of type = (case find_last (\<lambda>c. c = CHR ''.'') type of None \<Rightarrow> LOGGER_ROOT | Some found \<Rightarrow> take found type)"

function GetLoggerByType :: "Log \<Rightarrow> string \<Rightarrow> Logger option" where
  "GetLoggerByType l type =
     (case map_of (loggers l) type of
        Some lg \<Rightarrow> Some lg
      | None \<Rightarrow> if type = LOGGER_ROOT then None else GetLoggerByType l (parent_of type))"
  by pat_completeness auto
termination
proof (relation "measure (\<lambda>(l, type). if type = LOGGER_ROOT then 0 else Suc (length type))")
  fix l :: Log and type :: string
  assume "type \<noteq> LOGGER_ROOT"
  moreover have "parent_of type = LOGGER_ROOT \<or> length (parent_of type) < length type"
    by (auto simp: parent_of_def split: option.splits dest: find_last_SomeD)
  ultimately show "((l, parent_of type), l, type) \<in> measure (\<lambda>(l, type). if type = LOGGER_ROOT then 0 else Suc (length type))"
    by auto
qed simp

definition ShouldLog :: "Log \<Rightarrow> string \<Rightarrow> LogLevel \<Rightarrow> bool" where
  "ShouldLog l type level =
     (if level < lowestLogLevel l then False
      else case GetLoggerByType l type of
             None \<Rightarrow> False
           | Some lg \<Rightarrow> lg_level lg \<noteq> LOG_LEVEL_DISABLED \<and> lg_level lg \<le> level)"

definition Logger_write :: "Log \<Rightarrow> LogMessage \<Rightarrow> Logger \<Rightarrow> (u8 \<times> string \<times> string) list" where
  "Logger_write l m lg =
     (if lg_level lg = 0 \<or> lg_level lg > msg_level m \<or> msg_text m = [] then []
      else concat (map (\<lambda>i. case map_of (appenders l) i of None \<Rightarrow> [] | Some a \<Rightarrow> Appender_write m a) (lg_appenders lg)))"

text \<open>\<^verbatim>\<open>Log::write\<close>; \<^term>\<open>None\<close> is the use of a null logger.\<close>

definition Log_write :: "Log \<Rightarrow> LogMessage \<Rightarrow> (u8 \<times> string \<times> string) list option" where
  "Log_write l m = map_option (Logger_write l m) (GetLoggerByType l (msg_type m))"

text \<open>The logging macros: a message is only formatted and written when it should be logged.\<close>

definition log_message :: "Log \<Rightarrow> LogMessage \<Rightarrow> (u8 \<times> string \<times> string) list option" where
  "log_message l m = (if ShouldLog l (msg_type m) (msg_level m) then Log_write l m else Some [])"

text \<open>The first logger or appender with the name; a negative level is refused.\<close>

definition SetLogLevel :: "string \<Rightarrow> string \<Rightarrow> bool \<Rightarrow> Log \<Rightarrow> bool \<times> Log" where
  "SetLogLevel name newLevelc isLogger l =
     (let newLevel = atoi newLevelc
      in if newLevel < 0 then (False, l)
         else if isLogger then
           (case find (\<lambda>(k, lg). lg_name lg = name) (loggers l) of
              None \<Rightarrow> (False, l)
            | Some (k, lg) \<Rightarrow>
                (let l1 = l\<lparr>loggers := AList.update k (lg\<lparr>lg_level := newLevel\<rparr>) (loggers l)\<rparr>
                 in (True, if newLevel \<noteq> LOG_LEVEL_DISABLED \<and> newLevel < lowestLogLevel l1
                           then l1\<lparr>lowestLogLevel := newLevel\<rparr> else l1)))
         else
           (case GetAppenderByName name l of
              None \<Rightarrow> (False, l)
            | Some a \<Rightarrow> (True, l\<lparr>appenders := AList.update (ap_id a) (a\<lparr>ap_level := newLevel\<rparr>) (appenders l)\<rparr>)))"

section \<open>Which logger takes a message\<close>

definition dotted :: "string \<Rightarrow> string \<Rightarrow> bool" where
  "dotted n t \<longleftrightarrow> t = n \<or> (\<exists>r. t = n @ CHR ''.'' # r)"

definition has_logger :: "Log \<Rightarrow> string \<Rightarrow> bool" where
  "has_logger l n \<longleftrightarrow> map_of (loggers l) n \<noteq> None"

lemma last_dot:
  assumes "find_last (\<lambda>c. c = CHR ''.'') t = Some i"
  shows "t = take i t @ CHR ''.'' # drop (Suc i) t" "CHR ''.'' \<notin> set (drop (Suc i) t)"
proof -
  obtain k where k: "find_first (\<lambda>c. c = CHR ''.'') (rev t) = Some k" "i = length t - Suc k"
    using assms by (auto simp: find_last_def)
  have first: "k < length t" "rev t ! k = CHR ''.''" "\<And>j. j < k \<Longrightarrow> rev t ! j \<noteq> CHR ''.''"
    using find_first_SomeD [OF k(1)] by auto
  have "t ! j \<noteq> CHR ''.''" if "i < j" "j < length t" for j
    using first(3) [of "length t - Suc j"] that k(2) by (simp add: rev_nth)
  then have i: "i < length t" "t ! i = CHR ''.''" "\<forall>j. i < j \<longrightarrow> j < length t \<longrightarrow> t ! j \<noteq> CHR ''.''"
    using first(1,2) k(2) by (auto simp: rev_nth)
  show "t = take i t @ CHR ''.'' # drop (Suc i) t" using i id_take_nth_drop [of i t] by simp
  show "CHR ''.'' \<notin> set (drop (Suc i) t)" using i(3) by (auto simp: in_set_conv_nth)
qed

lemma no_dot: "find_last (\<lambda>c. c = CHR ''.'') t = None \<Longrightarrow> CHR ''.'' \<notin> set t"
  by (auto simp: find_last_def find_first_None split: option.splits)

lemma dotted_parent:
  assumes "n \<noteq> t"
  shows "dotted n t \<longleftrightarrow> (\<exists>i. find_last (\<lambda>c. c = CHR ''.'') t = Some i \<and> dotted n (take i t))"
proof (cases "find_last (\<lambda>c. c = CHR ''.'') t")
  case None
  then show ?thesis using no_dot [OF None] assms by (auto simp: dotted_def)
next
  case (Some i)
  define p r where "p = take i t" and "r = drop (Suc i) t"
  have t: "t = p @ CHR ''.'' # r" and r: "CHR ''.'' \<notin> set r" using last_dot [OF Some] by (simp_all add: p_def r_def)
  have "dotted n t \<longleftrightarrow> dotted n p"
  proof
    assume "dotted n t"
    then obtain q where "n @ CHR ''.'' # q = p @ CHR ''.'' # r" using assms t by (auto simp: dotted_def)
    then show "dotted n p" using r by (auto simp: dotted_def append_eq_append_conv2 Cons_eq_append_conv append_eq_Cons_conv)
  next
    assume "dotted n p"
    then show "dotted n t" by (auto simp: dotted_def t)
  qed
  then show ?thesis using Some by (simp add: p_def)
qed

declare GetLoggerByType.simps [simp del]

definition nearest :: "Log \<Rightarrow> string \<Rightarrow> string \<Rightarrow> bool" where
  "nearest l t n \<longleftrightarrow> has_logger l n
     \<and> (if \<exists>k. dotted k t \<and> has_logger l k
        then dotted n t \<and> (\<forall>k. dotted k t \<and> has_logger l k \<longrightarrow> length k \<le> length n) else n = LOGGER_ROOT)"

lemma dotted_refl: "dotted t t" by (simp add: dotted_def)

lemma dotted_length: "dotted n t \<Longrightarrow> length n \<le> length t" by (auto simp: dotted_def)

lemma dotted_root: "dotted n LOGGER_ROOT \<Longrightarrow> n = LOGGER_ROOT"
proof -
  have "CHR ''.'' \<notin> set LOGGER_ROOT" by (simp add: LOGGER_ROOT_def)
  then show "dotted n LOGGER_ROOT \<Longrightarrow> n = LOGGER_ROOT" by (metis dotted_def in_set_conv_decomp)
qed

lemma nearest_exists:
  assumes "has_logger l LOGGER_ROOT"
  shows "\<exists>n. nearest l t n \<and> GetLoggerByType l t = map_of (loggers l) n"
  using assms
proof (induction l t rule: GetLoggerByType.induct)
  case (1 l t)
  show ?case
  proof (cases "map_of (loggers l) t")
    case (Some lg)
    then have "nearest l t t" using dotted_refl dotted_length by (auto simp: nearest_def has_logger_def)
    then show ?thesis using Some by (intro exI [of _ t]) (simp add: GetLoggerByType.simps [of l t])
  next
    case None
    have ne: "t \<noteq> LOGGER_ROOT" using None 1(2) by (auto simp: has_logger_def)
    have step: "GetLoggerByType l t = GetLoggerByType l (parent_of t)" using None ne by (simp add: GetLoggerByType.simps [of l t])
    obtain n where n: "nearest l (parent_of t) n" "GetLoggerByType l (parent_of t) = map_of (loggers l) n"
      using 1(1) [OF None ne 1(2)] by blast
    have own: "\<not> has_logger l t" using None by (simp add: has_logger_def)
    have "nearest l t n"
    proof (cases "find_last (\<lambda>c. c = CHR ''.'') t")
      case (Some i)
      have "dotted k t \<and> has_logger l k \<longleftrightarrow> dotted k (parent_of t) \<and> has_logger l k" for k
        using dotted_parent [of k t] Some own by (cases "k = t") (auto simp: parent_of_def dotted_def dest: dotted_length)
      then show ?thesis using n(1) unfolding nearest_def by metis
    next
      case n': None
      have "\<not> (dotted k t \<and> has_logger l k)" for k using dotted_parent [of k t] n' own by auto
      moreover have "parent_of t = LOGGER_ROOT" using n' by (simp add: parent_of_def)
      then have "n = LOGGER_ROOT" using n(1) dotted_root unfolding nearest_def by metis
      ultimately show ?thesis using 1(2) unfolding nearest_def by metis
    qed
    then show ?thesis using n(2) step by auto
  qed
qed

section \<open>Loading and changing levels\<close>

definition two_fields :: "string \<Rightarrow> bool" where
  "two_fields options \<longleftrightarrow> options \<noteq> [] \<and> (case Tokenizer options CHR '','' True of None \<Rightarrow> False | Some ts \<Rightarrow> length ts = 2)"

text \<open>A configuration that makes a root logger.\<close>

definition configured :: "log_config \<Rightarrow> bool" where
  "configured cfg \<longleftrightarrow> ''Logger.root'' \<in> fst ` set cfg \<and> two_fields (GetStringDefault cfg ''Logger.root'' [])"

definition lowest_ok :: "Log \<Rightarrow> bool" where
  "lowest_ok l \<longleftrightarrow> (\<forall>k lg. map_of (loggers l) k = Some lg \<and> lg_level lg \<noteq> LOG_LEVEL_DISABLED \<longrightarrow> lowestLogLevel l \<le> lg_level lg)"

lemma appender_keeps:
  "loggers (CreateAppenderFromConfig cfg k l) = loggers l \<and> lowestLogLevel (CreateAppenderFromConfig cfg k l) = lowestLogLevel l"
  by (auto simp: CreateAppenderFromConfig_def NextAppenderId_def Let_def split: option.splits)

lemma appenders_keep:
  "loggers (fold (CreateAppenderFromConfig cfg) ks l) = loggers l \<and> lowestLogLevel (fold (CreateAppenderFromConfig cfg) ks l) = lowestLogLevel l"
  by (induction ks arbitrary: l) (simp_all add: appender_keeps)

lemma add_named_level: "lg_level (fold (add_named l) ws lg) = lg_level lg"
proof (induction ws arbitrary: lg)
  case (Cons w ws)
  have "lg_level (add_named l w lg) = lg_level lg" by (simp add: add_named_def addAppender_def split: option.splits)
  then show ?case using Cons by simp
qed simp

lemma map_of_update: "map_of (AList.update k v xs) k' = (if k' = k then Some v else map_of xs k')"
  by (simp add: update_conv')

lemma update_fun: "map_of (AList.update k v xs) = (map_of xs)(k \<mapsto> v)"
  by (rule ext) (simp add: map_of_update)

lemma put_logger_simps [simp]:
  "map_of (loggers (put_logger n lg l)) = (map_of (loggers l))(n \<mapsto> lg)" "lowestLogLevel (put_logger n lg l) = lowestLogLevel l"
  "loggers (lower_level v l) = loggers l" "lowestLogLevel (lower_level v l) = min v (lowestLogLevel l)"
  by (simp_all add: put_logger_def lower_level_def update_fun min_def)

lemma configure_names: "has_logger (configure_logger name ts l) n \<longleftrightarrow> has_logger l n \<or> n = name"
  by (simp add: configure_logger_def has_logger_def Let_def)

lemma create_logger_eq:
  "CreateLoggerFromConfig cfg k l =
     (if k \<noteq> [] \<and> two_fields (GetStringDefault cfg k [])
      then configure_logger (drop 7 k) (the (Tokenizer (GetStringDefault cfg k []) CHR '','' True)) l else l)"
  by (simp add: CreateLoggerFromConfig_def two_fields_def Let_def split: option.split)

lemma create_logger_names:
  "has_logger (CreateLoggerFromConfig cfg k l) n \<longleftrightarrow> has_logger l n \<or> (k \<noteq> [] \<and> n = drop 7 k \<and> two_fields (GetStringDefault cfg k []))"
  by (auto simp: create_logger_eq configure_names)

lemma create_loggers_names:
  "[] \<notin> set ks \<Longrightarrow> has_logger (fold (CreateLoggerFromConfig cfg) ks l) n
     \<longleftrightarrow> has_logger l n \<or> (\<exists>k\<in>set ks. n = drop 7 k \<and> two_fields (GetStringDefault cfg k []))"
  by (induction ks arbitrary: l) (auto simp: create_logger_names)

lemma lowest_okI:
  assumes "lowest_ok l" "map_of (loggers l') = (map_of (loggers l))(k \<mapsto> lg)" "lowestLogLevel l' \<le> lowestLogLevel l"
    "lg_level lg \<noteq> LOG_LEVEL_DISABLED \<Longrightarrow> lowestLogLevel l' \<le> lg_level lg"
  shows "lowest_ok l'"
  using assms unfolding lowest_ok_def by (auto simp: fun_upd_def split: if_splits) (meson order.trans)

lemma configure_lowest:
  assumes ok: "lowest_ok l"
  shows "lowest_ok (configure_logger name ts l)"
proof -
  let ?lg = "logger_entry name l" and ?v = "atoi (ts ! 0)"
  have l1: "lowest_ok (put_logger name ?lg l)"
  proof (rule lowest_okI [OF ok, of _ name ?lg])
    show "lg_level ?lg \<noteq> LOG_LEVEL_DISABLED \<Longrightarrow> lowestLogLevel (put_logger name ?lg l) \<le> lg_level ?lg"
      using ok by (auto simp: logger_entry_def default_Logger_def lowest_ok_def split: option.splits)
  qed simp_all
  have "lowest_ok (put_logger name (fold (add_named x) ws (Logger_Create name ?v ?lg)) (lower_level ?v (put_logger name ?lg l)))" for x ws
    by (rule lowest_okI [OF l1, of _ name "fold (add_named x) ws (Logger_Create name ?v ?lg)"])
      (simp_all add: add_named_level Logger_Create_def)
  then show ?thesis using l1 by (simp add: configure_logger_def Let_def)
qed

lemma create_loggers_lowest: "lowest_ok l \<Longrightarrow> lowest_ok (fold (CreateLoggerFromConfig cfg) ks l)"
  by (induction ks arbitrary: l) (simp_all add: create_logger_eq configure_lowest)

text \<open>
  The states of the log: after loading a configuration, and after changes of levels.  The flag tells
  whether the configuration made a root logger.
\<close>

inductive log_reach :: "bool \<Rightarrow> Log \<Rightarrow> bool" where
  load: "log_reach (configured cfg) (LoadFromConfig cfg l)"
| change: "log_reach c l \<Longrightarrow> log_reach c (snd (SetLogLevel name v isLogger l))"

lemma root_key: "k \<in> set (ConfigMgr_GetKeysByString cfg ''Logger.'') \<and> drop 7 k = LOGGER_ROOT \<longleftrightarrow> k = ''Logger.root'' \<and> k \<in> fst ` set cfg"
proof -
  have "take 7 k = ''Logger.'' \<Longrightarrow> drop 7 k = LOGGER_ROOT \<Longrightarrow> k = ''Logger.root''"
    using append_take_drop_id [of 7 k] by (simp add: LOGGER_ROOT_def)
  then show ?thesis by (auto simp: ConfigMgr_GetKeysByString_def LOGGER_ROOT_def numeral_eq_Suc)
qed

lemma keys_not_empty: "[] \<notin> set (ConfigMgr_GetKeysByString cfg ''Logger.'')"
  by (simp add: ConfigMgr_GetKeysByString_def)

lemma load_configured:
  assumes "loggers l = []"
  shows "has_logger (fold (CreateLoggerFromConfig cfg) (ConfigMgr_GetKeysByString cfg ''Logger.'') l) LOGGER_ROOT \<longleftrightarrow> configured cfg"
proof -
  have "has_logger (fold (CreateLoggerFromConfig cfg) (ConfigMgr_GetKeysByString cfg ''Logger.'') l) LOGGER_ROOT
      \<longleftrightarrow> (\<exists>k\<in>set (ConfigMgr_GetKeysByString cfg ''Logger.''). LOGGER_ROOT = drop 7 k \<and> two_fields (GetStringDefault cfg k []))"
    unfolding create_loggers_names [OF keys_not_empty] using assms by (simp add: has_logger_def)
  also have "\<dots> \<longleftrightarrow> configured cfg" unfolding configured_def using root_key [of _ cfg] by metis
  finally show ?thesis .
qed

lemma default_root: "has_logger (default_config l) LOGGER_ROOT"
  by (simp add: default_config_def has_logger_def NextAppenderId_def map_of_update)

lemma load_facts:
  "has_logger (LoadFromConfig cfg l) LOGGER_ROOT" "configured cfg \<Longrightarrow> lowest_ok (LoadFromConfig cfg l)"
proof -
  define l2 where "l2 = (let l1 = (Close l)\<lparr>lowestLogLevel := LOG_LEVEL_FATAL, AppenderId := 0\<rparr>;
          dir = GetStringDefault cfg ''LogsDir'' []
      in l1\<lparr>logsDir := (if dir \<noteq> [] \<and> last dir \<noteq> CHR ''/'' \<and> last dir \<noteq> CHR 0x5C then dir @ ''/'' else dir)\<rparr>)"
  define l3 where "l3 = ReadAppendersFromConfig cfg l2"
  define l4 where "l4 = fold (CreateLoggerFromConfig cfg) (ConfigMgr_GetKeysByString cfg ''Logger.'') l3"
  have e: "LoadFromConfig cfg l = (if has_logger l4 LOGGER_ROOT then l4 else default_config l4)"
    by (simp add: LoadFromConfig_def ReadLoggersFromConfig_def Let_def has_logger_def l2_def l3_def l4_def)
  have n: "loggers l3 = []"
    using appenders_keep [of cfg _ l2] by (simp add: l3_def ReadAppendersFromConfig_def) (simp add: l2_def Let_def Close_def)
  show "has_logger (LoadFromConfig cfg l) LOGGER_ROOT" using e default_root by simp
  have "lowest_ok l4" unfolding l4_def by (rule create_loggers_lowest) (simp add: lowest_ok_def n)
  then show "configured cfg \<Longrightarrow> lowest_ok (LoadFromConfig cfg l)"
    using e load_configured [OF n, of cfg] by (simp add: l4_def)
qed

lemma set_level_shape:
  fixes name v b l
  defines "l' \<equiv> snd (SetLogLevel name v b l)"
  shows "(loggers l' = loggers l \<and> lowestLogLevel l' = lowestLogLevel l)
    \<or> (\<exists>k lg. map_of (loggers l') = (map_of (loggers l))(k \<mapsto> lg) \<and> lowestLogLevel l' \<le> lowestLogLevel l
         \<and> (lg_level lg \<noteq> LOG_LEVEL_DISABLED \<longrightarrow> lowestLogLevel l' \<le> lg_level lg))"
proof (cases "atoi v \<ge> 0 \<and> b \<and> find (\<lambda>(k, lg). lg_name lg = name) (loggers l) \<noteq> None")
  case False
  then have "loggers l' = loggers l \<and> lowestLogLevel l' = lowestLogLevel l"
    unfolding l'_def SetLogLevel_def by (auto simp: Let_def split: option.splits)
  then show ?thesis ..
next
  case True
  then obtain k lg where f: "find (\<lambda>(k, lg). lg_name lg = name) (loggers l) = Some (k, lg)" by auto
  define lg' where "lg' = lg\<lparr>lg_level := atoi v\<rparr>"
  have "l' = (if atoi v \<noteq> LOG_LEVEL_DISABLED then lower_level (atoi v) (put_logger k lg' l) else put_logger k lg' l)"
    using True f unfolding l'_def SetLogLevel_def by (simp add: Let_def put_logger_def lower_level_def lg'_def)
  then have "map_of (loggers l') = (map_of (loggers l))(k \<mapsto> lg')" "lowestLogLevel l' \<le> lowestLogLevel l"
    "lg_level lg' \<noteq> LOG_LEVEL_DISABLED \<longrightarrow> lowestLogLevel l' \<le> lg_level lg'" by (simp_all add: lg'_def)
  then show ?thesis by blast
qed

lemma set_level_facts:
  "has_logger l n \<Longrightarrow> has_logger (snd (SetLogLevel name v b l)) n" "lowest_ok l \<Longrightarrow> lowest_ok (snd (SetLogLevel name v b l))"
  using set_level_shape [of name v b l] lowest_okI [of l "snd (SetLogLevel name v b l)"]
  by (auto simp: has_logger_def lowest_ok_def split: if_splits)

lemma log_reach_facts: "log_reach c l \<Longrightarrow> has_logger l LOGGER_ROOT \<and> (c \<longrightarrow> lowest_ok l)"
  by (induction rule: log_reach.induct) (simp_all add: load_facts set_level_facts)

section \<open>Correctness\<close>



text \<open>
  Claim C20.  The quick test against the lowest level of all loggers loses nothing when the
  configuration makes a root logger, also after changes of levels: a message should be logged exactly
  when its logger is enabled for its level, and the logging macros output exactly what an unconditional
  write would.
\<close>

theorem log_quick_test:
  assumes "log_reach True l"
  shows "ShouldLog l t level = (\<exists>lg. GetLoggerByType l t = Some lg \<and> lg_level lg \<noteq> LOG_LEVEL_DISABLED \<and> lg_level lg \<le> level)
    \<and> log_message l m = Log_write l m"
proof -
  have ok: "lowest_ok l" and root: "has_logger l LOGGER_ROOT" using log_reach_facts [OF assms] by simp_all
  have should: "ShouldLog l t level = (\<exists>lg. GetLoggerByType l t = Some lg \<and> lg_level lg \<noteq> LOG_LEVEL_DISABLED \<and> lg_level lg \<le> level)" for t level
  proof -
    obtain n where n: "GetLoggerByType l t = map_of (loggers l) n" using nearest_exists [OF root] by blast
    have "lowestLogLevel l \<le> lg_level lg" if "GetLoggerByType l t = Some lg" "lg_level lg \<noteq> LOG_LEVEL_DISABLED" for lg
      using ok that n by (auto simp: lowest_ok_def)
    then show ?thesis unfolding ShouldLog_def by (auto split: option.splits)
  qed
  obtain lg where lg: "GetLoggerByType l (msg_type m) = Some lg"
    using nearest_exists [OF root, of "msg_type m"] by (auto simp: nearest_def has_logger_def)
  show ?thesis using should [of t level] should [of "msg_type m" "msg_level m"] lg
    by (auto simp: log_message_def Log_write_def Logger_write_def LOG_LEVEL_DISABLED_def)
qed

definition sample_log_config :: log_config where
  "sample_log_config = [(''Appender.Console'', ''1,2,0''), (''Logger.root'', ''5,Console''), (''Logger.server'', ''3,Console'')]"

theorem log_quick_test_witness:
  "\<forall>t level. ShouldLog (LoadFromConfig sample_log_config empty_Log) t level
     = (\<exists>lg. GetLoggerByType (LoadFromConfig sample_log_config empty_Log) t = Some lg
          \<and> lg_level lg \<noteq> LOG_LEVEL_DISABLED \<and> lg_level lg \<le> level)"
proof -
  have "configured sample_log_config"
    by (simp add: configured_def sample_log_config_def two_fields_def GetStringDefault_def Tokenizer_def)
  then have "log_reach True (LoadFromConfig sample_log_config empty_Log)" using log_reach.load by metis
  then show ?thesis using log_quick_test by blast
qed

text \<open>
  Without any logger in the configuration the default ones are made, root for errors and
  server for information; but the lowest level stays at fatal, so that nothing below it is logged,
  although every message finds an enabled logger for errors.
\<close>

theorem log_default_silent:
  assumes "ConfigMgr_GetKeysByString cfg ''Logger.'' = []"
  shows "\<exists>lg. GetLoggerByType (LoadFromConfig cfg l) t = Some lg \<and> lg_level lg \<in> {LOG_LEVEL_INFO, LOG_LEVEL_ERROR}
    \<and> ShouldLog (LoadFromConfig cfg l) t level = (LOG_LEVEL_FATAL \<le> level)"
proof -
  let ?l = "LoadFromConfig cfg l"
  obtain l2 where l2: "?l = default_config (ReadAppendersFromConfig cfg l2)" "loggers l2 = []" "lowestLogLevel l2 = LOG_LEVEL_FATAL"
  proof -
    define l1 where "l1 = (Close l)\<lparr>lowestLogLevel := LOG_LEVEL_FATAL, AppenderId := 0\<rparr>"
    define dir where "dir = GetStringDefault cfg ''LogsDir'' []"
    define l2 where "l2 = l1\<lparr>logsDir := (if dir \<noteq> [] \<and> last dir \<noteq> CHR ''/'' \<and> last dir \<noteq> CHR 0x5C then dir @ ''/'' else dir)\<rparr>"
    have "loggers l2 = []" "lowestLogLevel l2 = LOG_LEVEL_FATAL" by (simp_all add: l2_def l1_def Close_def)
    moreover have "loggers (ReadAppendersFromConfig cfg l2) = []"
      using appenders_keep [of cfg _ l2] calculation by (simp add: ReadAppendersFromConfig_def)
    moreover have "?l = ReadLoggersFromConfig cfg (ReadAppendersFromConfig cfg l2)"
      by (simp add: LoadFromConfig_def Let_def l2_def l1_def dir_def)
    ultimately show ?thesis using that assms by (simp add: ReadLoggersFromConfig_def)
  qed
  have low: "lowestLogLevel ?l = LOG_LEVEL_FATAL"
    using l2 appenders_keep [of cfg _ l2] by (simp add: default_config_def NextAppenderId_def Close_def ReadAppendersFromConfig_def)
  have levels: "lg_level lg \<in> {LOG_LEVEL_INFO, LOG_LEVEL_ERROR}" if "map_of (loggers ?l) n = Some lg" for n lg
    using that l2(1) by (auto simp: default_config_def NextAppenderId_def Close_def map_of_update addAppender_def Logger_Create_def default_Logger_def split: if_splits)
  obtain n where n: "nearest ?l t n" "GetLoggerByType ?l t = map_of (loggers ?l) n"
    using nearest_exists [OF load_facts(1)] by blast
  then obtain lg where lg: "map_of (loggers ?l) n = Some lg" by (auto simp: nearest_def has_logger_def)
  then show ?thesis using n low levels [OF lg] by (auto simp: ShouldLog_def log_levels)
qed

theorem log_default_silent_witness: "\<not> ShouldLog (LoadFromConfig [] empty_Log) ''server'' LOG_LEVEL_ERROR"
  using log_default_silent [of "[]" empty_Log "''server''" LOG_LEVEL_ERROR] by (auto simp: ConfigMgr_GetKeysByString_def log_levels)

text \<open>A logger with a level out of range leaves a disabled entry, which hides the loggers above it.\<close>

theorem bad_level_hides_parent:
  assumes "map_of (loggers l) name = None" "LOG_LEVEL_FATAL < atoi (ts ! 0)"
  shows "GetLoggerByType (configure_logger name ts l) name = Some default_Logger
    \<and> \<not> ShouldLog (configure_logger name ts l) name level"
  using assms
  by (simp add: configure_logger_def logger_entry_def Let_def default_Logger_def ShouldLog_def GetLoggerByType.simps [of _ name])

end
