(* ===== verification/Log_File.thy ===== *)
theory Log_File
  imports Log_System "HOL-Library.Sublist"
begin

unbundle bit_operations_syntax

text \<open>
  The appender that writes to files, \<^verbatim>\<open>AppenderFile\<close>: the names of the files, the limit on their size and
  the backups.  The file system is a map from names to contents; whether a file can be opened and renamed,
  the time stamp and what \<^verbatim>\<open>ftell\<close> reports for a file opened to append are arguments.
\<close>

section \<open>State\<close>

type_synonym files = "string \<Rightarrow> string option"

text \<open>\<open>logfile\<close> is the name of the open file.\<close>

record AppenderFile =
  logfile :: "string option"
  fileName :: string
  logDir :: string
  dynamicName :: bool
  backup :: bool
  maxFileSize :: u64
  fileSize :: u64

record file_env =
  can_open :: "string \<Rightarrow> bool"
  can_rename :: "string \<Rightarrow> bool"
  tell_append :: "nat \<Rightarrow> u64"

datatype open_mode = Append | Truncate

record file_message =
  fm_prefix :: string
  fm_text :: string
  fm_param1 :: string

definition message_Size :: "file_message \<Rightarrow> u32" where
  "message_Size m = of_nat (length (fm_prefix m) + length (fm_text m))"

definition message_line :: "file_message \<Rightarrow> string" where
  "message_line m = c_str (fm_prefix m) @ c_str (fm_text m) @ [CHR 0x0A]"

section \<open>Operations\<close>

definition CloseFile :: "AppenderFile \<Rightarrow> AppenderFile" where
  "CloseFile a = a\<lparr>logfile := None\<rparr>"

text \<open>Every colon of the new name is replaced, also those of the directory.\<close>

definition backup_name :: "string \<Rightarrow> string \<Rightarrow> string" where
  "backup_name fullName stamp = map (\<lambda>c. if c = CHR '':'' then CHR ''-'' else c) (fullName @ ''.'' @ stamp)"

definition rename_file :: "file_env \<Rightarrow> string \<Rightarrow> string \<Rightarrow> files \<Rightarrow> files" where
  "rename_file e old new fs =
     (case fs old of
        None \<Rightarrow> fs
      | Some c \<Rightarrow> if can_rename e old then (fs(old := None))(new \<mapsto> c) else fs)"

definition file_contents :: "files \<Rightarrow> string \<Rightarrow> string" where
  "file_contents fs f = (case fs f of None \<Rightarrow> [] | Some c \<Rightarrow> c)"

text \<open>The result is the name of the opened file.\<close>

definition OpenFile ::
  "file_env \<Rightarrow> string \<Rightarrow> string \<Rightarrow> open_mode \<Rightarrow> bool \<Rightarrow> AppenderFile \<times> files \<Rightarrow> string option \<times> AppenderFile \<times> files" where
  "OpenFile e stamp filename mode bak af =
     (let fullName = logDir (fst af) @ filename;
          (a, fs) = (if bak then (CloseFile (fst af), rename_file e fullName (backup_name fullName stamp) (snd af)) else af)
      in if can_open e fullName then
           let c = (case mode of Append \<Rightarrow> file_contents fs fullName | Truncate \<Rightarrow> [])
           in (Some fullName, a\<lparr>fileSize := (case mode of Append \<Rightarrow> tell_append e (length c) | Truncate \<Rightarrow> 0)\<rparr>, fs(fullName \<mapsto> c))
         else (None, a, fs))"

text \<open>The characters \<^verbatim>\<open>%s\<close> of the format stand for the parameter, once; any other directive is undefined.\<close>

fun format_name :: "string \<Rightarrow> string option \<Rightarrow> string option" where
  "format_name [] p = Some []"
| "format_name (CHR ''%'' # c # cs) p =
     (if c = CHR ''%'' then map_option ((#) CHR ''%'') (format_name cs p)
      else if c = CHR ''s'' then (case p of None \<Rightarrow> None | Some s \<Rightarrow> map_option ((@) s) (format_name cs None)) else None)"
| "format_name (c # cs) p = (if c = CHR ''%'' then None else map_option ((#) c) (format_name cs p))"

definition has_directive :: "string \<Rightarrow> bool" where
  "has_directive s \<longleftrightarrow> strstr s ''%s'' \<noteq> None"

definition insert_stamp :: "string \<Rightarrow> string \<Rightarrow> string" where
  "insert_stamp stamp0 f =
     (case find_last (\<lambda>c. c = CHR ''.'') f of None \<Rightarrow> f @ stamp0 | Some i \<Rightarrow> take i f @ stamp0 @ drop i f)"

text \<open>
  Making an appender.  \<open>args\<close> are the extra arguments: name, mode and limit.  Without a name the constructor
  throws; modes other than those the appender's own code uses are outside the model.
\<close>

datatype appender_error = Missing_file_name | Other_mode

definition new_AppenderFile ::
  "file_env \<Rightarrow> string \<Rightarrow> string \<Rightarrow> string \<Rightarrow> u8 \<Rightarrow> string list \<Rightarrow> files \<Rightarrow> appender_error + AppenderFile \<times> files" where
  "new_AppenderFile e stamp stamp0 dir flags args fs =
     (if args = [] then Inl Missing_file_name
      else let mode = (if 1 < length args then args ! 1 else ''a'');
               f = (if flags AND 0x08 \<noteq> 0 then insert_stamp stamp0 (args ! 0) else args ! 0);
               a = \<lparr>logfile = None, fileName = f, logDir = dir, dynamicName = has_directive f, backup = flags AND 0x10 \<noteq> 0,
                    maxFileSize = (if 2 < length args then word_of_int (atoi (args ! 2)) else 0), fileSize = 0\<rparr>
           in if dynamicName a then Inr (a, fs)
              else if mode = ''a'' \<or> mode = ''w'' then
                let (l, a', fs') = OpenFile e stamp f (if mode = ''w'' then Truncate else Append) (mode = ''w'' \<and> backup a) (a, fs)
                in Inr (a'\<lparr>logfile := l\<rparr>, fs')
              else Inl Other_mode)"

definition append_line :: "string \<Rightarrow> file_message \<Rightarrow> files \<Rightarrow> files" where
  "append_line f m fs = fs(f \<mapsto> file_contents fs f @ message_line m)"

definition exceeds :: "AppenderFile \<Rightarrow> file_message \<Rightarrow> bool" where
  "exceeds a m \<longleftrightarrow> 0 < maxFileSize a \<and> fileSize a + ucast (message_Size m) > maxFileSize a"

text \<open>\<open>path_max\<close> is the size of the buffer for the name.\<close>

definition File_write :: "file_env \<Rightarrow> nat \<Rightarrow> string \<Rightarrow> file_message \<Rightarrow> AppenderFile \<times> files \<Rightarrow> (AppenderFile \<times> files) option" where
  "File_write e path_max stamp m af =
     (let a = fst af; fs = snd af; exceedMaxSize = exceeds a m
      in if dynamicName a then
           (case format_name (c_str (fileName a)) (Some (c_str (fm_param1 m))) of
              None \<Rightarrow> None
            | Some namebuf \<Rightarrow>
                (case OpenFile e stamp (take (path_max - 1) namebuf) Append (backup a \<or> exceedMaxSize) af of
                   (None, a', fs') \<Rightarrow> Some (a', fs')
                 | (Some f, a', fs') \<Rightarrow> Some (a'\<lparr>fileSize := fileSize a' + ucast (message_Size m)\<rparr>, append_line f m fs')))
         else
           (let (a1, fs1) = (if exceedMaxSize then let (l, a', fs') = OpenFile e stamp (fileName a) Truncate True af in (a'\<lparr>logfile := l\<rparr>, fs')
                             else af)
            in case logfile a1 of
                 None \<Rightarrow> Some (a1, fs1)
               | Some f \<Rightarrow> Some (a1\<lparr>fileSize := fileSize a1 + ucast (message_Size m)\<rparr>, append_line f m fs1)))"

section \<open>Rotation\<close>

definition full_name :: "AppenderFile \<Rightarrow> string" where
  "full_name a = logDir a @ fileName a"

text \<open>An appender with a fixed name whose file is open and can be opened and renamed again.\<close>

definition ready :: "file_env \<Rightarrow> AppenderFile \<Rightarrow> files \<Rightarrow> bool" where
  "ready e a fs \<longleftrightarrow> \<not> dynamicName a \<and> logfile a = Some (full_name a) \<and> fs (full_name a) \<noteq> None
     \<and> can_open e (full_name a) \<and> can_rename e (full_name a)"

lemma backup_name_neq: "backup_name f s \<noteq> f"
  using arg_cong [of "backup_name f s" f length] by (auto simp: backup_name_def)

lemma new_AppenderFile_ready:
  assumes "new_AppenderFile e stamp stamp0 dir flags args fs = Inr (a, fs')" "\<not> dynamicName a"
    "can_open e (full_name a)" "can_rename e (full_name a)"
  shows "ready e a fs'"
  using assms
  by (auto simp: new_AppenderFile_def OpenFile_def ready_def full_name_def CloseFile_def Let_def split: if_splits)

lemma write_ready:
  assumes "ready e a fs"
  shows "\<exists>a' fs'. File_write e pm stamp m (a, fs) = Some (a', fs') \<and> ready e a' fs' \<and> full_name a' = full_name a
    \<and> maxFileSize a' = maxFileSize a
    \<and> (if exceeds a m
       then fs' = fs(backup_name (full_name a) stamp \<mapsto> file_contents fs (full_name a), full_name a \<mapsto> message_line m) \<and> fileSize a' = ucast (message_Size m)
       else fs' = fs(full_name a \<mapsto> file_contents fs (full_name a) @ message_line m) \<and> fileSize a' = fileSize a + ucast (message_Size m))"
proof -
  have "fs (full_name a) \<noteq> None" using assms by (simp add: ready_def)
  then obtain c where c: "fs (full_name a) = Some c" by blast
  have fn: "logDir a @ fileName a = full_name a" by (simp add: full_name_def)
  show ?thesis
  proof (cases "exceeds a m")
    case True
    let ?F = "full_name a"
    let ?fs = "((fs(?F := None))(backup_name ?F stamp \<mapsto> c))(?F \<mapsto> message_line m)"
    have "?fs = fs(backup_name ?F stamp \<mapsto> c, ?F \<mapsto> message_line m)" using backup_name_neq [of ?F stamp] by (auto simp: fun_eq_iff)
    moreover have "File_write e pm stamp m (a, fs) = Some (a\<lparr>logfile := Some ?F, fileSize := ucast (message_Size m)\<rparr>, ?fs)"
      using True assms c fn backup_name_neq [of ?F stamp]
      by (simp add: File_write_def OpenFile_def ready_def CloseFile_def rename_file_def append_line_def file_contents_def Let_def)
    moreover have "ready e (a\<lparr>logfile := Some ?F, fileSize := ucast (message_Size m)\<rparr>) ?fs"
      using assms by (simp add: ready_def full_name_def)
    ultimately show ?thesis using True c
      by (intro exI [of _ "a\<lparr>logfile := Some ?F, fileSize := ucast (message_Size m)\<rparr>"] exI [of _ ?fs]) (simp add: full_name_def file_contents_def)
  next
    case False
    let ?a = "a\<lparr>fileSize := fileSize a + ucast (message_Size m)\<rparr>" and ?fs = "fs(full_name a \<mapsto> c @ message_line m)"
    have "File_write e pm stamp m (a, fs) = Some (?a, ?fs)"
      using False assms c by (simp add: File_write_def ready_def append_line_def file_contents_def Let_def)
    moreover have "ready e ?a ?fs" using assms by (simp add: ready_def full_name_def)
    ultimately show ?thesis using False c by (intro exI [of _ ?a] exI [of _ ?fs]) (simp add: full_name_def file_contents_def)
  qed
qed

fun write_messages :: "file_env \<Rightarrow> nat \<Rightarrow> (string \<times> file_message) list \<Rightarrow> AppenderFile \<times> files \<Rightarrow> (AppenderFile \<times> files) option" where
  "write_messages e pm [] af = Some af"
| "write_messages e pm ((stamp, m) # ms) af = Option.bind (File_write e pm stamp m af) (write_messages e pm ms)"

lemma write_messages_spec:
  assumes "ready e a fs" "distinct (map (\<lambda>(s, m). backup_name (full_name a) s) ms)"
  shows "\<exists>a' fs' bk. write_messages e pm ms (a, fs) = Some (a', fs') \<and> ready e a' fs' \<and> full_name a' = full_name a
    \<and> distinct bk \<and> set bk \<subseteq> (\<lambda>(s, m). backup_name (full_name a) s) ` set ms
    \<and> concat (map (file_contents fs') (bk @ [full_name a])) = file_contents fs (full_name a) @ concat (map (\<lambda>x. message_line (snd x)) ms)
    \<and> (\<forall>f. f \<noteq> full_name a \<longrightarrow> f \<notin> (\<lambda>(s, m). backup_name (full_name a) s) ` set ms \<longrightarrow> fs' f = fs f)
    \<and> (ms \<noteq> [] \<longrightarrow> fileSize a' \<le> maxFileSize a \<or> maxFileSize a = 0 \<or> fileSize a' = ucast (message_Size (snd (last ms))))"
  using assms
proof (induction ms arbitrary: a fs)
  case Nil
  then show ?case by (auto simp: file_contents_def intro!: exI [of _ "[]"])
next
  case (Cons sm ms)
  obtain s m where sm: "sm = (s, m)" by fastforce
  let ?F = "full_name a" and ?names = "(\<lambda>(s, m). backup_name (full_name a) s) ` set ms"
  obtain a1 fs1 where w: "File_write e pm s m (a, fs) = Some (a1, fs1)" "ready e a1 fs1" "full_name a1 = ?F" "maxFileSize a1 = maxFileSize a"
    and x: "if exceeds a m
       then fs1 = fs(backup_name ?F s \<mapsto> file_contents fs ?F, ?F \<mapsto> message_line m) \<and> fileSize a1 = ucast (message_Size m)
       else fs1 = fs(?F \<mapsto> file_contents fs ?F @ message_line m) \<and> fileSize a1 = fileSize a + ucast (message_Size m)"
    using write_ready [OF Cons.prems(1)] by blast
  have d: "distinct (map (\<lambda>(s, m). backup_name ?F s) ms)" using Cons.prems(2) by simp
  obtain a2 fs2 bk where i: "write_messages e pm ms (a1, fs1) = Some (a2, fs2)" "ready e a2 fs2" "full_name a2 = ?F" "distinct bk"
    "set bk \<subseteq> ?names"
    and cc: "concat (map (file_contents fs2) (bk @ [?F])) = file_contents fs1 ?F @ concat (map (\<lambda>x. message_line (snd x)) ms)"
    and un: "\<forall>f. f \<noteq> ?F \<longrightarrow> f \<notin> ?names \<longrightarrow> fs2 f = fs1 f"
    and sz: "ms \<noteq> [] \<longrightarrow> fileSize a2 \<le> maxFileSize a \<or> maxFileSize a = 0 \<or> fileSize a2 = ucast (message_Size (snd (last ms)))"
    using Cons.IH [OF w(2), unfolded w(3,4), OF d] by blast
  have n: "backup_name ?F s \<notin> ?names" using Cons.prems(2) by (auto simp: sm)
  have last: "ms = [] \<longrightarrow> fileSize a2 \<le> maxFileSize a \<or> maxFileSize a = 0 \<or> fileSize a2 = ucast (message_Size m)"
    using i(1) x by (auto simp: exceeds_def not_less split: if_splits)
  show ?case
  proof (cases "exceeds a m")
    case True
    then have b: "file_contents fs2 (backup_name ?F s) = file_contents fs ?F" "file_contents fs1 ?F = message_line m"
      using un n x backup_name_neq [of ?F s] by (auto simp: file_contents_def)
    then have "concat (map (file_contents fs2) ((backup_name ?F s # bk) @ [?F])) = file_contents fs ?F @ concat (map (\<lambda>x. message_line (snd x)) (sm # ms))"
      using cc by (simp add: sm)
    moreover have "distinct (backup_name ?F s # bk)" using i(4,5) n by auto
    ultimately show ?thesis using w i un sz last x True
      by (intro exI [of _ a2] exI [of _ fs2] exI [of _ "backup_name ?F s # bk"]) (auto simp: sm)
  next
    case False
    then have "file_contents fs1 ?F = file_contents fs ?F @ message_line m" using x by (simp add: file_contents_def)
    then show ?thesis using w i un sz last x False cc
      by (intro exI [of _ a2] exI [of _ fs2] exI [of _ bk]) (auto simp: sm)
  qed
qed


definition server_log :: AppenderFile where
  "server_log = \<lparr>logfile = Some ''logs/Server.log'', fileName = ''Server.log'', logDir = ''logs/'', dynamicName = False, backup = False,
     maxFileSize = 6, fileSize = 4\<rparr>"

definition plain_env :: file_env where
  "plain_env = \<lparr>can_open = \<lambda>_. True, can_rename = \<lambda>_. True, tell_append = of_nat\<rparr>"


text \<open>Two rotations with one time stamp: the second backup replaces the first, whose lines are lost.\<close>

lemma same_stamp_loses_backup:
  assumes "ready e a fs" "exceeds a m1" "File_write e pm stamp m1 (a, fs) = Some (a1, fs1)" "exceeds a1 m2"
    "File_write e pm stamp m2 (a1, fs1) = Some (a2, fs2)"
  shows "fs1 (backup_name (full_name a) stamp) = Some (file_contents fs (full_name a))"
    "fs2 (backup_name (full_name a) stamp) = Some (message_line m1)"
proof -
  have w: "ready e a1 fs1" "full_name a1 = full_name a"
    and f1: "fs1 = fs(backup_name (full_name a) stamp \<mapsto> file_contents fs (full_name a), full_name a \<mapsto> message_line m1)"
    using write_ready [OF assms(1), of pm stamp m1] assms(2,3) by auto
  have "fs2 = fs1(backup_name (full_name a) stamp \<mapsto> file_contents fs1 (full_name a), full_name a \<mapsto> message_line m2)"
    using write_ready [OF w(1), of pm stamp m2] assms(4,5) w(2) by auto
  then show "fs1 (backup_name (full_name a) stamp) = Some (file_contents fs (full_name a))"
    "fs2 (backup_name (full_name a) stamp) = Some (message_line m1)"
    using backup_name_neq [of "full_name a" stamp] by (simp_all add: f1 file_contents_def)
qed

end
