(* ===== verification/Log_Console.thy ===== *)
theory Log_Console
  imports Log_System Log_File
begin

text \<open>
  The appender that writes to the console, \<^verbatim>\<open>AppenderConsole\<close>, in the POSIX build: the colours of the
  configuration, the escape sequences around a message and the stream it goes to.
\<close>

section \<open>Reading integers from a stream\<close>

text \<open>
  \<^verbatim>\<open>operator>>\<close> on an \<^verbatim>\<open>istringstream\<close> and an \<^verbatim>\<open>int\<close>: white space, an optional sign and digits.  Without digits
  and for a value that does not fit, the stream fails.  The result is the value and the rest of the stream.
\<close>

definition read_int :: "string \<Rightarrow> (int \<times> string) option" where
  "read_int s =
     (let (neg, t) = split_sign (dropWhile isspace s); ds = takeWhile isdigit t; v = apply_sign neg (digits_val ds)
      in if ds = [] \<or> v < - (2 ^ 31) \<or> v \<ge> 2 ^ 31 then None else Some (v, dropWhile isdigit t))"

section \<open>The appender\<close>

definition MaxColors :: nat where "MaxColors = 15"

definition MaxLogLevels :: nat where "MaxLogLevels = 6"

record AppenderConsole =
  colored :: bool
  colors :: "nat list"

text \<open>The loop that reads \<open>k\<close> colours.\<close>

fun read_colors :: "nat \<Rightarrow> string \<Rightarrow> nat list option" where
  "read_colors 0 ss = Some []"
| "read_colors (Suc k) ss =
     (case read_int ss of
        None \<Rightarrow> None
      | Some (c, rest) \<Rightarrow> if c < 0 \<or> c \<ge> int MaxColors then None else map_option ((#) (nat c)) (read_colors k rest))"

definition InitColors :: "string \<Rightarrow> AppenderConsole \<Rightarrow> AppenderConsole" where
  "InitColors str a =
     (if str = [] then a\<lparr>colored := False\<rparr>
      else case read_colors MaxLogLevels str of
             None \<Rightarrow> a
           | Some cs \<Rightarrow> a\<lparr>colors := cs, colored := True\<rparr>)"

text \<open>All colours start as the value behind the last colour.\<close>

definition new_AppenderConsole :: "string list \<Rightarrow> AppenderConsole" where
  "new_AppenderConsole extraArgs =
     (let a = \<lparr>colored = False, colors = replicate MaxLogLevels MaxColors\<rparr>
      in if extraArgs \<noteq> [] then InitColors (extraArgs ! 0) a else a)"

definition UnixColorFG :: "nat list" where
  "UnixColorFG = [30, 31, 32, 33, 34, 35, 36, 37, 38, 31, 32, 34, 35, 36, 37]"

text \<open>The escape sequence, \<^term>\<open>None\<close> for a read outside the table; yellow is colour 8.\<close>

definition SetColor :: "nat \<Rightarrow> string option" where
  "SetColor color =
     (if color < length UnixColorFG
      then Some ([CHR 0x1B] @ ''['' @ dec (UnixColorFG ! color) @ (if color \<ge> 8 \<and> color < MaxColors then '';1'' else []) @ ''m'')
      else None)"

definition ResetColor :: string where
  "ResetColor = [CHR 0x1B] @ ''[0m''"

definition color_index :: "LogLevel \<Rightarrow> nat" where
  "color_index l =
     (if l = LOG_LEVEL_TRACE then 5 else if l = LOG_LEVEL_DEBUG then 4 else if l = LOG_LEVEL_INFO then 3
      else if l = LOG_LEVEL_WARN then 2 else if l = LOG_LEVEL_FATAL then 0 else 1)"

datatype console_stream = Stdout | Stderr

text \<open>A write gives the stream and the text that appears there.\<close>

definition Console_write :: "LogLevel \<Rightarrow> file_message \<Rightarrow> AppenderConsole \<Rightarrow> (console_stream \<times> string) option" where
  "Console_write l m a =
     (let out = (if l = LOG_LEVEL_ERROR \<or> l = LOG_LEVEL_FATAL then Stderr else Stdout)
      in if colored a then
           map_option (\<lambda>esc. (out, esc @ message_line m @ ResetColor)) (SetColor (colors a ! color_index l))
         else Some (out, message_line m))"

section \<open>Colours\<close>

definition colors_ok :: "AppenderConsole \<Rightarrow> bool" where
  "colors_ok a \<longleftrightarrow> length (colors a) = MaxLogLevels \<and> (colored a \<longrightarrow> list_all (\<lambda>c. c < MaxColors) (colors a))"

lemma read_colors_range: "read_colors k s = Some cs \<Longrightarrow> length cs = k \<and> list_all (\<lambda>c. c < MaxColors) cs"
  by (induction k arbitrary: s cs) (auto split: option.splits if_splits)

lemma InitColors_ok: "colors_ok a \<Longrightarrow> colors_ok (InitColors s a)"
  using read_colors_range [of MaxLogLevels s] by (auto simp: InitColors_def colors_ok_def split: option.splits)

lemma new_AppenderConsole_ok: "colors_ok (new_AppenderConsole args)"
proof -
  have "colors_ok \<lparr>colored = False, colors = replicate MaxLogLevels MaxColors\<rparr>" by (simp add: colors_ok_def)
  then show ?thesis by (simp add: new_AppenderConsole_def InitColors_ok Let_def)
qed

lemma fold_InitColors_ok: "colors_ok a \<Longrightarrow> colors_ok (fold InitColors strs a)"
  by (induction strs arbitrary: a) (simp_all add: InitColors_ok)

lemma color_index_bound: "color_index l < MaxLogLevels"
  by (simp add: color_index_def MaxLogLevels_def)

lemma SetColor_defined: "c < MaxColors \<Longrightarrow> \<exists>esc. SetColor c = Some esc"
  by (simp add: SetColor_def UnixColorFG_def MaxColors_def)

lemma read_int_dec:
  assumes "\<forall>c \<in> set sp. isspace c" "t = [] \<or> \<not> isdigit (hd t)" "n < 2 ^ 31"
  shows "read_int (sp @ dec n @ t) = Some (int n, t)"
proof -
  have "dropWhile isspace (sp @ dec n @ t) = dec n @ t" using assms(1) dec_digits by (intro dropWhile_space_digits) auto
  moreover have "split_sign (dec n @ t) = (False, dec n @ t)" using dec_digits by (intro split_sign_digits) auto
  moreover have tk: "takeWhile isdigit (dec n @ t) = dec n" using assms(2) dec_digits by (intro takeWhile_digits) auto
  moreover have "dropWhile isdigit (dec n @ t) = t"
    by (metis tk takeWhile_dropWhile_id append_same_eq append_eq_append_conv)
  ultimately show ?thesis using assms(3) by (simp add: read_int_def apply_sign_def)
qed

text \<open>Colours as they stand in a configuration file.\<close>

definition print_colors :: "nat list \<Rightarrow> string" where
  "print_colors cs = concat (map (\<lambda>c. '' '' @ dec c) cs)"

lemma read_colors_print:
  assumes "list_all (\<lambda>c. c < MaxColors) cs"
  shows "read_colors (length cs) (print_colors cs) = Some cs"
  using assms
proof (induction cs)
  case (Cons c cs)
  have "\<forall>x \<in> set '' ''. isspace x" by (simp add: isspace_def)
  moreover have "print_colors cs = [] \<or> \<not> isdigit (hd (print_colors cs))"
    by (cases cs) (simp_all add: print_colors_def isdigit_def)
  ultimately have "read_int ('' '' @ dec c @ print_colors cs) = Some (int c, print_colors cs)"
    using Cons.prems by (intro read_int_dec) (simp_all add: MaxColors_def)
  then show ?case using Cons by (simp add: print_colors_def)
qed simp

text \<open>The appender after its construction and further calls of \<^verbatim>\<open>InitColors\<close>.\<close>

definition console_after :: "string list \<Rightarrow> string list \<Rightarrow> AppenderConsole" where
  "console_after args strs = fold InitColors strs (new_AppenderConsole args)"

text \<open>
  Claim C23.  The console appender is well formed however it was made and however often its colours were set:
  it has six colours, all in the table when it is coloured, so no write reads outside the table and every
  message appears, on the error stream exactly for errors and fatal messages, either as its line alone or
  between the escape sequence of its level's colour and the one that resets it.  Six colours written into a
  configuration are the ones used afterwards.
\<close>

theorem console_well_formed:
  "colors_ok (console_after args strs)
    \<and> (\<exists>esc. Console_write l m (console_after args strs)
          = Some (if l \<in> {LOG_LEVEL_ERROR, LOG_LEVEL_FATAL} then Stderr else Stdout,
                  (if colored (console_after args strs) then esc @ message_line m @ ResetColor else message_line m))
        \<and> (colored (console_after args strs) \<longrightarrow> SetColor (colors (console_after args strs) ! color_index l) = Some esc))
    \<and> (length cs = MaxLogLevels \<and> list_all (\<lambda>c. c < MaxColors) cs
        \<longrightarrow> InitColors (print_colors cs) (console_after args strs) = \<lparr>colored = True, colors = cs\<rparr>)"
proof -
  let ?a = "console_after args strs"
  have ok: "colors_ok ?a" unfolding console_after_def by (intro fold_InitColors_ok new_AppenderConsole_ok)
  then have "colored ?a \<longrightarrow> colors ?a ! color_index l < MaxColors"
    using color_index_bound [of l] by (auto simp: colors_ok_def list_all_length)
  then obtain esc where "colored ?a \<longrightarrow> SetColor (colors ?a ! color_index l) = Some esc" using SetColor_defined by blast
  then have "\<exists>esc. Console_write l m ?a
      = Some (if l \<in> {LOG_LEVEL_ERROR, LOG_LEVEL_FATAL} then Stderr else Stdout,
              (if colored ?a then esc @ message_line m @ ResetColor else message_line m))
    \<and> (colored ?a \<longrightarrow> SetColor (colors ?a ! color_index l) = Some esc)"
    by (intro exI [of _ esc]) (simp add: Console_write_def Let_def)
  moreover have "InitColors (print_colors cs) ?a = \<lparr>colored = True, colors = cs\<rparr>"
    if "length cs = MaxLogLevels \<and> list_all (\<lambda>c. c < MaxColors) cs"
  proof -
    have "print_colors cs \<noteq> []" using that by (cases cs) (simp_all add: print_colors_def MaxLogLevels_def)
    then show ?thesis using that read_colors_print [of cs] by (simp add: InitColors_def)
  qed
  ultimately show ?thesis using ok by blast
qed

theorem console_well_formed_witness:
  "\<exists>esc. Console_write LOG_LEVEL_FATAL \<lparr>fm_prefix = [], fm_text = ''stop'', fm_param1 = []\<rparr>
       (InitColors (print_colors [9, 1, 8, 6, 5, 0]) (new_AppenderConsole []))
     = Some (Stderr, esc @ ''stop'' @ [CHR 0x0A] @ ResetColor) \<and> SetColor 9 = Some esc"
proof -
  let ?cs = "[9, 1, 8, 6, 5, 0]" and ?m = "\<lparr>fm_prefix = [], fm_text = ''stop'', fm_param1 = []\<rparr>"
  have i: "InitColors (print_colors ?cs) (new_AppenderConsole []) = \<lparr>colored = True, colors = ?cs\<rparr>"
    using console_well_formed [of "[]" "[]" 0 ?m ?cs] by (simp add: MaxLogLevels_def MaxColors_def console_after_def)
  have ml: "message_line ?m = ''stop'' @ [CHR 0x0A]" by (simp add: message_line_def c_str_def)
  have ix: "color_index LOG_LEVEL_FATAL = 0"
    by (simp add: color_index_def LOG_LEVEL_FATAL_def LOG_LEVEL_TRACE_def LOG_LEVEL_DEBUG_def LOG_LEVEL_INFO_def LOG_LEVEL_WARN_def)
  have "console_after [] [print_colors ?cs] = \<lparr>colored = True, colors = ?cs\<rparr>" using i by (simp add: console_after_def)
  then show ?thesis using console_well_formed [of "[]" "[print_colors ?cs]" LOG_LEVEL_FATAL ?m "[]"] unfolding i by (auto simp: ml ix)
qed

end
