(* ===== verification/Database.thy ===== *)
theory Database
  imports C_Library
begin

text \<open>
  The database layer (\<^verbatim>\<open>Source/Database/Database\<close>): pools of connections, transactions, statements
  and result sets.  The MySQL client library is not part of the sources; what its calls return is an
  argument.  \<^term>\<open>None\<close> is the use of a null, wild or out-of-range pointer, or an exception.
\<close>

section \<open>Connections\<close>

text \<open>
  A connection's handle is null, open or closed; using a null or closed handle is undefined.  What the
  library answers to an attempt to connect is an argument.
\<close>

datatype mysql_handle = NullHandle | OpenHandle | ClosedHandle

datatype connect_reply = NoMemory | Refused | Connected

record SQLConnection =
  MySqlHandle :: mysql_handle
  IsAvaliable :: bool
  PreparedStatements :: "string list"

definition new_SQLConnection :: SQLConnection where
  "new_SQLConnection = \<lparr>MySqlHandle = NullHandle, IsAvaliable = True, PreparedStatements = []\<rparr>"

fun Connect :: "connect_reply \<Rightarrow> SQLConnection \<Rightarrow> status \<times> SQLConnection" where
  "Connect NoMemory c = (FAILED, c)"
| "Connect Refused c = (FAILED, c\<lparr>MySqlHandle := NullHandle\<rparr>)"
| "Connect Connected c = (OK, c\<lparr>MySqlHandle := OpenHandle\<rparr>)"

definition PrepareStatement :: "(string \<Rightarrow> bool) \<Rightarrow> string \<Rightarrow> SQLConnection \<Rightarrow> status \<times> SQLConnection" where
  "PrepareStatement prepares stmtString c =
     (if prepares stmtString then (OK, c\<lparr>PreparedStatements := PreparedStatements c @ [stmtString]\<rparr>) else (FAILED, c))"

text \<open>A statement that cannot be prepared is passed over.\<close>

definition InitPreparedStatements :: "(string \<Rightarrow> bool) \<Rightarrow> string list \<Rightarrow> SQLConnection \<Rightarrow> status \<times> SQLConnection" where
  "InitPreparedStatements prepares strs c = (OK, fold (\<lambda>s c. snd (PrepareStatement prepares s c)) strs c)"

section \<open>Pools\<close>

text \<open>
  \<open>Capacity\<close> is the capacity of the vector \<^verbatim>\<open>Connections\<close>.  When it is full, its elements are moved: the
  new elements take the handles over and the destructors of the old ones close them.
\<close>

record SQLConnectionPool =
  ConnectionCount :: u32
  ActiveConnectionCount :: u32
  Connections :: "SQLConnection list"
  Capacity :: nat
  PreparedStatementStrings :: "string list"

definition InvalidConnectionPool :: u32 where "InvalidConnectionPool = - 1"

definition new_SQLConnectionPool :: "u32 \<Rightarrow> SQLConnectionPool" where
  "new_SQLConnectionPool count =
     \<lparr>ConnectionCount = count, ActiveConnectionCount = 0, Connections = [], Capacity = 0, PreparedStatementStrings = []\<rparr>"

definition default_SQLConnectionPool :: SQLConnectionPool where
  "default_SQLConnectionPool = new_SQLConnectionPool InvalidConnectionPool"

text \<open>The vector of texts is written at the index, which has to be there already.\<close>

definition AddPreparedStatementString :: "nat \<Rightarrow> string \<Rightarrow> SQLConnectionPool \<Rightarrow> (status \<times> SQLConnectionPool) option" where
  "AddPreparedStatementString i s p =
     (if i < length (PreparedStatementStrings p)
      then Some (OK, p\<lparr>PreparedStatementStrings := (PreparedStatementStrings p)[i := s]\<rparr>) else None)"

text \<open>
  The surroundings of a pool: whether there is memory for so many connections, how a vector grows, what
  the attempts to connect answer, and which statements can be prepared.
\<close>

record pool_env =
  reserve_ok :: "nat \<Rightarrow> bool"
  grow_to :: "nat \<Rightarrow> nat"
  connect_to :: "nat \<Rightarrow> connect_reply"
  can_prepare :: "string \<Rightarrow> bool"

definition close_handle :: "SQLConnection \<Rightarrow> SQLConnection" where
  "close_handle c = (if MySqlHandle c = OpenHandle then c\<lparr>MySqlHandle := ClosedHandle\<rparr> else c)"

definition emplace_connection :: "pool_env \<Rightarrow> SQLConnectionPool \<Rightarrow> SQLConnectionPool" where
  "emplace_connection e p =
     (if length (Connections p) < Capacity p then p\<lparr>Connections := Connections p @ [new_SQLConnection]\<rparr>
      else p\<lparr>Connections := map close_handle (Connections p) @ [new_SQLConnection], Capacity := grow_to e (Capacity p)\<rparr>)"

text \<open>The loop index is a signed integer: counting it past \<open>2 ^ 31 - 1\<close> is undefined.\<close>

function spawn_loop :: "pool_env \<Rightarrow> nat \<Rightarrow> SQLConnectionPool \<Rightarrow> (status \<times> SQLConnectionPool) option" where
  "spawn_loop e i p =
     (if i < unat (ConnectionCount p) then
        (let p1 = emplace_connection e p
         in if 2 ^ 31 \<le> i \<or> length (Connections p1) \<le> i then None
            else let (r, c) = Connect (connect_to e i) (Connections p1 ! i)
                 in if r \<noteq> OK then Some (FAILED, p1\<lparr>Connections := (Connections p1)[i := c]\<rparr>)
                    else let (r, c) = InitPreparedStatements (can_prepare e) (PreparedStatementStrings p) c;
                             p2 = p1\<lparr>Connections := (Connections p1)[i := c]\<rparr>
                         in if r \<noteq> OK then Some (FAILED, p2) else spawn_loop e (i + 1) p2)
      else Some (OK, p))"
  by pat_completeness auto
termination
  by (relation "measure (\<lambda>(e, i, p). unat (ConnectionCount p) - i)") (auto simp: emplace_connection_def)

declare spawn_loop.simps [simp del]

definition SpawnConnections :: "pool_env \<Rightarrow> SQLConnectionPool \<Rightarrow> (status \<times> SQLConnectionPool) option" where
  "SpawnConnections e p =
     (if ConnectionCount p \<le> 0 then Some (OK, p)
      else if ActiveConnectionCount p \<noteq> ConnectionCount p then
        if \<not> reserve_ok e (unat (ConnectionCount p)) then None
        else map_option (\<lambda>(r, p'). (r, if r = OK then p'\<lparr>ActiveConnectionCount := ConnectionCount p\<rparr> else p'))
               (spawn_loop e (unat (ActiveConnectionCount p)) (p\<lparr>Capacity := max (Capacity p) (unat (ConnectionCount p))\<rparr>))
      else Some (OK, p))"

text \<open>The first connection whose flag can be exchanged; the result is its place.\<close>

fun take_available :: "SQLConnection list \<Rightarrow> (nat \<times> SQLConnection list) option" where
  "take_available [] = None"
| "take_available (c # cs) =
     (if IsAvaliable c then Some (0, c\<lparr>IsAvaliable := False\<rparr> # cs)
      else map_option (\<lambda>(i, cs'). (Suc i, c # cs')) (take_available cs))"

definition FreeUpConnection :: "nat \<Rightarrow> SQLConnection list \<Rightarrow> SQLConnection list" where
  "FreeUpConnection i cs = (if \<not> IsAvaliable (cs ! i) then cs[i := (cs ! i)\<lparr>IsAvaliable := True\<rparr>] else cs)"

section \<open>The database\<close>

type_synonym SQLDatabase = "SQLConnectionPool list"

definition AddSchema :: "nat \<Rightarrow> u32 \<Rightarrow> SQLDatabase \<Rightarrow> SQLDatabase" where
  "AddSchema schemaIndex count db =
     (if length db \<le> schemaIndex
      then (vec_resize (schemaIndex + 1) default_SQLConnectionPool db)[schemaIndex := new_SQLConnectionPool count]
      else db)"

fun spawn_pools :: "(nat \<Rightarrow> pool_env) \<Rightarrow> nat \<Rightarrow> SQLDatabase \<Rightarrow> (status \<times> SQLDatabase) option" where
  "spawn_pools e k [] = Some (OK, [])"
| "spawn_pools e k (p # ps) =
     (case SpawnConnections (e k) p of
        None \<Rightarrow> None
      | Some (r, p') \<Rightarrow>
          if r \<noteq> OK then Some (FAILED, p' # ps)
          else map_option (\<lambda>(r', ps'). (r', p' # ps')) (spawn_pools e (Suc k) ps))"

definition SpawnSQLConnections :: "(nat \<Rightarrow> pool_env) \<Rightarrow> SQLDatabase \<Rightarrow> (status \<times> SQLDatabase) option" where
  "SpawnSQLConnections e db = spawn_pools e 0 db"

definition GetAvaliableSQLConnection :: "nat \<Rightarrow> SQLDatabase \<Rightarrow> (nat option \<times> SQLDatabase) option" where
  "GetAvaliableSQLConnection schemaIndex db =
     (if schemaIndex < length db then
        Some (case take_available (Connections (db ! schemaIndex)) of
                None \<Rightarrow> (None, db)
              | Some (i, cs) \<Rightarrow> (Some i, db[schemaIndex := (db ! schemaIndex)\<lparr>Connections := cs\<rparr>]))
      else None)"

text \<open>An operation takes a connection and reads its handle, before it looks whether there is a connection.\<close>

definition operation_connection :: "u16 \<Rightarrow> SQLDatabase \<Rightarrow> (nat \<times> SQLDatabase) option" where
  "operation_connection schema db =
     (case GetAvaliableSQLConnection (unat schema) db of
        Some (Some i, db') \<Rightarrow>
          if MySqlHandle (Connections (db' ! unat schema) ! i) = OpenHandle then Some (i, db') else None
      | _ \<Rightarrow> None)"

section \<open>Transactions\<close>

record SQLTransaction =
  Statements :: "string list"
  TransactionSchema :: u16

definition AppendStatement :: "string \<Rightarrow> SQLTransaction \<Rightarrow> SQLTransaction" where
  "AppendStatement s t = t\<lparr>Statements := Statements t @ [s]\<rparr>"

text \<open>The loop that looks for the parameter; what \<^verbatim>\<open>find\<close> returns is not used.\<close>

fun cursor_loop :: "nat \<Rightarrow> size_t \<Rightarrow> size_t" where
  "cursor_loop 0 searchCursor = searchCursor + 1"
| "cursor_loop (Suc idx) searchCursor =
     (let searchCursor = searchCursor + 1 in if searchCursor \<noteq> - 1 then cursor_loop idx searchCursor else searchCursor)"

text \<open>\<^verbatim>\<open>stmt\<close> is a copy of the last statement; \<^verbatim>\<open>replace\<close> throws when the position is past its end.\<close>

definition SetParamString :: "u32 \<Rightarrow> string \<Rightarrow> SQLTransaction \<Rightarrow> (status \<times> SQLTransaction) option" where
  "SetParamString idx value t =
     (if Statements t = [] then Some (FAILED, t)
      else let stmt = last (Statements t); searchCursor = cursor_loop (unat idx) (- 1)
        in if searchCursor \<noteq> - 1 then
             if unat searchCursor \<le> length stmt then
               let stmt = take (unat searchCursor) stmt @ value @ drop (unat searchCursor + 1) stmt in Some (OK, t)
             else None
           else Some (FAILED, t))"

definition SetParamInt :: "u32 \<Rightarrow> int \<Rightarrow> SQLTransaction \<Rightarrow> (status \<times> SQLTransaction) option" where
  "SetParamInt idx value t = SetParamString idx (dec_int value) t"

text \<open>
  \<open>query s\<close> is what \<^verbatim>\<open>mysql_query\<close> returns for \<open>s\<close>, true for an error.  The result of a step is its
  status and the texts that were sent.
\<close>

definition tx_query :: "(string \<Rightarrow> bool) \<Rightarrow> string \<Rightarrow> status \<times> string list" where
  "tx_query query s = (if query s then FAILED else OK, [s])"

fun statement_loop :: "(string \<Rightarrow> bool) \<Rightarrow> string list \<Rightarrow> status \<times> string list" where
  "statement_loop query [] = (OK, [])"
| "statement_loop query (s # ss) =
     (if query s then (FAILED, [s] @ snd (tx_query query ''ROLLBACK'')) else (OK, [s]))"

definition Transaction_Execute ::
  "(string \<Rightarrow> bool) \<Rightarrow> SQLTransaction \<Rightarrow> SQLDatabase \<Rightarrow> (status \<times> string list \<times> SQLDatabase) option" where
  "Transaction_Execute query t db =
     (case operation_connection (TransactionSchema t) db of
        None \<Rightarrow> None
      | Some (i, db1) \<Rightarrow>
          let (r, sent) = tx_query query ''START TRANSACTION''
          in if r \<noteq> OK then Some (FAILED, sent, db1)
             else let (r, sent') = statement_loop query (Statements t) in Some (r, sent @ sent', db1))"

section \<open>Connections are handed out once\<close>

text \<open>
  Threads that look for a connection exchange one flag after the other; each exchange is a step, as is
  giving a connection back.
\<close>

datatype scan_pc = Outside | Scanning nat | Holding nat

inductive pool_step :: "bool list \<times> (nat \<Rightarrow> scan_pc) \<Rightarrow> bool list \<times> (nat \<Rightarrow> scan_pc) \<Rightarrow> bool" where
  call: "pc t = Outside \<Longrightarrow> pool_step (fl, pc) (fl, pc(t := Scanning 0))"
| exchange: "pc t = Scanning i \<Longrightarrow> i < length fl
    \<Longrightarrow> pool_step (fl, pc) (if fl ! i then (fl[i := False], pc(t := Holding i)) else (fl, pc(t := Scanning (Suc i))))"
| nothing: "pc t = Scanning i \<Longrightarrow> length fl \<le> i \<Longrightarrow> pool_step (fl, pc) (fl, pc(t := Outside))"
| give_back: "pc t = Holding i \<Longrightarrow> pool_step (fl, pc) (fl[i := True], pc(t := Outside))"

inductive pool_reach :: "nat \<Rightarrow> bool list \<times> (nat \<Rightarrow> scan_pc) \<Rightarrow> bool" for n where
  init: "pool_reach n (replicate n True, \<lambda>_. Outside)"
| step: "pool_reach n s \<Longrightarrow> pool_step s s' \<Longrightarrow> pool_reach n s'"

definition pool_inv :: "nat \<Rightarrow> bool list \<Rightarrow> (nat \<Rightarrow> scan_pc) \<Rightarrow> bool" where
  "pool_inv n fl pc \<longleftrightarrow> length fl = n
     \<and> (\<forall>t i. pc t = Holding i \<longrightarrow> i < n)
     \<and> (\<forall>t u i. pc t = Holding i \<longrightarrow> pc u = Holding i \<longrightarrow> t = u)
     \<and> (\<forall>i<n. fl ! i = (\<forall>t. pc t \<noteq> Holding i))"

lemma pool_step_inv:
  assumes "pool_inv n fl pc" "pool_step (fl, pc) (fl', pc')"
  shows "pool_inv n fl' pc'"
  using assms(2)
proof (cases rule: pool_step.cases)
  case (call t)
  then show ?thesis using assms(1) by (auto simp: pool_inv_def) (metis scan_pc.distinct(3))
next
  case (exchange t i)
  then show ?thesis using assms(1) by (auto simp: pool_inv_def nth_list_update split: if_splits) (metis scan_pc.distinct(5))+
next
  case (nothing t i)
  then show ?thesis using assms(1) by (auto simp: pool_inv_def) (metis scan_pc.distinct(5))
next
  case (give_back t i)
  then show ?thesis using assms(1) by (auto simp: pool_inv_def nth_list_update) (metis scan_pc.inject(2))
qed

lemma pool_reach_inv: "pool_reach n (fl, pc) \<Longrightarrow> pool_inv n fl pc"
proof (induction "(fl, pc)" arbitrary: fl pc rule: pool_reach.induct)
  case init
  then show ?case by (simp add: pool_inv_def)
next
  case (step s)
  then show ?case using pool_step_inv by (cases s) blast
qed

lemma scan_alone:
  assumes "pc t = Scanning k" "k \<le> length cs"
  shows "pool_step\<^sup>*\<^sup>* (map IsAvaliable cs, pc)
    (case take_available (drop k cs) of
       None \<Rightarrow> (map IsAvaliable cs, pc(t := Outside))
     | Some (i, cs') \<Rightarrow> (map IsAvaliable (take k cs @ cs'), pc(t := Holding (k + i))))"
  using assms
proof (induction "length cs - k" arbitrary: k pc)
  case 0
  then have "pool_step (map IsAvaliable cs, pc) (map IsAvaliable cs, pc(t := Outside))"
    by (intro pool_step.nothing [of _ _ k]) simp_all
  with 0 show ?case by auto
next
  case (Suc m)
  then have k: "k < length cs" by simp
  then have d: "drop k cs = cs ! k # drop (Suc k) cs" by (simp add: Cons_nth_drop_Suc)
  have st: "pool_step (map IsAvaliable cs, pc)
      (if IsAvaliable (cs ! k) then ((map IsAvaliable cs)[k := False], pc(t := Holding k)) else (map IsAvaliable cs, pc(t := Scanning (Suc k))))"
    using pool_step.exchange [of pc t k "map IsAvaliable cs"] Suc.prems k by simp
  show ?case
  proof (cases "IsAvaliable (cs ! k)")
    case True
    have "(map IsAvaliable cs)[k := False] = map IsAvaliable (take k cs @ (cs ! k)\<lparr>IsAvaliable := False\<rparr> # drop (Suc k) cs)"
      using k by (simp add: upd_conv_take_nth_drop take_map drop_map)
    with True st show ?thesis by (simp add: d r_into_rtranclp)
  next
    case False
    have "pool_step\<^sup>*\<^sup>* (map IsAvaliable cs, pc(t := Scanning (Suc k)))
        (case take_available (drop (Suc k) cs) of
           None \<Rightarrow> (map IsAvaliable cs, (pc(t := Scanning (Suc k)))(t := Outside))
         | Some (i, cs') \<Rightarrow> (map IsAvaliable (take (Suc k) cs @ cs'), (pc(t := Scanning (Suc k)))(t := Holding (Suc k + i))))"
      using Suc.hyps(1) [of "Suc k" "pc(t := Scanning (Suc k))"] Suc.hyps(2) k by simp
    moreover have "take (Suc k) cs = take k cs @ [cs ! k]" using k by (simp add: take_Suc_conv_app_nth)
    ultimately show ?thesis using False st
      by (auto simp: d intro: converse_rtranclp_into_rtranclp split: option.splits)
  qed
qed

text \<open>
  Claim C35.  Connections of a pool under every interleaving of threads that look for one and give it
  back: no two threads hold the same connection, and a connection is marked available exactly when no
  thread holds it, so that none is lost.
\<close>

theorem pool_exclusive:
  assumes "pool_reach n (fl, pc)"
  shows "(\<forall>t u i. pc t = Holding i \<longrightarrow> pc u = Holding i \<longrightarrow> t = u) \<and> length fl = n
    \<and> (\<forall>i<n. fl ! i = (\<forall>t. pc t \<noteq> Holding i))"
  using pool_reach_inv [OF assms] by (simp add: pool_inv_def)

theorem pool_exclusive_witness:
  "\<exists>pc. pool_reach 1 ([False], pc) \<and> pc 5 = Holding 0 \<and> (\<forall>u. pc u = Holding 0 \<longrightarrow> u = 5)"
proof -
  let ?a = "(\<lambda>_. Outside)(5 := Scanning 0)" and ?b = "(\<lambda>_. Outside)(5 := Scanning 0, 5 := Holding 0)"
  have "pool_step (replicate 1 True, \<lambda>_. Outside) (replicate 1 True, ?a)" by (intro pool_step.call) simp
  then have "pool_reach 1 (replicate 1 True, ?a)" by (rule pool_reach.step [OF pool_reach.init])
  then have "pool_reach 1 ([True][0 := False], ?b)" using pool_reach.step [OF _ pool_step.exchange, of 1 "[True]" ?a 5 0] by simp
  then obtain pc where r: "pool_reach 1 ([False], pc)" and h: "pc 5 = Holding 0" by auto
  have "\<forall>u. pc u = Holding 0 \<longrightarrow> u = 5" using pool_exclusive [OF r] h by blast
  with r h show ?thesis by blast
qed

section \<open>Transactions lose their connection\<close>

definition available :: "SQLConnection list \<Rightarrow> nat" where
  "available cs = length (filter IsAvaliable cs)"

lemma take_available_spec:
  "(take_available cs = None) = (available cs = 0)"
  "take_available cs = Some (i, cs') \<Longrightarrow> i < length cs \<and> IsAvaliable (cs ! i) \<and> cs' = cs[i := (cs ! i)\<lparr>IsAvaliable := False\<rparr>] \<and> available cs = Suc (available cs')"
proof (induction cs arbitrary: i cs')
  case (Cons c cs)
  {
    case 1
    show ?case using Cons(1) by (auto simp: available_def)
  next
    case 2
    then show ?case using Cons(2) by (auto simp: available_def split: if_splits)
  }
qed (simp_all add: available_def)

lemma cursor_loop_value: "idx < 2 ^ 32 \<Longrightarrow> k + idx < 2 ^ 33 \<Longrightarrow> cursor_loop idx (of_nat k - 1) = of_nat (k + idx)"
proof (induction idx arbitrary: k)
  case (Suc idx)
  have "unat (of_nat k :: size_t) = k" using Suc.prems by (intro unat_of_nat_small) simp
  then have "(of_nat k :: size_t) \<noteq> - 1" using Suc.prems by (auto simp: word_unat_eq_iff unat_uminus)
  then show ?case using Suc.IH [of "Suc k"] Suc.prems by (simp add: Let_def)
qed simp

lemma set_param_effect:
  "SetParamString idx value t = (if Statements t = [] then Some (FAILED, t)
     else if unat idx \<le> length (last (Statements t)) then Some (OK, t) else None)"
proof -
  have c: "cursor_loop (unat idx) (- 1) = of_nat (unat idx)"
    using cursor_loop_value [of "unat idx" 0] unat_bound [of idx] by simp
  have u: "unat (of_nat (unat idx) :: size_t) = unat idx" using unat_bound [of idx] by (intro unat_of_nat_small) simp
  then have "(of_nat (unat idx) :: size_t) \<noteq> - 1" using unat_bound [of idx] by (auto simp: word_unat_eq_iff unat_uminus)
  then show ?thesis using u by (simp add: SetParamString_def c Let_def)
qed

lemma operation_connection_spec:
  assumes "operation_connection k db = Some (i, db')"
  shows "unat k < length db" "length db' = length db"
    "available (Connections (db ! unat k)) = Suc (available (Connections (db' ! unat k)))"
    "i < length (Connections (db' ! unat k))" "\<not> IsAvaliable (Connections (db' ! unat k) ! i)"
    "\<forall>j. j \<noteq> unat k \<longrightarrow> db' ! j = db ! j"
proof -
  from assms obtain cs where t: "take_available (Connections (db ! unat k)) = Some (i, cs)" and k: "unat k < length db"
    and d: "db' = db[unat k := (db ! unat k)\<lparr>Connections := cs\<rparr>]"
    by (auto simp: operation_connection_def GetAvaliableSQLConnection_def split: if_splits option.splits)
  show "unat k < length db" "length db' = length db"
    "available (Connections (db ! unat k)) = Suc (available (Connections (db' ! unat k)))"
    "i < length (Connections (db' ! unat k))" "\<not> IsAvaliable (Connections (db' ! unat k) ! i)"
    "\<forall>j. j \<noteq> unat k \<longrightarrow> db' ! j = db ! j"
    using k d take_available_spec(2) [OF t] by auto
qed

lemma transaction_cases:
  assumes "Transaction_Execute query t db = Some (r, sent, db')"
  obtains i where "operation_connection (TransactionSchema t) db = Some (i, db')"
    "sent = ''START TRANSACTION'' # (if query ''START TRANSACTION'' then []
       else case Statements t of [] \<Rightarrow> [] | s # _ \<Rightarrow> if query s then [s, ''ROLLBACK''] else [s])"
    "r = (if query ''START TRANSACTION'' \<or> (Statements t \<noteq> [] \<and> query (hd (Statements t))) then FAILED else OK)"
proof -
  obtain i db1 where c: "operation_connection (TransactionSchema t) db = Some (i, db1)"
    using assms by (auto simp: Transaction_Execute_def split: option.splits)
  show thesis using that [of i] assms c
    by (cases "Statements t") (auto simp: Transaction_Execute_def tx_query_def Let_def split: if_splits)
qed

text \<open>Transactions that run one after the other.\<close>

fun run_transactions :: "(string \<Rightarrow> bool) \<Rightarrow> SQLTransaction list \<Rightarrow> SQLDatabase \<Rightarrow> SQLDatabase option" where
  "run_transactions query [] db = Some db"
| "run_transactions query (t # ts) db =
     (case Transaction_Execute query t db of None \<Rightarrow> None | Some (r, sent, db') \<Rightarrow> run_transactions query ts db')"

lemma run_transactions_available:
  assumes "run_transactions query ts db = Some db'" "\<forall>t\<in>set ts. TransactionSchema t = k"
  shows "available (Connections (db ! unat k)) = length ts + available (Connections (db' ! unat k))"
  using assms
proof (induction ts arbitrary: db)
  case (Cons t ts)
  then obtain r sent db1 where e: "Transaction_Execute query t db = Some (r, sent, db1)" and r: "run_transactions query ts db1 = Some db'"
    by (auto split: option.splits)
  obtain i where "operation_connection (TransactionSchema t) db = Some (i, db1)" using transaction_cases [OF e] .
  then show ?case using Cons.IH [OF r] Cons.prems(2) operation_connection_spec(3) by auto
qed simp

text \<open>
  Claim C37.  A transaction: \<^verbatim>\<open>Execute\<close> sends the start, the first of the appended statements and, when that
  fails, a rollback; the other statements and the commit are never sent.  Setting a parameter reports
  success and changes nothing, and fails with an exception when the number of the parameter is larger
  than the length of the statement.  Every transaction keeps its connection, so that a pool serves at
  most as many transactions as it has connections.
\<close>

theorem transaction_effect:
  assumes "Transaction_Execute query t db = Some (r, sent, db')" "\<forall>u\<in>set ts. TransactionSchema u = TransactionSchema t"
    "available (Connections (db ! unat (TransactionSchema t))) < length ts"
  shows "sent = ''START TRANSACTION'' # (if query ''START TRANSACTION'' then []
       else case Statements t of [] \<Rightarrow> [] | s # _ \<Rightarrow> if query s then [s, ''ROLLBACK''] else [s])
     \<and> (r = OK \<longleftrightarrow> (\<forall>s\<in>set sent. \<not> query s))
     \<and> available (Connections (db ! unat (TransactionSchema t))) = Suc (available (Connections (db' ! unat (TransactionSchema t))))
     \<and> run_transactions query ts db = None
     \<and> SetParamString idx value t = (if Statements t = [] then Some (FAILED, t)
         else if unat idx \<le> length (last (Statements t)) then Some (OK, t) else None)"
proof -
  obtain i where c: "operation_connection (TransactionSchema t) db = Some (i, db')"
    and s: "sent = ''START TRANSACTION'' # (if query ''START TRANSACTION'' then []
       else case Statements t of [] \<Rightarrow> [] | s # _ \<Rightarrow> if query s then [s, ''ROLLBACK''] else [s])"
    and r: "r = (if query ''START TRANSACTION'' \<or> (Statements t \<noteq> [] \<and> query (hd (Statements t))) then FAILED else OK)"
    using transaction_cases [OF assms(1)] .
  have "r = OK \<longleftrightarrow> (\<forall>s\<in>set sent. \<not> query s)" unfolding s r by (cases "Statements t") auto
  moreover have "run_transactions query ts db = None"
    using run_transactions_available [of query ts db] assms(2,3) by (cases "run_transactions query ts db") fastforce+
  ultimately show ?thesis using s operation_connection_spec(3) [OF c] set_param_effect by simp
qed

theorem transaction_effect_witness:
  "let c = \<lparr>MySqlHandle = OpenHandle, IsAvaliable = True, PreparedStatements = []\<rparr>;
       p = (new_SQLConnectionPool 1)\<lparr>Connections := [c]\<rparr>;
       t = AppendStatement ''INSERT B'' (AppendStatement ''INSERT A'' \<lparr>Statements = [], TransactionSchema = 0\<rparr>)
   in Transaction_Execute (\<lambda>s. s = ''INSERT A'') t [p]
        = Some (FAILED, [''START TRANSACTION'', ''INSERT A'', ''ROLLBACK''], [p\<lparr>Connections := [c\<lparr>IsAvaliable := False\<rparr>]\<rparr>])
      \<and> run_transactions (\<lambda>s. s = ''INSERT A'') [t, t] [p] = None \<and> SetParamInt 0 7 t = Some (OK, t)"
proof -
  let ?c = "\<lparr>MySqlHandle = OpenHandle, IsAvaliable = True, PreparedStatements = []\<rparr>"
  let ?p = "(new_SQLConnectionPool 1)\<lparr>Connections := [?c]\<rparr>"
  let ?t = "AppendStatement ''INSERT B'' (AppendStatement ''INSERT A'' \<lparr>Statements = [], TransactionSchema = 0\<rparr>)"
  have x: "Transaction_Execute (\<lambda>s. s = ''INSERT A'') ?t [?p]
      = Some (FAILED, [''START TRANSACTION'', ''INSERT A'', ''ROLLBACK''], [?p\<lparr>Connections := [?c\<lparr>IsAvaliable := False\<rparr>]\<rparr>])"
    by (simp add: Transaction_Execute_def operation_connection_def GetAvaliableSQLConnection_def AppendStatement_def
        tx_query_def new_SQLConnectionPool_def)
  moreover have "run_transactions (\<lambda>s. s = ''INSERT A'') [?t, ?t] [?p] = None \<and> SetParamString 0 (dec_int 7) ?t = Some (OK, ?t)"
    using transaction_effect [OF x, of "[?t, ?t]" 0 "dec_int 7"] by (simp add: AppendStatement_def available_def)
  ultimately show ?thesis by (simp add: Let_def SetParamInt_def)
qed

section \<open>Opening the connections\<close>

definition open_connection :: "pool_env \<Rightarrow> SQLConnectionPool \<Rightarrow> SQLConnection" where
  "open_connection e p = \<lparr>MySqlHandle = OpenHandle, IsAvaliable = True,
     PreparedStatements = filter (can_prepare e) (PreparedStatementStrings p)\<rparr>"

lemma init_prepared_spec:
  "InitPreparedStatements prepares strs c = (OK, c\<lparr>PreparedStatements := PreparedStatements c @ filter prepares strs\<rparr>)"
proof -
  have "fold (\<lambda>s c. snd (PrepareStatement prepares s c)) strs c = c\<lparr>PreparedStatements := PreparedStatements c @ filter prepares strs\<rparr>"
    by (induction strs arbitrary: c) (simp_all add: PrepareStatement_def)
  then show ?thesis by (simp add: InitPreparedStatements_def)
qed

lemma spawn_loop_spec:
  assumes "Connections p = replicate i (open_connection e p)" "i \<le> unat (ConnectionCount p)"
    "unat (ConnectionCount p) \<le> Capacity p" "unat (ConnectionCount p) \<le> 2 ^ 31"
    "\<forall>m<j. connect_to e m = Connected" "i \<le> j" "j = unat (ConnectionCount p) \<or> (j < unat (ConnectionCount p) \<and> connect_to e j \<noteq> Connected)"
  shows "spawn_loop e i p =
    Some (if j = unat (ConnectionCount p) then (OK, p\<lparr>Connections := replicate j (open_connection e p)\<rparr>)
          else (FAILED, p\<lparr>Connections := replicate j (open_connection e p) @ [new_SQLConnection]\<rparr>))"
  using assms
proof (induction "unat (ConnectionCount p) - i" arbitrary: i p)
  case 0
  then show ?case by (simp add: spawn_loop.simps [of e i])
next
  case (Suc d)
  then have i: "i < unat (ConnectionCount p)" by simp
  let ?p = "p\<lparr>Connections := replicate (Suc i) (open_connection e p)\<rparr>"
  have em: "emplace_connection e p = p\<lparr>Connections := replicate i (open_connection e p) @ [new_SQLConnection]\<rparr>"
    using Suc.prems i by (simp add: emplace_connection_def)
  show ?case
  proof (cases "i = j")
    case True
    then have "connect_to e i \<noteq> Connected" using Suc.prems i by auto
    then show ?thesis using True i Suc.prems em
      by (cases "connect_to e i") (simp_all add: spawn_loop.simps [of e j] nth_append list_update_append new_SQLConnection_def)
  next
    case False
    then have c: "connect_to e i = Connected" using Suc.prems by auto
    have "spawn_loop e i p = spawn_loop e (Suc i) ?p"
      using i Suc.prems em c
      by (simp add: spawn_loop.simps [of e i] init_prepared_spec nth_append list_update_append new_SQLConnection_def open_connection_def
          replicate_app_Cons_same [symmetric] replicate_append_same)
    also have "\<dots> = Some (if j = unat (ConnectionCount ?p) then (OK, ?p\<lparr>Connections := replicate j (open_connection e ?p)\<rparr>)
          else (FAILED, ?p\<lparr>Connections := replicate j (open_connection e ?p) @ [new_SQLConnection]\<rparr>))"
      using Suc.hyps(2) Suc.prems i False by (intro Suc.hyps(1)) (simp_all add: open_connection_def)
    finally show ?thesis by (simp add: open_connection_def)
  qed
qed

text \<open>
  Opening a new pool of \<open>n\<close> connections: when every attempt succeeds the pool has \<open>n\<close> open,
  available connections and opening it again does nothing.  When attempt \<open>j\<close> is the first to fail the call
  fails after \<open>j\<close> open connections, and the connection without a handle stays in the pool, marked
  available: once the others are taken, the next operation takes it and uses the null handle.
\<close>

theorem spawn_connections:
  assumes "0 < n" "unat n \<le> 2 ^ 31" "reserve_ok e (unat n)" "\<forall>m<j. connect_to e m = Connected"
    "j < unat n" "connect_to e j \<noteq> Connected"
  shows "(\<forall>e' :: pool_env. reserve_ok e' (unat n) \<and> (\<forall>m<unat n. connect_to e' m = Connected) \<longrightarrow>
      (\<exists>p. SpawnConnections e' (new_SQLConnectionPool n) = Some (OK, p) \<and> SpawnConnections e' p = Some (OK, p)
         \<and> length (Connections p) = unat n \<and> (\<forall>c\<in>set (Connections p). MySqlHandle c = OpenHandle \<and> IsAvaliable c)))
    \<and> (\<exists>p c. SpawnConnections e (new_SQLConnectionPool n) = Some (FAILED, p) \<and> Connections p = replicate j (open_connection e p) @ [c]
         \<and> MySqlHandle c = NullHandle \<and> IsAvaliable c
         \<and> (j = 0 \<longrightarrow> operation_connection 0 [p] = None))"
proof (intro conjI allI impI)
  have n: "n \<noteq> 0" using assms(1) by auto
  fix e' :: pool_env assume e: "reserve_ok e' (unat n) \<and> (\<forall>m<unat n. connect_to e' m = Connected)"
  let ?p = "(new_SQLConnectionPool n)\<lparr>Capacity := unat n\<rparr>"
  have "spawn_loop e' 0 ?p = Some (OK, ?p\<lparr>Connections := replicate (unat n) (open_connection e' ?p)\<rparr>)"
    using spawn_loop_spec [of ?p 0 e' "unat n"] e assms(2) by (simp add: new_SQLConnectionPool_def)
  then show "\<exists>p. SpawnConnections e' (new_SQLConnectionPool n) = Some (OK, p) \<and> SpawnConnections e' p = Some (OK, p)
      \<and> length (Connections p) = unat n \<and> (\<forall>c\<in>set (Connections p). MySqlHandle c = OpenHandle \<and> IsAvaliable c)"
    using n e by (auto simp: SpawnConnections_def new_SQLConnectionPool_def open_connection_def)
next
  have n: "n \<noteq> 0" using assms(1) by auto
  let ?p = "(new_SQLConnectionPool n)\<lparr>Capacity := unat n\<rparr>"
  let ?q = "?p\<lparr>Connections := replicate j (open_connection e ?p) @ [new_SQLConnection]\<rparr>"
  have "spawn_loop e 0 ?p = Some (FAILED, ?q)"
    using spawn_loop_spec [of ?p 0 e j] assms by (simp add: new_SQLConnectionPool_def)
  then have "SpawnConnections e (new_SQLConnectionPool n) = Some (FAILED, ?q)"
    using n assms(3) by (simp add: SpawnConnections_def new_SQLConnectionPool_def)
  moreover have "Connections ?q = replicate j (open_connection e ?q) @ [new_SQLConnection]" by (simp add: open_connection_def)
  moreover have "j = 0 \<longrightarrow> operation_connection 0 [?q] = None"
    by (simp add: operation_connection_def GetAvaliableSQLConnection_def new_SQLConnection_def)
  ultimately show "\<exists>p c. SpawnConnections e (new_SQLConnectionPool n) = Some (FAILED, p) \<and> Connections p = replicate j (open_connection e p) @ [c]
      \<and> MySqlHandle c = NullHandle \<and> IsAvaliable c \<and> (j = 0 \<longrightarrow> operation_connection 0 [p] = None)"
    by (intro exI [of _ ?q] exI [of _ new_SQLConnection]) (simp add: new_SQLConnection_def)
qed

theorem spawn_connections_witness:
  "\<exists>p c. SpawnConnections \<lparr>reserve_ok = \<lambda>n. n < 100, grow_to = \<lambda>n. 2 * n + 1, connect_to = \<lambda>i. if i < 2 then Connected else Refused, can_prepare = \<lambda>_. True\<rparr>
       (new_SQLConnectionPool 5) = Some (FAILED, p) \<and> length (Connections p) = 3 \<and> c \<in> set (Connections p) \<and> MySqlHandle c = NullHandle \<and> IsAvaliable c"
proof -
  let ?e = "\<lparr>reserve_ok = \<lambda>n. n < 100, grow_to = \<lambda>n. 2 * n + 1, connect_to = \<lambda>i. if i < 2 then Connected else Refused, can_prepare = \<lambda>_. True\<rparr>"
  have "\<exists>p c. SpawnConnections ?e (new_SQLConnectionPool 5) = Some (FAILED, p) \<and> Connections p = replicate 2 (open_connection ?e p) @ [c]
         \<and> MySqlHandle c = NullHandle \<and> IsAvaliable c"
    using spawn_connections [of 5 ?e 2] by auto
  then show ?thesis by force
qed

text \<open>A schema added past the end leaves pools of the invalid size in between; opening them asks for \<open>2 ^ 32 - 1\<close> connections.\<close>

lemma schema_gap:
  assumes "\<not> reserve_ok (e 0) (2 ^ 32 - 1)" "0 < k"
  shows "AddSchema k n [] ! 0 = default_SQLConnectionPool" "SpawnSQLConnections e (AddSchema k n []) = None"
proof -
  obtain m where k: "k = Suc m" using assms(2) by (cases k) auto
  have a: "AddSchema k n [] = default_SQLConnectionPool # (replicate k default_SQLConnectionPool)[m := new_SQLConnectionPool n]"
    by (simp add: AddSchema_def vec_resize_def k)
  then show "AddSchema k n [] ! 0 = default_SQLConnectionPool" by simp
  have "unat (- 1 :: u32) = 2 ^ 32 - 1" by (simp add: unsigned_minus_1_eq_mask mask_eq_exp_minus_1)
  then have "SpawnConnections (e 0) default_SQLConnectionPool = None"
    using assms(1) by (simp add: SpawnConnections_def default_SQLConnectionPool_def new_SQLConnectionPool_def InvalidConnectionPool_def)
  then show "SpawnSQLConnections e (AddSchema k n []) = None" by (simp add: a SpawnSQLConnections_def)
qed

text \<open>A schema below one that is there is not added.\<close>

lemma schema_ignored: "k < length db \<Longrightarrow> AddSchema k n db = db"
  by (simp add: AddSchema_def)

end
