(* ===== verification/Sql_Statement.thy ===== *)
theory Sql_Statement
  imports Database
begin

unbundle bit_operations_syntax

text \<open>
  Single statements of the database layer: the parameters (\<^verbatim>\<open>SQLOperationParams\<close>), the result set
  (\<^verbatim>\<open>SQLOperationResultSet\<close>) and \<^verbatim>\<open>SQLStatement::Execute\<close>.  What the calls of the MySQL client library
  answer is an argument; \<^term>\<open>None\<close> is undefined behaviour: a null, wild or out-of-range access.
\<close>

section \<open>Bindings\<close>

datatype enum_field_types =
    MYSQL_TYPE_DECIMAL | MYSQL_TYPE_TINY | MYSQL_TYPE_SHORT | MYSQL_TYPE_LONG | MYSQL_TYPE_FLOAT | MYSQL_TYPE_DOUBLE
  | MYSQL_TYPE_NULL | MYSQL_TYPE_TIMESTAMP | MYSQL_TYPE_LONGLONG | MYSQL_TYPE_INT24 | MYSQL_TYPE_DATE | MYSQL_TYPE_TIME
  | MYSQL_TYPE_DATETIME | MYSQL_TYPE_YEAR | MYSQL_TYPE_NEWDATE | MYSQL_TYPE_VARCHAR | MYSQL_TYPE_BIT | MYSQL_TYPE_NEWDECIMAL
  | MYSQL_TYPE_ENUM | MYSQL_TYPE_SET | MYSQL_TYPE_TINY_BLOB | MYSQL_TYPE_MEDIUM_BLOB | MYSQL_TYPE_LONG_BLOB | MYSQL_TYPE_BLOB
  | MYSQL_TYPE_VAR_STRING | MYSQL_TYPE_STRING | MYSQL_TYPE_GEOMETRY

text \<open>A cell holds a number, or the address of an array of characters of its own.\<close>

datatype cell = Num u64 | Text string

text \<open>A binding points to nothing, to the cell with the same index, or to an array of characters.\<close>

datatype bind_buffer = NoBuffer | DataCell nat | HeapBuffer string

record mysql_bind =
  buffer_type :: enum_field_types
  buffer :: bind_buffer
  buffer_length :: u32
  is_null_value :: bool
  length_value :: u32
  is_unsigned :: bool

definition zero_bind :: mysql_bind where
  "zero_bind = \<lparr>buffer_type = MYSQL_TYPE_DECIMAL, buffer = NoBuffer, buffer_length = 0, is_null_value = False,
     length_value = 0, is_unsigned = False\<rparr>"

text \<open>The member \<^verbatim>\<open>length\<close> of a binding is null throughout, so that the size goes to \<^verbatim>\<open>length_value\<close>.\<close>

definition SetBind :: "enum_field_types \<Rightarrow> bind_buffer \<Rightarrow> bool \<Rightarrow> size_t \<Rightarrow> size_t \<Rightarrow> bool \<Rightarrow> mysql_bind \<Rightarrow> mysql_bind" where
  "SetBind bufferType bufferLocation isUnsigned bufferLength dataSize isNull b =
     b\<lparr>buffer_type := bufferType, buffer := bufferLocation, buffer_length := ucast bufferLength, is_null_value := isNull,
       length_value := (if 0 < dataSize then ucast dataSize else length_value b), is_unsigned := isUnsigned\<rparr>"

section \<open>Parameters\<close>

record SQLOperationParams =
  ParamCount :: u32
  ParamSetBitMask :: u32
  ParamBinds :: "mysql_bind list option"
  ParamData :: "cell list option"

definition empty_Params :: SQLOperationParams where
  "empty_Params = \<lparr>ParamCount = 0, ParamSetBitMask = 0, ParamBinds = None, ParamData = None\<rparr>"

definition ClearParams :: "SQLOperationParams \<Rightarrow> SQLOperationParams" where
  "ClearParams p = p\<lparr>ParamData := (if ParamCount p \<noteq> 0 then None else ParamData p), ParamBinds := None\<rparr>"

text \<open>What the setters share: the bit, the cell and the binding; shifting by 32 or more is undefined.\<close>

definition set_param :: "u8 \<Rightarrow> (cell \<Rightarrow> cell) \<Rightarrow> (mysql_bind \<Rightarrow> mysql_bind) \<Rightarrow> SQLOperationParams \<Rightarrow> SQLOperationParams option" where
  "set_param Index c b p =
     (if 32 \<le> unat Index then None
      else case ParamData p of
          None \<Rightarrow> None
        | Some ds \<Rightarrow>
            (case ParamBinds p of
               None \<Rightarrow> None
             | Some bs \<Rightarrow>
                 if unat Index < length ds \<and> unat Index < length bs then
                   Some (p\<lparr>ParamSetBitMask := ParamSetBitMask p OR push_bit (unat Index) 1,
                           ParamData := Some (ds[unat Index := c (ds ! unat Index)]),
                           ParamBinds := Some (bs[unat Index := b (bs ! unat Index)])\<rparr>)
                 else None))"

text \<open>
  \<^verbatim>\<open>reinterpret_cast<const uint64&>(Value)\<close> reads eight bytes: after the value's \<open>w\<close> bits come the bytes
  \<open>rest\<close> that follow it in memory.
\<close>

definition read_uint64 :: "nat \<Rightarrow> u64 \<Rightarrow> u64 \<Rightarrow> cell" where
  "read_uint64 w rest v = Num (take_bit w v OR push_bit w rest)"

definition set_number :: "enum_field_types \<Rightarrow> bool \<Rightarrow> nat \<Rightarrow> u64 \<Rightarrow> u8 \<Rightarrow> u64 \<Rightarrow> SQLOperationParams \<Rightarrow> SQLOperationParams option" where
  "set_number ty isUnsigned w rest Index v =
     set_param Index (\<lambda>_. read_uint64 w rest v) (SetBind ty (DataCell (unat Index)) isUnsigned 0 0 False)"

definition SetBool :: "u64 \<Rightarrow> u8 \<Rightarrow> bool \<Rightarrow> SQLOperationParams \<Rightarrow> SQLOperationParams option" where
  "SetBool rest Index Value = set_number MYSQL_TYPE_TINY True 8 rest Index (of_bool Value)"

definition SetUInt8 :: "u64 \<Rightarrow> u8 \<Rightarrow> u8 \<Rightarrow> SQLOperationParams \<Rightarrow> SQLOperationParams option" where
  "SetUInt8 rest Index Value = set_number MYSQL_TYPE_TINY True 8 rest Index (ucast Value)"

definition SetUInt16 :: "u64 \<Rightarrow> u8 \<Rightarrow> u16 \<Rightarrow> SQLOperationParams \<Rightarrow> SQLOperationParams option" where
  "SetUInt16 rest Index Value = set_number MYSQL_TYPE_SHORT True 16 rest Index (ucast Value)"

definition SetUInt32 :: "u64 \<Rightarrow> u8 \<Rightarrow> u32 \<Rightarrow> SQLOperationParams \<Rightarrow> SQLOperationParams option" where
  "SetUInt32 rest Index Value = set_number MYSQL_TYPE_LONG True 32 rest Index (ucast Value)"

definition SetUInt64 :: "u8 \<Rightarrow> u64 \<Rightarrow> SQLOperationParams \<Rightarrow> SQLOperationParams option" where
  "SetUInt64 Index Value = set_number MYSQL_TYPE_LONGLONG True 64 0 Index Value"

text \<open>Signed values, floating-point values by their bits.\<close>

definition SetInt8 :: "u64 \<Rightarrow> u8 \<Rightarrow> u8 \<Rightarrow> SQLOperationParams \<Rightarrow> SQLOperationParams option" where
  "SetInt8 rest Index Value = set_number MYSQL_TYPE_TINY False 8 rest Index (ucast Value)"

definition SetInt16 :: "u64 \<Rightarrow> u8 \<Rightarrow> u16 \<Rightarrow> SQLOperationParams \<Rightarrow> SQLOperationParams option" where
  "SetInt16 rest Index Value = set_number MYSQL_TYPE_SHORT False 16 rest Index (ucast Value)"

definition SetInt32 :: "u64 \<Rightarrow> u8 \<Rightarrow> u32 \<Rightarrow> SQLOperationParams \<Rightarrow> SQLOperationParams option" where
  "SetInt32 rest Index Value = set_number MYSQL_TYPE_LONG False 32 rest Index (ucast Value)"

definition SetInt64 :: "u8 \<Rightarrow> u64 \<Rightarrow> SQLOperationParams \<Rightarrow> SQLOperationParams option" where
  "SetInt64 Index Value = set_number MYSQL_TYPE_LONGLONG False 64 0 Index Value"

definition SetFloat :: "u64 \<Rightarrow> u8 \<Rightarrow> u32 \<Rightarrow> SQLOperationParams \<Rightarrow> SQLOperationParams option" where
  "SetFloat rest Index bits =
     set_number MYSQL_TYPE_FLOAT (0 < bits \<and> bits \<le> 0x7F800000) 32 rest Index (ucast bits)"

definition SetDouble :: "u8 \<Rightarrow> u64 \<Rightarrow> SQLOperationParams \<Rightarrow> SQLOperationParams option" where
  "SetDouble Index bits =
     set_number MYSQL_TYPE_DOUBLE (0 < bits \<and> bits \<le> 0x7FF0000000000000) 64 0 Index bits"

definition SetString :: "u8 \<Rightarrow> string \<Rightarrow> SQLOperationParams \<Rightarrow> SQLOperationParams option" where
  "SetString Index Value =
     (let len = of_nat (length Value + 1)
      in set_param Index (\<lambda>_. Text (Value @ [NUL]))
           (SetBind MYSQL_TYPE_VAR_STRING (HeapBuffer (Value @ [NUL])) False len (len - 1) False))"

definition SetBinary :: "u8 \<Rightarrow> string \<Rightarrow> SQLOperationParams \<Rightarrow> SQLOperationParams option" where
  "SetBinary Index Value =
     set_param Index (\<lambda>_. Text Value)
       (SetBind MYSQL_TYPE_BLOB (HeapBuffer Value) False (of_nat (length Value)) (of_nat (length Value)) False)"

definition SetNull :: "u8 \<Rightarrow> SQLOperationParams \<Rightarrow> SQLOperationParams option" where
  "SetNull Index = set_param Index id (SetBind MYSQL_TYPE_NULL NoBuffer False 0 0 True)"

section \<open>Result sets\<close>

record SQLOperationResultSet =
  FieldBinds :: "mysql_bind list option"
  RowCount :: u64
  FieldCount :: u32
  CurrentRowCursor :: u64
  ResultSetData :: "cell list option"

definition empty_ResultSet :: SQLOperationResultSet where
  "empty_ResultSet = \<lparr>FieldBinds = None, RowCount = 0, FieldCount = 0, CurrentRowCursor = 0, ResultSetData = None\<rparr>"

definition is_text :: "enum_field_types \<Rightarrow> bool" where
  "is_text ty = (ty = MYSQL_TYPE_BLOB \<or> ty = MYSQL_TYPE_VAR_STRING)"

text \<open>
  With fields, the bindings are released, and when some field has text, so are the texts of all rows, read
  from the cells.  The counts and the cursor stay.
\<close>

definition ClearResultSet :: "SQLOperationResultSet \<Rightarrow> SQLOperationResultSet option" where
  "ClearResultSet rs =
     (if FieldCount rs \<noteq> 0 then
        case FieldBinds rs of
          None \<Rightarrow> None
        | Some bs \<Rightarrow>
            if length bs < unat (FieldCount rs)
              \<or> (\<exists>b\<in>set bs. is_text (buffer_type b)) \<and> 0 < RowCount rs \<and> ResultSetData rs = None
            then None else Some (rs\<lparr>FieldBinds := None, ResultSetData := None\<rparr>)
      else Some rs)"

definition GetNextRowOfResultSet :: "SQLOperationResultSet \<Rightarrow> bool \<times> SQLOperationResultSet" where
  "GetNextRowOfResultSet rs =
     (if FieldCount rs \<noteq> 0 \<and> CurrentRowCursor rs < RowCount rs
      then (True, rs\<lparr>CurrentRowCursor := CurrentRowCursor rs + 1\<rparr>) else (False, rs))"

text \<open>The cell that the getters read.\<close>

definition result_cell :: "u8 \<Rightarrow> SQLOperationResultSet \<Rightarrow> cell option" where
  "result_cell Index rs =
     (let k = unat ((CurrentRowCursor rs - 1) * ucast (FieldCount rs) + ucast Index)
      in case ResultSetData rs of None \<Rightarrow> None | Some ds \<Rightarrow> if k < length ds then Some (ds ! k) else None)"

text \<open>The numeric getters; the address of a text is not a number of the model.\<close>

definition GetResultUInt64 :: "u8 \<Rightarrow> SQLOperationResultSet \<Rightarrow> u64 option" where
  "GetResultUInt64 Index rs = (case result_cell Index rs of Some (Num v) \<Rightarrow> Some v | _ \<Rightarrow> None)"

definition GetResultBool :: "u8 \<Rightarrow> SQLOperationResultSet \<Rightarrow> bool option" where
  "GetResultBool Index rs = map_option (\<lambda>v. v \<noteq> 0) (GetResultUInt64 Index rs)"

definition GetResultUInt8 :: "u8 \<Rightarrow> SQLOperationResultSet \<Rightarrow> u8 option" where
  "GetResultUInt8 Index rs = map_option ucast (GetResultUInt64 Index rs)"

definition GetResultUInt16 :: "u8 \<Rightarrow> SQLOperationResultSet \<Rightarrow> u16 option" where
  "GetResultUInt16 Index rs = map_option ucast (GetResultUInt64 Index rs)"

definition GetResultUInt32 :: "u8 \<Rightarrow> SQLOperationResultSet \<Rightarrow> u32 option" where
  "GetResultUInt32 Index rs = map_option ucast (GetResultUInt64 Index rs)"

definition GetResultInt8 :: "u8 \<Rightarrow> SQLOperationResultSet \<Rightarrow> int option" where
  "GetResultInt8 Index rs = map_option (\<lambda>v. sint (ucast v :: u8)) (GetResultUInt64 Index rs)"

definition GetResultInt16 :: "u8 \<Rightarrow> SQLOperationResultSet \<Rightarrow> int option" where
  "GetResultInt16 Index rs = map_option (\<lambda>v. sint (ucast v :: u16)) (GetResultUInt64 Index rs)"

definition GetResultInt32 :: "u8 \<Rightarrow> SQLOperationResultSet \<Rightarrow> int option" where
  "GetResultInt32 Index rs = map_option (\<lambda>v. sint (ucast v :: u32)) (GetResultUInt64 Index rs)"

definition GetResultInt64 :: "u8 \<Rightarrow> SQLOperationResultSet \<Rightarrow> int option" where
  "GetResultInt64 Index rs = map_option sint (GetResultUInt64 Index rs)"

text \<open>The string ends at the first null character of the array, which must have one.\<close>

definition GetResultString :: "u8 \<Rightarrow> SQLOperationResultSet \<Rightarrow> string option" where
  "GetResultString Index rs =
     (case result_cell Index rs of
        Some (Text s) \<Rightarrow> if NUL \<in> set s then Some (takeWhile (\<lambda>c. c \<noteq> NUL) s) else None
      | _ \<Rightarrow> None)"

definition GetResultBinary :: "u8 \<Rightarrow> nat \<Rightarrow> SQLOperationResultSet \<Rightarrow> string option" where
  "GetResultBinary Index n rs =
     (if n = 0 \<and> result_cell Index rs \<noteq> None then Some []
      else case result_cell Index rs of
          Some (Text s) \<Rightarrow> if n \<le> length s then Some (take n s) else None
        | _ \<Rightarrow> None)"

record mysql_field =
  field_type :: enum_field_types
  max_length :: nat
  unsigned_flag :: bool

text \<open>\<open>tm\<close> is the size of the library's \<^verbatim>\<open>MYSQL_TIME\<close>.\<close>

definition SizeOfField :: "size_t \<Rightarrow> mysql_field \<Rightarrow> size_t" where
  "SizeOfField tm f =
     (let ty = field_type f
      in if ty = MYSQL_TYPE_NULL then 0
         else if ty = MYSQL_TYPE_TINY then 1
         else if ty \<in> {MYSQL_TYPE_YEAR, MYSQL_TYPE_SHORT} then 2
         else if ty \<in> {MYSQL_TYPE_INT24, MYSQL_TYPE_LONG, MYSQL_TYPE_FLOAT} then 4
         else if ty \<in> {MYSQL_TYPE_DOUBLE, MYSQL_TYPE_LONGLONG, MYSQL_TYPE_BIT} then 8
         else if ty \<in> {MYSQL_TYPE_TIMESTAMP, MYSQL_TYPE_DATE, MYSQL_TYPE_TIME, MYSQL_TYPE_DATETIME} then tm
         else if ty \<in> {MYSQL_TYPE_TINY_BLOB, MYSQL_TYPE_MEDIUM_BLOB, MYSQL_TYPE_LONG_BLOB, MYSQL_TYPE_BLOB,
                        MYSQL_TYPE_STRING, MYSQL_TYPE_VAR_STRING} then of_nat (max_length f) + 1
         else if ty \<in> {MYSQL_TYPE_DECIMAL, MYSQL_TYPE_NEWDECIMAL} then 64
         else 0)"

section \<open>Statements\<close>

text \<open>
  What the library answers to the calls of \<^verbatim>\<open>Execute\<close>: the errors, the number of parameters of the prepared
  statement, whether it expects a result, the fields of the result with the number of rows that
  \<^verbatim>\<open>mysql_num_rows\<close> reports for it, and, for each fetch, what it left in the bound memory.
\<close>

record mysql_reply =
  query_error :: bool
  prepare_error :: bool
  param_count :: u32
  execute_error :: bool
  store_error :: bool
  expects_result :: bool
  result_meta :: "(mysql_field list \<times> u64) option"
  fetched :: "cell list list"

datatype SQLOperationStatus = Success | Failed | Running

text \<open>\<open>PreparedStatement\<close> tells whether the pointer is to a statement; it is wild at first.\<close>

record SQLStatement =
  OperationStatus :: SQLOperationStatus
  SchemaIndex :: u16
  IsStatementRawString :: bool
  RawStringStatement :: string
  PreparedStatement :: bool
  Params :: SQLOperationParams
  Results :: SQLOperationResultSet

definition new_SQLStatement :: "u32 \<Rightarrow> string \<Rightarrow> SQLStatement" where
  "new_SQLStatement schema_idx stmt_string =
     \<lparr>OperationStatus = Running, SchemaIndex = ucast schema_idx, IsStatementRawString = (CHR ''?'' \<notin> set stmt_string),
      RawStringStatement = stmt_string, PreparedStatement = False, Params = empty_Params, Results = empty_ResultSet\<rparr>"

definition clear_statement :: "SQLStatement \<Rightarrow> SQLStatement option" where
  "clear_statement st = map_option (\<lambda>rs. st\<lparr>Params := ClearParams (Params st), Results := rs\<rparr>) (ClearResultSet (Results st))"

definition ResetSchema :: "u32 \<Rightarrow> SQLStatement \<Rightarrow> SQLStatement option" where
  "ResetSchema schema_idx st = map_option (\<lambda>st. st\<lparr>SchemaIndex := ucast schema_idx\<rparr>) (clear_statement st)"

definition ResetStatement :: "string \<Rightarrow> SQLStatement \<Rightarrow> SQLStatement option" where
  "ResetStatement stmt_string st =
     map_option (\<lambda>st. st\<lparr>IsStatementRawString := (CHR ''?'' \<notin> set stmt_string), RawStringStatement := stmt_string\<rparr>) (clear_statement st)"

definition InitializeParamMemory :: "u32 \<Rightarrow> SQLOperationParams \<Rightarrow> SQLOperationParams" where
  "InitializeParamMemory cnt p =
     (if cnt \<noteq> 0 then p\<lparr>ParamCount := cnt, ParamBinds := Some (replicate (unat cnt) zero_bind), ParamData := Some (replicate (unat cnt) (Num 0))\<rparr>
      else p\<lparr>ParamCount := cnt\<rparr>)"

text \<open>The first component is what is passed to \<^verbatim>\<open>mysql_stmt_bind_param\<close>; the status is not used.\<close>

definition InitPreparedStatement :: "mysql_reply \<Rightarrow> SQLStatement \<Rightarrow> mysql_bind list option \<times> SQLStatement" where
  "InitPreparedStatement m st =
     (if prepare_error m then (None, st\<lparr>OperationStatus := Failed\<rparr>)
      else let p = InitializeParamMemory (param_count m) (Params st)
           in (if ParamCount p \<noteq> 0 then ParamBinds p else None, st\<lparr>PreparedStatement := True, Params := p\<rparr>))"

text \<open>The memory bound to a field; what a new array holds does not matter, a fetch overwrites it.\<close>

definition field_bind :: "size_t \<Rightarrow> nat \<Rightarrow> mysql_field \<Rightarrow> mysql_bind" where
  "field_bind tm i f =
     (let n = SizeOfField tm f
      in if is_text (field_type f) then SetBind (field_type f) (HeapBuffer (replicate (unat n) NUL)) False n n False zero_bind
         else SetBind (field_type f) (DataCell i) (unsigned_flag f) 0 0 False zero_bind)"

fun copy_cell :: "mysql_bind \<Rightarrow> cell \<Rightarrow> cell" where
  "copy_cell b (Num v) = Num v"
| "copy_cell b (Text s) = Text (take (unat (buffer_length b)) s)"

text \<open>The loops that copy the fetched rows; the index is computed in 32 bits.\<close>

fun store_fields :: "u32 \<Rightarrow> mysql_bind list \<Rightarrow> cell list \<Rightarrow> cell list \<Rightarrow> cell list option" where
  "store_fields k (b # bs) (c # cs) mem =
     (if unat k < length mem then store_fields (k + 1) bs cs (mem[unat k := copy_cell b c]) else None)"
| "store_fields k _ _ mem = Some mem"

fun store_rows :: "u32 \<Rightarrow> mysql_bind list \<Rightarrow> cell list list \<Rightarrow> u32 \<Rightarrow> cell list \<Rightarrow> cell list option" where
  "store_rows nf bs [] rowIndex mem = Some mem"
| "store_rows nf bs (r # rs) rowIndex mem =
     Option.bind (store_fields (rowIndex * nf) bs r mem) (store_rows nf bs rs (rowIndex + 1))"

definition free_in :: "nat \<Rightarrow> nat \<Rightarrow> SQLDatabase \<Rightarrow> SQLDatabase" where
  "free_in k i db = db[k := (db ! k)\<lparr>Connections := FreeUpConnection i (Connections (db ! k))\<rparr>]"

text \<open>The part of \<^verbatim>\<open>Execute\<close> from the result on, for the connection in place \<open>i\<close>.\<close>

definition take_result :: "size_t \<Rightarrow> mysql_reply \<Rightarrow> nat \<Rightarrow> SQLStatement \<Rightarrow> SQLDatabase \<Rightarrow> (status \<times> SQLStatement \<times> SQLDatabase) option" where
  "take_result tm m i st db =
     (case result_meta m of
        None \<Rightarrow> Some (if expects_result m then (FAILED, st\<lparr>OperationStatus := Failed\<rparr>, db) else (OK, st\<lparr>OperationStatus := Success\<rparr>, db))
      | Some (fs, rows) \<Rightarrow>
          (let nf = of_nat (length fs);
               rs = (Results st)\<lparr>FieldCount := nf, RowCount := rows\<rparr>;
               bs = map2 (field_bind tm) [0..<length fs] fs;
               stored = (if nf = 0 then Some rs
                         else if \<not> PreparedStatement st then None
                         else map_option (\<lambda>mem. rs\<lparr>FieldBinds := Some bs, ResultSetData := Some mem\<rparr>)
                                (store_rows nf bs (fetched m) 0 (replicate (unat (rows * ucast nf)) (Num 0))))
           in map_option (\<lambda>rs.
                (OK, st\<lparr>Results := rs, PreparedStatement := (IsStatementRawString st \<and> PreparedStatement st), OperationStatus := Success\<rparr>,
                 free_in (unat (SchemaIndex st)) i db)) stored))"

text \<open>The second component of the result is what was bound as parameters.\<close>

definition Statement_Execute ::
  "size_t \<Rightarrow> mysql_reply \<Rightarrow> SQLStatement \<Rightarrow> SQLDatabase \<Rightarrow> (status \<times> mysql_bind list option \<times> SQLStatement \<times> SQLDatabase) option" where
  "Statement_Execute tm m st db =
     (case operation_connection (SchemaIndex st) db of
        None \<Rightarrow> None
      | Some (i, db1) \<Rightarrow>
          if IsStatementRawString st then
            if query_error m then Some (FAILED, None, st\<lparr>OperationStatus := Failed\<rparr>, db1)
            else map_option (\<lambda>(r, st', db'). (r, None, st', db')) (take_result tm m i st db1)
          else
            (let (bound, st1) = InitPreparedStatement m st
             in if \<not> PreparedStatement st1 then None
                else if execute_error m \<or> store_error m then Some (FAILED, bound, st1\<lparr>OperationStatus := Failed\<rparr>, db1)
                else map_option (\<lambda>(r, st', db'). (r, bound, st', db')) (take_result tm m i st1 db1)))"

section \<open>The rows of a result\<close>

lemma store_fields_spec:
  assumes "length bs = length cs" "unat k + length cs \<le> length mem" "length mem < 2 ^ 32"
  shows "store_fields k bs cs mem = Some (take (unat k) mem @ map2 copy_cell bs cs @ drop (unat k + length cs) mem)"
  using assms
proof (induction bs cs arbitrary: k mem rule: list_induct2)
  case (Cons b bs c cs)
  have k: "unat (k + 1) = Suc (unat k)" using Cons.prems by (simp add: unat_word_ariths)
  let ?m = "mem[unat k := copy_cell b c]"
  have "store_fields (k + 1) bs cs ?m = Some (take (unat (k + 1)) ?m @ map2 copy_cell bs cs @ drop (unat (k + 1) + length cs) ?m)"
    using Cons.prems k by (intro Cons.IH) simp_all
  moreover have "take (Suc (unat k)) ?m = take (unat k) mem @ [copy_cell b c]"
    using Cons.prems by (simp add: take_Suc_conv_app_nth)
  ultimately show ?case using Cons.prems k by simp
qed simp

lemma store_rows_spec:
  assumes "unat nf = length bs" "bs \<noteq> []" "\<forall>r\<in>set rows. length r = length bs" "length mem = R * length bs"
    "length mem < 2 ^ 32" "unat k \<le> R"
  shows "store_rows nf bs rows k mem =
    (if unat k + length rows \<le> R
     then Some (take (unat k * length bs) mem @ concat (map (map2 copy_cell bs) rows) @ drop ((unat k + length rows) * length bs) mem)
     else None)"
  using assms(3-6)
proof (induction rows arbitrary: k mem)
  case (Cons r rows)
  let ?n = "length bs"
  have n: "0 < ?n" using assms(2) by simp
  have kn: "unat k * ?n \<le> length mem" using Cons.prems by simp
  then have p: "unat (k * nf) = unat k * ?n" using Cons.prems(3) assms(1) by (simp add: unat_word_ariths)
  show ?case
  proof (cases "unat k < R")
    case True
    have "unat k + 1 \<le> R * ?n" using True n by (metis Suc_eq_plus1 Suc_leI le_trans mult_le_mono2 nat_mult_1_right One_nat_def)
    then have k1: "unat (k + 1) = Suc (unat k)" using Cons.prems by (simp add: unat_word_ariths)
    have le: "unat k * ?n + ?n \<le> length mem" using Cons.prems(2) True mult_le_mono1 [of "Suc (unat k)" R ?n] by simp
    let ?m = "take (unat k * ?n) mem @ map2 copy_cell bs r @ drop (unat k * ?n + ?n) mem"
    have f: "store_fields (k * nf) bs r mem = Some ?m"
      using store_fields_spec [of bs r "k * nf" mem] Cons.prems p le by simp
    have l: "length ?m = length mem" using le Cons.prems by simp
    have "take (Suc (unat k) * ?n) ?m = take (unat k * ?n) mem @ map2 copy_cell bs r"
      using le Cons.prems by simp
    moreover have "drop ((Suc (unat k) + length rows) * ?n) ?m = drop ((Suc (unat k) + length rows) * ?n) mem"
      using le Cons.prems by (simp add: algebra_simps)
    moreover have "store_rows nf bs rows (k + 1) ?m =
        (if unat (k + 1) + length rows \<le> R
         then Some (take (unat (k + 1) * ?n) ?m @ concat (map (map2 copy_cell bs) rows) @ drop ((unat (k + 1) + length rows) * ?n) ?m)
         else None)"
      using Cons.prems l True k1 by (intro Cons.IH) simp_all
    ultimately show ?thesis by (simp add: f k1)
  next
    case False
    then have "length mem \<le> unat (k * nf)" using p Cons.prems by simp
    moreover obtain b bs' c cs where "bs = b # bs'" "r = c # cs" using assms(2) Cons.prems(1) by (cases bs; cases r) auto
    ultimately show ?thesis using False Cons.prems(4) by simp
  qed
qed simp

lemma nth_concat_uniform:
  assumes "\<forall>x\<in>set xss. length x = n" "j < length xss" "i < n"
  shows "concat xss ! (j * n + i) = xss ! j ! i"
  using assms
proof (induction xss arbitrary: j)
  case (Cons x xss)
  show ?case
  proof (cases j)
    case (Suc j')
    then have "concat (x # xss) ! (j * n + i) = concat xss ! (j' * n + i)" using Cons.prems by (simp add: nth_append)
    then show ?thesis using Cons Suc by simp
  qed (use Cons.prems in \<open>simp add: nth_append\<close>)
qed simp

lemma length_concat_uniform: "\<forall>x\<in>set xss. length x = n \<Longrightarrow> length (concat xss) = length xss * n"
  by (induction xss) auto

definition advance :: "nat \<Rightarrow> SQLOperationResultSet \<Rightarrow> SQLOperationResultSet" where
  "advance j = (snd \<circ> GetNextRowOfResultSet) ^^ j"

lemma advance_cursor:
  assumes "FieldCount rs \<noteq> 0" "CurrentRowCursor rs = 0" "j \<le> unat (RowCount rs)"
  shows "advance j rs = rs\<lparr>CurrentRowCursor := of_nat j\<rparr>" "fst (GetNextRowOfResultSet (advance j rs)) = (j < unat (RowCount rs))"
proof -
  have u: "unat (of_nat k :: u64) = k" if "k \<le> unat (RowCount rs)" for k
    using that unat_bound [of "RowCount rs"] by (intro unat_of_nat_small) simp
  show a: "advance j rs = rs\<lparr>CurrentRowCursor := of_nat j\<rparr>" using assms
    by (induction j) (use u in \<open>auto simp: advance_def GetNextRowOfResultSet_def word_less_nat_alt algebra_simps\<close>)
  show "fst (GetNextRowOfResultSet (advance j rs)) = (j < unat (RowCount rs))"
    using assms u [of j] by (simp add: a GetNextRowOfResultSet_def word_less_nat_alt)
qed

lemma result_cell_row:
  assumes "FieldCount rs \<noteq> 0" "CurrentRowCursor rs = 0" "Suc j \<le> unat (RowCount rs)" "ResultSetData rs = Some ds"
    "length ds < 2 ^ 32" "j * unat (FieldCount rs) + x < length ds" "x < 256"
  shows "result_cell (of_nat x) (advance (Suc j) rs) = Some (ds ! (j * unat (FieldCount rs) + x))"
proof -
  have j: "unat (of_nat j :: u64) = j" using assms(3) unat_bound [of "RowCount rs"] by (intro unat_of_nat_small) simp
  have x: "unat (ucast (of_nat x :: u8) :: u64) = x" using assms(7) by (simp add: unsigned_ucast_eq unsigned_of_nat take_bit_nat_eq_self)
  have f: "unat (ucast (FieldCount rs) :: u64) = unat (FieldCount rs)"
    using unat_bound [of "FieldCount rs"] by (simp add: unsigned_ucast_eq take_bit_nat_eq_self)
  have p: "unat (of_nat j * ucast (FieldCount rs) :: u64) = j * unat (FieldCount rs)"
    using assms(5,6) j f by (simp add: unat_word_ariths)
  have "unat (of_nat j * ucast (FieldCount rs) + ucast (of_nat x :: u8) :: u64) = j * unat (FieldCount rs) + x"
    using assms(5,6) p x by (subst unat_word_ariths(1)) simp
  then show ?thesis using assms advance_cursor(1) [OF assms(1-3)] by (simp add: result_cell_def)
qed

lemma available_free:
  assumes "i < length cs" "\<not> IsAvaliable (cs ! i)"
  shows "available (FreeUpConnection i cs) = Suc (available cs)"
  using assms
proof (induction cs arbitrary: i)
  case (Cons c cs)
  then show ?case by (cases i) (auto simp: available_def FreeUpConnection_def)
qed simp

lemma free_taken:
  assumes "operation_connection k db = Some (i, db1)"
  shows "available (Connections (free_in (unat k) i db1 ! unat k)) = available (Connections (db ! unat k))"
  using operation_connection_spec [OF assms] available_free by (simp add: free_in_def)

lemma prepared_execute:
  assumes "\<not> IsStatementRawString st" "\<not> prepare_error m" "\<not> execute_error m" "\<not> store_error m"
    "operation_connection (SchemaIndex st) db = Some (i, db1)" "result_meta m = Some (fs, rows)" "fs \<noteq> []"
    "length fs < 2 ^ 32" "unat rows * length fs < 2 ^ 32" "\<forall>r\<in>set (fetched m). length r = length fs"
  shows "Statement_Execute tm m st db =
    (if length (fetched m) \<le> unat rows then
       let p = InitializeParamMemory (param_count m) (Params st); bs = map2 (field_bind tm) [0..<length fs] fs
       in Some (OK, if param_count m \<noteq> 0 then ParamBinds p else None,
            st\<lparr>Params := p, PreparedStatement := False, OperationStatus := Success,
               Results := (Results st)\<lparr>FieldCount := of_nat (length fs), RowCount := rows, FieldBinds := Some bs,
                 ResultSetData := Some (concat (map (map2 copy_cell bs) (fetched m))
                   @ replicate ((unat rows - length (fetched m)) * length fs) (Num 0))\<rparr>\<rparr>,
            free_in (unat (SchemaIndex st)) i db1)
     else None)"
proof -
  let ?bs = "map2 (field_bind tm) [0..<length fs] fs" and ?nf = "of_nat (length fs) :: u32"
  have nf: "unat ?nf = length fs" using assms(8) by (intro unat_of_nat_small) simp
  then have nz: "?nf \<noteq> 0" using assms(7) by auto
  have u: "unat (ucast ?nf :: u64) = length fs" using nf assms(8) by (simp add: unsigned_ucast_eq take_bit_nat_eq_self)
  have len: "unat (rows * ucast ?nf) = unat rows * length fs" using assms(9) u by (simp add: unat_word_ariths)
  have sr: "store_rows ?nf ?bs (fetched m) 0 (replicate (unat (rows * ucast ?nf)) (Num 0)) =
      (if length (fetched m) \<le> unat rows
       then Some (concat (map (map2 copy_cell ?bs) (fetched m)) @ replicate ((unat rows - length (fetched m)) * length fs) (Num 0))
       else None)"
    using store_rows_spec [of ?nf ?bs "fetched m" "replicate (unat (rows * ucast ?nf)) (Num 0)" "unat rows" 0] assms nf len
    by (simp add: diff_mult_distrib)
  show ?thesis using assms(1-6) nz
    by (simp add: Statement_Execute_def InitPreparedStatement_def take_result_def Let_def sr InitializeParamMemory_def)
qed


definition one_open :: SQLDatabase where
  "one_open = [(new_SQLConnectionPool 1)\<lparr>Connections := [\<lparr>MySqlHandle = OpenHandle, IsAvaliable = True, PreparedStatements = []\<rparr>]\<rparr>]"

definition two_rows :: mysql_reply where
  "two_rows = \<lparr>query_error = False, prepare_error = False, param_count = 1, execute_error = False, store_error = False,
     expects_result = True, result_meta = Some ([\<lparr>field_type = MYSQL_TYPE_LONG, max_length = 0, unsigned_flag = True\<rparr>], 2),
     fetched = [[Num 7], [Num 9]]\<rparr>"

lemma one_open_connection:
  "operation_connection 0 one_open = Some (0, [(one_open ! 0)\<lparr>Connections := [\<lparr>MySqlHandle = OpenHandle, IsAvaliable = False, PreparedStatements = []\<rparr>]\<rparr>])"
  by (simp add: operation_connection_def GetAvaliableSQLConnection_def one_open_def)


section \<open>Parameters are lost\<close>

text \<open>
  Parameters: before a statement was executed every setter writes through a null pointer, and
  what \<^verbatim>\<open>Execute\<close> binds is a new array of empty bindings, whatever was set before.  Setting a parameter
  of an executed statement stores the value and the binding under its index and leaves the others.
\<close>

theorem parameters_lost:
  assumes "\<not> IsStatementRawString st" "Statement_Execute tm m st db = Some (r, bound, st', db')"
    "param_count m \<noteq> 0" "\<not> prepare_error m" "unat Index < unat (param_count m)" "unat Index < 32"
  shows "bound = Some (replicate (unat (param_count m)) zero_bind)
    \<and> set_param Index c b (Params (new_SQLStatement k s)) = None
    \<and> (\<exists>p. SetUInt64 Index v (Params st') = Some p
         \<and> ParamData p = Some ((replicate (unat (param_count m)) (Num 0))[unat Index := Num v])
         \<and> bit (ParamSetBitMask p) (unat Index))"
proof -
  let ?p = "InitializeParamMemory (param_count m) (Params st)"
  have b: "bound = Some (replicate (unat (param_count m)) zero_bind) \<and> Params st' = ?p"
    using assms(1-4)
    by (auto simp: Statement_Execute_def InitPreparedStatement_def InitializeParamMemory_def take_result_def Let_def
        split: option.splits if_splits)
  have "set_param Index c b (Params (new_SQLStatement k s)) = None"
    by (simp add: set_param_def new_SQLStatement_def empty_Params_def)
  moreover have "take_bit 64 v = v" using take_bit_length_eq [of v] by simp
  ultimately show ?thesis using b assms(3,5,6)
    by (simp add: SetUInt64_def set_number_def set_param_def InitializeParamMemory_def read_uint64_def bit_or_iff bit_exp_iff)
qed

theorem parameters_lost_witness:
  "\<exists>r st' db' p. Statement_Execute 40 two_rows (new_SQLStatement 0 ''SELECT ?'') one_open = Some (r, Some [zero_bind], st', db')
     \<and> set_param 0 id id (Params (new_SQLStatement 0 ''SELECT ?'')) = None
     \<and> SetUInt64 0 5 (Params st') = Some p \<and> ParamData p = Some [Num 5] \<and> bit (ParamSetBitMask p) 0"
proof -
  let ?st = "new_SQLStatement 0 ''SELECT ?''" and ?f = "\<lparr>field_type = MYSQL_TYPE_LONG, max_length = 0, unsigned_flag = True\<rparr>"
  have "\<exists>bound st' db'. Statement_Execute 40 two_rows ?st one_open = Some (OK, bound, st', db')"
    using prepared_execute [of ?st two_rows one_open 0 _ "[?f]" 2 40] one_open_connection
    by (simp add: new_SQLStatement_def two_rows_def Let_def)
  then obtain bound st' db' where e: "Statement_Execute 40 two_rows ?st one_open = Some (OK, bound, st', db')" by blast
  have "bound = Some (replicate (unat (param_count two_rows)) zero_bind) \<and> set_param 0 id id (Params ?st) = None
    \<and> (\<exists>p. SetUInt64 0 5 (Params st') = Some p
         \<and> ParamData p = Some ((replicate (unat (param_count two_rows)) (Num 0))[unat (0 :: u8) := Num 5])
         \<and> bit (ParamSetBitMask p) (unat (0 :: u8)))"
    by (intro parameters_lost [OF _ e]) (simp_all add: new_SQLStatement_def two_rows_def)
  then show ?thesis using e by (auto simp: two_rows_def)
qed

section \<open>Connections that are not given back, and statements used twice\<close>

definition gives_back :: "mysql_reply \<Rightarrow> SQLStatement \<Rightarrow> bool" where
  "gives_back m st \<longleftrightarrow> result_meta m \<noteq> None
     \<and> (if IsStatementRawString st then \<not> query_error m else \<not> execute_error m \<and> \<not> store_error m)"

lemma execute_connection:
  assumes "Statement_Execute tm m st db = Some (r, bound, st', db')"
  obtains i db1 where "operation_connection (SchemaIndex st) db = Some (i, db1)"
    "db' = (if gives_back m st then free_in (unat (SchemaIndex st)) i db1 else db1)"
    "r = OK \<Longrightarrow> gives_back m st \<or> result_meta m = None"
    "CurrentRowCursor (Results st') = CurrentRowCursor (Results st)" "IsStatementRawString st' = IsStatementRawString st"
proof -
  obtain i db1 where o: "operation_connection (SchemaIndex st) db = Some (i, db1)"
    using assms by (auto simp: Statement_Execute_def split: option.splits)
  show thesis using that [OF o] assms o
    by (auto simp: Statement_Execute_def InitPreparedStatement_def take_result_def Let_def gives_back_def
        split: option.splits if_splits)
qed

lemma reset_fields:
  assumes "ResetStatement s st = Some st2"
  shows "CurrentRowCursor (Results st2) = CurrentRowCursor (Results st)" "FieldCount (Results st2) = FieldCount (Results st)"
    "FieldCount (Results st) \<noteq> 0 \<Longrightarrow> FieldBinds (Results st2) = None"
  using assms by (auto simp: ResetStatement_def clear_statement_def ClearResultSet_def split: if_splits option.splits)

text \<open>
  Connections and reuse of statements: \<^verbatim>\<open>Execute\<close> gives its connection back exactly when there
  is a result and no error; after an error, and after every statement without a result, the
  connection stays taken although the call may report success.  A statement that had a result can be
  reset only once, the second time uses the released bindings; and the row cursor is not reset, so that
  once the rows of a result were read, a later result of the reset statement with no more rows than that
  has no row to read.
\<close>

theorem statement_connections:
  assumes "Statement_Execute tm m st db = Some (r, bound, st', db')" "ResetStatement s st = Some st2" "FieldCount (Results st) \<noteq> 0"
    "Statement_Execute tm m2 st2 db2 = Some (r2, bound2, st3, db3)" "RowCount (Results st3) \<le> CurrentRowCursor (Results st)"
  shows "available (Connections (db ! unat (SchemaIndex st))) = available (Connections (db' ! unat (SchemaIndex st))) + (if gives_back m st then 0 else 1)
    \<and> ResetStatement s2 st2 = None
    \<and> \<not> fst (GetNextRowOfResultSet (Results st3))"
proof -
  obtain i db1 where o: "operation_connection (SchemaIndex st) db = Some (i, db1)"
    and d: "db' = (if gives_back m st then free_in (unat (SchemaIndex st)) i db1 else db1)"
    by (rule execute_connection [OF assms(1)])
  have "CurrentRowCursor (Results st3) = CurrentRowCursor (Results st)"
    using execute_connection [OF assms(4)] reset_fields(1) [OF assms(2)] by metis
  then have "\<not> fst (GetNextRowOfResultSet (Results st3))" using assms(5) by (simp add: GetNextRowOfResultSet_def not_less)
  moreover have "ResetStatement s2 st2 = None" using reset_fields(2,3) [OF assms(2)] assms(3)
    by (simp add: ResetStatement_def clear_statement_def ClearResultSet_def)
  ultimately show ?thesis using d free_taken [OF o] operation_connection_spec(3) [OF o] by simp
qed

text \<open>A statement whose two rows were read, and a reply without a result.\<close>

definition read_statement :: SQLStatement where
  "read_statement = (new_SQLStatement 0 ''SELECT ?'')\<lparr>Results := \<lparr>FieldBinds = Some [zero_bind], RowCount = 2, FieldCount = 1,
     CurrentRowCursor = 2, ResultSetData = Some [Num 7, Num 9]\<rparr>\<rparr>"

definition no_result :: mysql_reply where
  "no_result = two_rows\<lparr>expects_result := False, result_meta := None, fetched := []\<rparr>"

theorem statement_connections_witness:
  "\<exists>st' db' st2 st3 db3. Statement_Execute 40 no_result read_statement one_open = Some (OK, Some [zero_bind], st', db')
     \<and> available (Connections (db' ! 0)) = 0
     \<and> ResetStatement ''SELECT ?'' read_statement = Some st2 \<and> ResetStatement ''SELECT ?'' st2 = None
     \<and> Statement_Execute 40 two_rows st2 one_open = Some (OK, Some [zero_bind], st3, db3)
     \<and> \<not> fst (GetNextRowOfResultSet (Results st3))"
proof -
  let ?f = "\<lparr>field_type = MYSQL_TYPE_LONG, max_length = 0, unsigned_flag = True\<rparr>"
  have sch: "SchemaIndex read_statement = 0" "\<not> IsStatementRawString read_statement" "FieldCount (Results read_statement) \<noteq> 0"
    "CurrentRowCursor (Results read_statement) = 2" by (simp_all add: read_statement_def new_SQLStatement_def)
  obtain st' db' where a: "Statement_Execute 40 no_result read_statement one_open = Some (OK, Some [zero_bind], st', db')"
    using one_open_connection sch
    by (simp add: Statement_Execute_def InitPreparedStatement_def take_result_def no_result_def two_rows_def InitializeParamMemory_def)
  obtain st2 where b: "ResetStatement ''SELECT ?'' read_statement = Some st2" "SchemaIndex st2 = 0" "\<not> IsStatementRawString st2"
    by (simp add: ResetStatement_def clear_statement_def ClearResultSet_def read_statement_def new_SQLStatement_def is_text_def zero_bind_def)
  obtain st3 db3 where c: "Statement_Execute 40 two_rows st2 one_open = Some (OK, Some [zero_bind], st3, db3)" "RowCount (Results st3) = 2"
    using prepared_execute [of st2 two_rows one_open 0 _ "[?f]" 2 40] one_open_connection b(2,3)
    by (simp add: two_rows_def Let_def InitializeParamMemory_def)
  have "available (Connections (one_open ! unat (SchemaIndex read_statement)))
        = available (Connections (db' ! unat (SchemaIndex read_statement))) + (if gives_back no_result read_statement then 0 else 1)
      \<and> ResetStatement ''SELECT ?'' st2 = None \<and> \<not> fst (GetNextRowOfResultSet (Results st3))"
    using sch c(2) by (intro statement_connections [OF a b(1) _ c(1)]) simp_all
  moreover have "\<not> gives_back no_result read_statement" "available (Connections (one_open ! 0)) = 1"
    by (simp_all add: gives_back_def no_result_def one_open_def available_def)
  ultimately show ?thesis using a b c sch by auto
qed

end
