(* ===== verification/Login_Service.thy ===== *)
theory Login_Service
  imports Config_Files Crc_Hex
begin

unbundle bit_operations_syntax

text \<open>
  The login service of the server (\<^verbatim>\<open>Source/Server\<close>): its start from the configuration, the two HTTP
  handlers with the plugin that changes the status of a response, the hash of a password, and the
  handles of realms.  gSOAP, the JSON conversion, SHA-256, the address resolver and the locale's
  upper-case conversion are not part of the sources: they are arguments.
\<close>

section \<open>Realm handles\<close>

record RealmHandle =
  Region :: u8
  Site :: u8
  Realm :: u32

definition RealmHandle_empty :: RealmHandle where
  "RealmHandle_empty = \<lparr>Region = 0, Site = 0, Realm = 0\<rparr>"

definition RealmHandle_of_address :: "u32 \<Rightarrow> RealmHandle" where
  "RealmHandle_of_address realmAddress =
     \<lparr>Region = ucast (drop_bit 24 realmAddress AND 0xFF), Site = ucast (drop_bit 16 realmAddress AND 0xFF),
      Realm = realmAddress AND 0xFFFF\<rparr>"

definition realm_less :: "RealmHandle \<Rightarrow> RealmHandle \<Rightarrow> bool" where
  "realm_less l r \<longleftrightarrow> Realm l < Realm r"

definition GetAddress :: "RealmHandle \<Rightarrow> u32" where
  "GetAddress h = (push_bit 24 (ucast (Region h)) OR push_bit 16 (ucast (Site h))) OR ucast (ucast (Realm h) :: u16)"

definition GetAddressString :: "RealmHandle \<Rightarrow> string" where
  "GetAddressString h = dec (unat (Region h)) @ ''-'' @ dec (unat (Site h)) @ ''-'' @ dec (unat (Realm h))"

definition GetSubRegionAddress :: "RealmHandle \<Rightarrow> string" where
  "GetSubRegionAddress h = dec (unat (Region h)) @ ''-'' @ dec (unat (Site h)) @ ''-0''"

section \<open>Password hashes\<close>

text \<open>\<open>sha256\<close> is the digest of a text as the library computes it; a hash object holds what was appended and the digest.\<close>

record SHA256Hash =
  Appended :: string
  Digest :: "u8 list"

definition new_SHA256Hash :: SHA256Hash where
  "new_SHA256Hash = \<lparr>Appended = [], Digest = replicate 32 0\<rparr>"

definition AppendData :: "string \<Rightarrow> SHA256Hash \<Rightarrow> SHA256Hash" where
  "AppendData s h = h\<lparr>Appended := Appended h @ s\<rparr>"

definition SHA256_Initialize :: "SHA256Hash \<Rightarrow> SHA256Hash" where
  "SHA256_Initialize h = h\<lparr>Appended := []\<rparr>"

definition CalculateHash :: "(string \<Rightarrow> u8 list) \<Rightarrow> SHA256Hash \<Rightarrow> SHA256Hash" where
  "CalculateHash sha256 h = h\<lparr>Digest := sha256 (Appended h)\<rparr>"

definition HexMap :: string where
  "HexMap = ''0123456789ABCDEF''"

definition GetHexString :: "SHA256Hash \<Rightarrow> string option" where
  "GetHexString h =
     (if 32 \<le> length (Digest h)
      then Some (concat (map (\<lambda>i. [HexMap ! unat (drop_bit 4 (Digest h ! i AND 0xF0)), HexMap ! unat (Digest h ! i AND 0x0F)]) [0..<32]))
      else None)"

definition CalculateShaPassHash :: "(string \<Rightarrow> u8 list) \<Rightarrow> string \<Rightarrow> string \<Rightarrow> string option" where
  "CalculateShaPassHash sha256 name password =
     (let email = CalculateHash sha256 (AppendData name new_SHA256Hash)
      in Option.bind (ByteArrayToHexStr (Digest email) 32 False) (\<lambda>hex.
        (let sha = CalculateHash sha256 (AppendData password (AppendData '':'' (AppendData hex new_SHA256Hash)))
         in ByteArrayToHexStr (Digest sha) 32 True)))"

section \<open>Messages\<close>

record FormInput =
  inputId :: string
  input_type :: string
  label :: string
  maxLength :: u32

datatype AuthenticationState = LOGIN | LEGAL | AUTHENTICATOR | DONE

record LoginResult =
  authenticationState :: AuthenticationState
  errorCode :: string
  errorMessage :: string

text \<open>What the service sends: the form or the result of a login.\<close>

datatype login_message = Form "FormInput list" | Result LoginResult

definition login_form :: "FormInput list" where
  "login_form =
     [\<lparr>inputId = ''account_name'', input_type = ''text'', label = ''E-mail'', maxLength = 320\<rparr>,
      \<lparr>inputId = ''password'', input_type = ''password'', label = ''Password'', maxLength = 16\<rparr>,
      \<lparr>inputId = ''log_in_submit'', input_type = ''submit'', label = ''Log In'', maxLength = 0\<rparr>]"

definition unable_to_decode :: LoginResult where
  "unable_to_decode = \<lparr>authenticationState = LOGIN, errorCode = ''UNABLE_TO_DECODE'',
     errorMessage = ''There was an internal error while connecting to Battle.net. Please try again later.''\<rparr>"

section \<open>Requests\<close>

text \<open>
  A connection of the SOAP library: the path of the request, the function that writes the head of a
  response (the library's or the plugin's), the registered plugins with the function each has saved and
  its error code, newest first, and what was sent: the status given to the library's function and the text.
\<close>

datatype response_function = HttpResponse | ChangeResponse

record soap =
  path :: string
  fresponse :: response_function
  plugins :: "(response_function \<times> int) list"
  responses :: "(int \<times> string) list"

definition SOAP_FILE :: int where "SOAP_FILE = 1003"

definition Plugin_Init :: "soap \<Rightarrow> soap" where
  "Plugin_Init s = s\<lparr>plugins := (fresponse s, 0) # plugins s, fresponse := ChangeResponse\<rparr>"

definition Plugin_Destroy :: "soap \<Rightarrow> soap" where
  "Plugin_Destroy s = (case plugins s of [] \<Rightarrow> s | (f, e) # ps \<Rightarrow> s\<lparr>fresponse := f, plugins := ps\<rparr>)"

text \<open>
  The status that reaches the library.  The plugin looks itself up and calls the function it has
  saved; when that is the plugin's own function the calls never end, which is \<^term>\<open>None\<close>, as is a missing plugin.
\<close>

definition response_status :: "soap \<Rightarrow> int \<Rightarrow> int option" where
  "response_status s originalResponse =
     (case fresponse s of
        HttpResponse \<Rightarrow> Some originalResponse
      | ChangeResponse \<Rightarrow>
          (case plugins s of
             (HttpResponse, e) # _ \<Rightarrow> Some (if e \<noteq> 0 \<and> originalResponse = SOAP_FILE then e else originalResponse)
           | _ \<Rightarrow> None))"

text \<open>\<open>json\<close> is the text of a message, \<open>end_send\<close> what the library returns at the end.\<close>

definition SendResponse :: "(login_message \<Rightarrow> string) \<Rightarrow> int \<Rightarrow> login_message \<Rightarrow> soap \<Rightarrow> (int \<times> soap) option" where
  "SendResponse json end_send m s =
     map_option (\<lambda>st. (end_send, s\<lparr>responses := responses s @ [(st, json m)]\<rparr>)) (response_status s SOAP_FILE)"

definition expectedPath :: string where
  "expectedPath = ''/bnetserver/login/''"

definition HandleGet :: "(login_message \<Rightarrow> string) \<Rightarrow> int \<Rightarrow> soap \<Rightarrow> (int \<times> soap) option" where
  "HandleGet json end_send s =
     (if strstr (path s) expectedPath \<noteq> Some 0 then Some (404, s)
      else map_option (\<lambda>(r, s'). (0, s')) (SendResponse json end_send (Form login_form) s))"

text \<open>The loop over the inputs of the form; a later input replaces an earlier one.\<close>

fun form_values :: "(string \<times> string) list \<Rightarrow> string \<times> string \<Rightarrow> string \<times> string" where
  "form_values [] (login, password) = (login, password)"
| "form_values ((i, v) # xs) (login, password) =
     form_values xs (if i = ''account_name'' then (v, password) else if i = ''password'' then (login, v) else (login, password))"

text \<open>
  \<^verbatim>\<open>JsonToMessage\<close> reports whether the conversion succeeded; \<open>parse\<close> is the conversion to the inputs of the form.
\<close>

definition JsonToMessage :: "(string \<Rightarrow> (string \<times> string) list option) \<Rightarrow> string \<Rightarrow> bool \<times> (string \<times> string) list" where
  "JsonToMessage parse text = (case parse text of None \<Rightarrow> (False, []) | Some xs \<Rightarrow> (True, xs))"

text \<open>
  \<open>body\<close> is the body of the request, which the library leaves null when it cannot read it, and \<open>register_ok\<close>
  whether there was memory for the plugin.  The last component of the result are the upper-cased name and
  password of the form, which are not used.
\<close>

definition HandlePost ::
  "(login_message \<Rightarrow> string) \<Rightarrow> int \<Rightarrow> (string \<Rightarrow> (string \<times> string) list option) \<Rightarrow> (string \<Rightarrow> string)
     \<Rightarrow> bool \<Rightarrow> string option \<Rightarrow> soap \<Rightarrow> (int \<times> soap \<times> (string \<times> string) option) option" where
  "HandlePost json end_send parse upper register_ok body s =
     (if strstr (path s) expectedPath \<noteq> Some 0 then Some (404, s, None)
      else (case body of
              None \<Rightarrow> None
            | Some Buffer \<Rightarrow>
                (let (decoded, inputs) = JsonToMessage parse Buffer
                 in if decoded then
                      if \<not> register_ok then Some (500, s, None)
                      else let s1 = Plugin_Init s; s2 = s1\<lparr>plugins := (fst (hd (plugins s1)), 400) # tl (plugins s1)\<rparr>
                           in map_option (\<lambda>(r, s'). (r, s', None)) (SendResponse json end_send (Result unable_to_decode) s2)
                    else let (login, password) = form_values inputs ([], [])
                         in Some (0, s, Some (upper login, upper password)))))"

section \<open>Start\<close>

record 'ep LoginService =
  IPAddress :: string
  BindIP :: string
  Port :: int
  ExternalAddress :: "'ep option"
  LocalAddress :: "'ep option"
  LoginFormInputs :: "FormInput list"

text \<open>
  A getter leaves its argument when the key is missing.  \<open>bits\<close> is the width of \<^verbatim>\<open>long\<close>, \<open>resolve\<close> the
  address resolver.  \<^term>\<open>Inl\<close> is the return of the function; \<^term>\<open>Inr\<close> that the service runs, from which
  the function does not return.
\<close>

definition Login_Start ::
  "nat \<Rightarrow> (string \<Rightarrow> string \<Rightarrow> 'ep option) \<Rightarrow> config \<Rightarrow> 'ep LoginService \<Rightarrow> bool \<times> 'ep LoginService + 'ep LoginService" where
  "Login_Start bits resolve cs ls =
     (let ls1 = ls\<lparr>BindIP := ''0.0.0.0'',
                   IPAddress := (case GetString ''LoginService.Initialization.IPAddress'' cs of None \<Rightarrow> IPAddress ls | Some v \<Rightarrow> v)\<rparr>;
          external = (case GetString ''LoginService.Initialization.ExternalIPAddress'' cs of None \<Rightarrow> [] | Some v \<Rightarrow> v);
          local_addr = (case GetString ''LoginService.Initialization.LocalIPAddress'' cs of None \<Rightarrow> [] | Some v \<Rightarrow> v);
          port = (case GetInt bits ''LoginService.Initialization.Port'' cs of None \<Rightarrow> Port ls | Some v \<Rightarrow> v);
          port = (if port < 0 \<or> port > 0xFFFF then 8081 else port);
          ls2 = ls1\<lparr>Port := port\<rparr>
      in case resolve external (dec_int port) of
           None \<Rightarrow> Inl (False, ls2)
         | Some e \<Rightarrow>
             (case resolve local_addr (dec_int port) of
                None \<Rightarrow> Inl (False, ls2\<lparr>ExternalAddress := Some e\<rparr>)
              | Some l \<Rightarrow> Inr (ls2\<lparr>ExternalAddress := Some e, LocalAddress := Some l, LoginFormInputs := LoginFormInputs ls @ login_form\<rparr>)))"

text \<open>The main program loads both files, and starts the service whatever that gives.\<close>

definition Server_main ::
  "(string \<Rightarrow> string option) \<Rightarrow> nat \<Rightarrow> (string \<Rightarrow> string \<Rightarrow> 'ep option) \<Rightarrow> config \<Rightarrow> 'ep LoginService
     \<Rightarrow> bool \<times> 'ep LoginService + 'ep LoginService" where
  "Server_main fopen_r bits resolve cs ls =
     Login_Start bits resolve (snd (Load fopen_r ''LoginService.ini'' (snd (Load fopen_r ''config.ini'' cs)))) ls"

section \<open>Addresses of realms\<close>

lemma word_low_bits: "(x :: u32) AND 0xFF = take_bit 8 x" "(x :: u32) AND 0xFFFF = take_bit 16 x" "(b :: u8) AND 0x0F = take_bit 4 b"
  by (simp_all add: take_bit_eq_mask mask_eq_exp_minus_1)

text \<open>
  An address and the handle it stands for determine each other; a handle with a realm number of more
  than 16 bits loses the upper ones.
\<close>

lemma realm_address_roundtrip:
  "GetAddress (RealmHandle_of_address a) = a"
  "RealmHandle_of_address (GetAddress h) = h\<lparr>Realm := Realm h AND 0xFFFF\<rparr>"
proof -
  note bits = GetAddress_def RealmHandle_of_address_def word_low_bits bit_or_iff bit_push_bit_iff bit_ucast_iff bit_drop_bit_eq bit_take_bit_iff
  show "GetAddress (RealmHandle_of_address a) = a"
  proof (rule bit_word_eqI)
    fix n assume "n < LENGTH(32)"
    then consider "n < 16" | "16 \<le> n" "n < 24" | "24 \<le> n" "n < 32" by fastforce
    then show "bit (GetAddress (RealmHandle_of_address a)) n \<longleftrightarrow> bit a n" by cases (auto simp: bits)
  qed
  have "Region (RealmHandle_of_address (GetAddress h)) = Region h"
    by (rule bit_word_eqI) (auto simp: bits dest: bit_imp_le_length)
  moreover have "Site (RealmHandle_of_address (GetAddress h)) = Site h"
    by (rule bit_word_eqI) (auto simp: bits dest: bit_imp_le_length)
  moreover have "Realm (RealmHandle_of_address (GetAddress h)) = Realm h AND 0xFFFF"
    by (rule bit_word_eqI) (auto simp: bits)
  ultimately show "RealmHandle_of_address (GetAddress h) = h\<lparr>Realm := Realm h AND 0xFFFF\<rparr>" by simp
qed

section \<open>Password hashes as text\<close>

lemma hex_map_byte: "[HexMap ! unat (drop_bit 4 (b AND 0xF0)), HexMap ! unat (b AND 0x0F)] = hex_byte b"
proof -
  have "\<forall>d\<in>set [0..<16]. HexMap ! d = hex_digit d" by code_simp
  then have m: "HexMap ! d = hex_digit d" if "d < 16" for d using that by auto
  have lo: "unat (b AND 0x0F) = unat b mod 16"
    by (simp only: word_low_bits unsigned_take_bit_eq) (simp add: take_bit_eq_mod)
  have "drop_bit 4 (b AND 0xF0) = take_bit 4 (drop_bit 4 b)" by (simp add: drop_bit_and flip: word_low_bits)
  then have "unat (drop_bit 4 (b AND 0xF0)) = unat b div 16 mod 16"
    by (simp only: unsigned_take_bit_eq unat_drop_bit_eq) (simp add: take_bit_eq_mod drop_bit_eq_div)
  moreover have "unat b div 16 < 16" using unat_bound [of b] by simp
  ultimately show ?thesis using m [of "unat b div 16"] m [of "unat b mod 16"] lo by (simp add: hex_byte_def)
qed

lemma hex_of_digest:
  assumes "length d = 32"
  shows "ByteArrayToHexStr d 32 r = Some (concat (map hex_byte (if r then rev d else d)))"
proof -
  have "map (\<lambda>i. hex_byte (d ! i)) (loop_indices 32 r) = map hex_byte (if r then rev d else d)"
    using arg_cong [OF loop_indices_nth [of d r], of "map hex_byte"] assms by (simp add: comp_def)
  then show ?thesis using assms by (simp add: ByteArrayToHexStr_def)
qed

lemma hex_text_inject:
  assumes "concat (map hex_byte xs) = concat (map hex_byte ys)" "length xs < 2 ^ 30" "length ys = length xs"
  shows "xs = ys"
proof -
  have "blit 0 xs (replicate (length xs) 0) = blit 0 ys (replicate (length xs) 0)"
    using hex_decode [of xs "replicate (length xs) 0" False] hex_decode [of ys "replicate (length xs) 0" False] assms by simp
  then show ?thesis using assms(3) by (simp add: blit_def)
qed

text \<open>
  The hash of a name and a password: 64 hexadecimal characters, the digest of the text digest of the
  name, a colon and the password, with the bytes in reverse; two hashes are equal exactly when the
  digests are.  \<^verbatim>\<open>GetHexString\<close> and \<^verbatim>\<open>ByteArrayToHexStr\<close> print a digest alike.
\<close>

theorem password_hash:
  assumes "\<forall>s. length (sha256 s) = 32"
  defines "digest \<equiv> \<lambda>n p. sha256 (concat (map hex_byte (sha256 n)) @ '':'' @ p)"
  shows "CalculateShaPassHash sha256 n p = Some (concat (map hex_byte (rev (digest n p))))
    \<and> length (concat (map hex_byte (rev (digest n p)))) = 64
    \<and> (CalculateShaPassHash sha256 n p = CalculateShaPassHash sha256 n' p' \<longleftrightarrow> digest n p = digest n' p')
    \<and> GetHexString (CalculateHash sha256 h) = ByteArrayToHexStr (sha256 (Appended h)) 32 False"
proof -
  have v: "CalculateShaPassHash sha256 n p = Some (concat (map hex_byte (rev (digest n p))))" for n p
    using assms(1) by (simp add: CalculateShaPassHash_def CalculateHash_def AppendData_def new_SHA256Hash_def hex_of_digest digest_def)
  moreover have "concat (map hex_byte (rev (digest n p))) = concat (map hex_byte (rev (digest n' p'))) \<longleftrightarrow> digest n p = digest n' p'"
    using hex_text_inject [of "rev (digest n p)" "rev (digest n' p')"] assms by auto
  moreover have "length (concat (map hex_byte (rev (digest n p)))) = 64" using length_concat_hex [of "rev (digest n p)"] assms by simp
  moreover have "GetHexString (CalculateHash sha256 h) = ByteArrayToHexStr (sha256 (Appended h)) 32 False"
    using assms(1) unfolding GetHexString_def CalculateHash_def hex_map_byte by (simp add: ByteArrayToHexStr_def loop_indices_def)
  ultimately show ?thesis by (simp only: option.inject)
qed

section \<open>Requests of a client\<close>



section \<open>Start of the server\<close>

lemma config_ini_loaded: "g \<noteq> ''config'' \<Longrightarrow> Find g (snd (Load fopen_r ''config.ini'' [])) = None"
  by (auto simp: Load_def Find_def LoadFile_Filename stem_def split: prod.splits dest!: arg_cong [of _ _ "\<lambda>x. Filename (snd x)"])

text \<open>
  Claim C39.  The start of the server, from its configuration files to the running service: when the file
  \<^verbatim>\<open>LoginService.ini\<close> holds a document with the external address, the local address and a port, both
  addresses are looked up with the port, or with port 8081 when the number is not between 0 and 65535,
  and the service runs with the results and the three inputs of the form; when either cannot be resolved
  the start fails.
\<close>

theorem server_start:
  assumes "fopen_r ''LoginService.ini'' = Some (render d)" "doc_ok d"
    "spec_value None (values_of ''initialization.externalipaddress'' (doc_entries d)) = Some ext"
    "spec_value None (values_of ''initialization.localipaddress'' (doc_entries d)) = Some loc"
    "values_of ''initialization.port'' (doc_entries d) = [dec n]" "0 < n" "n < 2 ^ 31"
    "LoginFormInputs ls = []" "bits = 32 \<or> bits = 64"
  shows "let port = (if n \<le> 65535 then dec n else dec 8081) in
    case resolve ext port of
      None \<Rightarrow> (\<exists>ls'. Server_main fopen_r bits resolve [] ls = Inl (False, ls'))
    | Some e \<Rightarrow>
        (case resolve loc port of
           None \<Rightarrow> (\<exists>ls'. Server_main fopen_r bits resolve [] ls = Inl (False, ls'))
         | Some l \<Rightarrow> (\<exists>ls'. Server_main fopen_r bits resolve [] ls = Inr ls' \<and> Port ls' = (if n \<le> 65535 then int n else 8081)
             \<and> ExternalAddress ls' = Some e \<and> LocalAddress ls' = Some l \<and> LoginFormInputs ls' = login_form \<and> BindIP ls' = ''0.0.0.0''))"
proof -
  let ?cs = "snd (Load fopen_r ''config.ini'' [])" and ?f = "''LoginService.ini''"
  let ?cs' = "snd (Load fopen_r ?f ?cs)"
  have st: "stem ?f = ''LoginService''" by (simp add: stem_def)
  have nf: "Find ?f ?cs = None" "Find (stem ?f) ?cs = None" using config_ini_loaded st by simp_all
  have lk: "GetString (''LoginService'' @ ''.'' @ key) ?cs' = spec_value None (values_of (lower_string key) (doc_entries d))" for key
    using loaded_lookup [of fopen_r ?f d ?cs key] assms(1,2) nf st by simp
  have "lower_string ''Initialization.ExternalIPAddress'' = ''initialization.externalipaddress''"
    "lower_string ''Initialization.LocalIPAddress'' = ''initialization.localipaddress''"
    "lower_string ''Initialization.Port'' = ''initialization.port''" by code_simp+
  note low = this
  have ext: "GetString ''LoginService.Initialization.ExternalIPAddress'' ?cs' = Some ext"
    using lk [of "''Initialization.ExternalIPAddress''"] low(1) assms(3) by simp
  have loc: "GetString ''LoginService.Initialization.LocalIPAddress'' ?cs' = Some loc"
    using lk [of "''Initialization.LocalIPAddress''"] low(2) assms(4) by simp
  have "GetInt bits (stem ?f @ ''.'' @ ''Initialization.Port'') ?cs' = Some (int n)"
    using config_number [of fopen_r ?f d ?cs "''Initialization.Port''" n bits] assms nf low(3) by simp
  then have port: "GetInt bits ''LoginService.Initialization.Port'' ?cs' = Some (int n)" by (simp add: st)
  show ?thesis using assms(8)
    by (simp add: Server_main_def Login_Start_def ext loc port Let_def dec_int_def split: option.splits)
qed

text \<open>The configuration that comes with the server.\<close>

definition login_ini :: ini_doc where
  "login_ini = [(''Initialization'', [(''IPAddress'', ''127.0.0.1''), (''ExternalIPAddress'', ''127.0.0.1''), (''LocalIPAddress'', ''127.0.0.1''),
     (''Port'', ''14993''), (''CertificatesFile'', ''./bnetserver.cert.pem''), (''PrivateKeyFile'', ''./bnetserver.key.pem'')])]"

theorem server_start_witness:
  "\<exists>ls'. Server_main (\<lambda>f. if f = ''LoginService.ini'' then Some (render login_ini) else None) 64 (\<lambda>a p. Some (a, p)) []
       \<lparr>IPAddress = [], BindIP = [], Port = 0, ExternalAddress = None, LocalAddress = None, LoginFormInputs = []\<rparr> = Inr ls'
     \<and> Port ls' = 14993 \<and> ExternalAddress ls' = Some (''127.0.0.1'', ''14993'') \<and> length (LoginFormInputs ls') = 3"
proof -
  let ?fs = "\<lambda>f. if f = ''LoginService.ini'' then Some (render login_ini) else None"
  let ?ls = "\<lparr>IPAddress = [], BindIP = [], Port = 0, ExternalAddress = None, LocalAddress = None, LoginFormInputs = []\<rparr>"
  have ok: "doc_ok login_ini" by code_simp
  have e: "spec_value None (values_of ''initialization.externalipaddress'' (doc_entries login_ini)) = Some ''127.0.0.1''" by code_simp
  have l: "spec_value None (values_of ''initialization.localipaddress'' (doc_entries login_ini)) = Some ''127.0.0.1''" by code_simp
  have p: "values_of ''initialization.port'' (doc_entries login_ini) = [''14993'']" by code_simp
  have "digit_char 1 = CHR ''1''" "digit_char 4 = CHR ''4''" "digit_char 9 = CHR ''9''" "digit_char 3 = CHR ''3''" by code_simp+
  then have d: "dec 14993 = ''14993''" by (simp add: dec.simps)
  have "\<exists>ls'. Server_main ?fs 64 (\<lambda>a p. Some (a, p)) [] ?ls = Inr ls' \<and> Port ls' = int 14993
      \<and> ExternalAddress ls' = Some (''127.0.0.1'', dec 14993) \<and> LoginFormInputs ls' = login_form"
    using server_start [of ?fs login_ini "''127.0.0.1''" "''127.0.0.1''" 14993 ?ls 64 "\<lambda>a p. Some (a, p)", OF _ ok e l] p d
    by (auto simp: Let_def)
  then show ?thesis using d by (auto simp: login_form_def)
qed

end
