(* ===== verification/Big_Number.thy ===== *)
theory Big_Number
  imports Login_Service
begin

unbundle bit_operations_syntax

text \<open>
  Large numbers, \<^verbatim>\<open>Core/Private/Detail/Cryptography/BigNumber.cpp\<close>, and how numbers enter a hash.  The numbers
  of the OpenSSL library and its functions are arguments: the record \<open>bn_lib\<close> has the functions the class
  calls, \<open>bn_documented\<close> states what the library documents of them when no allocation fails.
\<close>

section \<open>The library\<close>

record 'bn bn_lib =
  BN_new :: 'bn
  BN_set_word :: "'bn \<Rightarrow> u64 \<Rightarrow> 'bn"
  BN_lshift :: "'bn \<Rightarrow> nat \<Rightarrow> 'bn"
  BN_add_word :: "'bn \<Rightarrow> u64 \<Rightarrow> 'bn"
  BN_get_word :: "'bn \<Rightarrow> u64"
  BN_bin2bn :: "u8 list \<Rightarrow> 'bn"
  BN_bn2bin :: "'bn \<Rightarrow> u8 list"
  BN_num_bytes :: "'bn \<Rightarrow> nat"
  BN_add :: "'bn \<Rightarrow> 'bn \<Rightarrow> 'bn"
  BN_sub :: "'bn \<Rightarrow> 'bn \<Rightarrow> 'bn"
  BN_mul :: "'bn \<Rightarrow> 'bn \<Rightarrow> 'bn"
  BN_is_zero :: "'bn \<Rightarrow> bool"
  BN_is_negative :: "'bn \<Rightarrow> bool"

definition be_value :: "u8 list \<Rightarrow> nat" where
  "be_value bs = foldl (\<lambda>a b. a * 256 + unat b) 0 bs"

text \<open>\<open>bval\<close> is the integer a number of the library stands for; bytes are big-endian and have no leading zeros.\<close>

definition bn_documented :: "'bn bn_lib \<Rightarrow> ('bn \<Rightarrow> int) \<Rightarrow> bool" where
  "bn_documented lib bval \<longleftrightarrow>
     bval (BN_new lib) = 0
     \<and> (\<forall>b w. bval (BN_set_word lib b w) = uint w)
     \<and> (\<forall>b k. bval (BN_lshift lib b k) = bval b * 2 ^ k)
     \<and> (\<forall>b w. bval (BN_add_word lib b w) = bval b + uint w)
     \<and> (\<forall>b. BN_get_word lib b = (if \<bar>bval b\<bar> < 2 ^ 64 then word_of_int \<bar>bval b\<bar> else - 1))
     \<and> (\<forall>bs. bval (BN_bin2bn lib bs) = int (be_value bs))
     \<and> (\<forall>b. int (be_value (BN_bn2bin lib b)) = \<bar>bval b\<bar> \<and> length (BN_bn2bin lib b) = BN_num_bytes lib b
          \<and> (BN_bn2bin lib b \<noteq> [] \<longrightarrow> hd (BN_bn2bin lib b) \<noteq> 0))
     \<and> (\<forall>a b. bval (BN_add lib a b) = bval a + bval b)
     \<and> (\<forall>a b. bval (BN_sub lib a b) = bval a - bval b)
     \<and> (\<forall>a b. bval (BN_mul lib a b) = bval a * bval b)
     \<and> (\<forall>b. BN_is_zero lib b = (bval b = 0)) \<and> (\<forall>b. BN_is_negative lib b = (bval b < 0))"

section \<open>The class\<close>

definition new_BigNumber :: "'bn bn_lib \<Rightarrow> u32 \<Rightarrow> 'bn" where
  "new_BigNumber lib val = BN_set_word lib (BN_new lib) (ucast val)"

definition SetDword :: "'bn bn_lib \<Rightarrow> u32 \<Rightarrow> 'bn \<Rightarrow> 'bn" where
  "SetDword lib val bn = BN_set_word lib bn (ucast val)"

definition SetQword :: "'bn bn_lib \<Rightarrow> u64 \<Rightarrow> 'bn \<Rightarrow> 'bn" where
  "SetQword lib val bn =
     BN_add_word lib (BN_lshift lib (BN_set_word lib bn (ucast (ucast (drop_bit 32 val) :: u32))) 32)
       (ucast (ucast (val AND 0xFFFFFFFF) :: u32))"

text \<open>The bytes are turned round in a new array; a negative length and an access past the end are \<^term>\<open>None\<close>.\<close>

definition SetBinary :: "'bn bn_lib \<Rightarrow> u8 list \<Rightarrow> int \<Rightarrow> 'bn option" where
  "SetBinary lib bytes len =
     (if len < 0 \<or> nat len > length bytes then None
      else Some (BN_bin2bn lib (map (\<lambda>i. bytes ! (nat len - 1 - i)) [0..<nat len])))"

definition bn_plus_assign :: "'bn bn_lib \<Rightarrow> 'bn \<Rightarrow> 'bn \<Rightarrow> 'bn" where
  "bn_plus_assign lib a b = BN_add lib a b"

definition bn_minus_assign :: "'bn bn_lib \<Rightarrow> 'bn \<Rightarrow> 'bn \<Rightarrow> 'bn" where
  "bn_minus_assign lib a b = BN_sub lib a b"

definition bn_times_assign :: "'bn bn_lib \<Rightarrow> 'bn \<Rightarrow> 'bn \<Rightarrow> 'bn" where
  "bn_times_assign lib a b = BN_mul lib a b"

definition GetNumBytes :: "'bn bn_lib \<Rightarrow> 'bn \<Rightarrow> nat" where
  "GetNumBytes lib bn = BN_num_bytes lib bn"

definition AsDword :: "'bn bn_lib \<Rightarrow> 'bn \<Rightarrow> u32" where
  "AsDword lib bn = ucast (BN_get_word lib bn)"

definition bn_IsZero :: "'bn bn_lib \<Rightarrow> 'bn \<Rightarrow> bool" where
  "bn_IsZero lib bn = BN_is_zero lib bn"

definition bn_IsNegative :: "'bn bn_lib \<Rightarrow> 'bn \<Rightarrow> bool" where
  "bn_IsNegative lib bn = BN_is_negative lib bn"

text \<open>
  The array has the larger of the two sizes; the library writes its bytes at the beginning of the array,
  which was cleared when it is larger, and for little-endian output these bytes are reversed.
\<close>

definition AsByteArray :: "'bn bn_lib \<Rightarrow> int \<Rightarrow> bool \<Rightarrow> 'bn \<Rightarrow> u8 list" where
  "AsByteArray lib minSize littleEndian bn =
     (let numBytes = GetNumBytes lib bn;
          len = (if minSize \<ge> int numBytes then nat minSize else numBytes);
          array = BN_bn2bin lib bn @ replicate (len - numBytes) 0
      in if littleEndian then rev (take numBytes array) @ drop numBytes array else array)"

text \<open>Numbers in a hash: the arguments up to the null pointer, each as its bytes without padding.\<close>

fun UpdateBigNumbers :: "'bn bn_lib \<Rightarrow> 'bn option list \<Rightarrow> SHA256Hash \<Rightarrow> SHA256Hash option" where
  "UpdateBigNumbers lib [] h = None"
| "UpdateBigNumbers lib (None # v) h = Some h"
| "UpdateBigNumbers lib (Some bn # v) h =
     UpdateBigNumbers lib v
       (AppendData (map (\<lambda>b. char_of (unat b)) (take (GetNumBytes lib bn) (AsByteArray lib 0 True bn))) h)"

section \<open>Values of bytes\<close>

lemma be_value_snoc [simp]: "be_value (bs @ [b]) = be_value bs * 256 + unat b" "be_value [] = 0"
  by (simp_all add: be_value_def)

lemma be_value_zeros_left: "be_value (replicate k 0 @ bs) = be_value bs"
proof -
  have "foldl (\<lambda>a b. a * 256 + unat b) 0 (replicate k (0 :: u8)) = 0" by (induction k) simp_all
  then show ?thesis by (simp add: be_value_def)
qed

lemma be_value_zeros_right: "be_value (bs @ replicate k 0) = be_value bs * 256 ^ k"
  by (induction k) (simp_all add: replicate_append_same [symmetric] flip: append_assoc)

lemma rev_by_index: "n \<le> length bs \<Longrightarrow> map (\<lambda>i. bs ! (n - 1 - i)) [0..<n] = rev (take n bs)"
  by (auto simp: list_eq_iff_nth_eq rev_nth)

lemma bval_SetBinary:
  assumes "bn_documented lib bval"
  shows "map_option bval (SetBinary lib bs (int (length bs))) = Some (int (be_value (rev bs)))"
  using assms rev_by_index [of "length bs" bs] by (simp add: SetBinary_def bn_documented_def)

lemma AsByteArray_eq:
  assumes "bn_documented lib bval"
  shows "AsByteArray lib minSize True b = rev (BN_bn2bin lib b) @ replicate (nat minSize - GetNumBytes lib b) 0"
    "AsByteArray lib minSize False b = BN_bn2bin lib b @ replicate (nat minSize - GetNumBytes lib b) 0"
  using assms by (auto simp: AsByteArray_def GetNumBytes_def bn_documented_def Let_def)

lemma bval_SetQword:
  assumes "bn_documented lib bval"
  shows "bval (SetQword lib v b) = uint v"
proof -
  have "(0xFFFFFFFF :: u64) = mask 32" by (simp add: mask_eq_exp_minus_1)
  then have m: "v AND 0xFFFFFFFF = take_bit 32 v" by (simp add: take_bit_eq_mask)
  have l: "uint (ucast (ucast (v AND 0xFFFFFFFF) :: u32) :: u64) = uint v mod 2 ^ 32"
    unfolding m by (simp only: unsigned_ucast_eq unsigned_take_bit_eq) (simp add: take_bit_eq_mod mod_mod_cancel)
  have d: "uint (drop_bit 32 v) = uint v div 2 ^ 32" by (simp only: drop_bit_eq_div uint_div) simp
  have "uint v < 2 ^ 64" using uint_lt2p [of v] by simp
  then have lt: "uint v div 2 ^ 32 < 2 ^ 32" by simp
  have "uint (ucast (ucast (drop_bit 32 v) :: u32) :: u64) = take_bit 64 (take_bit 32 (uint v div 2 ^ 32))"
    unfolding d [symmetric] by (simp only: unsigned_ucast_eq len_bit0 len_num1) (simp add: unsigned_take_bit_eq)
  also have "\<dots> = uint v div 2 ^ 32" using lt by (simp add: take_bit_int_eq_self pos_imp_zdiv_nonneg_iff)
  finally have h: "uint (ucast (ucast (drop_bit 32 v) :: u32) :: u64) = uint v div 2 ^ 32" .
  have "bval (SetQword lib v b) = uint v div 2 ^ 32 * 2 ^ 32 + uint v mod 2 ^ 32"
    using assms l h by (simp add: SetQword_def bn_documented_def)
  then show ?thesis by simp
qed

lemma AsDword_value:
  assumes "bn_documented lib bval" "\<bar>bval b\<bar> < 2 ^ 64"
  shows "uint (AsDword lib b) = \<bar>bval b\<bar> mod 2 ^ 32"
proof -
  have "uint (AsDword lib b) = take_bit 32 (uint (word_of_int \<bar>bval b\<bar> :: u64))"
    using assms by (simp add: AsDword_def bn_documented_def unsigned_ucast_eq)
  also have "uint (word_of_int \<bar>bval b\<bar> :: u64) = \<bar>bval b\<bar>" using assms(2) by (simp add: uint_word_of_int)
  finally show ?thesis by (simp add: take_bit_eq_mod)
qed

lemma number_bytes_hash:
  assumes "bn_documented lib bval"
  shows "take (GetNumBytes lib b) (AsByteArray lib 0 True b) = rev (BN_bn2bin lib b)"
  using assms by (simp add: AsByteArray_eq [OF assms] GetNumBytes_def bn_documented_def)

lemma be_value_Cons: "be_value (b # bs) \<ge> unat b"
  by (induction bs rule: rev_induct) (simp_all add: be_value_def)

lemma zero_has_no_bytes:
  assumes "bn_documented lib bval" "bval z = 0"
  shows "BN_bn2bin lib z = []"
proof (cases "BN_bn2bin lib z")
  case (Cons c cs)
  have "be_value (c # cs) = 0" "c \<noteq> 0" using assms Cons unfolding bn_documented_def by (metis abs_zero of_nat_eq_0_iff, metis list.distinct(1) list.sel(1))
  then show ?thesis using be_value_Cons [of c cs] by (simp add: unat_eq_zero)
qed

lemma UpdateBigNumbers_appends:
  assumes "bn_documented lib bval"
  shows "UpdateBigNumbers lib (map Some bns @ [None]) h
    = Some (h\<lparr>Appended := Appended h @ concat (map (\<lambda>b. map (\<lambda>x. char_of (unat x)) (rev (BN_bn2bin lib b))) bns)\<rparr>)"
  by (induction bns arbitrary: h) (simp_all add: number_bytes_hash [OF assms] AppendData_def)

section \<open>Properties\<close>

text \<open>
  Claim C40.  Numbers and bytes, for a library that behaves as documented.  For every number and every minimal
  size the little-endian bytes read back with \<^verbatim>\<open>SetBinary\<close> give its absolute value.  The big-endian bytes have
  that value only when no padding was needed: the padding stands behind the number and multiplies it by a
  power of 256.  A number set from 64 bits has their value, and its lower half is what \<^verbatim>\<open>AsDword\<close> returns.
  Numbers are hashed without their lengths: a zero among them leaves no trace.
\<close>

theorem big_number_bytes:
  assumes "bn_documented lib bval"
  shows "map_option bval (SetBinary lib (AsByteArray lib minSize True b) (int (length (AsByteArray lib minSize True b)))) = Some \<bar>bval b\<bar>
    \<and> int (be_value (AsByteArray lib minSize False b)) = \<bar>bval b\<bar> * 256 ^ (nat minSize - GetNumBytes lib b)
    \<and> length (AsByteArray lib minSize le b) = max (nat minSize) (GetNumBytes lib b)
    \<and> bval (SetQword lib v b) = uint v \<and> uint (AsDword lib (SetQword lib v b)) = uint v mod 2 ^ 32
    \<and> (bval z = 0 \<longrightarrow> UpdateBigNumbers lib (map Some (xs @ z # ys) @ [None]) h = UpdateBigNumbers lib (map Some (xs @ ys) @ [None]) h)"
proof -
  note a = AsByteArray_eq [OF assms, of minSize b]
  have d: "int (be_value (BN_bn2bin lib b)) = \<bar>bval b\<bar>" "length (BN_bn2bin lib b) = GetNumBytes lib b"
    using assms by (simp_all add: bn_documented_def GetNumBytes_def)
  have "map_option bval (SetBinary lib (AsByteArray lib minSize True b) (int (length (AsByteArray lib minSize True b)))) = Some \<bar>bval b\<bar>"
    unfolding bval_SetBinary [OF assms] by (simp add: a be_value_zeros_left d(1))
  moreover have "int (be_value (AsByteArray lib minSize False b)) = \<bar>bval b\<bar> * 256 ^ (nat minSize - GetNumBytes lib b)"
    by (simp add: a be_value_zeros_right flip: d(1))
  moreover have "length (AsByteArray lib minSize le b) = max (nat minSize) (GetNumBytes lib b)"
    using a d(2) by (cases le) simp_all
  moreover have "uint v < 2 ^ 64" using uint_lt2p [of v] by simp
  then have "uint (AsDword lib (SetQword lib v b)) = uint v mod 2 ^ 32"
    using AsDword_value [OF assms, of "SetQword lib v b"] by (simp add: bval_SetQword [OF assms])
  moreover have "bval z = 0 \<longrightarrow> UpdateBigNumbers lib (map Some (xs @ z # ys) @ [None]) h = UpdateBigNumbers lib (map Some (xs @ ys) @ [None]) h"
    unfolding UpdateBigNumbers_appends [OF assms] using zero_has_no_bytes [OF assms, of z] by simp
  ultimately show ?thesis using bval_SetQword [OF assms] by blast
qed

text \<open>A library that behaves as documented: numbers are integers.\<close>

fun le_bytes :: "nat \<Rightarrow> u8 list" where
  "le_bytes n = (if n = 0 then [] else of_nat (n mod 256) # le_bytes (n div 256))"

declare le_bytes.simps [simp del]

definition plain_bn :: "int bn_lib" where
  "plain_bn = \<lparr>BN_new = 0, BN_set_word = \<lambda>_ w. uint w, BN_lshift = \<lambda>b k. b * 2 ^ k, BN_add_word = \<lambda>b w. b + uint w,
     BN_get_word = \<lambda>b. if \<bar>b\<bar> < 2 ^ 64 then word_of_int \<bar>b\<bar> else - 1, BN_bin2bn = \<lambda>bs. int (be_value bs),
     BN_bn2bin = \<lambda>b. rev (le_bytes (nat \<bar>b\<bar>)), BN_num_bytes = \<lambda>b. length (le_bytes (nat \<bar>b\<bar>)),
     BN_add = (+), BN_sub = (-), BN_mul = (*), BN_is_zero = \<lambda>b. b = 0, BN_is_negative = \<lambda>b. b < 0\<rparr>"

lemma le_bytes_value: "be_value (rev (le_bytes n)) = n \<and> (le_bytes n \<noteq> [] \<longrightarrow> last (le_bytes n) \<noteq> 0)"
proof (induction n rule: le_bytes.induct)
  case (1 n)
  show ?case
  proof (cases "n = 0")
    case True
    then show ?thesis by (simp add: le_bytes.simps)
  next
    case False
    have u: "unat (of_nat (n mod 256) :: u8) = n mod 256" by (intro unat_of_nat_small) simp
    have "le_bytes n = of_nat (n mod 256) # le_bytes (n div 256)" using False by (simp add: le_bytes.simps [of n])
    moreover have "le_bytes (n div 256) = [] \<Longrightarrow> (of_nat (n mod 256) :: u8) \<noteq> 0"
    proof -
      assume "le_bytes (n div 256) = []"
      then have "n div 256 = 0" by (metis le_bytes.simps list.distinct(1))
      then have "0 < n mod 256" using False by (metis div_mult_mod_eq add_0 mult_0 neq0_conv)
      then show ?thesis using u by (metis unat_0 less_numeral_extra(3))
    qed
    ultimately show ?thesis using 1 [OF False] u by auto
  qed
qed

theorem big_number_bytes_witness:
  "bn_documented plain_bn id \<and> map_option id (SetBinary plain_bn (AsByteArray plain_bn 4 True 258) 4) = Some 258
     \<and> be_value (AsByteArray plain_bn 4 False 258) = 258 * 65536"
proof -
  have d: "bn_documented plain_bn id" using le_bytes_value by (simp add: bn_documented_def plain_bn_def hd_rev)
  have "le_bytes 258 = [2, 1]" by (simp add: le_bytes.simps)
  then have n: "GetNumBytes plain_bn 258 = 2" by (simp add: GetNumBytes_def plain_bn_def)
  note t = big_number_bytes [OF d, of 4 258 True 0 0 "[]" "[]" new_SHA256Hash]
  have len: "int (length (AsByteArray plain_bn 4 True 258)) = 4" using t n by simp
  show ?thesis using d t n unfolding len by simp
qed

end
