(* ===== verification/Spec2Isabelle.thy ===== *)
theory Spec2Isabelle
  imports Message_Buffer Chat_Network Config_Files Queues Flag128 Wide_Chars File_Path Crc_Hex Net_Socket
    Sfmt Rpc_Error_Codes CQ_Free_List CQ_Implicit CQ_Explicit CQ_Dequeue CQ_Producers CQ_Bulk Utf8 Text_Utils Log_System Log_File Log_Console Database Sql_Statement Login_Service Big_Number
begin

text \<open>
  \<^bold>\<open>The program.\<close>  The repository is a collection of programs around a game server: a chat server with its
  client, a login server over HTTP, a database layer for MariaDB, and the library code they share (network
  buffers and sockets, queues between threads, configuration files, logging, text and random numbers).  The
  sources named below are relative to \<^verbatim>\<open>src/Source/\<close>.  Definitions keep the names of the sources; where a name is
  taken in HOL or used by two components it carries the component's name.

  \<^bold>\<open>How the parts interact.\<close>  A chat client frames a line as a message, writes it to its connection, and the server
  delivers what it reads to every participant of the room; \<open>Chat_Network\<close> puts both programs and their
  connections together.  The login server reads its configuration through \<open>Config_Files\<close>, which runs the parser of
  \<open>Ini\<close>, and answers HTTP requests.  A socket keeps received bytes in a \<open>Message_Buffer\<close>, and in the threaded
  build hands packets over through the queues of \<open>Queues\<close>.  Log messages pass the level test, the logger and its
  appenders, which write to files and the console.  The lock-free queue carries tasks of the database layer.

  \<^bold>\<open>Conventions.\<close>  C and C++ integers whose width matters are words (\<open>u8\<close> to \<open>u64\<close>); vectors, arrays and raw memory are
  lists, and an access outside them is the value \<^term>\<open>None\<close>, as is every other behaviour the language leaves
  undefined, so that a theorem which states a result also states that none occurs.  Exceptions and error codes
  are values of sum, option or status types.  Components with asynchronous handlers are step functions on the
  events that complete; threads are interleavings of their atomic operations under sequential consistency.
  Loops are structural recursion or \<^theory_text>\<open>function\<close> with a termination proof; where a loop can run on, as the retry loops
  of the lock-free structures, each attempt is a step and the theorems hold for all sequences of steps.
  Functions of other libraries are arguments, with what is relied on as hypotheses (\<open>bn_documented\<close>).

  \<^bold>\<open>Theories.\<close>
  \<^item> \<open>Prelude\<close>, \<open>C_Library\<close>: word types, memory blocks, character classes, \<^verbatim>\<open>atoi\<close>, \<^verbatim>\<open>strtol\<close>, decimal output.
  \<^item> \<open>Message_Buffer\<close> (\<^verbatim>\<open>Core/Private/Detail/Network/MessageBuffer.h\<close>): the buffer refines a queue of bytes,
    stated by the locale \<open>byte_fifo\<close>, which the model interprets.
  \<^item> \<open>Chat_Message\<close>, \<open>Chat\<close>, \<open>Chat_Client\<close>, \<open>Chat_Network\<close> (\<^verbatim>\<open>Core/Public/Detail/ChatMessage.h\<close>, \<^verbatim>\<open>ChatServer/\<close>,
    \<^verbatim>\<open>ChatClient/\<close>): the wire format round trip, what each participant is sent in every reachable state, what the
    client shows, and the composition from terminal to terminal with its completeness when nothing is on the way.
  \<^item> \<open>Ini\<close>, \<open>Config_Files\<close> (\<^verbatim>\<open>Core/Private/Detail/Config/\<close>): round trip with a printer of documents, the number of the
    first bad line, bounds on what the handler receives, lookups after loading several files.
  \<^item> \<open>Queues\<close> (\<^verbatim>\<open>Core/Private/Core/Utilities/Containers/\<close>): \<^verbatim>\<open>LockedQueue\<close> and \<^verbatim>\<open>ProducerConsumerQueue\<close> under every
    interleaving, with spurious wake-ups and cancellation; both interpret the locale \<open>fifo_queue\<close>.
  \<^item> \<open>Net_Socket\<close> (\<^verbatim>\<open>Core/Private/Detail/Network/Socket.cpp\<close>): what was sent is a prefix of what was queued, in both
    builds, and a delayed close closes.
  \<^item> \<open>CQ_Util\<close>, \<open>CQ_Free_List\<close>, \<open>CQ_Block\<close>, \<open>CQ_Pool\<close>, \<open>CQ_Implicit\<close>, \<open>CQ_Explicit\<close>, \<open>CQ_Dequeue\<close>, \<open>CQ_Producers\<close>, \<open>CQ_Queue\<close>, \<open>CQ_Bulk\<close>
    (\<^verbatim>\<open>Core/Private/Core/Utilities/Containers/ConcurrentQueue.h\<close>): the lock-free queue.  The free list and the counters of
    the dequeue protocol are proved for all interleavings; the producers, with blocks, block indices and the
    exceptions of element constructors, refine FIFO queues call by call; the hash from threads to producers
    terminates and finds them; the queue drains; a bulk dequeue is as many single ones.  The locale \<open>sub_queue\<close> is
    what dequeueing needs of a producer, interpreted on implicit producers, explicit producers and their sum, and
    \<open>bulk_queue\<close> what the loops over blocks need, interpreted on both kinds.
  \<^item> \<open>Flag128\<close>, \<open>Wide_Chars\<close>, \<open>Text_Utils\<close>, \<open>Sfmt\<close>, \<open>Rpc_Error_Codes\<close> (\<^verbatim>\<open>ProtobufDecompileTest/\<close>): flag sets as 128-bit words with an
    instance of \<open>linorder\<close>, character classes, text helpers, the random number generator against its recurrence
    and its certification, status codes.
  \<^item> \<open>Utf8\<close> (\<^verbatim>\<open>3rdParty/utf8cpp\<close> and \<^verbatim>\<open>ProtobufDecompileTest/Util.cpp\<close>): the decoder accepts exactly the encodings, and when
    the conversions write outside a wide string.
  \<^item> \<open>Crc_Hex\<close>, \<open>File_Path\<close> (\<^verbatim>\<open>Core/Private/\<close>): table-driven CRC-32 equals the bitwise one, paths print and parse.
  \<^item> \<open>Log_System\<close>, \<open>Log_File\<close>, \<open>Log_Console\<close> (\<^verbatim>\<open>ProtobufDecompileTest/\<close>): the quick level test of the macros agrees with the
    loggers, routing to the logger of a type, rotation of files without loss, the colours of the console.
  \<^item> \<open>Database\<close>, \<open>Sql_Statement\<close> (\<^verbatim>\<open>Database/Database/\<close>): exclusive use of connections under every interleaving,
    transactions, results cell by cell, connections kept and parameters lost on some paths.
  \<^item> \<open>Login_Service\<close>, \<open>Big_Number\<close> (\<^verbatim>\<open>Server/\<close>, \<^verbatim>\<open>Core/Private/Detail/Cryptography/\<close>): the start from the configuration, the answers
    to requests, password hashes, numbers as bytes.

  \<^bold>\<open>Bounds.\<close>  The theorems about the free list hold for fewer than $2^{31} - 2$ threads, which keeps its 32-bit counts of
  references below the flag bit.  Block indices and hash tables have at most $2^{57}$ entries, pools at most $2^{56}$
  blocks, and fewer than $2^{63}$ tickets are out in the dequeue protocol, so that the 64-bit counters do not reach
  the wrap-around at which circular comparison is ambiguous; the indices of elements themselves wrap.
  The free list inside a producer is a stack, which \<open>free_list_alone\<close> justifies for calls one at a time, and
  each producer has its own share of the block pool.  Wide characters have 32 bits.

  \<^bold>\<open>Not modelled.\<close>  Generated protocol code, drawing, example programs and vendored libraries; the Windows branches;
  system calls and clocks, which are arguments; code that is commented out or no longer compiles
  (the JSON deserialiser, the database's worker threads, the older copies beside them); in the lock-free queue
  enqueueing in bulk, bulk calls with a consumer token, the destructors, and the interleaving of several
  calls on one producer beyond the dequeue protocol; division, powers and text of large numbers, each one call of
  OpenSSL.
\<close>

end
